(* ===== verification/Prelude.thy ===== *)
theory Prelude
  imports Main "HOL-Library.Word" "HOL-Library.Sublist" "HOL-Library.Char_ord"
    "HOL-Library.List_Lexorder"
begin

text \<open>
  What every theory of the development shares: the types of Python \<open>bytes\<close> and \<open>str\<close>, the
  handful of built-in sequence operations the tools use (slicing, \<open>find\<close>, \<open>split\<close>, \<open>strip\<close>,
  \<open>int\<close> and \<open>hex\<close> conversions), the lemmas about them, and two interfaces (locales) that several
  components implement: a decoder fed with growing prefixes, and a state machine with an invariant.

  A \<open>bytes\<close> object is a list of 8-bit words. A \<open>str\<close> is a list of characters, one per code point;
  the model covers code points below 256, and the character classes below (white space, digits,
  line boundaries) are Python's classes on that range.
\<close>

unbundle bit_operations_syntax

type_synonym byte = "8 word"
type_synonym bytes = "byte list"

named_theorems seq_simps \<open>rewrite rules for the sequence operations\<close>

subsection \<open>Sequences\<close>

definition bytes_of :: "string \<Rightarrow> bytes" where
  "bytes_of = map of_char"

definition slice :: "'a list \<Rightarrow> nat \<Rightarrow> nat \<Rightarrow> 'a list" where
  "slice xs a b = take (b - a) (drop a xs)"

fun find_sub :: "'a list \<Rightarrow> 'a list \<Rightarrow> nat option" where
  "find_sub p [] = (if p = [] then Some 0 else None)"
| "find_sub p (x # xs) =
     (if prefix p (x # xs) then Some 0 else map_option Suc (find_sub p xs))"

definition contains :: "'a list \<Rightarrow> 'a list \<Rightarrow> bool" where
  "contains p xs \<longleftrightarrow> find_sub p xs \<noteq> None"

definition strip_by :: "('a \<Rightarrow> bool) \<Rightarrow> 'a list \<Rightarrow> 'a list" where
  "strip_by P xs = rev (dropWhile P (rev (dropWhile P xs)))"

text \<open>\<open>split\<close> on one separator element: never empty, as in Python.\<close>

fun split_on :: "'a \<Rightarrow> 'a list \<Rightarrow> 'a list list" where
  "split_on c [] = [[]]"
| "split_on c (x # xs) =
     (if x = c then [] # split_on c xs
      else (case split_on c xs of [] \<Rightarrow> [[x]] | y # ys \<Rightarrow> (x # y) # ys))"

text \<open>\<open>join\<close> with a one-element separator.\<close>

fun unsplit :: "'a \<Rightarrow> 'a list list \<Rightarrow> 'a list" where
  "unsplit c [] = []"
| "unsplit c [x] = x"
| "unsplit c (x # y # xs) = x @ c # unsplit c (y # xs)"

text \<open>\<open>split\<close> on a two-element separator (the tools split on CR LF only).\<close>

fun split_on2 :: "'a \<Rightarrow> 'a \<Rightarrow> 'a list \<Rightarrow> 'a list list" where
  "split_on2 c d [] = [[]]"
| "split_on2 c d [x] = [[x]]"
| "split_on2 c d (x # y # xs) =
     (if x = c \<and> y = d then [] # split_on2 c d xs
      else (case split_on2 c d (y # xs) of [] \<Rightarrow> [[x]] | z # zs \<Rightarrow> (x # z) # zs))"

text \<open>\<open>s.split(c, 1)\<close> when \<open>c\<close> occurs in \<open>s\<close>: what is before and after the first \<open>c\<close>.\<close>

definition split_once :: "'a \<Rightarrow> 'a list \<Rightarrow> 'a list \<times> 'a list" where
  "split_once c xs = (takeWhile (\<lambda>x. x \<noteq> c) xs, drop 1 (dropWhile (\<lambda>x. x \<noteq> c) xs))"

text \<open>A slice bound: negative counts from the end, and both ends are clipped.\<close>

definition clip :: "'a list \<Rightarrow> int \<Rightarrow> nat" where
  "clip xs i = (if i < 0 then nat (int (length xs) + i) else nat (min i (int (length xs))))"

definition py_slice :: "'a list \<Rightarrow> int \<Rightarrow> int \<Rightarrow> 'a list" where
  "py_slice xs a b = slice xs (clip xs a) (clip xs b)"

text \<open>Assigning to a slice of a \<open>bytearray\<close>; a slice that starts past the end is at the end.\<close>

definition set_slice :: "nat \<Rightarrow> nat \<Rightarrow> bytes \<Rightarrow> bytes \<Rightarrow> bytes" where
  "set_slice a b new buf = take a buf @ new @ drop (max a b) buf"

subsection \<open>Characters and numbers\<close>

definition code :: "char \<Rightarrow> nat" where
  "code c = of_char c"

definition is_space :: "char \<Rightarrow> bool" where
  "is_space c \<longleftrightarrow> code c \<in> {9, 10, 11, 12, 13, 28, 29, 30, 31, 32, 133, 160}"

definition is_digit :: "char \<Rightarrow> bool" where
  "is_digit c \<longleftrightarrow> 48 \<le> code c \<and> code c \<le> 57"

definition is_hex :: "char \<Rightarrow> bool" where
  "is_hex c \<longleftrightarrow> is_digit c \<or> (65 \<le> code c \<and> code c \<le> 70) \<or> (97 \<le> code c \<and> code c \<le> 102)"

definition digit_val :: "char \<Rightarrow> nat" where
  "digit_val c = code c - 48"

definition hex_val :: "char \<Rightarrow> nat" where
  "hex_val c = (if is_digit c then code c - 48
     else if 65 \<le> code c \<and> code c \<le> 70 then code c - 55 else code c - 87)"

definition lower :: "string \<Rightarrow> string" where
  "lower = map (\<lambda>c. if 65 \<le> code c \<and> code c \<le> 90 then char_of (code c + 32) else c)"

text \<open>White space in ASCII text: what \<open>str.strip\<close> strips.\<close>

definition ascii_space :: "byte \<Rightarrow> bool" where
  "ascii_space b \<longleftrightarrow> b = 32 \<or> 9 \<le> b \<and> b \<le> 13 \<or> 28 \<le> b \<and> b \<le> 31"

definition lower_bytes :: "bytes \<Rightarrow> bytes" where
  "lower_bytes = map (\<lambda>b. if 65 \<le> b \<and> b \<le> 90 then b + 32 else b)"

definition dec_val :: "string \<Rightarrow> nat" where
  "dec_val s = foldl (\<lambda>n c. 10 * n + digit_val c) 0 s"

definition hex_num :: "string \<Rightarrow> nat" where
  "hex_num s = foldl (\<lambda>n c. 16 * n + hex_val c) 0 s"

text \<open>\<open>int(s)\<close> on a string of digits: since Python 3.11 more than 4300 digits raise \<open>ValueError\<close>.\<close>

definition py_int_dec :: "string \<Rightarrow> nat option" where
  "py_int_dec s = (if length s \<le> 4300 then Some (dec_val s) else None)"

text \<open>\<open>bytes.fromhex\<close> on an even number of hex digits.\<close>

fun fromhex :: "string \<Rightarrow> bytes" where
  "fromhex (a # b # s) = of_nat (16 * hex_val a + hex_val b) # fromhex s"
| "fromhex _ = []"

fun show_nat :: "nat \<Rightarrow> string" where
  "show_nat n = (if n < 10 then [char_of (48 + n)]
     else show_nat (n div 10) @ [char_of (48 + n mod 10)])"

declare show_nat.simps [simp del]

text \<open>A comprehension whose body may raise: the first error wins.\<close>

fun collect :: "('a \<Rightarrow> 'e + 'b) \<Rightarrow> 'a list \<Rightarrow> 'e + 'b list" where
  "collect f [] = Inr []"
| "collect f (x # xs) =
     (case f x of
        Inl e \<Rightarrow> Inl e
      | Inr y \<Rightarrow> map_sum id (\<lambda>ys. y # ys) (collect f xs))"

text \<open>Little- and big-endian readings of a run of bytes (\<open>int.from_bytes\<close>, \<open>struct.unpack\<close>).\<close>

fun le_nat :: "bytes \<Rightarrow> nat" where
  "le_nat [] = 0"
| "le_nat (b # bs) = unat b + 256 * le_nat bs"

definition be_nat :: "bytes \<Rightarrow> nat" where
  "be_nat bs = foldl (\<lambda>n b. 256 * n + unat b) 0 bs"

text \<open>\<open>int.to_bytes\<close> with a fixed number of bytes.\<close>

fun be_bytes :: "nat \<Rightarrow> nat \<Rightarrow> bytes" where
  "be_bytes 0 n = []"
| "be_bytes (Suc k) n = be_bytes k (n div 256) @ [of_nat (n mod 256)]"

fun le_bytes :: "nat \<Rightarrow> nat \<Rightarrow> bytes" where
  "le_bytes 0 n = []"
| "le_bytes (Suc k) n = of_nat (n mod 256) # le_bytes k (n div 256)"

text \<open>\<open>str.splitlines\<close>: the boundaries are LF, CR, CR LF, VT, FF, FS, GS, RS and NEL.\<close>

definition is_linebreak :: "char \<Rightarrow> bool" where
  "is_linebreak c \<longleftrightarrow> code c \<in> {10, 11, 12, 13, 28, 29, 30, 133}"

fun splitlines_aux :: "bool \<Rightarrow> string \<Rightarrow> string \<Rightarrow> string list" where
  "splitlines_aux cr acc [] = (if acc = [] then [] else [rev acc])"
| "splitlines_aux cr acc (c # s) =
     (if cr \<and> code c = 10 then splitlines_aux False [] s
      else if is_linebreak c then rev acc # splitlines_aux (code c = 13) [] s
      else splitlines_aux False (c # acc) s)"

definition splitlines :: "string \<Rightarrow> string list" where
  "splitlines s = splitlines_aux False [] s"

text \<open>\<open>len(s.encode("utf-8"))\<close> for code points below 256.\<close>

definition utf8_length :: "string \<Rightarrow> nat" where
  "utf8_length s = sum_list (map (\<lambda>c. if code c < 128 then 1 else 2) s)"

text \<open>Strict UTF-8: the shortest form, no surrogates, at most U+10FFFF.\<close>

definition cont_byte :: "byte \<Rightarrow> bool" where
  "cont_byte b \<longleftrightarrow> 0x80 \<le> b \<and> b \<le> 0xBF"

fun utf8_valid :: "bytes \<Rightarrow> bool" where
  "utf8_valid [] = True"
| "utf8_valid (a # s) =
     (if a \<le> 0x7F then utf8_valid s
      else if 0xC2 \<le> a \<and> a \<le> 0xDF then
        (case s of b # t \<Rightarrow> cont_byte b \<and> utf8_valid t | _ \<Rightarrow> False)
      else if 0xE0 \<le> a \<and> a \<le> 0xEF then
        (case s of b # c # t \<Rightarrow> cont_byte b \<and> cont_byte c \<and> (a = 0xE0 \<longrightarrow> 0xA0 \<le> b) \<and> (a = 0xED \<longrightarrow> b \<le> 0x9F)
            \<and> utf8_valid t | _ \<Rightarrow> False)
      else if 0xF0 \<le> a \<and> a \<le> 0xF4 then
        (case s of b # c # d # t \<Rightarrow> cont_byte b \<and> cont_byte c \<and> cont_byte d \<and> (a = 0xF0 \<longrightarrow> 0x90 \<le> b)
            \<and> (a = 0xF4 \<longrightarrow> b \<le> 0x8F) \<and> utf8_valid t | _ \<Rightarrow> False)
      else False)"

subsection \<open>Lemmas on slices and searching\<close>

lemma length_slice [simp, seq_simps]: "length (slice xs a b) = min (b - a) (length xs - a)"
  by (simp add: slice_def min.commute)

lemma slice_zero [simp, seq_simps]: "slice xs 0 n = take n xs"
  by (simp add: slice_def)

lemma slice_append_left [seq_simps]:
  "b \<le> length xs \<Longrightarrow> slice (xs @ ys) a b = slice xs a b"
  by (cases "a \<le> length xs") (auto simp: slice_def)

lemma slice_shift [seq_simps]: "slice xs (k + a) (k + b) = slice (drop k xs) a b"
  by (simp add: slice_def add.commute)

lemma nth_slice: "i < b - a \<Longrightarrow> b \<le> length xs \<Longrightarrow> slice xs a b ! i = xs ! (a + i)"
  by (simp add: slice_def)

lemma slice_mid [simp]: "slice (xs @ ys @ zs) (length xs) (length xs + length ys) = ys"
  by (simp add: slice_def)

lemma py_slice_nat [simp]: "py_slice xs (int a) (int b) = slice xs a b"
proof -
  have "clip xs (int k) = min k (length xs)" for k by (simp add: clip_def min_def)
  then show ?thesis
    by (simp add: py_slice_def slice_def) (cases "b \<le> length xs"; cases "a \<le> length xs"; simp add: min_def)
qed

lemma length_set_slice: "a \<le> b \<Longrightarrow> b \<le> length buf \<Longrightarrow> length new = b - a \<Longrightarrow> length (set_slice a b new buf) = length buf"
  by (simp add: set_slice_def)

lemma nth_set_slice:
  "a \<le> b \<Longrightarrow> b \<le> length buf \<Longrightarrow> length new = b - a \<Longrightarrow> i < length buf \<Longrightarrow>
   set_slice a b new buf ! i = (if a \<le> i \<and> i < b then new ! (i - a) else buf ! i)"
  by (auto simp: set_slice_def nth_append)

lemma find_sub_Some:
  "find_sub p xs = Some i \<Longrightarrow> prefix p (drop i xs) \<and> (\<forall>j < i. \<not> prefix p (drop j xs))"
proof (induction p xs arbitrary: i rule: find_sub.induct)
  case (1 p)
  then show ?case by (simp split: if_splits)
next
  case (2 p x xs)
  show ?case
  proof (cases "prefix p (x # xs)")
    case True
    with "2.prems" show ?thesis by simp
  next
    case False
    with "2.prems" obtain k where k: "find_sub p xs = Some k" "i = Suc k" by auto
    from "2.IH" [OF False k(1)] False k(2) show ?thesis
      by (auto simp: less_Suc_eq_0_disj)
  qed
qed

lemma find_sub_None: "find_sub p xs = None \<Longrightarrow> j \<le> length xs \<Longrightarrow> \<not> prefix p (drop j xs)"
proof (induction p xs arbitrary: j rule: find_sub.induct)
  case (1 p)
  then show ?case by (simp split: if_splits)
next
  case (2 p x xs)
  show ?case
  proof (cases j)
    case 0
    with "2.prems" show ?thesis by (simp split: if_splits)
  next
    case (Suc k)
    with 2 show ?thesis by (simp split: if_splits)
  qed
qed

lemma find_sub_bound: "find_sub p xs = Some i \<Longrightarrow> i + length p \<le> length xs"
proof -
  assume a: "find_sub p xs = Some i"
  have "i \<le> length xs" using a
    by (induction p xs arbitrary: i rule: find_sub.induct) (auto split: if_splits)
  moreover have "length p \<le> length (drop i xs)"
    using find_sub_Some [OF a] prefix_length_le by blast
  ultimately show ?thesis by simp
qed

text \<open>The first position of a pattern is determined by the two conditions on it.\<close>

lemma find_sub_eqI:
  assumes "prefix p (drop i xs)" and "\<And>j. j < i \<Longrightarrow> \<not> prefix p (drop j xs)" and "i \<le> length xs"
  shows "find_sub p xs = Some i"
proof (cases "find_sub p xs")
  case None
  with assms show ?thesis using find_sub_None by blast
next
  case (Some k)
  from find_sub_Some [OF this] assms have "\<not> i < k" and "\<not> k < i" by blast+
  with Some show ?thesis by simp
qed

lemma prefix_drop_append:
  "prefix p (drop i xs) \<Longrightarrow> prefix p (drop i (xs @ ys))"
  by (auto simp: prefix_def)

lemma prefix_drop_appendD:
  assumes "prefix p (drop i (xs @ ys))" and "i + length p \<le> length xs"
  shows "prefix p (drop i xs)"
proof -
  have "p = take (length p) (drop i (xs @ ys))"
    using assms(1) by (metis append_eq_conv_conj prefix_def)
  also have "\<dots> = take (length p) (drop i xs)"
    using assms(2) by simp
  finally show ?thesis by (metis take_is_prefix)
qed

lemma find_sub_append:
  assumes "find_sub p xs = Some i"
  shows "find_sub p (xs @ ys) = Some i"
proof (rule find_sub_eqI)
  note f = find_sub_Some [OF assms] and b = find_sub_bound [OF assms]
  from f show "prefix p (drop i (xs @ ys))" using prefix_drop_append by blast
  fix j assume "j < i"
  with f b show "\<not> prefix p (drop j (xs @ ys))" using prefix_drop_appendD [of p j xs ys] by auto
next
  show "i \<le> length (xs @ ys)" using find_sub_bound [OF assms] by simp
qed

lemma find_sub_append_late:
  assumes "find_sub p xs = None" and "find_sub p (xs @ ys) = Some i"
  shows "length xs < i + length p"
proof (rule ccontr)
  assume "\<not> length xs < i + length p"
  then have "i + length p \<le> length xs" by simp
  moreover have "prefix p (drop i (xs @ ys))" using find_sub_Some [OF assms(2)] by blast
  ultimately have "prefix p (drop i xs)" by (rule prefix_drop_appendD [rotated])
  with find_sub_None [OF assms(1)] \<open>i + length p \<le> length xs\<close> show False by simp
qed

lemma contains_append_mid: "contains p (xs @ p @ ys)"
proof -
  have "prefix p (drop (length xs) (xs @ p @ ys))" by simp
  then show ?thesis
    using find_sub_None [of p "xs @ p @ ys" "length xs"] by (auto simp: contains_def)
qed

lemma contains_appendI1: "contains p xs \<Longrightarrow> contains p (xs @ ys)"
  using find_sub_append by (fastforce simp: contains_def)

lemma contains_iff: "contains p xs \<longleftrightarrow> (\<exists>us vs. xs = us @ p @ vs)"
proof
  assume "contains p xs"
  then obtain i where "find_sub p xs = Some i" by (auto simp: contains_def)
  then have "prefix p (drop i xs)" using find_sub_Some by blast
  then show "\<exists>us vs. xs = us @ p @ vs" by (metis append_take_drop_id prefix_def)
qed (auto simp: contains_append_mid)

lemma contains_appendI2: "contains p ys \<Longrightarrow> contains p (xs @ ys)"
  unfolding contains_iff by (metis append.assoc)

lemma split_once_append [simp]: "c \<notin> set xs \<Longrightarrow> split_once c (xs @ c # ys) = (xs, ys)"
  by (induction xs) (auto simp: split_once_def)

lemma split_on_ne [simp]: "split_on c xs \<noteq> []"
  by (induction xs) (auto split: list.splits)

lemma unsplit_split_on: "unsplit c (split_on c xs) = xs"
proof (induction xs)
  case (Cons x xs)
  obtain y ys where "split_on c xs = y # ys" using split_on_ne by (metis list.exhaust)
  with Cons show ?case by (cases ys) auto
qed simp

lemma split_on_parts: "part \<in> set (split_on c xs) \<Longrightarrow> c \<notin> set part"
  by (induction xs arbitrary: part) (auto split: list.splits if_splits)

lemma split_on_free: "c \<notin> set xs \<Longrightarrow> split_on c xs = [xs]"
  by (induction xs) auto

lemma split_on_append: "c \<notin> set xs \<Longrightarrow> split_on c (xs @ c # ys) = xs # split_on c ys"
  by (induction xs) auto

lemma those_Some: "those xs = Some ys \<Longrightarrow> map Some ys = xs"
proof (induction xs arbitrary: ys)
  case (Cons x xs)
  then show ?case by (auto split: option.splits)
qed simp

lemma strip_by_id: "xs \<noteq> [] \<Longrightarrow> \<not> P (hd xs) \<Longrightarrow> \<not> P (last xs) \<Longrightarrow> strip_by P xs = xs"
proof -
  assume *: "xs \<noteq> []" "\<not> P (hd xs)" "\<not> P (last xs)"
  have "dropWhile P xs = xs" using * by (cases xs) auto
  moreover have "dropWhile P (rev xs) = rev xs"
    using * by (cases xs rule: rev_cases) auto
  ultimately show ?thesis by (simp add: strip_by_def)
qed

lemma strip_by_ends:
  "strip_by P xs \<noteq> [] \<Longrightarrow> \<not> P (hd (strip_by P xs)) \<and> \<not> P (last (strip_by P xs))"
proof -
  assume ne: "strip_by P xs \<noteq> []"
  define ys where "ys = dropWhile P xs"
  have e: "strip_by P xs = rev (dropWhile P (rev ys))" by (simp add: strip_by_def ys_def)
  from ne e have d: "dropWhile P (rev ys) \<noteq> []" and "ys \<noteq> []" by auto
  then have "\<not> P (hd ys)" unfolding ys_def using hd_dropWhile by blast
  moreover have "hd ys = hd (strip_by P xs)"
  proof -
    have "rev ys = takeWhile P (rev ys) @ dropWhile P (rev ys)" by simp
    then have "ys = rev (dropWhile P (rev ys)) @ rev (takeWhile P (rev ys))"
      by (metis rev_append rev_rev_ident)
    with d show ?thesis unfolding e by (metis hd_append2 rev_is_Nil_conv)
  qed
  moreover have "\<not> P (last (strip_by P xs))"
    unfolding e using hd_dropWhile [OF d] by (simp add: last_rev d)
  ultimately show ?thesis by simp
qed

lemma strip_by_idem [simp]: "strip_by P (strip_by P xs) = strip_by P xs"
  by (cases "strip_by P xs = []") (auto simp: strip_by_id strip_by_ends, simp add: strip_by_def)

subsection \<open>Bytes and numbers\<close>

lemma unat_byte_less [simp]: "unat (b :: byte) < 256"
  using unsigned_less [of b] by simp

lemma unat_of_char [simp]: "unat (of_char c :: byte) = of_char c"
proof -
  have "\<forall>c. unat (of_char c :: byte) = of_char c" by code_simp
  then show ?thesis by blast
qed

lemma bytes_of_inject [simp]: "bytes_of a = bytes_of b \<longleftrightarrow> a = b"
proof -
  have "inj (of_char :: char \<Rightarrow> byte)"
    by (rule injI) (metis unat_of_char char_of_char)
  then show ?thesis by (simp add: bytes_of_def inj_map_eq_map)
qed

lemma prefix_bytes_of: "prefix (bytes_of a) (bytes_of b) \<longleftrightarrow> prefix a b"
proof
  assume "prefix (bytes_of a) (bytes_of b)"
  then have "bytes_of a = bytes_of (take (length a) b)"
    by (metis append_eq_conv_conj bytes_of_def length_map prefix_def take_map)
  then have "a = take (length a) b" by (simp only: bytes_of_inject)
  then show "prefix a b" by (metis take_is_prefix)
qed (auto simp: prefix_def bytes_of_def)

lemma length_bytes_of [simp]: "length (bytes_of s) = length s"
  by (simp add: bytes_of_def)

lemma bytes_of_Nil [simp]: "bytes_of s = [] \<longleftrightarrow> s = []"
  by (simp add: bytes_of_def)

lemma le_nat_bound: "le_nat bs < 256 ^ length bs"
proof (induction bs)
  case (Cons b bs)
  have "unat b < 256" by simp
  moreover have "le_nat bs + 1 \<le> 256 ^ length bs" using Cons by simp
  ultimately have "unat b + 256 * le_nat bs < 256 * 256 ^ length bs" by linarith
  then show ?case by simp
qed simp

lemma le_nat_append: "le_nat (xs @ ys) = le_nat xs + 256 ^ length xs * le_nat ys"
  by (induction xs) (auto simp: algebra_simps)

lemma be_nat_snoc [simp]: "be_nat (bs @ [b]) = 256 * be_nat bs + unat b"
  by (simp add: be_nat_def)

lemma be_nat_Nil [simp]: "be_nat [] = 0"
  by (simp add: be_nat_def)

lemma be_nat_bound: "be_nat bs < 256 ^ length bs"
proof (induction bs rule: rev_induct)
  case (snoc b bs)
  have "unat b < 256" by simp
  moreover have "be_nat bs + 1 \<le> 256 ^ length bs" using snoc by simp
  ultimately have "256 * be_nat bs + unat b < 256 * 256 ^ length bs" by linarith
  then show ?case by simp
qed simp

lemma unat_of_nat_byte [simp]: "unat (of_nat n :: byte) = n mod 256"
  by (simp add: unat_of_nat)

lemma length_be_bytes [simp]: "length (be_bytes k n) = k"
  by (induction k n rule: be_bytes.induct) auto

lemma length_le_bytes [simp]: "length (le_bytes k n) = k"
  by (induction k n rule: le_bytes.induct) auto

lemma be_nat_be_bytes: "n < 256 ^ k \<Longrightarrow> be_nat (be_bytes k n) = n"
proof (induction k n rule: be_bytes.induct)
  case (2 k n)
  then have "n div 256 < 256 ^ k" by (simp add: less_mult_imp_div_less mult.commute)
  with 2 show ?case by simp
qed simp

lemma le_nat_le_bytes: "n < 256 ^ k \<Longrightarrow> le_nat (le_bytes k n) = n"
proof (induction k n rule: le_bytes.induct)
  case (2 k n)
  then have "n div 256 < 256 ^ k" by (simp add: less_mult_imp_div_less mult.commute)
  with 2 show ?case by simp
qed simp

lemma le_bytes_le_nat: "le_bytes (length bs) (le_nat bs) = bs"
  by (induction bs) simp_all

lemma be_bytes_be_nat: "be_bytes (length bs) (be_nat bs) = bs"
  by (induction bs rule: rev_induct) simp_all

lemma length_fromhex: "even (length s) \<Longrightarrow> length (fromhex s) = length s div 2"
  by (induction s rule: fromhex.induct) auto

subsection \<open>Lemmas on comprehensions that may raise\<close>

lemma collect_Inr: "collect f xs = Inr ys \<longleftrightarrow> list_all2 (\<lambda>x y. f x = Inr y) xs ys"
proof (induction xs arbitrary: ys)
  case (Cons x xs)
  show ?case
  proof (cases "f x")
    case (Inr y)
    then have "collect f (x # xs) = Inr ys \<longleftrightarrow> (\<exists>zs. ys = y # zs \<and> collect f xs = Inr zs)" by (cases "collect f xs") auto
    also have "\<dots> \<longleftrightarrow> list_all2 (\<lambda>x y. f x = Inr y) (x # xs) ys" unfolding Cons.IH using Inr by (auto simp: list_all2_Cons1)
    finally show ?thesis .
  qed (cases ys, auto)
qed auto

lemma collect_Inl: "collect f xs = Inl e \<Longrightarrow> \<exists>x \<in> set xs. f x = Inl e"
proof (induction xs)
  case (Cons x xs)
  then show ?case by (cases "f x"; cases "collect f xs") auto
qed simp

subsection \<open>A decoder fed with growing prefixes\<close>

text \<open>
  The capture tools see a TCP direction as a buffer that only grows. A component that decides
  something about its beginning (is this an HTTP upgrade, is there a complete frame) must not
  change its mind when more bytes arrive: once the verdict is not \<open>pending\<close>, it is final. A
  client that asks again after every chunk and stops at the first decided answer then gets
  the answer for the whole buffer, however the bytes were cut.
\<close>

locale prefix_decoder =
  fixes decode :: "'b list \<Rightarrow> 'r"
    and pending :: "'r \<Rightarrow> bool"
  assumes decided_final: "\<not> pending (decode xs) \<Longrightarrow> decode (xs @ ys) = decode xs"
begin

fun feed :: "'b list \<Rightarrow> 'b list list \<Rightarrow> 'r" where
  "feed buf [] = decode buf"
| "feed buf (c # cs) = (if pending (decode buf) then feed (buf @ c) cs else decode buf)"

lemma feed_decode: "feed buf cs = decode (buf @ concat cs)"
proof (induction buf cs rule: feed.induct)
  case (1 buf)
  then show ?case by simp
next
  case (2 buf c cs)
  show ?case
  proof (cases "pending (decode buf)")
    case True
    with 2 show ?thesis by simp
  next
    case False
    then show ?thesis using decided_final [OF False, of "concat (c # cs)"] by simp
  qed
qed

lemma chunking_irrelevant: "concat cs = concat ds \<Longrightarrow> feed [] cs = feed [] ds"
  by (simp add: feed_decode)

lemma pending_prefix: "pending (decode (xs @ ys)) \<Longrightarrow> pending (decode xs)"
  using decided_final by metis

end

subsection \<open>A state machine with an invariant\<close>

text \<open>
  The components that consume a sequence of records, nodes or commands do so with a step
  function. The events may be constrained (\<open>ok\<close>), and the invariant holds after every run.
\<close>

locale invariant_machine =
  fixes step :: "'e \<Rightarrow> 's \<Rightarrow> 's"
    and ok :: "'e \<Rightarrow> bool"
    and inv :: "'s \<Rightarrow> bool"
  assumes step_inv: "inv s \<Longrightarrow> ok e \<Longrightarrow> inv (step e s)"
begin

lemma run_inv: "inv s \<Longrightarrow> list_all ok es \<Longrightarrow> inv (fold step es s)"
  by (induction es arbitrary: s) (auto intro: step_inv)

lemma run_inv_prefix: "inv s \<Longrightarrow> list_all ok es \<Longrightarrow> prefix es' es \<Longrightarrow> inv (fold step es' s)"
  by (rule run_inv) (auto simp: prefix_def)

end

end
