(* ===== verification/Base64.thy ===== *)
theory Base64
  imports Prelude
begin

text \<open>
  The two functions of Python's \<open>base64\<close> module the tools call: \<open>b64encode\<close>, and \<open>b64decode\<close>
  with \<open>validate=True\<close> (the strict mode of \<open>binascii.a2b_base64\<close>: only alphabet characters, whole
  groups of four, padding only at the very end). Decoding an encoding gives the bytes back.
\<close>

definition PAD :: byte where
  "PAD = 0x3D"

definition enc6 :: "nat \<Rightarrow> byte" where
  "enc6 n = (if n < 26 then of_nat (65 + n) else if n < 52 then of_nat (71 + n)
     else if n < 62 then of_nat (n - 4) else if n = 62 then 0x2B else 0x2F)"

definition dec6 :: "byte \<Rightarrow> nat option" where
  "dec6 b = (let n = unat b in
     if 65 \<le> n \<and> n \<le> 90 then Some (n - 65)
     else if 97 \<le> n \<and> n \<le> 122 then Some (n - 71)
     else if 48 \<le> n \<and> n \<le> 57 then Some (n + 4)
     else if n = 43 then Some 62 else if n = 47 then Some 63 else None)"

fun b64encode :: "bytes \<Rightarrow> bytes" where
  "b64encode (a # b # c # r) =
     enc6 (unat a div 4) # enc6 (unat a mod 4 * 16 + unat b div 16) #
     enc6 (unat b mod 16 * 4 + unat c div 64) # enc6 (unat c mod 64) # b64encode r"
| "b64encode [a, b] =
     [enc6 (unat a div 4), enc6 (unat a mod 4 * 16 + unat b div 16), enc6 (unat b mod 16 * 4), PAD]"
| "b64encode [a] = [enc6 (unat a div 4), enc6 (unat a mod 4 * 16), PAD, PAD]"
| "b64encode [] = []"

definition oct1 :: "nat \<Rightarrow> nat \<Rightarrow> byte" where
  "oct1 p q = of_nat (p * 4 + q div 16)"

definition oct2 :: "nat \<Rightarrow> nat \<Rightarrow> byte" where
  "oct2 q s = of_nat (q mod 16 * 16 + s div 4)"

definition oct3 :: "nat \<Rightarrow> nat \<Rightarrow> byte" where
  "oct3 s t = of_nat (s mod 4 * 64 + t)"

fun b64decode :: "bytes \<Rightarrow> bytes option" where
  "b64decode (w # x # y # z # r) =
     (case (dec6 w, dec6 x) of
        (Some p, Some q) \<Rightarrow>
          if z = PAD \<and> y = PAD then (if r = [] then Some [oct1 p q] else None)
          else (case dec6 y of
              None \<Rightarrow> None
            | Some s \<Rightarrow>
                if z = PAD then (if r = [] then Some [oct1 p q, oct2 q s] else None)
                else (case dec6 z of
                    None \<Rightarrow> None
                  | Some t \<Rightarrow>
                      map_option (\<lambda>bs. oct1 p q # oct2 q s # oct3 s t # bs) (b64decode r)))
      | _ \<Rightarrow> None)"
| "b64decode [] = Some []"
| "b64decode _ = None"

subsection \<open>Round trip\<close>

lemma enc6_table:
  "list_all (\<lambda>n. dec6 (enc6 n) = Some n \<and> enc6 n \<noteq> PAD \<and> 33 \<le> enc6 n \<and> enc6 n \<le> 126
     \<and> enc6 n \<noteq> 0x3A \<and> enc6 n \<noteq> 0x2C) [0..<64]"
  by code_simp

lemma enc6_facts:
  assumes "n < 64"
  shows dec6_enc6 [simp]: "dec6 (enc6 n) = Some n" and enc6_neq_PAD [simp]: "enc6 n \<noteq> PAD"
    and enc6_printable: "33 \<le> enc6 n \<and> enc6 n \<le> 126 \<and> enc6 n \<noteq> 0x3A \<and> enc6 n \<noteq> 0x2C"
  using enc6_table assms by (auto simp: list_all_iff)

lemma dec6_PAD [simp]: "dec6 PAD = None"
  by code_simp

lemma byte_div: "0 < k \<Longrightarrow> k * m = 256 \<Longrightarrow> unat (a :: byte) div k < m"
  using unat_byte_less [of a] by (simp add: less_mult_imp_div_less mult.commute)

lemma six_bits [simp]:
  "unat (a :: byte) div 4 < 64" "unat a mod 4 * 16 < 64" "unat a mod 16 * 4 < 64"
  "unat a mod 4 * 16 + unat (b :: byte) div 16 < 64" "unat b mod 16 * 4 + unat (c :: byte) div 64 < 64"
proof -
  have m: "unat a mod 4 < 4" "unat a mod 16 < 16" "unat b mod 16 < 16" by simp_all
  have d: "unat b div 16 < 16" "unat c div 64 < 4" by (simp_all add: byte_div)
  show "unat a div 4 < 64" by (simp add: byte_div)
  show "unat a mod 4 * 16 < 64" using m(1) by linarith
  show "unat a mod 16 * 4 < 64" using m(2) by linarith
  show "unat a mod 4 * 16 + unat b div 16 < 64" using m(1) d(1) by linarith
  show "unat b mod 16 * 4 + unat c div 64 < 64" using m(3) d(2) by linarith
qed

lemma byte_join: "(of_nat (unat (a :: byte) div k * k + unat a mod k) :: byte) = a"
  by (simp only: div_mult_mod_eq) simp

lemma oct_facts [simp]:
  "oct1 (unat a div 4) (unat a mod 4 * 16 + unat (b :: byte) div 16) = a"
  "oct1 (unat a div 4) (unat a mod 4 * 16) = a"
  "oct2 (unat a mod 4 * 16 + unat b div 16) (unat b mod 16 * 4 + unat (c :: byte) div 64) = b"
  "oct2 (unat a mod 4 * 16 + unat b div 16) (unat b mod 16 * 4) = b"
  "oct3 (unat b mod 16 * 4 + unat c div 64) (unat c mod 64) = c"
proof -
  have d: "unat b div 16 < 16" "unat c div 64 < 4" by (simp_all add: byte_div)
  have e: "(unat a mod 4 * 16 + unat b div 16) div 16 = unat a mod 4"
    "(unat a mod 4 * 16 + unat b div 16) mod 16 = unat b div 16"
    "(unat b mod 16 * 4 + unat c div 64) div 4 = unat b mod 16"
    "(unat b mod 16 * 4 + unat c div 64) mod 4 = unat c div 64"
    "unat a mod 4 * 16 div 16 = unat a mod 4" "unat b mod 16 * 4 div 4 = unat b mod 16"
    using d by simp_all
  show "oct1 (unat a div 4) (unat a mod 4 * 16 + unat b div 16) = a"
    "oct1 (unat a div 4) (unat a mod 4 * 16) = a"
    "oct2 (unat a mod 4 * 16 + unat b div 16) (unat b mod 16 * 4 + unat c div 64) = b"
    "oct2 (unat a mod 4 * 16 + unat b div 16) (unat b mod 16 * 4) = b"
    "oct3 (unat b mod 16 * 4 + unat c div 64) (unat c mod 64) = c"
    unfolding oct1_def oct2_def oct3_def e by (rule byte_join)+
qed

lemma b64decode_encode [simp]: "b64decode (b64encode bs) = Some bs"
  by (induction bs rule: b64encode.induct) simp_all

lemma length_b64encode: "length (b64encode bs) = 4 * ((length bs + 2) div 3)"
proof (induction bs rule: b64encode.induct)
  case (1 a b c r)
  have "(length (a # b # c # r) + 2) div 3 = Suc ((length r + 2) div 3)" by simp
  with 1 show ?case by simp
qed simp_all

lemma b64encode_printable:
  "b \<in> set (b64encode bs) \<Longrightarrow> 33 \<le> b \<and> b \<le> 126 \<and> b \<noteq> 0x3A \<and> b \<noteq> 0x2C"
proof (induction bs rule: b64encode.induct)
  case (1 a b c r)
  then show ?case using enc6_printable by (simp, elim disjE) simp_all
qed (auto simp: enc6_printable PAD_def)

end
