(* ===== verification/WsUpgrade.thy ===== *)
theory WsUpgrade
  imports Base64
begin

text \<open>
  The HTTP upgrade parser of \<open>tools/m4/ws_upgrade.py\<close>: \<open>parse_upgrade_prefix\<close> looks at the
  beginning of one TCP direction and says whether it is an RFC 6455 upgrade head, and
  \<open>match_upgrade\<close> pairs a request with a response by the accept hash. The stages of the source
  function (method or status prefix, terminator and size, line checks, start line, headers,
  required headers) are one definition each, composed in the source's order.
  SHA-1 (\<open>hashlib.sha1(x).digest()\<close>) is the parameter \<open>sha1\<close>.

  Shown: a decided verdict never changes when more bytes arrive; a valid head ends at the first
  empty line, within 4096 bytes, and belongs to the right direction; a handshake built as the RFC
  prescribes is accepted and matched.
\<close>

definition MAX_UPGRADE_BYTES :: nat where "MAX_UPGRADE_BYTES = 4096"
definition MAX_HEADERS :: nat where "MAX_HEADERS = 32"
definition MAX_LINE :: nat where "MAX_LINE = 1024"

definition GUID :: bytes where
  "GUID = bytes_of ''258EAFA5-E914-47DA-95CA-C5AB0DC85B11''"

datatype up_status = Pending | Invalid | NotHttp | Valid

record safe_metadata =
  role :: string
  message :: string
  header_bytes :: nat
  valid_http_upgrade :: bool

record upgrade_result =
  up_status :: up_status
  up_reason :: string
  up_consumed :: nat
  up_private :: "(string \<times> bytes) list"
  up_meta :: safe_metadata

definition meta :: "bool \<Rightarrow> bool \<Rightarrow> nat \<Rightarrow> safe_metadata" where
  "meta server_sender valid hb =
     \<lparr>role = (if server_sender then ''server'' else ''client''),
      message = (if server_sender then ''response'' else ''request''),
      header_bytes = hb, valid_http_upgrade = valid\<rparr>"

definition res :: "up_status \<Rightarrow> string \<Rightarrow> nat \<Rightarrow> (string \<times> bytes) list \<Rightarrow> bool \<Rightarrow> bool \<Rightarrow> nat
    \<Rightarrow> upgrade_result" where
  "res st reason consumed priv server_sender valid hb =
     \<lparr>up_status = st, up_reason = reason, up_consumed = consumed, up_private = priv,
      up_meta = meta server_sender valid hb\<rparr>"

abbreviation invalid :: "bool \<Rightarrow> string \<Rightarrow> upgrade_result" where
  "invalid ss reason \<equiv> res Invalid reason 0 [] ss False 0"

abbreviation need_more :: "bool \<Rightarrow> upgrade_result" where
  "need_more ss \<equiv> res Pending ''need_more_data'' 0 [] ss False 0"

definition is_blank :: "byte \<Rightarrow> bool" where
  "is_blank b \<longleftrightarrow> b = 32 \<or> b = 9"

definition token_char :: "byte \<Rightarrow> bool" where
  "token_char b \<longleftrightarrow> b \<in> set (bytes_of ''!#$%&'' @ [0x27] @ bytes_of ''*+-.^_'' @ [0x60] @ bytes_of ''|~'')
     \<or> (0x30 \<le> b \<and> b \<le> 0x39) \<or> (0x41 \<le> b \<and> b \<le> 0x5A) \<or> (0x61 \<le> b \<and> b \<le> 0x7A)"

definition has_token :: "bytes \<Rightarrow> bytes \<Rightarrow> bool" where
  "has_token val want \<longleftrightarrow>
     list_ex (\<lambda>part. lower_bytes (strip_by is_blank part) = want) (split_on 0x2C val)"

definition b64_ok :: "bytes \<Rightarrow> nat \<Rightarrow> bool" where
  "b64_ok val expect \<longleftrightarrow> val \<noteq> [] \<and> length val \<le> 128 \<and>
     (case b64decode val of None \<Rightarrow> False | Some raw \<Rightarrow> length raw = expect)"

definition GET_B :: bytes where "GET_B = bytes_of ''GET ''"
definition HTTP_B :: bytes where "HTTP_B = bytes_of ''HTTP/1.1 ''"
definition CODE_101 :: bytes where "CODE_101 = bytes_of ''101''"
definition CRLF :: bytes where "CRLF = [13, 10]"

text \<open>
  Each fixed word of the start line is compared the same way: a buffer shorter than the word is
  undecided while it is a prefix of it, and refused otherwise.
\<close>

definition expect :: "bytes \<Rightarrow> bytes \<Rightarrow> bool option" where
  "expect p buf = (if length buf < length p then (if prefix buf p then None else Some False)
     else Some (prefix p buf))"

text \<open>The checks on the first bytes, before the end of the head is looked for.\<close>

definition http_start :: "bool \<Rightarrow> bytes \<Rightarrow> upgrade_result option" where
  "http_start ss buf =
     (if buf = [] then Some (need_more ss)
      else if hd buf \<noteq> 0x47 \<and> hd buf \<noteq> 0x48 then Some (res NotHttp ''not_http_prefix'' 0 [] ss False 0)
      else if hd buf = 0x47 then
        (case expect GET_B buf of
           None \<Rightarrow> Some (need_more ss)
         | Some False \<Rightarrow> Some (invalid ss ''bad_method'')
         | Some True \<Rightarrow> None)
      else
        (case expect HTTP_B buf of
           None \<Rightarrow> Some (need_more ss)
         | Some False \<Rightarrow> Some (invalid ss ''bad_status_line'')
         | Some True \<Rightarrow>
             (let after = drop (length HTTP_B) buf in
              case expect CODE_101 after of
                None \<Rightarrow> Some (need_more ss)
              | Some False \<Rightarrow> Some (invalid ss ''bad_status'')
              | Some True \<Rightarrow>
                  if length after = 3 then Some (need_more ss)
                  else if slice after 3 4 \<noteq> [32] \<and> slice after 3 4 \<noteq> [13]
                    then Some (invalid ss ''bad_status_line'')
                  else None)))"

fun check_line_chars :: "bytes \<Rightarrow> string option" where
  "check_line_chars [] = None"
| "check_line_chars (b # bs) =
     (if b = 9 \<or> b = 32 then check_line_chars bs
      else if 33 \<le> b \<and> b \<le> 126 then check_line_chars bs
      else Some ''control_char'')"

fun check_lines :: "bytes list \<Rightarrow> string option" where
  "check_lines [] = None"
| "check_lines (ln # lns) =
     (if length ln > MAX_LINE then Some ''line_too_long''
      else case check_line_chars ln of Some r \<Rightarrow> Some r | None \<Rightarrow> check_lines lns)"

definition check_start :: "bool \<Rightarrow> bytes \<Rightarrow> string option" where
  "check_start ss start =
     (let is_req = prefix GET_B start; is_resp = prefix HTTP_B start in
      if \<not> is_req \<and> \<not> is_resp then Some ''bad_request_line''
      else if is_req \<and> ss then Some ''unexpected_direction''
      else if is_resp \<and> \<not> ss then Some ''unexpected_direction''
      else if is_req then
        (let parts = split_on 32 start in
         if length parts \<noteq> 3 then Some ''bad_request_line''
         else if parts ! 0 \<noteq> bytes_of ''GET'' then Some ''bad_method''
         else
           (let tgt = parts ! 1 in
            if length tgt = 0 \<or> length tgt > MAX_LINE then Some ''bad_target''
            else if list_ex (\<lambda>b. b < 0x21 \<or> b > 0x7E) tgt then Some ''bad_target''
            else if parts ! 2 \<noteq> bytes_of ''HTTP/1.1'' then Some ''bad_version''
            else None))
      else
        (let st = drop (length HTTP_B) start in
         if \<not> prefix CODE_101 st then Some ''bad_status''
         else
           (let rest = drop 3 st in
            if rest \<noteq> [] \<and> \<not> prefix [32] rest then Some ''bad_status_line'' else None)))"

fun add_headers :: "bytes list \<Rightarrow> (bytes \<times> bytes) list \<Rightarrow> string + (bytes \<times> bytes) list" where
  "add_headers [] hs = Inr hs"
| "add_headers (ln # lns) hs =
     (if 0x3A \<notin> set ln then Inl ''bad_header_line''
      else
        (let (name, val) = split_once 0x3A ln in
         if name = [] \<or> \<not> list_all token_char name then Inl ''bad_header_name''
         else
           (let ln2 = lower_bytes name in
            if map_of hs ln2 \<noteq> None then Inl ''duplicate_header''
            else add_headers lns (hs @ [(ln2, strip_by is_blank val)]))))"

abbreviation header :: "(bytes \<times> bytes) list \<Rightarrow> string \<Rightarrow> bytes option" where
  "header hs name \<equiv> map_of hs (bytes_of name)"

text \<open>The headers both directions must not carry.\<close>

definition check_forbidden :: "(bytes \<times> bytes) list \<Rightarrow> string option" where
  "check_forbidden hs =
     (if header hs ''transfer-encoding'' \<noteq> None then Some ''transfer_encoding_forbidden''
      else if header hs ''content-length'' \<noteq> None
        \<and> header hs ''content-length'' \<noteq> Some (bytes_of ''0'') then Some ''body_forbidden''
      else if (case header hs ''sec-websocket-extensions'' of
          None \<Rightarrow> False | Some v \<Rightarrow> strip_by is_blank v \<noteq> []) then Some ''extensions_unsupported''
      else if (case header hs ''sec-websocket-protocol'' of
          None \<Rightarrow> False | Some v \<Rightarrow> strip_by is_blank v \<noteq> []) then Some ''subprotocol_unsupported''
      else None)"

definition check_upgrade :: "(bytes \<times> bytes) list \<Rightarrow> string option" where
  "check_upgrade hs =
     (case header hs ''upgrade'' of
        None \<Rightarrow> Some ''missing_upgrade''
      | Some up \<Rightarrow>
          if \<not> has_token up (bytes_of ''websocket'') then Some ''bad_upgrade''
          else (case header hs ''connection'' of
              None \<Rightarrow> Some ''missing_connection''
            | Some co \<Rightarrow>
                if \<not> has_token co (bytes_of ''upgrade'') then Some ''bad_connection'' else None))"

definition check_host :: "(bytes \<times> bytes) list \<Rightarrow> string option" where
  "check_host hs =
     (case header hs ''host'' of
        None \<Rightarrow> Some ''missing_host''
      | Some host \<Rightarrow>
          if host = [] \<or> list_ex (\<lambda>b. b < 0x21 \<or> b > 0x7E) host then Some ''bad_host'' else None)"

definition finish_request :: "bool \<Rightarrow> nat \<Rightarrow> (bytes \<times> bytes) list \<Rightarrow> upgrade_result" where
  "finish_request ss hb hs =
     (case check_host hs of Some r \<Rightarrow> invalid ss r | None \<Rightarrow>
      (case check_upgrade hs of Some r \<Rightarrow> invalid ss r | None \<Rightarrow>
       (case header hs ''sec-websocket-version'' of
          None \<Rightarrow> invalid ss ''missing_version''
        | Some ver \<Rightarrow>
            if ver \<noteq> bytes_of ''13'' then invalid ss ''bad_version''
            else (case header hs ''sec-websocket-key'' of
                None \<Rightarrow> invalid ss ''missing_key''
              | Some key \<Rightarrow>
                  if \<not> b64_ok key 16 then invalid ss ''bad_key''
                  else res Valid ''ok'' hb [(''sec_websocket_key'', key)] ss True hb))))"

definition finish_response :: "bool \<Rightarrow> nat \<Rightarrow> (bytes \<times> bytes) list \<Rightarrow> upgrade_result" where
  "finish_response ss hb hs =
     (case check_upgrade hs of Some r \<Rightarrow> invalid ss r | None \<Rightarrow>
      (case header hs ''sec-websocket-accept'' of
         None \<Rightarrow> invalid ss ''missing_accept''
       | Some acc \<Rightarrow>
           if \<not> b64_ok acc 20 then invalid ss ''bad_accept''
           else res Valid ''ok'' hb [(''sec_websocket_accept'', acc)] ss True hb))"

text \<open>From the start line and the header lines to the verdict.\<close>

definition parse_lines :: "bool \<Rightarrow> nat \<Rightarrow> bytes \<Rightarrow> bytes list \<Rightarrow> upgrade_result" where
  "parse_lines ss hb start hlines =
     (if length hlines > MAX_HEADERS then invalid ss ''too_many_headers''
      else (case check_lines (start # hlines) of Some r \<Rightarrow> invalid ss r | None \<Rightarrow>
        if list_ex (\<lambda>ln. take 1 ln = [32] \<or> take 1 ln = [9]) hlines then invalid ss ''obs_fold''
        else (case check_start ss start of Some r \<Rightarrow> invalid ss r | None \<Rightarrow>
          (case add_headers hlines [] of
             Inl r \<Rightarrow> invalid ss r
           | Inr hs \<Rightarrow>
               (case check_forbidden hs of Some r \<Rightarrow> invalid ss r | None \<Rightarrow>
                 if prefix GET_B start then finish_request ss hb hs else finish_response ss hb hs)))))"

definition parse_header :: "bool \<Rightarrow> nat \<Rightarrow> bytes \<Rightarrow> upgrade_result" where
  "parse_header ss hb hdr =
     (if list_ex (\<lambda>b. b > 127) hdr then invalid ss ''non_ascii''
      else
        (let lines = split_on2 13 10 hdr; tmp = concat lines in
         if 13 \<in> set tmp \<or> 10 \<in> set tmp then invalid ss ''lone_cr_lf''
         else if drop (length lines - 2) lines \<noteq> [[], []] then invalid ss ''bad_header_line''
         else parse_lines ss hb (hd lines) (slice lines 1 (length lines - 2))))"

definition parse_upgrade_prefix :: "bytes \<Rightarrow> bool \<Rightarrow> upgrade_result" where
  "parse_upgrade_prefix buf ss =
     (case http_start ss buf of
        Some r \<Rightarrow> r
      | None \<Rightarrow>
          (case find_sub (CRLF @ CRLF) buf of
             None \<Rightarrow> if length buf \<ge> MAX_UPGRADE_BYTES then invalid ss ''too_large'' else need_more ss
           | Some idx \<Rightarrow>
               (let hb = idx + 4 in
                if hb > MAX_UPGRADE_BYTES then invalid ss ''too_large''
                else parse_header ss hb (take hb buf))))"

definition is_ascii_ws :: "byte \<Rightarrow> bool" where
  "is_ascii_ws b \<longleftrightarrow> b = 32 \<or> (9 \<le> b \<and> b \<le> 13)"

definition match_upgrade :: "(bytes \<Rightarrow> bytes) \<Rightarrow> upgrade_result \<Rightarrow> upgrade_result \<Rightarrow> bool" where
  "match_upgrade sha1 request response =
     (if up_status request \<noteq> Valid \<or> up_status response \<noteq> Valid then False
      else if role (up_meta request) \<noteq> ''client'' \<or> message (up_meta request) \<noteq> ''request'' then False
      else if role (up_meta response) \<noteq> ''server'' \<or> message (up_meta response) \<noteq> ''response'' then False
      else if \<not> valid_http_upgrade (up_meta request) \<or> \<not> valid_http_upgrade (up_meta response) then False
      else
        (case (map_of (up_private request) ''sec_websocket_key'',
               map_of (up_private response) ''sec_websocket_accept'') of
           (Some key, Some acc) \<Rightarrow>
             strip_by is_ascii_ws (b64encode (sha1 (key @ GUID))) = strip_by is_ascii_ws acc
         | _ \<Rightarrow> False))"

subsection \<open>A decided verdict is final\<close>

lemmas start_consts = GET_B_def HTTP_B_def CODE_101_def bytes_of_def

lemma length_consts [simp]:
  "length GET_B = 4" "length HTTP_B = 9" "length CODE_101 = 3" "length CRLF = 2"
  by (simp_all add: start_consts CRLF_def)

lemma res_sel [simp]:
  "up_status (res st r c p ss v hb) = st" "up_reason (res st r c p ss v hb) = r"
  "up_consumed (res st r c p ss v hb) = c" "up_private (res st r c p ss v hb) = p"
  "up_meta (res st r c p ss v hb) = meta ss v hb"
  by (simp_all add: res_def)

lemma meta_sel [simp]:
  "role (meta ss v hb) = (if ss then ''server'' else ''client'')"
  "message (meta ss v hb) = (if ss then ''response'' else ''request'')"
  "header_bytes (meta ss v hb) = hb" "valid_http_upgrade (meta ss v hb) = v"
  by (simp_all add: meta_def)

lemma expect_final: "expect p xs = Some v \<Longrightarrow> expect p (xs @ ys) = Some v"
proof -
  assume a: "expect p xs = Some v"
  show ?thesis
  proof (cases "length xs < length p")
    case True
    with a have "\<not> prefix xs p" "v = False" by (auto simp: expect_def split: if_splits)
    then show ?thesis
      by (auto simp: expect_def dest: append_prefixD) (metis True less_imp_le prefix_length_prefix prefixI)
  next
    case False
    with a have "v = prefix p xs" by (auto simp: expect_def)
    moreover have "prefix p (xs @ ys) = prefix p xs"
      using False by (metis not_less prefix_length_prefix prefix_order.trans prefixI)
    ultimately show ?thesis using False by (simp add: expect_def)
  qed
qed

lemma expect_True_length: "expect p xs = Some True \<Longrightarrow> length p \<le> length xs"
  by (auto simp: expect_def split: if_splits)

lemma http_start_append:
  assumes "\<And>r. http_start ss xs = Some r \<Longrightarrow> up_status r \<noteq> Pending"
  shows "http_start ss (xs @ ys) = http_start ss xs"
proof -
  have ne: "xs \<noteq> []" using assms by (auto simp: http_start_def)
  note hd_ap = hd_append2 [OF ne]
  consider (other) "hd xs \<noteq> 0x47" "hd xs \<noteq> 0x48" | (get) "hd xs = 0x47" | (http) "hd xs = 0x48" by blast
  then show ?thesis
  proof cases
    case other
    with ne show ?thesis by (simp add: http_start_def hd_ap)
  next
    case get
    then obtain v where "expect GET_B xs = Some v" using assms ne
      by (cases "expect GET_B xs") (auto simp: http_start_def)
    with get ne show ?thesis by (simp add: http_start_def hd_ap expect_final)
  next
    case http
    then obtain v where v: "expect HTTP_B xs = Some v" using assms ne
      by (cases "expect HTTP_B xs") (auto simp: http_start_def)
    show ?thesis
    proof (cases v)
      case False
      with http ne v show ?thesis by (simp add: http_start_def hd_ap expect_final)
    next
      case True
      with v have len: "9 \<le> length xs" using expect_True_length by fastforce
      from True v http ne obtain w where w: "expect CODE_101 (drop 9 xs) = Some w" using assms
        by (cases "expect CODE_101 (drop 9 xs)") (auto simp: http_start_def Let_def)
      have d: "drop 9 (xs @ ys) = drop 9 xs @ ys" using len by simp
      have w2: "expect CODE_101 (drop 9 xs @ ys) = Some w" using w by (rule expect_final)
      show ?thesis
      proof (cases w)
        case False
        with http ne v True w w2 d show ?thesis by (simp add: http_start_def hd_ap expect_final)
      next
        case w_True: True
        with w have "3 \<le> length (drop 9 xs)" using expect_True_length by fastforce
        moreover have "length (drop 9 xs) \<noteq> 3"
          using assms http ne v True w w_True by (auto simp: http_start_def Let_def)
        ultimately have l: "4 \<le> length (drop 9 xs)" by simp
        then have "slice (drop 9 xs @ ys) 3 4 = slice (drop 9 xs) 3 4" by (rule slice_append_left)
        moreover have "length xs + length ys - 9 \<noteq> 3" "length xs - 9 \<noteq> 3"
          "length xs - 9 + length ys \<noteq> 3" using l by simp_all
        ultimately show ?thesis using http ne v True w w2 w_True d
          by (simp add: http_start_def hd_ap expect_final Let_def)
      qed
    qed
  qed
qed

lemma parse_upgrade_prefix_final:
  assumes "up_status (parse_upgrade_prefix xs ss) \<noteq> Pending"
  shows "parse_upgrade_prefix (xs @ ys) ss = parse_upgrade_prefix xs ss"
proof -
  have hs: "http_start ss (xs @ ys) = http_start ss xs"
    using assms by (intro http_start_append) (auto simp: parse_upgrade_prefix_def)
  show ?thesis
  proof (cases "http_start ss xs")
    case (Some r)
    with hs show ?thesis by (simp add: parse_upgrade_prefix_def)
  next
    case None
    show ?thesis
    proof (cases "find_sub (CRLF @ CRLF) xs")
      case (Some i)
      have "i + 4 \<le> length xs" using find_sub_bound [OF Some] by simp
      with None hs Some find_sub_append [OF Some, of ys] show ?thesis
        by (simp add: parse_upgrade_prefix_def Let_def)
    next
      case no_end: None
      with None assms have big: "MAX_UPGRADE_BYTES \<le> length xs"
        by (auto simp: parse_upgrade_prefix_def split: if_splits)
      show ?thesis
      proof (cases "find_sub (CRLF @ CRLF) (xs @ ys)")
        case None
        with no_end hs \<open>http_start ss xs = None\<close> big show ?thesis
          by (simp add: parse_upgrade_prefix_def)
      next
        case (Some i)
        with no_end have "length xs < i + 4" using find_sub_append_late [OF no_end Some] by simp
        with Some no_end hs \<open>http_start ss xs = None\<close> big show ?thesis
          by (simp add: parse_upgrade_prefix_def Let_def)
      qed
    qed
  qed
qed

interpretation up: prefix_decoder "\<lambda>buf. parse_upgrade_prefix buf ss" "\<lambda>r. up_status r = Pending"
  for ss by unfold_locales (rule parse_upgrade_prefix_final)

subsection \<open>What a valid verdict says\<close>

definition private_name :: "bool \<Rightarrow> string" where
  "private_name ss = (if ss then ''sec_websocket_accept'' else ''sec_websocket_key'')"

definition nonce_length :: "bool \<Rightarrow> nat" where
  "nonce_length ss = (if ss then 20 else 16)"

lemma check_start_direction: "check_start ss start = None \<Longrightarrow> prefix GET_B start = (\<not> ss)"
  by (auto simp: check_start_def Let_def split: if_splits)

lemma parse_lines_valid:
  assumes "up_status (parse_lines ss hb start hl) = Valid"
  shows "\<exists>v. parse_lines ss hb start hl = res Valid ''ok'' hb [(private_name ss, v)] ss True hb
     \<and> b64_ok v (nonce_length ss)"
proof -
  from assms obtain hs where st: "check_start ss start = None"
    and eq: "parse_lines ss hb start hl =
      (if prefix GET_B start then finish_request ss hb hs else finish_response ss hb hs)"
    by (auto simp: parse_lines_def split: if_splits option.splits sum.splits)
  show ?thesis
  proof (cases ss)
    case True
    with st eq have e: "parse_lines ss hb start hl = finish_response ss hb hs"
      by (simp add: check_start_direction)
    with assms True show ?thesis unfolding e
      by (auto simp: finish_response_def private_name_def nonce_length_def split: if_splits option.splits)
  next
    case False
    with st eq have e: "parse_lines ss hb start hl = finish_request ss hb hs"
      by (simp add: check_start_direction)
    with assms False show ?thesis unfolding e
      by (auto simp: finish_request_def private_name_def nonce_length_def split: if_splits option.splits)
  qed
qed

lemma http_start_not_valid: "http_start ss buf = Some r \<Longrightarrow> up_status r \<noteq> Valid"
  by (auto simp: http_start_def Let_def split: if_splits option.splits bool.splits)

lemma parse_upgrade_validD:
  assumes "up_status (parse_upgrade_prefix buf ss) = Valid"
  obtains idx v where "find_sub (CRLF @ CRLF) buf = Some idx" "idx + 4 \<le> MAX_UPGRADE_BYTES"
    "list_all (\<lambda>b. b \<le> 127) (take (idx + 4) buf)" "b64_ok v (nonce_length ss)"
    "parse_upgrade_prefix buf ss = res Valid ''ok'' (idx + 4) [(private_name ss, v)] ss True (idx + 4)"
proof -
  have hs: "http_start ss buf = None"
    using assms http_start_not_valid by (auto simp: parse_upgrade_prefix_def split: option.splits)
  with assms obtain idx where idx: "find_sub (CRLF @ CRLF) buf = Some idx"
    by (auto simp: parse_upgrade_prefix_def split: option.splits if_splits)
  with assms hs have le: "idx + 4 \<le> MAX_UPGRADE_BYTES"
    and ph: "parse_upgrade_prefix buf ss = parse_header ss (idx + 4) (take (idx + 4) buf)"
    by (auto simp: parse_upgrade_prefix_def Let_def split: if_splits)
  with assms have asc: "\<not> list_ex (\<lambda>b. b > 127) (take (idx + 4) buf)"
    by (auto simp: parse_header_def split: if_splits)
  from assms asc ph obtain start hl where
    pl: "parse_upgrade_prefix buf ss = parse_lines ss (idx + 4) start hl"
    by (auto simp: parse_header_def Let_def split: if_splits)
  from parse_lines_valid [of ss "idx + 4" start hl] assms pl obtain v
    where "parse_upgrade_prefix buf ss = res Valid ''ok'' (idx + 4) [(private_name ss, v)] ss True (idx + 4)"
      "b64_ok v (nonce_length ss)" by auto
  moreover have "list_all (\<lambda>b. b \<le> 127) (take (idx + 4) buf)"
    using asc by (auto simp: list_ex_iff list_all_iff not_less)
  ultimately show ?thesis using that idx le by blast
qed

subsection \<open>A head built from its lines\<close>

definition build_head :: "bytes list \<Rightarrow> bytes" where
  "build_head lns = concat (map (\<lambda>ln. ln @ CRLF) lns) @ CRLF"

definition line_ok :: "bytes \<Rightarrow> bool" where
  "line_ok ln \<longleftrightarrow> ln \<noteq> [] \<and> length ln \<le> MAX_LINE \<and> list_all (\<lambda>b. b = 9 \<or> (32 \<le> b \<and> b \<le> 126)) ln"

lemma line_ok_no_break: "line_ok ln \<Longrightarrow> 13 \<notin> set ln \<and> 10 \<notin> set ln"
  by (auto simp: line_ok_def list_all_iff)

lemma split_on2_line:
  "13 \<notin> set ln \<Longrightarrow> split_on2 13 10 (ln @ [13, 10] @ r) = ln # split_on2 13 (10 :: byte) r"
proof (induction ln)
  case (Cons x xs)
  then show ?case by (cases xs) auto
qed simp

lemma split_on2_head:
  assumes "list_all line_ok lns"
  shows "split_on2 13 10 (build_head lns) = lns @ [[], []]"
  using assms
proof (induction lns)
  case Nil
  then show ?case by (simp add: build_head_def CRLF_def)
next
  case (Cons ln lns)
  have e: "build_head (ln # lns) = ln @ [13, 10] @ build_head lns" by (simp add: build_head_def CRLF_def)
  from Cons.prems have "13 \<notin> set ln" using line_ok_no_break by auto
  from split_on2_line [OF this, of "build_head lns"] Cons show ?case by (simp only: e) simp
qed

lemma find_end_skip:
  assumes "13 \<notin> set xs"
  shows "find_sub [13, 10, 13, 10 :: byte] (xs @ r) = map_option ((+) (length xs)) (find_sub [13, 10, 13, 10] r)"
  using assms
proof (induction xs)
  case Nil
  then show ?case by (simp add: option.map_ident)
next
  case (Cons x xs)
  then have "\<not> prefix [13, 10, 13, 10] (x # xs @ r)" by simp
  with Cons show ?case by (cases "find_sub [13, 10, 13, 10] r") auto
qed

lemma find_end_head:
  assumes "list_all line_ok lns" and "lns \<noteq> []"
  shows "find_sub (CRLF @ CRLF) (build_head lns @ r) = Some (length (build_head lns) - 4)"
  using assms
proof (induction lns)
  case (Cons ln lns)
  have e: "build_head (ln # lns) @ r = ln @ [13, 10] @ build_head lns @ r"
    and l: "length (build_head (ln # lns)) = length ln + 2 + length (build_head lns)"
    by (simp_all add: build_head_def CRLF_def)
  from Cons.prems have 13: "13 \<notin> set ln" using line_ok_no_break by auto
  have sk: "find_sub (CRLF @ CRLF) (build_head (ln # lns) @ r)
      = map_option ((+) (length ln)) (find_sub (CRLF @ CRLF) ([13, 10] @ build_head lns @ r))"
    unfolding e using find_end_skip [OF 13] by (simp add: CRLF_def)
  show ?case
  proof (cases lns)
    case Nil
    then show ?thesis using sk l by (simp add: build_head_def CRLF_def)
  next
    case (Cons m ms)
    with Cons.prems have m: "m \<noteq> []" "hd m \<noteq> 13" using line_ok_no_break
      by (cases m; fastforce simp: line_ok_def)+
    have h: "hd (build_head lns @ r) = hd m" "build_head lns @ r \<noteq> []" using Cons m
      by (simp_all add: build_head_def)
    then have "find_sub (CRLF @ CRLF) ([13, 10] @ build_head lns @ r)
        = map_option (\<lambda>i. i + 2) (find_sub (CRLF @ CRLF) (build_head lns @ r))"
      using m by (cases "build_head lns @ r") (auto simp: CRLF_def option.map_comp comp_def)
    moreover have "4 \<le> length (build_head lns)" using Cons m
      by (cases m) (auto simp: build_head_def CRLF_def)
    ultimately show ?thesis using sk l Cons.IH Cons.prems Cons
      by (simp del: append_Cons append_Nil)
  qed
qed simp

lemma line_ok_chars: "line_ok ln \<Longrightarrow> check_line_chars ln = None"
proof -
  have "list_all (\<lambda>b. b = 9 \<or> (32 \<le> b \<and> b \<le> 126)) ln \<Longrightarrow> check_line_chars ln = None"
  proof (induction ln)
    case (Cons b bs)
    then have "b = 9 \<or> b = 32 \<or> (33 \<le> b \<and> b \<le> 126)"
      by (auto simp: word_le_nat_alt word_unat_eq_iff)
    with Cons show ?case by auto
  qed simp
  then show "line_ok ln \<Longrightarrow> check_line_chars ln = None" by (simp add: line_ok_def)
qed

lemma line_ok_checks: "list_all line_ok lns \<Longrightarrow> check_lines lns = None"
  by (induction lns) (auto simp: line_ok_chars, simp add: line_ok_def)

lemma build_head_ascii: "list_all line_ok lns \<Longrightarrow> \<not> list_ex (\<lambda>b. b > 127) (build_head lns)"
proof (induction lns)
  case (Cons ln lns)
  have "b \<le> 127" if "b \<in> set ln" for b
    using Cons.prems that by (fastforce simp: line_ok_def list_all_iff word_le_nat_alt)
  with Cons show ?case by (auto simp: build_head_def CRLF_def list_ex_iff not_less)
qed (simp add: build_head_def CRLF_def)

text \<open>On a well-formed head the parser is exactly its line-level part.\<close>

lemma parse_upgrade_head:
  assumes "list_all line_ok (start # hl)" and "http_start ss (build_head (start # hl)) = None"
    and "length (build_head (start # hl)) \<le> MAX_UPGRADE_BYTES"
  shows "parse_upgrade_prefix (build_head (start # hl)) ss
    = parse_lines ss (length (build_head (start # hl))) start hl"
proof -
  let ?b = "build_head (start # hl)"
  have sp: "split_on2 13 10 ?b = (start # hl) @ [[], []]" using assms(1) by (rule split_on2_head)
  have fs: "find_sub (CRLF @ CRLF) ?b = Some (length ?b - 4)"
    using find_end_head [OF assms(1), of "[]"] by simp
  have l4: "4 \<le> length ?b" using find_sub_bound [OF fs] by simp
  have "parse_header ss (length ?b) ?b = parse_lines ss (length ?b) start hl"
  proof -
    have "13 \<notin> set (concat (split_on2 13 10 ?b))" "10 \<notin> set (concat (split_on2 13 10 ?b))"
      using assms(1) line_ok_no_break unfolding sp by (auto simp: list_all_iff)
    then show ?thesis using build_head_ascii [OF assms(1)]
      unfolding parse_header_def sp Let_def by (simp add: slice_def)
  qed
  then show ?thesis using assms(2,3) fs l4 by (simp add: parse_upgrade_prefix_def Let_def)
qed

subsection \<open>The RFC 6455 handshake\<close>

text \<open>
  The heads a client and a server send according to the RFC, for any target, host and nonce:
  the reference against which the parser is complete.
\<close>

definition header_line :: "string \<Rightarrow> bytes \<Rightarrow> bytes" where
  "header_line name val = bytes_of name @ 0x3A # 32 # val"

definition request_lines :: "bytes \<Rightarrow> bytes \<Rightarrow> bytes \<Rightarrow> bytes list" where
  "request_lines tgt host nonce =
     [GET_B @ tgt @ bytes_of '' HTTP/1.1'', header_line ''Host'' host,
      header_line ''Upgrade'' (bytes_of ''websocket''), header_line ''Connection'' (bytes_of ''Upgrade''),
      header_line ''Sec-WebSocket-Version'' (bytes_of ''13''),
      header_line ''Sec-WebSocket-Key'' (b64encode nonce)]"

definition response_lines :: "bytes \<Rightarrow> bytes list" where
  "response_lines digest =
     [bytes_of ''HTTP/1.1 101 Switching Protocols'',
      header_line ''Upgrade'' (bytes_of ''websocket''), header_line ''Connection'' (bytes_of ''Upgrade''),
      header_line ''Sec-WebSocket-Accept'' (b64encode digest)]"

definition visible :: "bytes \<Rightarrow> bool" where
  "visible v \<longleftrightarrow> v \<noteq> [] \<and> list_all (\<lambda>b. 0x21 \<le> b \<and> b \<le> 0x7E) v"

lemma visible_b64 [simp]: "bs \<noteq> [] \<Longrightarrow> visible (b64encode bs)"
proof -
  assume "bs \<noteq> []"
  then have "b64encode bs \<noteq> []" by (cases bs rule: b64encode.cases) simp_all
  then show ?thesis using b64encode_printable by (auto simp: visible_def list_all_iff)
qed

lemma visible_words [simp]: "visible (bytes_of ''websocket'')" "visible (bytes_of ''Upgrade'')"
    "visible (bytes_of ''13'')"
  by code_simp+

lemma strip_visible: "visible v \<Longrightarrow> strip_by is_blank (32 # v) = v"
proof -
  assume v: "visible v"
  then have nb: "b \<in> set v \<Longrightarrow> \<not> is_blank b" for b
    by (auto simp: visible_def list_all_iff is_blank_def)
  have "strip_by is_blank (32 # v) = strip_by is_blank v"
    by (simp add: strip_by_def is_blank_def)
  also have "\<dots> = v" using v nb by (intro strip_by_id) (auto simp: visible_def)
  finally show ?thesis .
qed

lemma add_header_line:
  assumes "0x3A \<notin> set (bytes_of name)" "name \<noteq> []" "list_all token_char (bytes_of name)"
    "map_of hs (lower_bytes (bytes_of name)) = None" "visible v"
  shows "add_headers (header_line name v # lns) hs
    = add_headers lns (hs @ [(lower_bytes (bytes_of name), v)])"
proof -
  have "split_once 0x3A (header_line name v) = (bytes_of name, 32 # v)"
    using assms(1) by (simp add: header_line_def split_once_append)
  moreover have "bytes_of name \<noteq> []" using assms(2) by (simp add: bytes_of_def)
  moreover have "0x3A \<in> set (header_line name v)" by (simp add: header_line_def)
  ultimately show ?thesis using assms(3-5) by (simp add: strip_visible)
qed

lemma header_names:
  "lower_bytes (bytes_of ''Host'') = bytes_of ''host''"
  "lower_bytes (bytes_of ''Upgrade'') = bytes_of ''upgrade''"
  "lower_bytes (bytes_of ''Connection'') = bytes_of ''connection''"
  "lower_bytes (bytes_of ''Sec-WebSocket-Version'') = bytes_of ''sec-websocket-version''"
  "lower_bytes (bytes_of ''Sec-WebSocket-Key'') = bytes_of ''sec-websocket-key''"
  "lower_bytes (bytes_of ''Sec-WebSocket-Accept'') = bytes_of ''sec-websocket-accept''"
  by code_simp+

lemma header_tokens:
  "list_all (\<lambda>n. 0x3A \<notin> set (bytes_of n) \<and> n \<noteq> [] \<and> list_all token_char (bytes_of n))
     [''Host'', ''Upgrade'', ''Connection'', ''Sec-WebSocket-Version'', ''Sec-WebSocket-Key'',
      ''Sec-WebSocket-Accept'']"
  by code_simp

lemma add_request_headers:
  assumes "visible host" "nonce \<noteq> []"
  shows "add_headers (tl (request_lines tgt host nonce)) [] =
    Inr [(bytes_of ''host'', host), (bytes_of ''upgrade'', bytes_of ''websocket''),
      (bytes_of ''connection'', bytes_of ''Upgrade''), (bytes_of ''sec-websocket-version'', bytes_of ''13''),
      (bytes_of ''sec-websocket-key'', b64encode nonce)]"
  using assms header_tokens
  by (simp add: request_lines_def add_header_line header_names del: add_headers.simps(2))

lemma add_response_headers:
  assumes "digest \<noteq> []"
  shows "add_headers (tl (response_lines digest)) [] =
    Inr [(bytes_of ''upgrade'', bytes_of ''websocket''), (bytes_of ''connection'', bytes_of ''Upgrade''),
      (bytes_of ''sec-websocket-accept'', b64encode digest)]"
  using assms header_tokens
  by (simp add: response_lines_def add_header_line header_names del: add_headers.simps(2))

lemma check_start_request:
  assumes "visible tgt" "length tgt \<le> MAX_LINE"
  shows "check_start False (GET_B @ tgt @ bytes_of '' HTTP/1.1'') = None"
proof -
  have no: "32 \<notin> set tgt" using assms(1) by (auto simp: visible_def list_all_iff)
  have "GET_B @ tgt @ bytes_of '' HTTP/1.1'' = bytes_of ''GET'' @ 32 # (tgt @ 32 # bytes_of ''HTTP/1.1'')"
    by (simp add: GET_B_def bytes_of_def)
  moreover have "32 \<notin> set (bytes_of ''GET'')" "32 \<notin> set (bytes_of ''HTTP/1.1'')" by code_simp+
  ultimately have "split_on 32 (GET_B @ tgt @ bytes_of '' HTTP/1.1'')
      = [bytes_of ''GET'', tgt, bytes_of ''HTTP/1.1'']"
    using no by (simp add: split_on_append split_on_free)
  moreover have "\<not> list_ex (\<lambda>b. b < 0x21 \<or> b > 0x7E) tgt"
    using assms(1) by (auto simp: visible_def list_ex_iff list_all_iff not_less)
  moreover have "\<not> prefix HTTP_B (GET_B @ tgt @ bytes_of '' HTTP/1.1'')"
    by (simp add: GET_B_def HTTP_B_def bytes_of_def)
  ultimately show ?thesis using assms by (simp add: check_start_def visible_def numeral_2_eq_2)
qed

lemma visible_chars: "visible v \<Longrightarrow> list_all (\<lambda>b. b = 9 \<or> (32 \<le> b \<and> b \<le> 126)) v"
  by (fastforce simp: visible_def list_all_iff word_le_nat_alt)

lemma header_line_ok:
  assumes "visible v" "length name + length v + 2 \<le> MAX_LINE"
    "list_all (\<lambda>b. 32 \<le> b \<and> b \<le> 126) (bytes_of name)"
  shows "line_ok (header_line name v)"
  using assms visible_chars [OF assms(1)] by (auto simp: line_ok_def header_line_def list_all_iff)

lemma names_plain:
  "list_all (\<lambda>n. list_all (\<lambda>b. 32 \<le> b \<and> b \<le> 126) (bytes_of n))
     [''Host'', ''Upgrade'', ''Connection'', ''Sec-WebSocket-Version'', ''Sec-WebSocket-Key'',
      ''Sec-WebSocket-Accept'', '' HTTP/1.1'', ''HTTP/1.1 101 Switching Protocols'', ''GET '']"
  by code_simp

lemma handshake_tokens:
  "has_token (bytes_of ''websocket'') (bytes_of ''websocket'')"
  "has_token (bytes_of ''Upgrade'') (bytes_of ''upgrade'')"
  by code_simp+

lemma b64_ok_encode: "bs \<noteq> [] \<Longrightarrow> length bs \<le> 96 \<Longrightarrow> b64_ok (b64encode bs) (length bs)"
proof -
  assume "bs \<noteq> []" "length bs \<le> 96"
  then have "b64encode bs \<noteq> []" "length (b64encode bs) \<le> 128"
    by (cases bs rule: b64encode.cases, simp_all) (simp add: length_b64encode)
  then show ?thesis by (simp add: b64_ok_def)
qed

lemma request_lines_ok:
  assumes "visible tgt" "visible host" "length tgt \<le> 1000" "length host \<le> 1000" "length nonce = 16"
  shows "list_all line_ok (request_lines tgt host nonce)"
proof -
  have n: "visible (b64encode nonce)" "length (b64encode nonce) = 24"
    using assms(5) visible_b64 [of nonce] by (cases nonce; simp add: length_b64encode)+
  have "line_ok (GET_B @ tgt @ bytes_of '' HTTP/1.1'')"
    using assms(1,3) visible_chars [OF assms(1)] names_plain
    by (auto simp: line_ok_def MAX_LINE_def GET_B_def list_all_iff)
  then show ?thesis using assms n names_plain
    by (simp add: request_lines_def header_line_ok MAX_LINE_def)
qed

lemma build_head_length: "length (build_head lns) = sum_list (map (\<lambda>ln. length ln + 2) lns) + 2"
  by (induction lns) (auto simp: build_head_def)

lemma request_start:
  "http_start False (build_head (request_lines tgt host nonce)) = None"
proof -
  obtain r where "build_head (request_lines tgt host nonce) = GET_B @ r"
    by (simp add: build_head_def request_lines_def)
  moreover have "hd (GET_B @ r) = 0x47" "GET_B \<noteq> []" for r
    by (simp_all add: GET_B_def bytes_of_def)
  ultimately show ?thesis by (simp add: http_start_def expect_def)
qed

lemma request_accepted:
  assumes "visible tgt" "visible host" "length tgt \<le> 1000" "length host \<le> 1000" "length nonce = 16"
  shows "parse_upgrade_prefix (build_head (request_lines tgt host nonce)) False =
    res Valid ''ok'' (length (build_head (request_lines tgt host nonce)))
      [(''sec_websocket_key'', b64encode nonce)] False True
      (length (build_head (request_lines tgt host nonce)))"
proof -
  let ?ls = "request_lines tgt host nonce" and ?hb = "length (build_head (request_lines tgt host nonce))"
  have ok: "list_all line_ok ?ls" using assms by (rule request_lines_ok)
  have split: "?ls = hd ?ls # tl ?ls" by (simp add: request_lines_def)
  have len: "?hb \<le> MAX_UPGRADE_BYTES"
    using assms by (simp add: build_head_length request_lines_def header_line_def MAX_UPGRADE_BYTES_def
        length_b64encode)
  have parse: "parse_upgrade_prefix (build_head ?ls) False = parse_lines False ?hb (hd ?ls) (tl ?ls)"
    using parse_upgrade_head [of "hd ?ls" "tl ?ls" False] ok request_start len split by simp
  have "nonce \<noteq> []" using assms(5) by auto
  have host: "\<not> list_ex (\<lambda>b. b < 0x21 \<or> b > 0x7E) host" "host \<noteq> []"
    using assms(2) by (auto simp: visible_def list_ex_iff list_all_iff not_less)
  have cs: "check_start False (hd ?ls) = None"
    using check_start_request assms(1,3) by (simp add: request_lines_def MAX_LINE_def)
  have get: "prefix GET_B (hd ?ls)" by (simp add: request_lines_def)
  have folds: "\<not> list_ex (\<lambda>ln. take 1 ln = [32] \<or> take 1 ln = [9]) (tl ?ls)"
    by (simp add: request_lines_def header_line_def bytes_of_def)
  have cl: "check_lines (hd ?ls # tl ?ls) = None" using ok split line_ok_checks by metis
  have "b64_ok (b64encode nonce) 16" using b64_ok_encode [of nonce] assms(5) \<open>nonce \<noteq> []\<close> by simp
  then show ?thesis unfolding parse parse_lines_def
    using cl cs get folds host add_request_headers [OF assms(2) \<open>nonce \<noteq> []\<close>]
    by (simp add: request_lines_def MAX_HEADERS_def check_forbidden_def finish_request_def
        check_host_def check_upgrade_def handshake_tokens)
qed

lemma response_accepted:
  assumes "length digest = 20"
  shows "parse_upgrade_prefix (build_head (response_lines digest)) True =
    res Valid ''ok'' (length (build_head (response_lines digest)))
      [(''sec_websocket_accept'', b64encode digest)] True True
      (length (build_head (response_lines digest)))"
proof -
  let ?ls = "response_lines digest" and ?hb = "length (build_head (response_lines digest))"
  have "digest \<noteq> []" using assms by auto
  have v: "visible (b64encode digest)" "length (b64encode digest) = 28"
    using \<open>digest \<noteq> []\<close> assms by (simp_all add: length_b64encode)
  have "line_ok (bytes_of ''HTTP/1.1 101 Switching Protocols'')" by code_simp
  then have ok: "list_all line_ok ?ls"
    using v names_plain by (simp add: response_lines_def header_line_ok MAX_LINE_def)
  have split: "?ls = hd ?ls # tl ?ls" by (simp add: response_lines_def)
  have len: "?hb \<le> MAX_UPGRADE_BYTES" using v
    by (simp add: build_head_length response_lines_def header_line_def MAX_UPGRADE_BYTES_def)
  have start: "http_start True (build_head ?ls) = None"
    by (simp add: http_start_def expect_def build_head_def response_lines_def HTTP_B_def CODE_101_def
        bytes_of_def slice_def)
  have parse: "parse_upgrade_prefix (build_head ?ls) True = parse_lines True ?hb (hd ?ls) (tl ?ls)"
    using parse_upgrade_head [of "hd ?ls" "tl ?ls" True] ok start len split by simp
  have cs: "check_start True (hd ?ls) = None" "\<not> prefix GET_B (hd ?ls)"
    by (simp_all add: response_lines_def check_start_def start_consts)
  have folds: "\<not> list_ex (\<lambda>ln. take 1 ln = [32] \<or> take 1 ln = [9]) (tl ?ls)"
    by (simp add: response_lines_def header_line_def bytes_of_def)
  have cl: "check_lines (hd ?ls # tl ?ls) = None" using ok split line_ok_checks by metis
  have "b64_ok (b64encode digest) 20" using b64_ok_encode [of digest] assms \<open>digest \<noteq> []\<close> by simp
  then show ?thesis unfolding parse parse_lines_def
    using cl cs folds add_response_headers [OF \<open>digest \<noteq> []\<close>]
    by (simp add: response_lines_def MAX_HEADERS_def check_forbidden_def finish_response_def
        check_upgrade_def handshake_tokens)
qed

lemma b64encode_inject: "b64encode a = b64encode b \<longleftrightarrow> a = b"
  by (metis b64decode_encode option.inject)

lemma strip_b64 [simp]: "bs \<noteq> [] \<Longrightarrow> strip_by is_ascii_ws (b64encode bs) = b64encode bs"
proof -
  assume "bs \<noteq> []"
  then have v: "visible (b64encode bs)" by simp
  then have "\<not> is_ascii_ws b" if "b \<in> set (b64encode bs)" for b
    using that by (fastforce simp: visible_def list_all_iff is_ascii_ws_def word_le_nat_alt)
  with v show ?thesis by (intro strip_by_id) (auto simp: visible_def)
qed

subsection \<open>Properties\<close>

text \<open>C7. Once the upgrade parser has decided (valid, invalid or not HTTP), more bytes of the same
  TCP direction never change its verdict: how the stream was cut into segments is irrelevant.\<close>

theorem upgrade_verdict_final:
  "up_status (parse_upgrade_prefix xs ss) \<noteq> Pending \<Longrightarrow>
    parse_upgrade_prefix (xs @ ys) ss = parse_upgrade_prefix xs ss"
  by (rule up.decided_final)

theorem upgrade_verdict_final_witness:
  "parse_upgrade_prefix (bytes_of ''GEX'' @ bytes_of ''T / HTTP/1.1'') False
    = invalid False ''bad_method''"
proof -
  have e: "parse_upgrade_prefix (bytes_of ''GEX'') False = invalid False ''bad_method''" by code_simp
  then have "up_status (parse_upgrade_prefix (bytes_of ''GEX'') False) \<noteq> Pending" by simp
  from upgrade_verdict_final [OF this, of "bytes_of ''T / HTTP/1.1''"] e show ?thesis by simp
qed

text \<open>A valid verdict consumes exactly the head, up to and including the first empty line, at
  most 4096 bytes and all of them ASCII; it carries the role of its direction and one private
  value, the base64 of 16 bytes (the key) or 20 bytes (the accept).\<close>

theorem upgrade_valid_head:
  assumes "up_status (parse_upgrade_prefix buf ss) = Valid"
  defines "n \<equiv> up_consumed (parse_upgrade_prefix buf ss)"
  shows "4 \<le> n \<and> n \<le> 4096 \<and> n \<le> length buf
    \<and> find_sub (CRLF @ CRLF) buf = Some (n - 4)
    \<and> list_all (\<lambda>b. b \<le> 127) (take n buf)
    \<and> role (up_meta (parse_upgrade_prefix buf ss)) = (if ss then ''server'' else ''client'')
    \<and> (\<exists>v raw. up_private (parse_upgrade_prefix buf ss) = [(private_name ss, v)]
         \<and> b64decode v = Some raw \<and> length raw = nonce_length ss)"
proof -
  from parse_upgrade_validD [OF assms(1)] obtain idx v where
    i: "find_sub (CRLF @ CRLF) buf = Some idx" "idx + 4 \<le> MAX_UPGRADE_BYTES"
      "list_all (\<lambda>b. b \<le> 127) (take (idx + 4) buf)" "b64_ok v (nonce_length ss)"
      "parse_upgrade_prefix buf ss = res Valid ''ok'' (idx + 4) [(private_name ss, v)] ss True (idx + 4)" .
  moreover have "idx + 4 \<le> length buf" using find_sub_bound [OF i(1)] by simp
  ultimately show ?thesis
    by (auto simp: n_def MAX_UPGRADE_BYTES_def b64_ok_def split: option.splits)
qed

theorem upgrade_valid_head_witness:
  "up_consumed (parse_upgrade_prefix
     (build_head (request_lines (bytes_of ''/'') (bytes_of ''c2m'') (replicate 16 7))) False) \<le> 4096"
proof -
  have v: "visible (bytes_of ''/'')" "visible (bytes_of ''c2m'')" by code_simp+
  have "up_status (parse_upgrade_prefix
     (build_head (request_lines (bytes_of ''/'') (bytes_of ''c2m'') (replicate 16 7))) False) = Valid"
    using request_accepted [OF v, of "replicate 16 7"] by simp
  from upgrade_valid_head [OF this] show ?thesis by simp
qed

text \<open>The handshake of RFC 6455 is recognised and its accept hash is checked exactly: for a
  20-byte hash function, the request of any client and the response of a server are matched if and
  only if the response carries the hash of that client's key and the protocol GUID.\<close>

theorem handshake_match_iff:
  assumes "visible tgt" "visible host" "length tgt \<le> 1000" "length host \<le> 1000" "length nonce = 16"
    and "\<And>x. length (sha1 x) = 20" and "length digest = 20"
  shows "match_upgrade sha1
      (parse_upgrade_prefix (build_head (request_lines tgt host nonce)) False)
      (parse_upgrade_prefix (build_head (response_lines digest)) True)
    \<longleftrightarrow> digest = sha1 (b64encode nonce @ GUID)"
proof -
  have ne: "digest \<noteq> []" "sha1 (b64encode nonce @ GUID) \<noteq> []"
    using assms(6,7) by (auto simp flip: length_greater_0_conv)
  show ?thesis
    unfolding request_accepted [OF assms(1-5)] response_accepted [OF assms(7)]
    using ne by (auto simp: match_upgrade_def b64encode_inject)
qed

theorem handshake_match_iff_witness:
  "match_upgrade (\<lambda>_. replicate 20 1)
      (parse_upgrade_prefix (build_head (request_lines (bytes_of ''/'') (bytes_of ''c2m'') (replicate 16 7))) False)
      (parse_upgrade_prefix (build_head (response_lines (replicate 20 1))) True)"
proof -
  have v: "visible (bytes_of ''/'')" "visible (bytes_of ''c2m'')" by code_simp+
  show ?thesis
    using handshake_match_iff [OF v, of "replicate 16 7" "\<lambda>_. replicate 20 1" "replicate 20 1"] by simp
qed

end
