(* ===== verification/PyValue.thy ===== *)
theory PyValue
  imports Prelude Complex_Main
begin

text \<open>
  Dynamically typed Python values, as \<open>json.loads\<close> and \<open>msgpack.unpackb\<close> return them. A dict is
  its list of items in insertion order (keys pairwise different); a tuple is what msgpack's
  \<open>ExtType\<close> is; \<open>POther\<close> stands for any other object. Finite floats are rationals.
\<close>

datatype pyfloat = FFin rat | FPosInf | FNegInf | FNaN

datatype pyval =
    PNone
  | PBool bool
  | PInt int
  | PFloat pyfloat
  | PStr string
  | PBytes bytes
  | PList "pyval list"
  | PTuple "pyval list"
  | PDict "(pyval \<times> pyval) list"
  | POther

type_synonym pydict = "(pyval \<times> pyval) list"

fun is_str :: "pyval \<Rightarrow> bool" where
  "is_str (PStr _) = True"
| "is_str _ = False"

fun is_bytes :: "pyval \<Rightarrow> bool" where
  "is_bytes (PBytes _) = True"
| "is_bytes _ = False"

fun is_dict :: "pyval \<Rightarrow> bool" where
  "is_dict (PDict _) = True"
| "is_dict _ = False"

fun is_bool :: "pyval \<Rightarrow> bool" where
  "is_bool (PBool _) = True"
| "is_bool _ = False"

text \<open>\<open>type(v) is int\<close>: a bool is not one.\<close>

fun is_int :: "pyval \<Rightarrow> bool" where
  "is_int (PInt _) = True"
| "is_int _ = False"

text \<open>\<open>d.get(k)\<close> and \<open>k in d\<close> for a string key, the string keys of a dict, and the test of a
  value against a set of strings (\<open>isinstance(v, str) and v in names\<close>).\<close>

definition dget :: "pydict \<Rightarrow> string \<Rightarrow> pyval" where
  "dget d k = (case map_of d (PStr k) of None \<Rightarrow> PNone | Some v \<Rightarrow> v)"

definition has_key :: "pydict \<Rightarrow> string \<Rightarrow> bool" where
  "has_key d k \<longleftrightarrow> PStr k \<in> set (map fst d)"

fun str_keys :: "pydict \<Rightarrow> string list" where
  "str_keys [] = []"
| "str_keys ((PStr k, v) # d) = k # str_keys d"
| "str_keys (_ # d) = str_keys d"

fun str_in :: "pyval \<Rightarrow> string list \<Rightarrow> bool" where
  "str_in (PStr s) names = (s \<in> set names)"
| "str_in _ names = False"

fun the_str :: "pyval \<Rightarrow> string" where
  "the_str (PStr s) = s"
| "the_str _ = []"

text \<open>A value that can be a Python dict: no key twice.\<close>

definition dict_ok :: "pydict \<Rightarrow> bool" where
  "dict_ok d \<longleftrightarrow> distinct (map fst d)"

subsection \<open>Lemmas\<close>

lemma set_str_keys: "k \<in> set (str_keys d) \<longleftrightarrow> has_key d k"
  by (induction d rule: str_keys.induct) (auto simp: has_key_def)

lemma str_in_iff: "str_in v names \<longleftrightarrow> (\<exists>s. v = PStr s \<and> s \<in> set names)"
  by (cases v) auto

lemma str_in_the: "str_in v names \<Longrightarrow> v = PStr (the_str v) \<and> the_str v \<in> set names"
  by (cases v) auto

lemma is_dict_iff: "is_dict v \<longleftrightarrow> (\<exists>d. v = PDict d)"
  by (cases v) auto

lemma dget_PStr: "dget d k = PStr s \<Longrightarrow> has_key d k"
  by (force simp: dget_def has_key_def split: option.splits dest: map_of_SomeD)

lemma length_str_keys: "length (str_keys d) \<le> length d"
  by (induction d rule: str_keys.induct) auto

lemma distinct_str_keys: "dict_ok d \<Longrightarrow> distinct (str_keys d)"
  unfolding dict_ok_def
  by (induction d rule: str_keys.induct) (auto simp: set_str_keys has_key_def)

end
