(* ===== verification/Libflow.thy ===== *)
theory Libflow
  imports PyValue
begin

text \<open>
  The libflow envelope decoder of \<open>tools/m4/libflow_protocol.py\<close>: an outer MessagePack map
  \<open>{time, source, topic, data}\<close> whose \<open>data\<close> is again MessagePack, the inner map
  \<open>{frame_id, time, key, data}\<close>. The \<open>msgpack\<close> package is not part of the repository: its
  \<open>unpackb\<close> (\<open>Inl\<close> is the text of the exception) and \<open>packb\<close> are parameters, and so are the
  formatting of a value (\<open>str\<close>) and of a list of keys (\<open>repr\<close>), whose exact text no property
  depends on.
\<close>

record msgpack_lib =
  unpackb :: "bytes \<Rightarrow> string + pyval"
  packb :: "pyval \<Rightarrow> bytes"
  str_of :: "pyval \<Rightarrow> string"
  repr_list :: "pyval list \<Rightarrow> string"

definition KNOWN_TOPICS :: "string list" where
  "KNOWN_TOPICS = [''vehicle'', ''ped'', ''lane'', ''tsr'']"

definition STATIC_TSR_KEYS :: "string list" where
  "STATIC_TSR_KEYS = [''tsr_trace_res_list'', ''tsr_warning'']"

definition KNOWN_KEYS :: "string list" where
  "KNOWN_KEYS = [''vehicleWarning'', ''vehicleMeasure'', ''pedestrians'', ''laneWarningRes'',
     ''pedWarning''] @ STATIC_TSR_KEYS"

definition SCHEMAS :: "(string \<times> string list) list" where
  "SCHEMAS =
    [(''vehicleWarning'', [''vehicle_id'', ''headway'', ''warning_level'', ''fcw'', ''headway_warning'',
        ''vb_warning'', ''sag_warning'']),
     (''vehicleMeasure'', [''vehicle_class'', ''vehicle_id'', ''vehicle_width'', ''longitude_dist'',
        ''lateral_dist'', ''ttc'', ''is_crucial'', ''is_second_crucial'']),
     (''pedestrians'', [''id'', ''world_x'', ''world_y'', ''is_key'', ''is_danger'', ''ttc_m'', ''ttc'',
        ''have_bike'']),
     (''laneWarningRes'', [''lanelines'', ''ldw_info'', ''turn_radius'', ''turn_frequently'']),
     (''pedWarning'', [''ped_on'', ''pcw_on''])]"

definition SCHEMA_FIELD_KINDS :: "(string \<times> (string \<times> string) list) list" where
  "SCHEMA_FIELD_KINDS = [(''pedWarning'', [(''ped_on'', ''bool''), (''pcw_on'', ''bool'')])]"

record decode_result =
  outer :: pyval
  inner :: pyval
  warnings :: "string list"

subsection \<open>Subscription frames\<close>

text \<open>\<open>None\<close> is the \<open>ValueError\<close> for another action.\<close>

definition pack_subscription :: "msgpack_lib \<Rightarrow> string \<Rightarrow> string \<Rightarrow> string \<Rightarrow> bytes option" where
  "pack_subscription E source topic action =
     (if action \<notin> {''subscribe'', ''unsubscribe''} then None
      else Some (packb E (PDict [(PStr ''source'', PStr source), (PStr ''topic'', PStr action),
                                 (PStr ''data'', PStr topic)])))"

subsection \<open>Warnings about a body\<close>

text \<open>\<open>sorted\<close> on dict keys raises \<open>TypeError\<close> when two of them cannot be compared.\<close>

fun order_class :: "pyval \<Rightarrow> nat option" where
  "order_class (PBool _) = Some 0"
| "order_class (PInt _) = Some 0"
| "order_class (PFloat _) = Some 0"
| "order_class (PStr _) = Some 1"
| "order_class (PBytes _) = Some 2"
| "order_class (PTuple _) = Some 3"
| "order_class _ = None"

definition sortable :: "pyval list \<Rightarrow> bool" where
  "sortable ks \<longleftrightarrow> length ks < 2 \<or> (order_class (hd ks) \<noteq> None
     \<and> list_all (\<lambda>k. order_class k = order_class (hd ks)) ks)"

definition quoted :: "string \<Rightarrow> string" where
  "quoted s = [CHR 0x27] @ s @ [CHR 0x27]"

fun join :: "string \<Rightarrow> string list \<Rightarrow> string" where
  "join sep [] = []"
| "join sep [s] = s"
| "join sep (s # ss) = s @ sep @ join sep ss"

definition repr_names :: "string list \<Rightarrow> string" where
  "repr_names ns = ''['' @ join '', '' (map quoted ns) @ '']''"

definition missing_fields :: "string list \<Rightarrow> pydict \<Rightarrow> string list" where
  "missing_fields expected d = sort (filter (\<lambda>f. \<not> has_key d f) expected)"

definition extra_keys :: "string list \<Rightarrow> pydict \<Rightarrow> pyval list" where
  "extra_keys expected d = filter (\<lambda>k. \<not> str_in k expected) (map fst d)"

text \<open>The missing/extra report of one dict; \<open>None\<close> when sorting the extra keys raises.\<close>

definition shape_warnings :: "msgpack_lib \<Rightarrow> string \<Rightarrow> string list \<Rightarrow> pydict \<Rightarrow> string list option" where
  "shape_warnings E label expected d =
     (let missing = missing_fields expected d; extra = extra_keys expected d;
          w1 = (if missing \<noteq> [] then [label @ '' missing: '' @ repr_names missing] else [])
      in if extra = [] then Some w1
         else if \<not> sortable extra then None
         else Some (w1 @ [label @ '' extra: '' @ repr_list E extra]))"

fun list_warnings :: "msgpack_lib \<Rightarrow> string \<Rightarrow> string list \<Rightarrow> nat \<Rightarrow> pyval list \<Rightarrow> string list option" where
  "list_warnings E key expected i [] = Some []"
| "list_warnings E key expected i (PDict d # items) =
     (case shape_warnings E (key @ ''['' @ show_nat i @ '']'') expected d of
        None \<Rightarrow> None
      | Some ws \<Rightarrow> map_option ((@) ws) (list_warnings E key expected (Suc i) items))"
| "list_warnings E key expected i (_ # items) = list_warnings E key expected (Suc i) items"

definition bool_warnings :: "string \<Rightarrow> string list \<Rightarrow> pydict \<Rightarrow> string list" where
  "bool_warnings key expected d =
     (let kinds = (case map_of SCHEMA_FIELD_KINDS key of None \<Rightarrow> [] | Some k \<Rightarrow> k) in
      map (\<lambda>f. key @ '' '' @ f @ '' not bool'')
        (filter (\<lambda>f. has_key d f \<and> map_of kinds f = Some ''bool'' \<and> \<not> is_bool (dget d f)) (sort expected)))"

definition body_warnings :: "msgpack_lib \<Rightarrow> string \<Rightarrow> string list \<Rightarrow> pyval \<Rightarrow> string list option" where
  "body_warnings E key expected body =
     (if key \<in> {''vehicleMeasure'', ''pedestrians''} then
        (case body of
           PList items \<Rightarrow> list_warnings E key expected 0 (take 50 items)
         | _ \<Rightarrow> Some [key @ '' data is not an array''])
      else if key = ''pedWarning'' then
        (case body of
           PDict d \<Rightarrow> map_option (\<lambda>ws. ws @ bool_warnings key expected d) (shape_warnings E key expected d)
         | _ \<Rightarrow> Some [''pedWarning data is not a dict''])
      else (case body of PDict d \<Rightarrow> shape_warnings E key expected d | _ \<Rightarrow> Some []))"

definition missing_key_warnings :: "string \<Rightarrow> string list \<Rightarrow> pydict \<Rightarrow> string list" where
  "missing_key_warnings label names d =
     map (\<lambda>k. label @ '' missing key: '' @ k) (filter (\<lambda>k. \<not> has_key d k) names)"

definition OUTER_FIELDS :: "string list" where
  "OUTER_FIELDS = [''time'', ''source'', ''topic'', ''data'']"

definition INNER_FIELDS :: "string list" where
  "INNER_FIELDS = [''frame_id'', ''time'', ''key'', ''data'']"

definition inner_warnings :: "msgpack_lib \<Rightarrow> pydict \<Rightarrow> string list option" where
  "inner_warnings E d =
     (let w0 = missing_key_warnings ''inner'' INNER_FIELDS d; key = dget d ''key'' in
      if str_in key (map fst SCHEMAS) then
        (case map_of SCHEMAS (the_str key) of
           None \<Rightarrow> Some w0
         | Some expected \<Rightarrow> map_option ((@) w0) (body_warnings E (the_str key) expected (dget d ''data'')))
      else if str_in key STATIC_TSR_KEYS then
        Some (w0 @ [''TSR key statically known; payload schema/units runtime-unverified''])
      else if key \<noteq> PNone then Some (w0 @ [''unknown inner key: '' @ str_of E key])
      else Some w0)"

subsection \<open>The envelope\<close>

definition decode_ws_binary :: "msgpack_lib \<Rightarrow> bytes \<Rightarrow> decode_result option" where
  "decode_ws_binary E payload =
     (case unpackb E payload of
        Inl _ \<Rightarrow> None
      | Inr (PDict d) \<Rightarrow>
          (let w0 = missing_key_warnings ''outer'' OUTER_FIELDS d;
               raw = dget d ''data'';
               (inn, w1) = (case raw of
                   PBytes b \<Rightarrow> (case unpackb E b of
                       Inl e \<Rightarrow> (PNone, [''inner MessagePack decode failed: '' @ e])
                     | Inr v \<Rightarrow> (v, []))
                 | _ \<Rightarrow> (raw, []))
           in (case inn of
                 PDict di \<Rightarrow>
                   (case inner_warnings E di of
                      None \<Rightarrow> None
                    | Some w2 \<Rightarrow> Some \<lparr>outer = PDict d, inner = inn, warnings = w0 @ w1 @ w2\<rparr>)
               | _ \<Rightarrow> Some \<lparr>outer = PDict d, inner = inn, warnings = w0 @ w1\<rparr>))
      | Inr v \<Rightarrow> Some \<lparr>outer = PDict [], inner = v, warnings = [''outer frame is not a map'']\<rparr>)"

subsection \<open>The frames a stock ScreenService sends\<close>

text \<open>\<open>frame\<close> of \<open>tools/m4/make_fixture.py\<close>: an inner map packed as binary data of an outer map.\<close>

definition frame_inner :: "string \<Rightarrow> pyval \<Rightarrow> int \<Rightarrow> int \<Rightarrow> pydict" where
  "frame_inner key data frame_id t =
     [(PStr ''frame_id'', PInt frame_id), (PStr ''time'', PInt t), (PStr ''key'', PStr key),
      (PStr ''data'', data)]"

definition frame_outer :: "msgpack_lib \<Rightarrow> string \<Rightarrow> string \<Rightarrow> pyval \<Rightarrow> int \<Rightarrow> int \<Rightarrow> pydict" where
  "frame_outer E topic key data frame_id t =
     [(PStr ''time'', PInt t), (PStr ''source'', PStr ''AdasScreenService''), (PStr ''topic'', PStr topic),
      (PStr ''data'', PBytes (packb E (PDict (frame_inner key data frame_id t))))]"

definition frame :: "msgpack_lib \<Rightarrow> string \<Rightarrow> string \<Rightarrow> pyval \<Rightarrow> int \<Rightarrow> int \<Rightarrow> bytes" where
  "frame E topic key data frame_id t = packb E (PDict (frame_outer E topic key data frame_id t))"

subsection \<open>Which warnings can occur\<close>

text \<open>
  A warning either names only documented fields (it says that something is \<open>missing\<close>), or is one
  of the other forms, recognisable by a fixed part of its text.
\<close>

inductive_set missing_texts :: "string set" where
  outer: "k \<in> set OUTER_FIELDS \<Longrightarrow> ''outer'' @ '' missing key: '' @ k \<in> missing_texts"
| inner: "k \<in> set INNER_FIELDS \<Longrightarrow> ''inner'' @ '' missing key: '' @ k \<in> missing_texts"
| body: "(key, fs) \<in> set SCHEMAS \<Longrightarrow> set ns \<subseteq> set fs \<Longrightarrow> key @ '' missing: '' @ repr_names ns \<in> missing_texts"
| item: "(key, fs) \<in> set SCHEMAS \<Longrightarrow> set ns \<subseteq> set fs \<Longrightarrow>
     (key @ ''['' @ show_nat i @ '']'') @ '' missing: '' @ repr_names ns \<in> missing_texts"

inductive_set other_texts :: "string set" where
  extra: "a @ '' extra: '' @ b \<in> other_texts"
| failed: "''inner MessagePack decode failed: '' @ e \<in> other_texts"
| unknown: "''unknown inner key: '' @ k \<in> other_texts"
| not_map: "''outer frame is not a map'' \<in> other_texts"
| tsr: "''TSR key statically known; payload schema/units runtime-unverified'' \<in> other_texts"
| not_array: "key \<in> {''vehicleMeasure'', ''pedestrians''} \<Longrightarrow> key @ '' data is not an array'' \<in> other_texts"
| not_dict: "''pedWarning data is not a dict'' \<in> other_texts"
| not_bool: "f \<in> {''ped_on'', ''pcw_on''} \<Longrightarrow> ''pedWarning'' @ '' '' @ f @ '' not bool'' \<in> other_texts"

abbreviation texts :: "string set" where
  "texts \<equiv> missing_texts \<union> other_texts"

lemma set_map_filterI: "(\<And>x. x \<in> set xs \<Longrightarrow> P x \<Longrightarrow> f x \<in> A) \<Longrightarrow> set (map f (filter P xs)) \<subseteq> A"
  by auto

lemma shape_warnings_texts:
  assumes "shape_warnings E label fs d = Some ws"
    and "\<And>ns. set ns \<subseteq> set fs \<Longrightarrow> label @ '' missing: '' @ repr_names ns \<in> missing_texts"
  shows "set ws \<subseteq> texts"
proof -
  have "set (missing_fields fs d) \<subseteq> set fs" by (auto simp: missing_fields_def)
  then have m: "label @ '' missing: '' @ repr_names (missing_fields fs d) \<in> missing_texts"
    by (rule assms(2))
  have x: "label @ '' extra: '' @ r \<in> other_texts" for r by (rule other_texts.extra)
  have "set ws \<subseteq> {label @ '' missing: '' @ repr_names (missing_fields fs d),
      label @ '' extra: '' @ repr_list E (extra_keys fs d)}"
    using assms(1) unfolding shape_warnings_def Let_def by (auto split: if_splits)
  with m x show ?thesis by blast
qed

lemma list_warnings_texts:
  "list_warnings E key fs i items = Some ws \<Longrightarrow> (key, fs) \<in> set SCHEMAS \<Longrightarrow> set ws \<subseteq> texts"
proof (induction E key fs i items arbitrary: ws rule: list_warnings.induct)
  case (2 E key expected i d items)
  from "2.prems"(1) obtain w1 w2 where
    w: "shape_warnings E (key @ ''['' @ show_nat i @ '']'') expected d = Some w1"
      "list_warnings E key expected (Suc i) items = Some w2" "ws = w1 @ w2"
    by (auto split: option.splits)
  have "set w1 \<subseteq> texts"
    using shape_warnings_texts [OF w(1)] missing_texts.item [OF "2.prems"(2)] by blast
  moreover have "set w2 \<subseteq> texts" using "2.IH" [OF w(1,2) "2.prems"(2)] .
  ultimately show ?case using w(3) by simp
qed simp_all

lemma bool_warnings_texts: "set (bool_warnings ''pedWarning'' fs d) \<subseteq> other_texts"
proof -
  have "map_of [(''ped_on'', ''bool''), (''pcw_on'', ''bool'')] f = Some ''bool'' \<Longrightarrow>
      f \<in> {''ped_on'', ''pcw_on''}" for f :: string
    by (auto split: if_splits)
  then show ?thesis unfolding bool_warnings_def Let_def SCHEMA_FIELD_KINDS_def
    by (intro set_map_filterI other_texts.not_bool) simp
qed

lemma body_warnings_texts:
  assumes "body_warnings E key fs body = Some ws" and "(key, fs) \<in> set SCHEMAS"
  shows "set ws \<subseteq> texts"
proof -
  have sw: "shape_warnings E key fs d = Some w \<Longrightarrow> set w \<subseteq> texts" for d w
    using shape_warnings_texts missing_texts.body [OF assms(2)] by blast
  consider (arr) "key \<in> {''vehicleMeasure'', ''pedestrians''}" | (ped) "key = ''pedWarning''"
    | (dict) "key \<notin> {''vehicleMeasure'', ''pedestrians''}" "key \<noteq> ''pedWarning''" by blast
  then show ?thesis
  proof cases
    case arr
    then have "ws = [key @ '' data is not an array'']
        \<or> (\<exists>items. list_warnings E key fs 0 items = Some ws)"
      using assms(1) unfolding body_warnings_def by (cases body) auto
    then show ?thesis
    proof (elim disjE exE)
      assume "ws = [key @ '' data is not an array'']"
      then show ?thesis using other_texts.not_array [OF arr] by simp
    next
      fix items assume "list_warnings E key fs 0 items = Some ws"
      then show ?thesis using assms(2) by (rule list_warnings_texts)
    qed
  next
    case ped
    then have "ws = [''pedWarning data is not a dict'']
        \<or> (\<exists>d w. shape_warnings E key fs d = Some w \<and> ws = w @ bool_warnings ''pedWarning'' fs d)"
      using assms(1) unfolding body_warnings_def by (cases body) auto
    then show ?thesis using sw bool_warnings_texts other_texts.not_dict by fastforce
  next
    case dict
    then have "ws = [] \<or> (\<exists>d. shape_warnings E key fs d = Some ws)"
      using assms(1) unfolding body_warnings_def by (cases body) auto
    then show ?thesis using sw by auto
  qed
qed

lemma missing_key_texts:
  "set (missing_key_warnings ''outer'' OUTER_FIELDS d) \<subseteq> missing_texts"
  "set (missing_key_warnings ''inner'' INNER_FIELDS d) \<subseteq> missing_texts"
  unfolding missing_key_warnings_def
  by (intro set_map_filterI missing_texts.outer missing_texts.inner; assumption)+

lemma inner_warnings_texts:
  assumes "inner_warnings E d = Some ws"
  shows "set ws \<subseteq> texts"
proof -
  define w0 where "w0 = missing_key_warnings ''inner'' INNER_FIELDS d"
  define tsr where "tsr = ''TSR key statically known; payload schema/units runtime-unverified''"
  define unk where "unk = ''unknown inner key: '' @ str_of E (dget d ''key'')"
  have "ws = w0 \<or> ws = w0 @ [tsr] \<or> ws = w0 @ [unk] \<or>
      (\<exists>k fs b w. map_of SCHEMAS k = Some fs \<and> body_warnings E k fs b = Some w \<and> ws = w0 @ w)"
    using assms unfolding inner_warnings_def Let_def w0_def [symmetric] tsr_def [symmetric] unk_def [symmetric]
    by (auto split: if_splits option.splits)
  moreover have "set w0 \<subseteq> texts" unfolding w0_def using missing_key_texts by blast
  moreover have "tsr \<in> other_texts" "unk \<in> other_texts"
    unfolding tsr_def unk_def by (rule other_texts.intros)+
  moreover have "set w \<subseteq> texts" if "map_of SCHEMAS k = Some fs" "body_warnings E k fs b = Some w"
    for k fs b w using body_warnings_texts [OF that(2) map_of_SomeD [OF that(1)]] .
  ultimately show ?thesis by (elim disjE exE conjE) simp_all
qed

lemma decode_ws_binary_texts:
  assumes "decode_ws_binary E payload = Some r"
  shows "set (warnings r) \<subseteq> texts"
proof (cases "unpackb E payload")
  case (Inl e)
  with assms show ?thesis by (simp add: decode_ws_binary_def)
next
  case (Inr v)
  define nm where "nm = ''outer frame is not a map''"
  have "nm \<in> other_texts" unfolding nm_def by (rule other_texts.not_map)
  moreover have "set (warnings r) \<subseteq> texts" if v: "v = PDict d" for d
  proof -
    define w0 where "w0 = missing_key_warnings ''outer'' OUTER_FIELDS d"
    have w0: "set w0 \<subseteq> missing_texts" unfolding w0_def by (rule missing_key_texts)
    define p where "p = (case dget d ''data'' of
                   PBytes b \<Rightarrow> (case unpackb E b of
                       Inl e \<Rightarrow> (PNone, [''inner MessagePack decode failed: '' @ e])
                     | Inr v \<Rightarrow> (v, []))
                 | _ \<Rightarrow> (dget d ''data'', []))"
    obtain inn w1 where iw: "p = (inn, w1)" by force
    have "snd p = [] \<or> (\<exists>e. snd p = [''inner MessagePack decode failed: '' @ e])"
      unfolding p_def by (auto split: pyval.splits sum.splits)
    then have w1: "set w1 \<subseteq> other_texts" using iw other_texts.failed by auto
    have "warnings r = w0 @ w1 \<or> (\<exists>di w2. inner_warnings E di = Some w2 \<and> warnings r = w0 @ w1 @ w2)"
      using assms unfolding decode_ws_binary_def Inr v sum.case pyval.case Let_def
        p_def [symmetric] w0_def [symmetric] iw prod.case
      by (cases inn) (auto split: option.splits)
    then show ?thesis using w0 w1 inner_warnings_texts by fastforce
  qed
  moreover have "warnings r = [nm]" if "\<And>d. v \<noteq> PDict d"
    using assms that Inr unfolding decode_ws_binary_def nm_def by (cases v) auto
  ultimately show ?thesis by (cases "\<exists>d. v = PDict d") auto
qed

end
