(* ===== verification/Redact.thy ===== *)
theory Redact
  imports Libflow
begin

text \<open>
  The publishing side of \<open>tools/m4/decode_passive_records.py\<close>: \<open>_type_kind\<close>, the policy file
  loader, \<open>safe_json_summary\<close> and \<open>safe_msgpack_summary\<close>. They turn a decoded application message
  into metadata that may be reported. A summary is a record with one field per report key; a key
  that a branch of the source does not set is \<open>None\<close>, \<open>[]\<close>, \<open>0\<close> or \<open>False\<close>.

  Shown: every string a summary carries comes from a fixed list of documented names and texts;
  the JSON summary does not depend on the values of the message; a recognised schema is exact.
\<close>

subsection \<open>Type kinds and policy\<close>

fun type_kind :: "pyval \<Rightarrow> string" where
  "type_kind PNone = ''null''"
| "type_kind (PBool _) = ''bool''"
| "type_kind (PInt _) = ''int''"
| "type_kind (PFloat _) = ''float''"
| "type_kind (PStr _) = ''str''"
| "type_kind (PBytes _) = ''bytes''"
| "type_kind (PDict _) = ''dict''"
| "type_kind (PList _) = ''list''"
| "type_kind (PTuple _) = ''list''"
| "type_kind POther = ''other''"

definition TYPE_KINDS :: "string list" where
  "TYPE_KINDS = [''null'', ''bool'', ''int'', ''float'', ''str'', ''bytes'', ''dict'', ''list'', ''other'']"

definition DOCUMENTED_JSON_SHAPES :: "(string \<times> string list) list" where
  "DOCUMENTED_JSON_SHAPES =
    [(''DispBrightSet'', [''type'', ''uuid'', ''brightness'']),
     (''StorageStatus'', [''type'', ''uuid'', ''status'']),
     (''ScreenModeSet'', [''type'', ''uuid'', ''theme'']),
     (''ClientConn'', [''type'', ''uuid'', ''connected''])]"

definition OBSERVED_JSON_SHAPES :: "(string \<times> string list) list" where
  "OBSERVED_JSON_SHAPES = [(''GPSSpeed'', [''type'', ''uuid'', ''speed''])]"

definition ALLOW_JSON_UUIDS :: "string list" where
  "ALLOW_JSON_UUIDS = map fst DOCUMENTED_JSON_SHAPES"

definition DENY_JSON_UUIDS :: "string list" where
  "DENY_JSON_UUIDS = [''AdasStatus'', ''HeavyCalibStatus'', ''GPSLevel'', ''GPSSpeed'', ''RecordVoice'']"

fun strings_of :: "pyval list \<Rightarrow> string list" where
  "strings_of [] = []"
| "strings_of (PStr s # vs) = s # strings_of vs"
| "strings_of (_ # vs) = strings_of vs"

text \<open>
  The sets read from \<open>m4_policy.json\<close>: \<open>None\<close> when the file is absent, too large or not JSON.
  A set of names is a list in which order and repetition do not matter.
\<close>

type_synonym policy = "string list \<times> string list"

definition load_policy_uuid_sets :: "pyval option \<Rightarrow> policy" where
  "load_policy_uuid_sets pol =
     (case pol of
        Some (PDict obj) \<Rightarrow>
          (case (dget obj ''allow_l2_json_uuids'', dget obj ''deny_json_uuids'') of
             (PList allow, PList deny) \<Rightarrow>
               (let a = strings_of allow; d = strings_of deny;
                    known = ALLOW_JSON_UUIDS @ DENY_JSON_UUIDS
                in if a \<noteq> [] \<and> d \<noteq> []
                   then (filter (\<lambda>s. s \<in> set known) a @ ALLOW_JSON_UUIDS,
                         filter (\<lambda>s. s \<in> set known) d @ DENY_JSON_UUIDS)
                   else (ALLOW_JSON_UUIDS, DENY_JSON_UUIDS))
           | _ \<Rightarrow> (ALLOW_JSON_UUIDS, DENY_JSON_UUIDS))
      | _ \<Rightarrow> (ALLOW_JSON_UUIDS, DENY_JSON_UUIDS))"

definition KNOWN_JSON_UUIDS :: "policy \<Rightarrow> string list" where
  "KNOWN_JSON_UUIDS p = fst p @ snd p"

subsection \<open>JSON messages\<close>

record receive_only =
  ro_field_types_ok :: bool
  ro_stock_type_matches :: bool
  ro_observed_schema_ok :: bool

record json_summary =
  js_dict_size :: nat
  js_uuid_known :: bool
  js_uuid_class :: string
  js_uuid :: string
  js_known_message :: bool
  js_fields_present :: "string list"
  js_fields_missing :: "string list"
  js_extra_field_count :: nat
  js_shape_ok :: bool
  js_field_type_kinds :: "(string \<times> string) list"
  js_recognized_schema :: bool
  js_receive_only :: "receive_only option"
  js_type_histogram :: "(string \<times> nat) list option"

definition uuid_class :: "policy \<Rightarrow> pyval \<Rightarrow> string" where
  "uuid_class p uuid = (if str_in uuid (fst p) then ''ALLOW-L2''
     else if str_in uuid (snd p) then ''DENY'' else ''UNKNOWN'')"

definition histogram :: "pydict \<Rightarrow> (string \<times> nat) list" where
  "histogram obj = (let kinds = map (\<lambda>kv. type_kind (snd kv)) obj
     in map (\<lambda>k. (k, count_list kinds k)) (sort (remdups kinds)))"

text \<open>Which shape a known uuid has, with \<open>receive_only\<close>; \<open>None\<close> sends the message to the
  redacting branch.\<close>

definition json_want :: "policy \<Rightarrow> pyval \<Rightarrow> (bool \<times> string list) option" where
  "json_want p uuid_val =
     (if str_in uuid_val (KNOWN_JSON_UUIDS p) then
        (case map_of OBSERVED_JSON_SHAPES (the_str uuid_val) of
           Some want \<Rightarrow> Some (True, want)
         | None \<Rightarrow> map_option (Pair False) (map_of DOCUMENTED_JSON_SHAPES (the_str uuid_val)))
      else None)"

definition json_base :: "policy \<Rightarrow> pydict \<Rightarrow> json_summary" where
  "json_base p obj =
     (let uuid_val = dget obj ''uuid''; uuid_known = str_in uuid_val (KNOWN_JSON_UUIDS p) in
      \<lparr>js_dict_size = length obj, js_uuid_known = uuid_known, js_uuid_class = uuid_class p uuid_val,
       js_uuid = (if uuid_known then the_str uuid_val
                  else if has_key obj ''uuid'' then ''REDACTED_UNKNOWN'' else ''ABSENT''),
       js_known_message = uuid_known, js_fields_present = [], js_fields_missing = [],
       js_extra_field_count = length obj, js_shape_ok = False, js_field_type_kinds = [],
       js_recognized_schema = False, js_receive_only = None, js_type_histogram = Some (histogram obj)\<rparr>)"

definition json_shaped :: "bool \<Rightarrow> string list \<Rightarrow> pydict \<Rightarrow> json_summary \<Rightarrow> json_summary" where
  "json_shaped receive_only want obj base =
     (let present = sort (filter (\<lambda>k. k \<in> set want) (str_keys obj));
          missing = sort (filter (\<lambda>k. k \<notin> set (str_keys obj)) want);
          extra_count = length (filter (\<lambda>k. \<not> str_in k want) (map fst obj));
          shape_ok = (extra_count = 0 \<and> missing = []);
          types_ok = (is_int (dget obj ''type'') \<and> is_int (dget obj ''speed'') \<and> is_str (dget obj ''uuid''));
          stock = (dget obj ''type'' = PInt 1601)
      in base\<lparr>js_fields_present := present, js_fields_missing := missing,
           js_extra_field_count := extra_count, js_shape_ok := shape_ok,
           js_field_type_kinds := map (\<lambda>k. (k, type_kind (dget obj k))) present,
           js_recognized_schema := (shape_ok \<and> \<not> receive_only),
           js_receive_only := (if receive_only then
               Some \<lparr>ro_field_types_ok = types_ok, ro_stock_type_matches = stock,
                     ro_observed_schema_ok = (shape_ok \<and> types_ok \<and> stock)\<rparr>
             else None),
           js_type_histogram := None\<rparr>)"

definition safe_json_summary :: "policy \<Rightarrow> pydict \<Rightarrow> json_summary" where
  "safe_json_summary p obj =
     (case json_want p (dget obj ''uuid'') of
        Some (receive_only, want) \<Rightarrow> json_shaped receive_only want obj (json_base p obj)
      | None \<Rightarrow> json_base p obj)"

text \<open>Every string of the report part of a JSON message.\<close>

definition json_strings :: "json_summary \<Rightarrow> string list" where
  "json_strings s = [js_uuid_class s, js_uuid s] @ js_fields_present s @ js_fields_missing s
     @ concat (map (\<lambda>(k, t). [k, t]) (js_field_type_kinds s))
     @ (case js_type_histogram s of None \<Rightarrow> [] | Some h \<Rightarrow> map fst h)"

definition json_allowed :: "string list" where
  "json_allowed = ALLOW_JSON_UUIDS @ DENY_JSON_UUIDS @ TYPE_KINDS
     @ concat (map snd (DOCUMENTED_JSON_SHAPES @ OBSERVED_JSON_SHAPES))
     @ [''ALLOW-L2'', ''DENY'', ''UNKNOWN'', ''REDACTED_UNKNOWN'', ''ABSENT'']"

subsection \<open>Libflow messages\<close>

record outer_info =
  oi_is_dict :: bool
  oi_field_count :: nat
  oi_expected_present :: "string list"
  oi_expected_missing :: "string list"
  oi_extra_field_count :: nat
  oi_topic_known :: bool
  oi_topic :: string
  oi_has_data_bin :: bool

record inner_info =
  ii_is_dict :: bool
  ii_field_count :: nat
  ii_expected_present :: "string list"
  ii_expected_missing :: "string list"
  ii_extra_field_count :: nat
  ii_key_known :: bool
  ii_key :: string

record body_info =
  bi_kind :: string
  bi_item_count :: nat
  bi_fields_present :: "string list"
  bi_fields_missing :: "string list"
  bi_extra_field_count :: nat
  bi_field_type_kinds :: "(string \<times> string) list"
  bi_items_checked :: nat
  bi_items_missing_total :: nat
  bi_items_extra_total :: nat
  bi_names_redacted :: bool
  bi_runtime_unverified :: bool
  bi_schema_ok :: bool
  bi_known_message :: bool

record msgpack_detail =
  md_outer :: outer_info
  md_inner :: inner_info
  md_body :: body_info
  md_field_types_ok :: "bool option"
  md_warnings_count :: nat
  md_warnings :: "string list"

record msgpack_summary =
  mp_decode_ok :: bool
  mp_recognized_schema :: bool
  mp_known_message :: bool
  mp_schema_ok :: bool
  mp_outer_complete :: bool
  mp_inner_complete :: bool
  mp_decode_error :: "string option"
  mp_detail :: "msgpack_detail option"

definition failed_summary :: "string \<Rightarrow> msgpack_summary" where
  "failed_summary err = \<lparr>mp_decode_ok = False, mp_recognized_schema = False, mp_known_message = False,
     mp_schema_ok = False, mp_outer_complete = False, mp_inner_complete = False,
     mp_decode_error = Some err, mp_detail = None\<rparr>"

definition set_minus :: "string list \<Rightarrow> string list \<Rightarrow> string list" where
  "set_minus xs ys = filter (\<lambda>x. x \<notin> set ys) xs"

definition set_inter :: "string list \<Rightarrow> string list \<Rightarrow> string list" where
  "set_inter xs ys = filter (\<lambda>x. x \<in> set ys) xs"

definition redact :: "bool \<Rightarrow> pyval \<Rightarrow> bool \<Rightarrow> string" where
  "redact known v here = (if known then the_str v else if here then ''REDACTED_UNKNOWN'' else ''ABSENT'')"

definition outer_part :: "pyval \<Rightarrow> outer_info \<times> bool" where
  "outer_part ov =
     (case ov of
        PDict d \<Rightarrow>
          (let topic_val = dget d ''topic''; topic_known = str_in topic_val KNOWN_TOPICS; ks = str_keys d in
           (\<lparr>oi_is_dict = True, oi_field_count = length d,
             oi_expected_present = sort (set_inter ks OUTER_FIELDS),
             oi_expected_missing = sort (set_minus OUTER_FIELDS ks),
             oi_extra_field_count = length (set_minus ks OUTER_FIELDS),
             oi_topic_known = topic_known,
             oi_topic = redact topic_known topic_val (has_key d ''topic''),
             oi_has_data_bin = is_bytes (dget d ''data'')\<rparr>,
            set_minus OUTER_FIELDS ks = [] \<and> is_bytes (dget d ''data'')))
      | _ \<Rightarrow>
          (\<lparr>oi_is_dict = False, oi_field_count = 0, oi_expected_present = [], oi_expected_missing = [],
            oi_extra_field_count = 0, oi_topic_known = False, oi_topic = ''REDACTED_UNKNOWN'',
            oi_has_data_bin = False\<rparr>, False))"

definition blank_body :: body_info where
  "blank_body = \<lparr>bi_kind = [], bi_item_count = 0, bi_fields_present = [], bi_fields_missing = [],
     bi_extra_field_count = 0, bi_field_type_kinds = [], bi_items_checked = 0,
     bi_items_missing_total = 0, bi_items_extra_total = 0, bi_names_redacted = True,
     bi_runtime_unverified = False, bi_schema_ok = False, bi_known_message = False\<rparr>"

fun item_count :: "pyval \<Rightarrow> nat" where
  "item_count (PList xs) = length xs"
| "item_count (PTuple xs) = length xs"
| "item_count (PDict d) = length d"
| "item_count _ = 0"

text \<open>The loop over the first 50 items of a list body: checked, missing and extra totals.\<close>

fun scan_items :: "string list \<Rightarrow> pyval list \<Rightarrow> nat \<times> nat \<times> nat \<Rightarrow> nat \<times> nat \<times> nat" where
  "scan_items expected [] acc = acc"
| "scan_items expected (PDict d # items) (c, m, x) =
     scan_items expected items
       (c + 1, m + length (set_minus expected (str_keys d)),
        x + (length d - length (set_inter (str_keys d) expected)))"
| "scan_items expected (_ # items) acc = scan_items expected items acc"

text \<open>The two branches without a schema: the statically known TSR keys, and anything else.\<close>

definition unschemed_body :: "bool \<Rightarrow> pyval \<Rightarrow> pyval \<Rightarrow> body_info" where
  "unschemed_body known key_val body =
     blank_body\<lparr>bi_kind := type_kind body, bi_item_count := item_count body,
       bi_runtime_unverified := str_in key_val STATIC_TSR_KEYS,
       bi_known_message := (str_in key_val STATIC_TSR_KEYS \<and> known)\<rparr>"

definition dict_body :: "bool \<Rightarrow> string list \<Rightarrow> pydict \<Rightarrow> body_info" where
  "dict_body known expected d =
     (let ks = str_keys d; present = sort (set_inter ks expected); missing = sort (set_minus expected ks);
          extra = length d - length present
      in blank_body\<lparr>bi_kind := ''dict'', bi_item_count := length d,
           bi_fields_present := present, bi_fields_missing := missing,
           bi_extra_field_count := extra,
           bi_field_type_kinds := map (\<lambda>k. (k, type_kind (dget d k))) present,
           bi_names_redacted := False,
           bi_schema_ok := (extra = 0 \<and> missing = []), bi_known_message := known\<rparr>)"

definition list_body :: "bool \<Rightarrow> string list \<Rightarrow> pyval list \<Rightarrow> body_info" where
  "list_body known expected items =
     (let (checked, missing, extra) = scan_items expected (take 50 items) (0, 0, 0)
      in blank_body\<lparr>bi_kind := ''list'', bi_item_count := length items,
           bi_items_checked := checked, bi_items_missing_total := missing,
           bi_items_extra_total := extra,
           bi_schema_ok := (missing = 0 \<and> extra = 0 \<and> checked = length items),
           bi_known_message := known\<rparr>)"

definition body_part :: "bool \<Rightarrow> pyval \<Rightarrow> pyval \<Rightarrow> body_info" where
  "body_part known key_val body =
     (if str_in key_val (map fst SCHEMAS) then
        (let expected = the (map_of SCHEMAS (the_str key_val)) in
         case body of
           PDict d \<Rightarrow> dict_body known expected d
         | PList items \<Rightarrow> list_body known expected items
         | _ \<Rightarrow> unschemed_body known key_val body)
      else unschemed_body known key_val body)"

definition inner_part :: "bool \<Rightarrow> pyval \<Rightarrow> inner_info \<times> body_info \<times> bool" where
  "inner_part topic_known iv =
     (case iv of
        PDict d \<Rightarrow>
          (let key_val = dget d ''key''; key_known = str_in key_val KNOWN_KEYS; ks = str_keys d in
           (\<lparr>ii_is_dict = True, ii_field_count = length d,
             ii_expected_present = sort (set_inter ks INNER_FIELDS),
             ii_expected_missing = sort (set_minus INNER_FIELDS ks),
             ii_extra_field_count = length (set_minus ks INNER_FIELDS),
             ii_key_known = key_known, ii_key = redact key_known key_val (has_key d ''key'')\<rparr>,
            body_part (topic_known \<and> key_known) key_val (dget d ''data''),
            set_minus INNER_FIELDS ks = []))
      | _ \<Rightarrow>
          (\<lparr>ii_is_dict = False, ii_field_count = 0, ii_expected_present = [], ii_expected_missing = [],
            ii_extra_field_count = 0, ii_key_known = False, ii_key = ''REDACTED_UNKNOWN''\<rparr>,
           blank_body\<lparr>bi_kind := type_kind iv\<rparr>, False))"

text \<open>The extra conditions on \<open>pedWarning\<close>: both fields are bools and the topic is \<open>ped\<close>.\<close>

definition ped_types_ok :: "pyval \<Rightarrow> bool" where
  "ped_types_ok body =
     (let kinds = (case map_of SCHEMA_FIELD_KINDS ''pedWarning'' of None \<Rightarrow> [] | Some k \<Rightarrow> k) in
      kinds \<noteq> [] \<and>
      (case body of
         PDict d \<Rightarrow> list_all (\<lambda>(field, kind). type_kind (dget d field) = kind) kinds
       | _ \<Rightarrow> False))"

definition sanitize_warning :: "string \<Rightarrow> string" where
  "sanitize_warning s =
     (if prefix ''unknown inner key:'' s then ''unknown inner key: REDACTED''
      else if contains ''extra:'' s \<or> contains ''extra '' s then ''schema extra fields present (names redacted)''
      else if contains ''inner MessagePack decode failed'' s then ''inner MessagePack decode failed''
      else if contains ''outer frame is not a map'' s then ''outer frame is not a map''
      else if contains ''missing'' s then take 160 s
      else if contains ''runtime-unverified'' s
        then ''TSR key statically known; payload schema/units runtime-unverified''
      else ''schema warning (redacted)'')"

fun inner_key :: "pyval \<Rightarrow> pyval" where
  "inner_key (PDict d) = dget d ''key''"
| "inner_key _ = PNone"

fun inner_data :: "pyval \<Rightarrow> pyval" where
  "inner_data (PDict d) = dget d ''data''"
| "inner_data _ = PNone"

definition summarize_envelope :: "decode_result \<Rightarrow> msgpack_summary" where
  "summarize_envelope r =
     (let (oi, outer_complete) = outer_part (outer r);
          (ii, bi, inner_complete) = inner_part (oi_topic_known oi) (inner r);
          is_ped = (is_dict (inner r) \<and> inner_key (inner r) = PStr ''pedWarning'');
          types_ok = ped_types_ok (inner_data (inner r));
          schema_ok = (if is_ped then bi_schema_ok bi \<and> is_dict (inner_data (inner r)) \<and> types_ok
                       else bi_schema_ok bi);
          known_message = (if is_ped then bi_known_message bi
                             \<and> (case outer r of PDict d \<Rightarrow> dget d ''topic'' = PStr ''ped'' | _ \<Rightarrow> False)
                           else bi_known_message bi);
          decode_ok = (oi_is_dict oi \<and> ii_is_dict ii)
      in \<lparr>mp_decode_ok = decode_ok,
          mp_recognized_schema = (decode_ok \<and> known_message \<and> outer_complete \<and> inner_complete \<and> schema_ok),
          mp_known_message = known_message, mp_schema_ok = schema_ok,
          mp_outer_complete = outer_complete, mp_inner_complete = inner_complete,
          mp_decode_error = (if decode_ok then None else Some ''libflow envelope is not dict outer+inner''),
          mp_detail = Some \<lparr>md_outer = oi, md_inner = ii, md_body = bi,
            md_field_types_ok = (if is_ped then Some types_ok else None),
            md_warnings_count = length (warnings r),
            md_warnings = take 8 (map sanitize_warning (warnings r))\<rparr>\<rparr>)"

text \<open>\<open>lib\<close> is \<open>None\<close> when the protocol module cannot be imported (\<open>_LIB_AVAILABLE\<close> is false).\<close>

definition safe_msgpack_summary :: "msgpack_lib option \<Rightarrow> bytes \<Rightarrow> msgpack_summary" where
  "safe_msgpack_summary lib payload =
     (case lib of
        None \<Rightarrow> failed_summary ''libflow decoder unavailable (fail-closed)''
      | Some E \<Rightarrow>
          (case decode_ws_binary E payload of
             None \<Rightarrow> failed_summary ''inner MessagePack decode failed''
           | Some r \<Rightarrow> summarize_envelope r))"

definition msgpack_strings :: "msgpack_summary \<Rightarrow> string list" where
  "msgpack_strings s =
     (case mp_decode_error s of None \<Rightarrow> [] | Some e \<Rightarrow> [e]) @
     (case mp_detail s of
        None \<Rightarrow> []
      | Some d \<Rightarrow>
          oi_topic (md_outer d) # oi_expected_present (md_outer d) @ oi_expected_missing (md_outer d)
          @ ii_key (md_inner d) # ii_expected_present (md_inner d) @ ii_expected_missing (md_inner d)
          @ bi_kind (md_body d) # bi_fields_present (md_body d) @ bi_fields_missing (md_body d)
          @ concat (map (\<lambda>(k, t). [k, t]) (bi_field_type_kinds (md_body d)))
          @ md_warnings d)"

text \<open>What a libflow summary may contain: fixed names and texts, and the (shortened) warnings that
  list documented fields which are missing.\<close>

definition msgpack_names :: "string list" where
  "msgpack_names = KNOWN_TOPICS @ KNOWN_KEYS @ OUTER_FIELDS @ INNER_FIELDS @ concat (map snd SCHEMAS)
     @ TYPE_KINDS @ [[], ''REDACTED_UNKNOWN'', ''ABSENT'', ''libflow decoder unavailable (fail-closed)'',
       ''inner MessagePack decode failed'', ''libflow envelope is not dict outer+inner'',
       ''unknown inner key: REDACTED'', ''schema extra fields present (names redacted)'',
       ''outer frame is not a map'', ''TSR key statically known; payload schema/units runtime-unverified'',
       ''schema warning (redacted)'']"

definition msgpack_allowed :: "string set" where
  "msgpack_allowed = set msgpack_names \<union> take 160 ` missing_texts"

subsection \<open>The contract of a summary\<close>

text \<open>
  A publisher turns a private value into a summary whose strings all come from a fixed set. What
  is outside the set (a raw field name, a value, an address) then cannot appear in any report,
  also not in a report made of many summaries.
\<close>

locale publisher =
  fixes summarise :: "'v \<Rightarrow> 's"
    and strings :: "'s \<Rightarrow> string list"
    and allowed :: "string set"
  assumes only_allowed: "set (strings (summarise v)) \<subseteq> allowed"
begin

lemma private_absent: "t \<notin> allowed \<Longrightarrow> t \<notin> set (strings (summarise v))"
  using only_allowed by blast

lemma report_allowed: "set (concat (map (\<lambda>v. strings (summarise v)) vs)) \<subseteq> allowed"
  using only_allowed by auto

end

lemma type_kind_known: "type_kind v \<in> set TYPE_KINDS"
  by (cases v) (simp_all add: TYPE_KINDS_def)

lemma policy_known:
  "set (KNOWN_JSON_UUIDS (load_policy_uuid_sets pol)) = set (ALLOW_JSON_UUIDS @ DENY_JSON_UUIDS)"
proof -
  have d: "set (KNOWN_JSON_UUIDS (ALLOW_JSON_UUIDS, DENY_JSON_UUIDS)) = set (ALLOW_JSON_UUIDS @ DENY_JSON_UUIDS)"
    by (simp add: KNOWN_JSON_UUIDS_def)
  have f: "set (KNOWN_JSON_UUIDS (filter (\<lambda>s. s \<in> set (ALLOW_JSON_UUIDS @ DENY_JSON_UUIDS)) a @ ALLOW_JSON_UUIDS,
      filter (\<lambda>s. s \<in> set (ALLOW_JSON_UUIDS @ DENY_JSON_UUIDS)) b @ DENY_JSON_UUIDS))
      = set (ALLOW_JSON_UUIDS @ DENY_JSON_UUIDS)" for a b
    by (auto simp: KNOWN_JSON_UUIDS_def)
  show ?thesis using d f
    by (auto simp: load_policy_uuid_sets_def Let_def split: option.splits pyval.splits)
qed

lemma uuid_class_cases: "uuid_class p v \<in> {''ALLOW-L2'', ''DENY'', ''UNKNOWN''}"
  by (simp add: uuid_class_def)

lemma set_histogram: "set (map fst (histogram obj)) \<subseteq> set TYPE_KINDS"
  using type_kind_known by (auto simp: histogram_def Let_def)

lemma json_want_fields: "json_want p v = Some (ro, w) \<Longrightarrow>
    set w \<subseteq> set (concat (map snd (DOCUMENTED_JSON_SHAPES @ OBSERVED_JSON_SHAPES)))"
  unfolding json_want_def by (fastforce split: option.splits if_splits dest!: map_of_SomeD)

lemma json_base_strings:
  "set (json_strings (json_base (load_policy_uuid_sets pol) obj)) \<subseteq> set json_allowed"
proof -
  let ?p = "load_policy_uuid_sets pol" and ?v = "dget obj ''uuid''"
  have "js_uuid (json_base ?p obj) \<in> set json_allowed"
    using str_in_the [of ?v "KNOWN_JSON_UUIDS ?p"] unfolding policy_known
    by (auto simp: json_base_def Let_def json_allowed_def)
  moreover have "js_uuid_class (json_base ?p obj) \<in> set json_allowed"
    using uuid_class_cases [of ?p ?v] by (auto simp: json_base_def Let_def json_allowed_def)
  moreover have "set (map fst (histogram obj)) \<subseteq> set json_allowed"
    using set_histogram [of obj] by (auto simp: json_allowed_def)
  ultimately show ?thesis
    by (simp add: json_strings_def json_base_def Let_def)
qed

lemma json_shaped_strings:
  assumes "set w \<subseteq> set json_allowed" "set (json_strings b) \<subseteq> set json_allowed"
  shows "set (json_strings (json_shaped ro w obj b)) \<subseteq> set json_allowed"
proof -
  let ?present = "sort (filter (\<lambda>k. k \<in> set w) (str_keys obj))"
  have "set ?present \<subseteq> set w" by auto
  moreover have "type_kind v \<in> set json_allowed" for v
    using type_kind_known [of v] by (simp add: json_allowed_def)
  moreover have "{js_uuid_class b, js_uuid b} \<subseteq> set json_allowed"
    using assms(2) by (simp add: json_strings_def)
  ultimately show ?thesis using assms(1)
    by (auto simp: json_strings_def json_shaped_def Let_def)
qed

interpretation json_pub: publisher "safe_json_summary (load_policy_uuid_sets pol)" json_strings "set json_allowed"
  for pol
proof
  fix obj
  show "set (json_strings (safe_json_summary (load_policy_uuid_sets pol) obj)) \<subseteq> set json_allowed"
  proof (cases "json_want (load_policy_uuid_sets pol) (dget obj ''uuid'')")
    case None
    then show ?thesis using json_base_strings by (simp add: safe_json_summary_def)
  next
    case (Some rw)
    obtain ro w where rw: "rw = (ro, w)" by force
    have "set w \<subseteq> set json_allowed" using json_want_fields Some rw by (fastforce simp: json_allowed_def)
    with Some rw show ?thesis
      using json_shaped_strings [OF _ json_base_strings] by (simp add: safe_json_summary_def)
  qed
qed

text \<open>Two messages with the same keys, the same kinds of values and the same uuid are not told apart,
  but for whether \<open>type\<close> is the stock number of a speed message.\<close>

definition same_shape :: "pydict \<Rightarrow> pydict \<Rightarrow> bool" where
  "same_shape a b \<longleftrightarrow> map fst a = map fst b
     \<and> map (\<lambda>kv. type_kind (snd kv)) a = map (\<lambda>kv. type_kind (snd kv)) b
     \<and> dget a ''uuid'' = dget b ''uuid''
     \<and> (dget a ''type'' = PInt 1601 \<longleftrightarrow> dget b ''type'' = PInt 1601)"

lemma same_shape_kind:
  "map fst a = map fst b \<Longrightarrow> map (\<lambda>kv. type_kind (snd kv)) a = map (\<lambda>kv. type_kind (snd kv)) b \<Longrightarrow>
    type_kind (dget a k) = type_kind (dget b k)"
proof (induction a arbitrary: b)
  case (Cons x a)
  then obtain y b' where b: "b = y # b'" by (cases b) auto
  with Cons have "type_kind (dget a k) = type_kind (dget b' k)" by simp
  with Cons.prems b show ?case by (cases x; cases y) (auto simp: dget_def)
qed simp

lemma str_keys_cong: "map fst a = map fst b \<Longrightarrow> str_keys a = str_keys b"
proof (induction a arbitrary: b)
  case (Cons x a)
  then obtain y b' where b: "b = y # b'" "fst x = fst y" "map fst a = map fst b'" by (cases b) auto
  with Cons.IH have "str_keys a = str_keys b'" by blast
  with b show ?case by (cases x; cases y; cases "fst x") auto
qed simp

lemma is_int_kind: "is_int v \<longleftrightarrow> type_kind v = ''int''"
  by (cases v) auto

lemma json_summary_same_shape:
  assumes "same_shape a b"
  shows "safe_json_summary p a = safe_json_summary p b"
proof -
  have keys: "map fst a = map fst b" and kinds: "map (\<lambda>kv. type_kind (snd kv)) a = map (\<lambda>kv. type_kind (snd kv)) b"
    and u: "dget a ''uuid'' = dget b ''uuid''"
    and t: "(dget a ''type'' = PInt 1601) = (dget b ''type'' = PInt 1601)"
    using assms by (auto simp: same_shape_def)
  have sk: "str_keys a = str_keys b" using keys by (rule str_keys_cong)
  have k: "type_kind (dget a x) = type_kind (dget b x)" for x
    using keys kinds by (rule same_shape_kind)
  have i: "is_int (dget a x) = is_int (dget b x)" for x using k by (simp add: is_int_kind)
  have h: "histogram a = histogram b" using kinds by (simp add: histogram_def)
  have hk: "has_key a x = has_key b x" for x using keys by (simp add: has_key_def)
  have l: "length a = length b" using keys by (metis length_map)
  have base: "json_base p a = json_base p b" using u h hk l by (simp add: json_base_def)
  have "json_shaped ro w a c = json_shaped ro w b c" for ro w c
    unfolding json_shaped_def using sk k i u t keys by simp
  with base u show ?thesis by (simp add: safe_json_summary_def split: option.split)
qed

subsection \<open>Recognised JSON shapes\<close>

lemma json_want_recognized:
  "js_recognized_schema (safe_json_summary p obj) \<longleftrightarrow>
    (\<exists>w. json_want p (dget obj ''uuid'') = Some (False, w)
      \<and> filter (\<lambda>k. \<not> str_in k w) (map fst obj) = [] \<and> filter (\<lambda>k. k \<notin> set (str_keys obj)) w = [])"
proof (cases "json_want p (dget obj ''uuid'')")
  case None
  then show ?thesis by (simp add: safe_json_summary_def json_base_def Let_def)
next
  case (Some rw)
  have s: "sort xs = [] \<longleftrightarrow> xs = []" for xs :: "string list"
    by (metis length_0_conv length_sort)
  obtain ro w where rw: "rw = (ro, w)" by force
  with Some show ?thesis
    by (auto simp: safe_json_summary_def json_shaped_def Let_def s filter_map comp_def)
qed

lemma documented_not_observed: "map_of DOCUMENTED_JSON_SHAPES u = Some w \<Longrightarrow> map_of OBSERVED_JSON_SHAPES u = None"
  by (auto simp: DOCUMENTED_JSON_SHAPES_def OBSERVED_JSON_SHAPES_def split: if_splits)

lemma documented_allowed: "map_of DOCUMENTED_JSON_SHAPES u = Some w \<Longrightarrow> u \<in> set ALLOW_JSON_UUIDS"
  unfolding ALLOW_JSON_UUIDS_def by (force dest: map_of_SomeD)

lemma json_want_documented:
  "json_want (load_policy_uuid_sets pol) v = Some (False, w) \<longleftrightarrow>
    (\<exists>u. v = PStr u \<and> map_of DOCUMENTED_JSON_SHAPES u = Some w)"
proof
  assume "json_want (load_policy_uuid_sets pol) v = Some (False, w)"
  then show "\<exists>u. v = PStr u \<and> map_of DOCUMENTED_JSON_SHAPES u = Some w"
    by (cases v) (auto simp: json_want_def split: if_splits option.splits)
next
  assume "\<exists>u. v = PStr u \<and> map_of DOCUMENTED_JSON_SHAPES u = Some w"
  then obtain u where v: "v = PStr u" and u: "map_of DOCUMENTED_JSON_SHAPES u = Some w" by blast
  have "u \<in> set (KNOWN_JSON_UUIDS (load_policy_uuid_sets pol))"
    unfolding policy_known using documented_allowed [OF u] by simp
  then show "json_want (load_policy_uuid_sets pol) v = Some (False, w)"
    using u v documented_not_observed [OF u] by (simp add: json_want_def)
qed

lemma json_exact_keys:
  "filter (\<lambda>k. \<not> str_in k w) (map fst obj) = [] \<and> filter (\<lambda>k. k \<notin> set (str_keys obj)) w = []
    \<longleftrightarrow> set (map fst obj) = PStr ` set w"
  (is "?l \<longleftrightarrow> ?r")
proof
  assume ?l
  then have "\<forall>k \<in> set (map fst obj). str_in k w" "\<forall>k \<in> set w. has_key obj k"
    by (simp_all add: filter_empty_conv set_str_keys)
  then show ?r by (auto simp: str_in_iff has_key_def)
next
  assume r: ?r
  then show ?l by (auto simp: filter_empty_conv set_str_keys has_key_def str_in_iff)
qed

subsection \<open>Libflow summaries publish documented names only\<close>

lemma names_allowed: "s \<in> set msgpack_names \<Longrightarrow> s \<in> msgpack_allowed"
  by (simp add: msgpack_allowed_def)

lemma contains_mid: "contains p (a @ p @ b)"
  by (rule contains_append_mid)

lemma sanitize_fixed:
  "list_all (\<lambda>w. sanitize_warning w \<in> set msgpack_names)
    [''outer frame is not a map'', ''TSR key statically known; payload schema/units runtime-unverified'',
     ''vehicleMeasure data is not an array'', ''pedestrians data is not an array'',
     ''pedWarning data is not a dict'', ''pedWarning ped_on not bool'', ''pedWarning pcw_on not bool'']"
  by code_simp

lemma sanitize_branches:
  "sanitize_warning w \<in> set msgpack_names \<or>
    (sanitize_warning w = take 160 w \<and> \<not> prefix ''unknown inner key:'' w \<and> \<not> contains ''extra:'' w
      \<and> \<not> contains ''inner MessagePack decode failed'' w)"
  by (simp add: sanitize_warning_def msgpack_names_def)

lemma sanitize_allowed:
  assumes "w \<in> texts"
  shows "sanitize_warning w \<in> msgpack_allowed"
proof (cases "w \<in> missing_texts")
  case True
  then have "take 160 w \<in> msgpack_allowed" unfolding msgpack_allowed_def by blast
  with sanitize_branches [of w] names_allowed show ?thesis by auto
next
  case False
  with assms have "w \<in> other_texts" by blast
  then have "sanitize_warning w \<in> set msgpack_names"
  proof cases
    case (extra a b)
    then have "contains ''extra:'' w" using contains_mid [of "''extra:''" "a @ '' ''" "'' '' @ b"] by simp
    then show ?thesis using sanitize_branches by blast
  next
    case (failed e)
    then have "contains ''inner MessagePack decode failed'' w"
      using contains_mid [of "''inner MessagePack decode failed''" "[]" "'': '' @ e"] by simp
    then show ?thesis using sanitize_branches by blast
  next
    case (unknown k)
    then have "prefix ''unknown inner key:'' w" by simp
    then show ?thesis using sanitize_branches by blast
  qed (use sanitize_fixed in auto)
  then show ?thesis by (rule names_allowed)
qed

lemma redact_allowed: "known = str_in v names \<Longrightarrow> set names \<subseteq> set msgpack_names \<Longrightarrow>
    redact known v h \<in> set msgpack_names"
  using str_in_the [of v names] by (auto simp: redact_def msgpack_names_def)

lemma names_subsets:
  "set KNOWN_TOPICS \<subseteq> set msgpack_names" "set KNOWN_KEYS \<subseteq> set msgpack_names"
  "set OUTER_FIELDS \<subseteq> set msgpack_names" "set INNER_FIELDS \<subseteq> set msgpack_names"
  "set TYPE_KINDS \<subseteq> set msgpack_names" "map_of SCHEMAS k = Some fs \<Longrightarrow> set fs \<subseteq> set msgpack_names"
  "[] \<in> set msgpack_names" "''REDACTED_UNKNOWN'' \<in> set msgpack_names"
  "''libflow envelope is not dict outer+inner'' \<in> set msgpack_names"
  by (auto simp: msgpack_names_def dest!: map_of_SomeD)

lemma type_kind_name: "type_kind v \<in> set msgpack_names"
  using type_kind_known names_subsets(5) by blast

lemma set_inter_sub: "set (sort (set_inter xs ys)) \<subseteq> set ys" and
  set_minus_sub: "set (sort (set_minus ys xs)) \<subseteq> set ys"
  by (auto simp: set_inter_def set_minus_def)

lemma outer_part_names:
  assumes "outer_part ov = (oi, c)"
  shows "insert (oi_topic oi) (set (oi_expected_present oi @ oi_expected_missing oi)) \<subseteq> set msgpack_names"
proof (cases ov)
  case (PDict d)
  have "redact (str_in (dget d ''topic'') KNOWN_TOPICS) (dget d ''topic'') (has_key d ''topic'') \<in> set msgpack_names"
    using redact_allowed names_subsets(1) by blast
  moreover have "set (sort (set_inter (str_keys d) OUTER_FIELDS)) \<subseteq> set msgpack_names"
    "set (sort (set_minus OUTER_FIELDS (str_keys d))) \<subseteq> set msgpack_names"
    using set_inter_sub set_minus_sub names_subsets(3) by blast+
  ultimately show ?thesis using assms unfolding outer_part_def PDict Let_def by auto
qed (use assms names_subsets(8) in \<open>auto simp: outer_part_def\<close>)

definition body_names :: "body_info \<Rightarrow> string set" where
  "body_names bi = insert (bi_kind bi) (set (bi_fields_present bi @ bi_fields_missing bi
     @ concat (map (\<lambda>(k, t). [k, t]) (bi_field_type_kinds bi))))"

lemma unschemed_names: "body_names (unschemed_body known key_val body) \<subseteq> set msgpack_names"
  using type_kind_name by (simp add: body_names_def unschemed_body_def blank_body_def)

lemma schema_of: "str_in k (map fst SCHEMAS) \<Longrightarrow> \<exists>fs. map_of SCHEMAS (the_str k) = Some fs"
  by (auto simp: str_in_iff SCHEMAS_def)

lemma dict_body_names:
  assumes "set fs \<subseteq> set msgpack_names"
  shows "body_names (dict_body known fs d) \<subseteq> set msgpack_names"
proof -
  have "set (sort (set_inter (str_keys d) fs)) \<subseteq> set msgpack_names"
    "set (sort (set_minus fs (str_keys d))) \<subseteq> set msgpack_names"
    using set_inter_sub set_minus_sub assms by blast+
  moreover have "''dict'' \<in> set msgpack_names" using type_kind_name [of "PDict []"] by simp
  ultimately show ?thesis using type_kind_name
    by (auto simp: dict_body_def body_names_def Let_def blank_body_def)
qed

lemma list_body_names: "body_names (list_body known fs xs) \<subseteq> set msgpack_names"
  using type_kind_name [of "PList []"]
  by (simp add: list_body_def body_names_def Let_def blank_body_def split: prod.split)

lemma body_part_names: "body_names (body_part known key_val body) \<subseteq> set msgpack_names"
proof (cases "str_in key_val (map fst SCHEMAS)")
  case False
  then show ?thesis using unschemed_names by (simp add: body_part_def)
next
  case True
  then obtain fs where fs: "map_of SCHEMAS (the_str key_val) = Some fs" using schema_of by blast
  then have "set fs \<subseteq> set msgpack_names" by (rule names_subsets(6))
  then show ?thesis using True fs dict_body_names list_body_names unschemed_names
    by (simp add: body_part_def split: pyval.split)
qed

lemma inner_part_names:
  assumes "inner_part tk iv = (ii, bi, c)"
  shows "insert (ii_key ii) (set (ii_expected_present ii @ ii_expected_missing ii)) \<subseteq> set msgpack_names"
    and "body_names bi \<subseteq> set msgpack_names"
proof -
  have bn: "body_names (blank_body\<lparr>bi_kind := type_kind iv\<rparr>) \<subseteq> set msgpack_names"
    using type_kind_name by (simp add: body_names_def blank_body_def)
  have "insert (ii_key ii) (set (ii_expected_present ii @ ii_expected_missing ii)) \<subseteq> set msgpack_names
    \<and> body_names bi \<subseteq> set msgpack_names"
  proof (cases iv)
    case (PDict d)
    have "redact (str_in (dget d ''key'') KNOWN_KEYS) (dget d ''key'') (has_key d ''key'') \<in> set msgpack_names"
      using redact_allowed names_subsets(2) by blast
    moreover have "set (sort (set_inter (str_keys d) INNER_FIELDS)) \<subseteq> set msgpack_names"
      "set (sort (set_minus INNER_FIELDS (str_keys d))) \<subseteq> set msgpack_names"
      using set_inter_sub set_minus_sub names_subsets(4) by blast+
    ultimately show ?thesis using assms
        body_part_names [THEN subsetD, of _ "tk \<and> str_in (dget d ''key'') KNOWN_KEYS" "dget d ''key''" "dget d ''data''"]
      unfolding inner_part_def PDict Let_def by auto
  qed (use assms bn names_subsets(8) in \<open>auto simp: inner_part_def\<close>)
  then show "insert (ii_key ii) (set (ii_expected_present ii @ ii_expected_missing ii)) \<subseteq> set msgpack_names"
    "body_names bi \<subseteq> set msgpack_names" by blast+
qed

lemma summarize_allowed:
  assumes "set (warnings r) \<subseteq> texts"
  shows "set (msgpack_strings (summarize_envelope r)) \<subseteq> msgpack_allowed"
proof -
  obtain oi oc where o: "outer_part (outer r) = (oi, oc)" by force
  obtain ii bi ic where i: "inner_part (oi_topic_known oi) (inner r) = (ii, bi, ic)" using prod_cases3 by blast
  have w: "set (take 8 (map sanitize_warning (warnings r))) \<subseteq> msgpack_allowed"
    using assms sanitize_allowed by (auto dest!: in_set_takeD) blast
  note names = outer_part_names [OF o] inner_part_names [OF i]
  have e: "set (msgpack_strings (summarize_envelope r)) \<subseteq>
      insert ''libflow envelope is not dict outer+inner''
      (insert (oi_topic oi) (set (oi_expected_present oi @ oi_expected_missing oi))
      \<union> insert (ii_key ii) (set (ii_expected_present ii @ ii_expected_missing ii)) \<union> body_names bi
      \<union> set (take 8 (map sanitize_warning (warnings r))))"
    unfolding summarize_envelope_def o i prod.case Let_def msgpack_strings_def body_names_def
    by (auto split: if_splits)
  show ?thesis
    using e names names_subsets(9) w names_allowed by blast
qed

interpretation msgpack_pub: publisher "safe_msgpack_summary lib" msgpack_strings msgpack_allowed for lib
proof
  fix payload
  have "''libflow decoder unavailable (fail-closed)'' \<in> set msgpack_names"
    "''inner MessagePack decode failed'' \<in> set msgpack_names" by (simp_all add: msgpack_names_def)
  then have f: "set (msgpack_strings (failed_summary e)) \<subseteq> msgpack_allowed"
    if "e \<in> {''libflow decoder unavailable (fail-closed)'', ''inner MessagePack decode failed''}" for e
    using that names_allowed by (auto simp: msgpack_strings_def failed_summary_def)
  show "set (msgpack_strings (safe_msgpack_summary lib payload)) \<subseteq> msgpack_allowed"
  proof (cases lib)
    case None
    then show ?thesis unfolding safe_msgpack_summary_def by (simp only: option.case) (rule f, simp)
  next
    case (Some E)
    show ?thesis
    proof (cases "decode_ws_binary E payload")
      case None
      with Some show ?thesis unfolding safe_msgpack_summary_def by (simp only: option.case) (rule f, simp)
    next
      case (Some r)
      with \<open>lib = Some E\<close> show ?thesis
        using summarize_allowed [OF decode_ws_binary_texts [OF Some]] by (simp add: safe_msgpack_summary_def)
    qed
  qed
qed

subsection \<open>Recognised libflow bodies\<close>

definition exact_dict :: "string list \<Rightarrow> pyval \<Rightarrow> bool" where
  "exact_dict fs v \<longleftrightarrow> (case v of PDict d \<Rightarrow> set (map fst d) = PStr ` set fs | _ \<Rightarrow> False)"

lemma inter_full:
  "length (set_inter (str_keys d) fs) \<le> length d"
  "length (set_inter (str_keys d) fs) = length d \<Longrightarrow> k \<in> set (map fst d) \<Longrightarrow> k \<in> PStr ` set fs"
proof -
  have le: "length (set_inter (str_keys d) fs) \<le> length d" for d
    unfolding set_inter_def by (rule le_trans [OF length_filter_le length_str_keys])
  then show "length (set_inter (str_keys d) fs) \<le> length d" .
  show "length (set_inter (str_keys d) fs) = length d \<Longrightarrow> k \<in> set (map fst d) \<Longrightarrow> k \<in> PStr ` set fs"
  proof (induction d)
    case (Cons kv d)
    obtain a v where kv: "kv = (a, v)" by force
    show ?case
    proof (cases "\<exists>s. a = PStr s \<and> s \<in> set fs")
      case True
      then have "length (set_inter (str_keys d) fs) = length d"
        using Cons.prems(1) kv by (auto simp: set_inter_def)
      then have "k \<in> set (map fst d) \<Longrightarrow> k \<in> PStr ` set fs" by (rule Cons.IH)
      moreover have "k = a \<or> k \<in> set (map fst d)" using Cons.prems(2) kv by simp
      ultimately show ?thesis using True by blast
    next
      case False
      then have "length (set_inter (str_keys (kv # d)) fs) \<le> length d"
        using le [of d] kv by (cases a) (auto simp: set_inter_def)
      with Cons.prems show ?thesis by simp
    qed
  qed simp
qed

lemma exact_dictI:
  assumes "length d - length (set_inter (str_keys d) fs) = 0" "set_minus fs (str_keys d) = []"
  shows "exact_dict fs (PDict d)"
proof -
  have "length (set_inter (str_keys d) fs) = length d" using assms(1) inter_full(1) [of d fs] by simp
  then have "set (map fst d) \<subseteq> PStr ` set fs" using inter_full(2) by blast
  moreover have "PStr ` set fs \<subseteq> set (map fst d)"
    using assms(2) by (auto simp: set_minus_def filter_empty_conv set_str_keys has_key_def)
  ultimately show ?thesis by (auto simp: exact_dict_def)
qed

lemma scan_items_exact:
  "scan_items fs items (c, m, x) = (c', m', x') \<Longrightarrow> c' \<le> c + length items \<and> m \<le> m' \<and> x \<le> x'
    \<and> (m' = 0 \<and> x' = 0 \<and> c' = c + length items \<longrightarrow> list_all (exact_dict fs) items)"
proof (induction items arbitrary: c m x)
  case (Cons v items)
  show ?case
  proof (cases v)
    case (PDict d)
    let ?dm = "length (set_minus fs (str_keys d))" and ?dx = "length d - length (set_inter (str_keys d) fs)"
    have "scan_items fs items (c + 1, m + ?dm, x + ?dx) = (c', m', x')" using Cons.prems PDict by simp
    from Cons.IH [OF this] have ih: "c' \<le> c + 1 + length items" "m + ?dm \<le> m'" "x + ?dx \<le> x'"
      "m' = 0 \<and> x' = 0 \<and> c' = c + 1 + length items \<longrightarrow> list_all (exact_dict fs) items" by blast+
    have "exact_dict fs v" if "m' = 0" "x' = 0" using that ih(2,3) exact_dictI [of d fs] PDict by simp
    with ih show ?thesis by auto
  qed (use Cons.IH [of c m x] Cons.prems in auto)
qed simp

lemma dict_body_ok: "bi_schema_ok (dict_body known fs d) \<Longrightarrow> exact_dict fs (PDict d)"
proof -
  have s: "sort xs = [] \<longleftrightarrow> xs = []" for xs :: "string list" by (metis length_0_conv length_sort)
  assume "bi_schema_ok (dict_body known fs d)"
  then show ?thesis by (intro exact_dictI) (auto simp: dict_body_def Let_def s)
qed

lemma list_body_ok:
  assumes "bi_schema_ok (list_body known fs items)"
  shows "length items \<le> 50 \<and> list_all (exact_dict fs) items"
proof -
  obtain c m x where sc: "scan_items fs (take 50 items) (0, 0, 0) = (c, m, x)" using prod_cases3 by blast
  with assms have z: "m = 0" "x = 0" "c = length items" by (auto simp: list_body_def)
  from scan_items_exact [OF sc] z have "length items \<le> 50" by simp
  with scan_items_exact [OF sc] z show ?thesis by simp
qed

text \<open>What a recognised body is: the schema's fields and no others, in a dict or in each element of
  a list of at most 50 dicts.\<close>

definition exact_body :: "string list \<Rightarrow> pyval \<Rightarrow> bool" where
  "exact_body fs v \<longleftrightarrow> exact_dict fs v
     \<or> (case v of PList items \<Rightarrow> length items \<le> 50 \<and> list_all (exact_dict fs) items | _ \<Rightarrow> False)"

lemma dict_body_known: "bi_known_message (dict_body known fs d) = known"
  by (simp add: dict_body_def Let_def)

lemma list_body_known: "bi_known_message (list_body known fs items) = known"
  by (simp add: list_body_def split: prod.split)

lemma body_part_ok:
  assumes "bi_schema_ok (body_part known key_val body)"
  shows "\<exists>key fs. key_val = PStr key \<and> map_of SCHEMAS key = Some fs \<and> exact_body fs body
    \<and> bi_known_message (body_part known key_val body) = known"
proof -
  have un: "\<not> bi_schema_ok (unschemed_body known key_val body)"
    by (simp add: unschemed_body_def blank_body_def)
  with assms have k: "str_in key_val (map fst SCHEMAS)" by (auto simp: body_part_def split: if_splits)
  then obtain fs where fs: "map_of SCHEMAS (the_str key_val) = Some fs" using schema_of by blast
  have bp: "body_part known key_val body = (case body of
           PDict d \<Rightarrow> dict_body known fs d
         | PList items \<Rightarrow> list_body known fs items
         | _ \<Rightarrow> unschemed_body known key_val body)" using k fs by (simp add: body_part_def)
  have "exact_body fs body \<and> bi_known_message (body_part known key_val body) = known"
  proof (cases body)
    case (PDict d)
    with bp have b: "body_part known key_val body = dict_body known fs d" by simp
    then have "exact_dict fs body" using assms dict_body_ok PDict by simp
    then show ?thesis by (simp add: exact_body_def b dict_body_known)
  next
    case (PList items)
    with bp have b: "body_part known key_val body = list_body known fs items" by simp
    then have "length items \<le> 50 \<and> list_all (exact_dict fs) items" using assms list_body_ok by simp
    then show ?thesis unfolding b by (simp add: exact_body_def list_body_known PList)
  qed (use assms bp un in simp_all)
  moreover obtain key where "key_val = PStr key" using k by (auto simp: str_in_iff)
  ultimately show ?thesis using fs by simp
qed

text \<open>The facts a recognised libflow message guarantees about the decoded envelope.\<close>

definition envelope_ok :: "pydict \<Rightarrow> pydict \<Rightarrow> bool" where
  "envelope_ok d di \<longleftrightarrow>
     list_all (has_key d) OUTER_FIELDS \<and> is_bytes (dget d ''data'') \<and> str_in (dget d ''topic'') KNOWN_TOPICS
     \<and> list_all (has_key di) INNER_FIELDS
     \<and> (case dget di ''key'' of
          PStr key \<Rightarrow> (case map_of SCHEMAS key of
              None \<Rightarrow> False
            | Some fs \<Rightarrow> exact_body fs (dget di ''data'')
                \<and> (key = ''pedWarning'' \<longrightarrow> dget d ''topic'' = PStr ''ped'' \<and> ped_types_ok (dget di ''data'')))
        | _ \<Rightarrow> False)"

lemma no_missing: "set_minus fs (str_keys d) = [] \<longleftrightarrow> list_all (has_key d) fs"
  by (auto simp: set_minus_def filter_empty_conv set_str_keys list_all_iff)

lemma outer_part_simps:
  "outer_part ov = (oi, True) \<Longrightarrow> \<exists>d. ov = PDict d \<and> list_all (has_key d) OUTER_FIELDS
     \<and> is_bytes (dget d ''data'') \<and> oi_topic_known oi = str_in (dget d ''topic'') KNOWN_TOPICS"
  by (cases ov) (auto simp: outer_part_def Let_def no_missing)

lemma inner_part_simps:
  "inner_part tk iv = (ii, bi, True) \<Longrightarrow> \<exists>di. iv = PDict di \<and> list_all (has_key di) INNER_FIELDS
     \<and> bi = body_part (tk \<and> str_in (dget di ''key'') KNOWN_KEYS) (dget di ''key'') (dget di ''data'')"
  by (cases iv) (auto simp: inner_part_def Let_def no_missing)

lemma summarize_recognized:
  assumes "mp_recognized_schema (summarize_envelope r)"
  shows "\<exists>d di. outer r = PDict d \<and> inner r = PDict di \<and> envelope_ok d di"
proof -
  obtain oi oc where o: "outer_part (outer r) = (oi, oc)" by force
  obtain ii bi ic where i: "inner_part (oi_topic_known oi) (inner r) = (ii, bi, ic)" using prod_cases3 by blast
  define is_ped where "is_ped = (is_dict (inner r) \<and> inner_key (inner r) = PStr ''pedWarning'')"
  from assms have c: "oc" "ic" and ok: "bi_schema_ok bi" "bi_known_message bi"
    and ped: "is_ped \<Longrightarrow> ped_types_ok (inner_data (inner r))
      \<and> (case outer r of PDict d \<Rightarrow> dget d ''topic'' = PStr ''ped'' | _ \<Rightarrow> False)"
    unfolding summarize_envelope_def o i prod.case Let_def is_ped_def [symmetric]
    by (auto split: if_splits)
  have oT: "outer_part (outer r) = (oi, True)" using o c by simp
  have iT: "inner_part (oi_topic_known oi) (inner r) = (ii, bi, True)" using i c by simp
  from outer_part_simps [OF oT] obtain d where d: "outer r = PDict d" "list_all (has_key d) OUTER_FIELDS"
     "is_bytes (dget d ''data'')" "oi_topic_known oi = str_in (dget d ''topic'') KNOWN_TOPICS" by blast
  from inner_part_simps [OF iT] obtain di where di: "inner r = PDict di" "list_all (has_key di) INNER_FIELDS"
     "bi = body_part (oi_topic_known oi \<and> str_in (dget di ''key'') KNOWN_KEYS) (dget di ''key'') (dget di ''data'')"
    by blast
  from body_part_ok [OF ok(1) [unfolded di(3)]] ok(2) [unfolded di(3)]
  obtain key fs where k: "dget di ''key'' = PStr key" "map_of SCHEMAS key = Some fs"
      "exact_body fs (dget di ''data'')" "oi_topic_known oi" by blast
  have "envelope_ok d di"
    unfolding envelope_ok_def using d di k ped by (simp add: is_ped_def)
  with d di show ?thesis by blast
qed

subsection \<open>Properties\<close>

text \<open>C9. Whatever the policy file contains, every string in the report of a JSON message is one of a
  fixed list: documented uuid and field names, type kinds, and the redaction markers. No raw
  field name and no value of the message is published.\<close>

theorem json_publishes_documented_names:
  "set (json_strings (safe_json_summary (load_policy_uuid_sets pol) obj)) \<subseteq> set json_allowed"
  by (rule json_pub.only_allowed)

text \<open>The report of a JSON message does not depend on its values: two messages with the same
  keys, value kinds and uuid (and equally stock or not in their \<open>type\<close>) give the same report.\<close>

theorem json_summary_value_independent:
  "same_shape a b \<Longrightarrow> safe_json_summary p a = safe_json_summary p b"
  by (rule json_summary_same_shape)

theorem json_summary_value_independent_witness:
  "safe_json_summary (load_policy_uuid_sets None)
      [(PStr ''type'', PInt 1601), (PStr ''uuid'', PStr ''GPSSpeed''), (PStr ''speed'', PInt 43)]
    = safe_json_summary (load_policy_uuid_sets None)
      [(PStr ''type'', PInt 1601), (PStr ''uuid'', PStr ''GPSSpeed''), (PStr ''speed'', PInt 117)]"
  by (rule json_summary_value_independent) (simp add: same_shape_def dget_def)

text \<open>A JSON message counts as a recognised schema exactly when its uuid is one of the four
  transmit-allowed messages and its keys are exactly that message's documented fields; the
  denied and the receive-only uuids are never recognised.\<close>

theorem json_recognized_iff:
  "js_recognized_schema (safe_json_summary (load_policy_uuid_sets pol) obj) \<longleftrightarrow>
    (\<exists>u w. dget obj ''uuid'' = PStr u \<and> map_of DOCUMENTED_JSON_SHAPES u = Some w
      \<and> set (map fst obj) = PStr ` set w)"
  unfolding json_want_recognized json_want_documented json_exact_keys by blast

text \<open>C8. Every string in the report of a libflow message is a documented topic, key, field, type
  kind or fixed text, or a shortened warning that lists documented fields which are missing,
  for every behaviour of the MessagePack library and also when it is not available.\<close>

theorem msgpack_publishes_documented_names:
  "set (msgpack_strings (safe_msgpack_summary lib payload)) \<subseteq> msgpack_allowed"
  by (rule msgpack_pub.only_allowed)

text \<open>A recognised libflow message has a complete outer map with binary data and a known topic, a
  complete inner map, and a body with exactly the fields of its key's schema (for
  \<open>pedWarning\<close> two booleans under the topic \<open>ped\<close>). Without the protocol library nothing is recognised.\<close>

theorem msgpack_recognized_sound:
  assumes "mp_recognized_schema (safe_msgpack_summary lib payload)"
  shows "\<exists>E r d di. lib = Some E \<and> decode_ws_binary E payload = Some r
    \<and> outer r = PDict d \<and> inner r = PDict di \<and> envelope_ok d di"
proof -
  from assms obtain E r where "lib = Some E" "decode_ws_binary E payload = Some r"
    "mp_recognized_schema (summarize_envelope r)"
    by (auto simp: safe_msgpack_summary_def failed_summary_def split: option.splits)
  with summarize_recognized show ?thesis by blast
qed

text \<open>A concrete library for the witness: byte 1 is an outer map whose data is byte 2, the inner map.\<close>

definition demo_inner :: pydict where
  "demo_inner = frame_inner ''pedWarning'' (PDict [(PStr ''ped_on'', PBool True), (PStr ''pcw_on'', PBool False)]) 42 1000"

definition demo_outer :: pydict where
  "demo_outer = [(PStr ''time'', PInt 1000), (PStr ''source'', PStr ''s''), (PStr ''topic'', PStr ''ped''),
     (PStr ''data'', PBytes [2])]"

definition demo_lib :: msgpack_lib where
  "demo_lib = \<lparr>unpackb = (\<lambda>b. if b = [1] then Inr (PDict demo_outer) else if b = [2] then Inr (PDict demo_inner)
       else Inl ''bad''),
     packb = (\<lambda>v. if v = PDict demo_inner then [2] else [1]), str_of = (\<lambda>_. []), repr_list = (\<lambda>_. [])\<rparr>"

lemma demo_decode: "decode_ws_binary demo_lib [1]
    = Some \<lparr>outer = PDict demo_outer, inner = PDict demo_inner, warnings = []\<rparr>"
  by code_simp

lemma demo_recognized: "mp_recognized_schema (safe_msgpack_summary (Some demo_lib) [1])"
  by code_simp

theorem msgpack_recognized_sound_witness:
  "\<exists>E r d di. Some demo_lib = Some E \<and> decode_ws_binary E [1] = Some r
    \<and> outer r = PDict d \<and> inner r = PDict di \<and> envelope_ok d di"
  by (rule msgpack_recognized_sound [OF demo_recognized])

end
