(* ===== verification/WsFrames.thy ===== *)
theory WsFrames
  imports Redact
begin

text \<open>
  The WebSocket framing of \<open>tools/m4/decode_passive_records.py\<close>: \<open>_parse_ws_frames\<close> and
  \<open>_frame_total_len\<close>. One turn of the loop is \<open>parse_frame\<close>, which looks at the bytes from the
  current offset on: \<open>Pending\<close> is \<open>break\<close>, \<open>Stop\<close> returns with a reason, \<open>Accept\<close> goes on after
  the frame. \<open>json.loads\<close> is a parameter that reads valid UTF-8 bytes; no property depends on
  what it returns.

  Shown: the loop terminates, the accepted frames tile the buffer from its beginning, the
  length \<open>_frame_total_len\<close> recomputes is the length the parser used, a frame encoded as
  RFC 6455 prescribes is parsed back with its payload unmasked, and more bytes never change a
  frame that was accepted.
\<close>

subsection \<open>Payloads\<close>

record env =
  e_json_loads :: "bytes \<Rightarrow> pyval option"
  e_lib :: "msgpack_lib option"
  e_policy :: policy

definition MAX_FRAME_BYTES :: nat where
  "MAX_FRAME_BYTES = 65536"

definition MAX_FRAMES_PER_FLOW :: nat where
  "MAX_FRAMES_PER_FLOW = 128"

text \<open>A text payload: the summary of the object, or the detail of the failure.\<close>

definition text_payload :: "env \<Rightarrow> bytes \<Rightarrow> string + json_summary" where
  "text_payload E payload =
     (if \<not> utf8_valid payload then Inl ''text payload is not valid UTF-8''
      else case e_json_loads E payload of
        None \<Rightarrow> Inl ''text payload is not JSON''
      | Some (PDict obj) \<Rightarrow>
          if list_all (\<lambda>kv. is_str (fst kv)) obj then Inr (safe_json_summary (e_policy E) obj)
          else Inl ''JSON object has non-string keys''
      | Some _ \<Rightarrow> Inl ''JSON top level is not an object'')"

definition unmask :: "bytes \<Rightarrow> bytes \<Rightarrow> bytes" where
  "unmask key enc = map (\<lambda>i. enc ! i XOR key ! (i mod 4)) [0..<length enc]"

subsection \<open>One frame\<close>

record frame_entry =
  f_offset :: nat
  f_complete :: bool
  f_kind :: string
  f_opcode :: nat
  f_masked :: bool
  f_payload_len :: nat
  f_detail :: "string option"
  f_control :: "string option"
  f_json :: "json_summary option"
  f_msgpack :: "msgpack_summary option"
  f_app_complete :: "bool option"

datatype outcome = Pending | Stop frame_entry string | Accept frame_entry nat

definition plain_entry :: "nat \<Rightarrow> bool \<Rightarrow> string \<Rightarrow> nat \<Rightarrow> bool \<Rightarrow> nat \<Rightarrow> frame_entry" where
  "plain_entry off whole kind opcode masked plen = \<lparr>f_offset = off, f_complete = whole, f_kind = kind,
     f_opcode = opcode, f_masked = masked, f_payload_len = plen, f_detail = None, f_control = None,
     f_json = None, f_msgpack = None, f_app_complete = None\<rparr>"

definition reject :: "nat \<Rightarrow> nat \<Rightarrow> bool \<Rightarrow> nat \<Rightarrow> string \<Rightarrow> string \<Rightarrow> outcome" where
  "reject off opcode masked plen kind detail =
     Stop ((plain_entry off False kind opcode masked plen)\<lparr>f_detail := Some detail\<rparr>) kind"

definition mask_len :: "bool \<Rightarrow> nat" where
  "mask_len masked = (if masked then 4 else 0)"

definition control_frame :: "nat \<Rightarrow> bytes \<Rightarrow> nat \<Rightarrow> nat \<Rightarrow> bool \<Rightarrow> nat \<Rightarrow> outcome" where
  "control_frame off s fin opcode masked len7 =
     (if fin \<noteq> 1 then reject off opcode masked 0 ''invalid_control'' ''control frame must not be fragmented''
      else if len7 > 125 then reject off opcode masked 0 ''invalid_control'' ''control payload must be <=125''
      else let total = 2 + mask_len masked + len7 in
        if length s < total then Pending
        else Accept ((plain_entry off True ''control'' opcode masked len7)\<lparr>f_control :=
               Some (if opcode = 8 then ''close'' else if opcode = 9 then ''ping'' else ''pong'')\<rparr>) total)"

text \<open>The length of a data frame: \<open>None\<close> when the extended length is not there yet, \<open>Inl\<close> the
  detail of an invalid length, \<open>Inr\<close> the lengths of the header and of the payload.\<close>

definition data_length :: "bytes \<Rightarrow> bool \<Rightarrow> nat \<Rightarrow> (string + nat \<times> nat) option" where
  "data_length s masked len7 =
     (if len7 = 126 then
        if length s < 4 then None
        else let ext = be_nat (slice s 2 4) in
          if ext < 126 then Some (Inl ''non-minimal 16-bit length encoding'')
          else Some (Inr (4 + mask_len masked, ext))
      else if len7 = 127 then
        if length s < 10 then None
        else let ext = be_nat (slice s 2 10) in
          if 2 ^ 63 \<le> ext then Some (Inl ''64-bit length MSB set'')
          else if ext < 65536 then Some (Inl ''non-minimal 64-bit length encoding'')
          else Some (Inr (10 + mask_len masked, ext))
      else Some (Inr (2 + mask_len masked, len7)))"

definition frame_payload :: "bytes \<Rightarrow> bool \<Rightarrow> nat \<Rightarrow> nat \<Rightarrow> bytes" where
  "frame_payload s masked header_len pay_len =
     (if masked then unmask (slice s (header_len - 4) header_len) (slice s header_len (header_len + pay_len))
      else slice s header_len (header_len + pay_len))"

definition app_frame :: "env \<Rightarrow> nat \<Rightarrow> nat \<Rightarrow> bool \<Rightarrow> nat \<Rightarrow> bytes \<Rightarrow> nat \<Rightarrow> outcome" where
  "app_frame E off opcode masked pay_len payload tot =
     (let entry = plain_entry off True (if opcode = 1 then ''json'' else ''msgpack'') opcode masked pay_len in
      if opcode = 1 then
        (case text_payload E payload of
           Inl detail \<Rightarrow> Stop (entry\<lparr>f_kind := ''invalid_json'', f_complete := False, f_detail := Some detail\<rparr>) ''invalid_json''
         | Inr js \<Rightarrow> Accept (entry\<lparr>f_json := Some js, f_app_complete := Some True\<rparr>) tot)
      else
        (let mp = safe_msgpack_summary (e_lib E) payload in
         Accept (entry\<lparr>f_msgpack := Some mp, f_app_complete := Some (mp_decode_ok mp)\<rparr>) tot))"

definition data_frame :: "env \<Rightarrow> nat \<Rightarrow> bytes \<Rightarrow> nat \<Rightarrow> nat \<Rightarrow> bool \<Rightarrow> nat \<Rightarrow> outcome" where
  "data_frame E off s fin opcode masked len7 =
     (if fin \<noteq> 1 \<or> opcode = 0 then
        reject off opcode masked 0 ''fragment_unsupported'' ''fragments/continuations unsupported; flag not decode''
      else case data_length s masked len7 of
        None \<Rightarrow> Pending
      | Some (Inl detail) \<Rightarrow> reject off opcode masked 0 ''invalid_length'' detail
      | Some (Inr (header_len, pay_len)) \<Rightarrow>
          if pay_len > MAX_FRAME_BYTES then
            reject off opcode masked pay_len ''frame_too_large'' ''frame exceeds 64KiB; flag not decode''
          else let total = header_len + pay_len in
            if total > MAX_FRAME_BYTES + 16 then
              reject off opcode masked pay_len ''frame_too_large'' ''frame exceeds 64KiB; flag not decode''
            else if length s < total then Pending
            else app_frame E off opcode masked pay_len (frame_payload s masked header_len pay_len) total)"

definition parse_frame :: "env \<Rightarrow> bool \<Rightarrow> nat \<Rightarrow> bytes \<Rightarrow> outcome" where
  "parse_frame E server_sender off s =
     (if length s < 2 then Pending
      else let b0 = s ! 0; b1 = s ! 1;
          fin = unat (drop_bit 7 b0 AND 1); rsv = unat (drop_bit 4 b0 AND 7); opcode = unat (b0 AND 0x0F);
          masked = (drop_bit 7 b1 AND 1 = 1); len7 = unat (b1 AND 0x7F) in
        if rsv \<noteq> 0 then reject off opcode masked 0 ''invalid_rsv'' ''RSV bits must be zero''
        else if opcode \<notin> {0, 1, 2, 8, 9, 10} then
          reject off opcode masked 0 ''invalid_opcode'' ''unknown opcode''
        else if server_sender \<and> masked then
          reject off opcode True 0 ''invalid_mask_direction'' ''server frame must be unmasked''
        else if \<not> server_sender \<and> \<not> masked then
          reject off opcode False 0 ''invalid_mask_direction'' ''client frame must be masked''
        else if opcode \<ge> 8 then control_frame off s fin opcode masked len7
        else data_frame E off s fin opcode masked len7)"

subsection \<open>The loop\<close>

lemma parse_frame_total: "parse_frame E ss off s = Accept f t \<Longrightarrow> 2 \<le> t \<and> t \<le> length s"
  by (auto simp: parse_frame_def Let_def control_frame_def data_frame_def app_frame_def reject_def data_length_def
      split: if_splits option.splits sum.splits)

function ws_loop :: "env \<Rightarrow> bool \<Rightarrow> bytes \<Rightarrow> nat \<Rightarrow> frame_entry list \<Rightarrow> frame_entry list \<times> nat \<times> string option" where
  "ws_loop E ss buf off frames =
     (if off < length buf then
        if length frames \<ge> MAX_FRAMES_PER_FLOW * 2 then (frames, off, Some ''frame_cap_exceeded'')
        else case parse_frame E ss off (drop off buf) of
          Pending \<Rightarrow> (frames, off, None)
        | Stop f reason \<Rightarrow> (frames @ [f], off, Some reason)
        | Accept f tot \<Rightarrow> ws_loop E ss buf (off + tot) (frames @ [f])
      else (frames, off, None))"
  by pat_completeness auto
termination
  by (relation "measure (\<lambda>(E, ss, buf, off, frames). length buf - off)")
    (auto dest!: parse_frame_total)

declare ws_loop.simps [simp del]

definition parse_ws_frames :: "env \<Rightarrow> bytes \<Rightarrow> bool \<Rightarrow> frame_entry list \<times> nat \<times> string option" where
  "parse_ws_frames E run_buf server_sender = ws_loop E server_sender run_buf 0 []"

definition frame_total_len :: "bytes \<Rightarrow> frame_entry \<Rightarrow> nat" where
  "frame_total_len run_buf f =
     (let off = f_offset f in
      if off + 2 > length run_buf then 0
      else let b1 = run_buf ! (off + 1); masked = (drop_bit 7 b1 AND 1 = 1); len7 = unat (b1 AND 0x7F) in
        if f_kind f = ''control'' then 2 + mask_len masked + f_payload_len f
        else if len7 = 126 then 4 + mask_len masked + f_payload_len f
        else if len7 = 127 then 10 + mask_len masked + f_payload_len f
        else 2 + mask_len masked + f_payload_len f)"

subsection \<open>A decided frame does not change when bytes are added\<close>

lemma data_length_append:
  assumes "data_length s masked len7 \<noteq> None"
  shows "data_length (s @ t) masked len7 = data_length s masked len7"
proof -
  have "slice (s @ t) 2 4 = slice s 2 4" if "4 \<le> length s" using that by (simp add: slice_append_left)
  moreover have "slice (s @ t) 2 10 = slice s 2 10" if "10 \<le> length s" using that by (simp add: slice_append_left)
  ultimately show ?thesis using assms by (auto simp: data_length_def Let_def split: if_splits)
qed

lemma frame_payload_append:
  "hl + pl \<le> length s \<Longrightarrow> frame_payload (s @ t) masked hl pl = frame_payload s masked hl pl"
  by (simp add: frame_payload_def slice_append_left)

lemma data_frame_append:
  assumes "data_frame E off s fin opcode masked len7 \<noteq> Pending"
  shows "data_frame E off (s @ t) fin opcode masked len7 = data_frame E off s fin opcode masked len7"
proof (cases "fin \<noteq> 1 \<or> opcode = 0")
  case True
  then show ?thesis by (auto simp: data_frame_def)
next
  case f: False
  show ?thesis
  proof (cases "data_length s masked len7")
    case None
    then show ?thesis using assms f by (simp add: data_frame_def)
  next
    case (Some x)
    then have a: "data_length (s @ t) masked len7 = Some x" using data_length_append [of s masked len7 t] by simp
    show ?thesis
    proof (cases x)
      case (Inl d)
      then show ?thesis by (simp add: data_frame_def Some a)
    next
      case (Inr hp)
      obtain hl pl where "hp = (hl, pl)" by force
      with Inr assms f Some a show ?thesis
        by (auto simp: data_frame_def Let_def frame_payload_append)
    qed
  qed
qed

lemma parse_frame_append:
  assumes "parse_frame E ss off s \<noteq> Pending"
  shows "parse_frame E ss off (s @ t) = parse_frame E ss off s"
proof -
  have l: "2 \<le> length s" using assms by (auto simp: parse_frame_def split: if_splits)
  then have n: "(s @ t) ! 0 = s ! 0" "(s @ t) ! 1 = s ! 1" by (auto simp: nth_append)
  have c: "control_frame off (s @ t) fin oc m l7 = control_frame off s fin oc m l7"
    if "control_frame off s fin oc m l7 \<noteq> Pending" for fin oc m l7
    using that by (auto simp: control_frame_def Let_def split: if_splits)
  have l': "\<not> length (s @ t) < 2" "\<not> length s < 2" using l by simp_all
  show ?thesis
    using assms c data_frame_append unfolding parse_frame_def Let_def n if_not_P [OF l'(1)] if_not_P [OF l'(2)]
    by (auto split: if_splits)
qed

interpretation one_frame: prefix_decoder "parse_frame E ss off" "\<lambda>r. r = Pending" for E ss off
  by unfold_locales (rule parse_frame_append)

subsection \<open>Accepted frames\<close>

lemma accept_entry:
  assumes "parse_frame E ss off (drop off buf) = Accept f t"
  shows "f_offset f = off \<and> f_complete f \<and> f_kind f \<in> {''json'', ''msgpack'', ''control''} \<and> frame_total_len buf f = t"
proof -
  let ?s = "drop off buf"
  have l: "2 \<le> length ?s" using assms by (auto simp: parse_frame_def split: if_splits)
  then have b: "?s ! 1 = buf ! (off + 1)" "\<not> off + 2 > length buf" by simp_all
  define m where "m = (drop_bit 7 (buf ! (off + 1)) AND 1 = 1)"
  define l7 where "l7 = unat (buf ! (off + 1) AND 0x7F)"
  have ft: "frame_total_len buf f' = (if f_kind f' = ''control'' then 2 + mask_len m + f_payload_len f'
        else if l7 = 126 then 4 + mask_len m + f_payload_len f'
        else if l7 = 127 then 10 + mask_len m + f_payload_len f'
        else 2 + mask_len m + f_payload_len f')" if "f_offset f' = off" for f'
    using b that unfolding frame_total_len_def Let_def m_def l7_def by simp
  from assms l obtain fin oc where
    "control_frame off ?s fin oc m l7 = Accept f t \<or> data_frame E off ?s fin oc m l7 = Accept f t"
    unfolding parse_frame_def Let_def b m_def l7_def by (auto simp: reject_def split: if_splits)
  then show ?thesis
  proof
    assume "control_frame off ?s fin oc m l7 = Accept f t"
    then show ?thesis using ft by (auto simp: control_frame_def Let_def reject_def plain_entry_def split: if_splits)
  next
    assume "data_frame E off ?s fin oc m l7 = Accept f t"
    then obtain hl pl where d: "data_length ?s m l7 = Some (Inr (hl, pl))"
      and a: "app_frame E off oc m pl (frame_payload ?s m hl pl) (hl + pl) = Accept f t"
      by (auto simp: data_frame_def Let_def reject_def split: if_splits option.splits sum.splits)
    from a have "f_offset f = off" "f_complete f" "f_kind f \<in> {''json'', ''msgpack''}" "f_payload_len f = pl" "t = hl + pl"
      by (auto simp: app_frame_def Let_def plain_entry_def split: if_splits sum.splits)
    moreover from d have "hl = (if l7 = 126 then 4 else if l7 = 127 then 10 else 2) + mask_len m"
      by (auto simp: data_length_def Let_def split: if_splits)
    ultimately show ?thesis using ft by auto
  qed
qed

lemma stop_entry:
  assumes "parse_frame E ss off s = Stop f r"
  shows "f_offset f = off \<and> \<not> f_complete f \<and> f_kind f = r"
  using assms
  by (auto simp: parse_frame_def Let_def control_frame_def data_frame_def app_frame_def reject_def plain_entry_def
      split: if_splits option.splits sum.splits)

text \<open>The frames lie one after the other: each begins where the one before it ends.\<close>

fun contiguous :: "bytes \<Rightarrow> nat \<Rightarrow> frame_entry list \<Rightarrow> nat \<Rightarrow> bool" where
  "contiguous buf a [] b \<longleftrightarrow> a = b"
| "contiguous buf a (f # fs) b \<longleftrightarrow> f_offset f = a \<and> f_complete f \<and> 2 \<le> frame_total_len buf f
     \<and> contiguous buf (a + frame_total_len buf f) fs b"

lemma contiguous_snoc:
  "contiguous buf a (fs @ [f]) c \<longleftrightarrow> (\<exists>b. contiguous buf a fs b \<and> f_offset f = b \<and> f_complete f
    \<and> 2 \<le> frame_total_len buf f \<and> b + frame_total_len buf f = c)"
  by (induction fs arbitrary: a) auto

lemma contiguous_le: "contiguous buf a fs b \<Longrightarrow> a + 2 * length fs \<le> b"
  by (induction fs arbitrary: a) force+

text \<open>What a run of the parser returns: frames that lie one after the other, then at most one rejected
  entry, which is there exactly when the parse stopped for another reason than the frame cap.\<close>

definition run_result_ok :: "bytes \<Rightarrow> nat \<Rightarrow> frame_entry list \<times> nat \<times> string option \<Rightarrow> bool" where
  "run_result_ok buf a res = (case res of (fs, off, r) \<Rightarrow>
     off \<le> length buf \<and> length fs \<le> MAX_FRAMES_PER_FLOW * 2
     \<and> (if r = None \<or> r = Some ''frame_cap_exceeded'' \<and> length fs = MAX_FRAMES_PER_FLOW * 2 \<and> f_complete (last fs)
        then contiguous buf a fs off
        else fs \<noteq> [] \<and> contiguous buf a (butlast fs) off \<and> \<not> f_complete (last fs)
          \<and> f_offset (last fs) = off \<and> Some (f_kind (last fs)) = r))"

lemma ws_loop_ok:
  "contiguous buf a frames off \<Longrightarrow> off \<le> length buf \<Longrightarrow> length frames \<le> MAX_FRAMES_PER_FLOW * 2
    \<Longrightarrow> run_result_ok buf a (ws_loop E ss buf off frames)"
proof (induction E ss buf off frames rule: ws_loop.induct)
  case (1 E ss buf off frames)
  show ?case
  proof (cases "off < length buf \<and> length frames < MAX_FRAMES_PER_FLOW * 2")
    case False
    have "f_complete (last frames)" if "length frames = MAX_FRAMES_PER_FLOW * 2"
      using "1.prems"(1) that contiguous_snoc [of buf a "butlast frames" "last frames"]
      by (cases frames rule: rev_cases) (auto simp: MAX_FRAMES_PER_FLOW_def)
    with False "1.prems" show ?thesis by (subst ws_loop.simps) (auto simp: run_result_ok_def)
  next
    case True
    show ?thesis
    proof (cases "parse_frame E ss off (drop off buf)")
      case Pending
      with True "1.prems" show ?thesis by (subst ws_loop.simps) (auto simp: run_result_ok_def)
    next
      case (Stop f r)
      with True "1.prems" stop_entry [OF Stop] show ?thesis
        by (subst ws_loop.simps) (auto simp: run_result_ok_def)
    next
      case (Accept f t)
      note e = accept_entry [OF Accept] and t = parse_frame_total [OF Accept]
      have "contiguous buf a (frames @ [f]) (off + t)" using "1.prems"(1) e t by (auto simp: contiguous_snoc)
      then have "run_result_ok buf a (ws_loop E ss buf (off + t) (frames @ [f]))"
        using True Accept t by (intro "1.IH") auto
      with True Accept show ?thesis by (subst ws_loop.simps) simp
    qed
  qed
qed

subsection \<open>Parsing piecewise\<close>

definition shift_frame :: "nat \<Rightarrow> frame_entry \<Rightarrow> frame_entry" where
  "shift_frame k f = f\<lparr>f_offset := f_offset f + k\<rparr>"

fun shift_outcome :: "nat \<Rightarrow> outcome \<Rightarrow> outcome" where
  "shift_outcome k Pending = Pending"
| "shift_outcome k (Stop f r) = Stop (shift_frame k f) r"
| "shift_outcome k (Accept f t) = Accept (shift_frame k f) t"

lemma reject_shift: "reject (off + k) oc m pl kd d = shift_outcome k (reject off oc m pl kd d)"
  by (simp add: reject_def plain_entry_def shift_frame_def)

lemma control_shift: "control_frame (off + k) s fin oc m l7 = shift_outcome k (control_frame off s fin oc m l7)"
  by (simp add: control_frame_def Let_def reject_shift) (simp add: plain_entry_def shift_frame_def)

lemma app_shift: "app_frame E (off + k) oc m pl p t = shift_outcome k (app_frame E off oc m pl p t)"
  by (simp add: app_frame_def Let_def plain_entry_def shift_frame_def split: sum.split)

lemma data_shift: "data_frame E (off + k) s fin oc m l7 = shift_outcome k (data_frame E off s fin oc m l7)"
  by (simp add: data_frame_def Let_def reject_shift app_shift split: option.split sum.split)

lemma parse_frame_shift: "parse_frame E ss (off + k) s = shift_outcome k (parse_frame E ss off s)"
  by (simp add: parse_frame_def Let_def reject_shift control_shift data_shift)

lemma ws_loop_length: "ws_loop E ss buf off fr = (fs, o', r) \<Longrightarrow> length fr \<le> length fs"
proof (induction E ss buf off fr rule: ws_loop.induct)
  case (1 E ss buf off frames)
  from "1.prems" show ?case
    by (subst (asm) ws_loop.simps) (force split: if_splits outcome.splits dest: "1.IH" [rotated 2])
qed

text \<open>The loop on the rest of a buffer, offsets counted from the rest's beginning, does what the loop
  does from there on in the whole buffer.\<close>

lemma ws_loop_shift:
  assumes "ws_loop E ss (drop k buf) off fr = (fs, o', r)" and "length pre + length fs < MAX_FRAMES_PER_FLOW * 2"
  shows "ws_loop E ss buf (off + k) (pre @ map (shift_frame k) fr) = (pre @ map (shift_frame k) fs, o' + k, r)"
  using assms
proof (induction E ss "drop k buf" off fr rule: ws_loop.induct)
  case (1 E ss off frames)
  have le: "length frames \<le> length fs" using ws_loop_length [OF "1.prems"(1)] .
  then have cap: "\<not> length (pre @ map (shift_frame k) frames) \<ge> MAX_FRAMES_PER_FLOW * 2"
    "\<not> length frames \<ge> MAX_FRAMES_PER_FLOW * 2" using "1.prems"(2) by simp_all
  show ?case
  proof (cases "off < length (drop k buf)")
    case False
    with "1.prems" show ?thesis by (subst ws_loop.simps, subst (asm) ws_loop.simps) auto
  next
    case True
    then have T: "off + k < length buf" by simp
    have d: "drop off (drop k buf) = drop (off + k) buf" by (simp add: add.commute)
    note p = "1.prems"(1) [unfolded ws_loop.simps [of E ss "drop k buf" off] d] True cap
    show ?thesis
    proof (cases "parse_frame E ss off (drop (off + k) buf)")
      case (Accept f t)
      then have "ws_loop E ss (drop k buf) (off + t) (frames @ [f]) = (fs, o', r)" using p by simp
      then have "ws_loop E ss buf (off + t + k) (pre @ map (shift_frame k) (frames @ [f])) = (pre @ map (shift_frame k) fs, o' + k, r)"
        using "1.hyps" [OF True cap(2)] Accept d "1.prems"(2) by simp
      moreover have "parse_frame E ss (off + k) (drop (off + k) buf) = Accept (shift_frame k f) t"
        using Accept by (simp add: parse_frame_shift)
      moreover have "off + t + k = off + k + t" by simp
      ultimately show ?thesis using T cap by (subst ws_loop.simps) simp
    next
      case Pending
      then have "fs = frames" "o' = off" "r = None" using p by auto
      then show ?thesis using Pending T cap by (subst ws_loop.simps) (simp add: parse_frame_shift)
    next
      case (Stop f x)
      then have "fs = frames @ [f]" "o' = off" "r = Some x" using p by auto
      then show ?thesis using Stop T cap by (subst ws_loop.simps) (simp add: parse_frame_shift)
    qed
  qed
qed

lemma ws_loop_extend:
  assumes "ws_loop E ss buf off fr = (fs, o', None)"
  shows "ws_loop E ss (buf @ ext) off fr = ws_loop E ss (buf @ ext) o' fs"
  using assms
proof (induction E ss buf off fr rule: ws_loop.induct)
  case (1 E ss buf off frames)
  show ?case
  proof (cases "off < length buf \<and> length frames < MAX_FRAMES_PER_FLOW * 2")
    case False
    with "1.prems" show ?thesis by (subst (asm) ws_loop.simps) (auto split: if_splits)
  next
    case True
    then have c: "off < length buf" "\<not> length frames \<ge> MAX_FRAMES_PER_FLOW * 2" by auto
    note p = "1.prems" [unfolded ws_loop.simps [of E ss buf off]] c
    show ?thesis
    proof (cases "parse_frame E ss off (drop off buf)")
      case (Accept f t)
      then have "ws_loop E ss buf (off + t) (frames @ [f]) = (fs, o', None)" using p by simp
      then have ih: "ws_loop E ss (buf @ ext) (off + t) (frames @ [f]) = ws_loop E ss (buf @ ext) o' fs"
        using "1.IH" [OF c Accept] by simp
      have "parse_frame E ss off (drop off (buf @ ext)) = Accept f t"
        using Accept parse_frame_append [of E ss off "drop off buf" ext] c by simp
      with ih c show ?thesis by (subst ws_loop.simps) simp
    qed (use p in auto)
  qed
qed

lemma parse_frames_piecewise:
  assumes a: "parse_ws_frames E buf ss = (fs, o1, None)"
    and b: "parse_ws_frames E (drop o1 buf @ ext) ss = (gs, o2, r)"
    and "length fs + length gs < MAX_FRAMES_PER_FLOW * 2"
  shows "parse_ws_frames E (buf @ ext) ss = (fs @ map (shift_frame o1) gs, o1 + o2, r)"
proof -
  have "o1 \<le> length buf"
    using ws_loop_ok [of buf 0 "[]" 0 E ss] a by (simp add: run_result_ok_def parse_ws_frames_def)
  then have "drop o1 buf @ ext = drop o1 (buf @ ext)" by simp
  with b ws_loop_shift [of E ss o1 "buf @ ext" 0 "[]" gs o2 r fs] assms(3) ws_loop_extend [of E ss buf 0 "[]" fs o1 ext] a
  show ?thesis by (simp add: parse_ws_frames_def add.commute)
qed

subsection \<open>RFC 6455 encoding\<close>

definition length_byte :: "bool \<Rightarrow> nat \<Rightarrow> byte" where
  "length_byte masked n = of_nat (n + (if masked then 128 else 0))"

definition encode_length :: "bool \<Rightarrow> nat \<Rightarrow> bytes" where
  "encode_length masked n = (if n \<le> 125 then [length_byte masked n]
     else if n < 65536 then length_byte masked 126 # be_bytes 2 n
     else length_byte masked 127 # be_bytes 8 n)"

text \<open>The masking of RFC 6455, octet by octet with a rotating key.\<close>

fun rfc_mask :: "bytes \<Rightarrow> bytes \<Rightarrow> bytes" where
  "rfc_mask (k # ks) (b # bs) = (b XOR k) # rfc_mask (ks @ [k]) bs"
| "rfc_mask _ _ = []"

text \<open>A final frame; a client sends a 4-byte key and the payload combined with it.\<close>

definition encode_frame :: "nat \<Rightarrow> bytes option \<Rightarrow> bytes \<Rightarrow> bytes" where
  "encode_frame opcode key payload =
     of_nat (128 + opcode) # encode_length (key \<noteq> None) (length payload)
       @ (case key of None \<Rightarrow> payload | Some k \<Rightarrow> k @ rfc_mask k payload)"

lemma length_byte_facts:
  "n < 128 \<Longrightarrow> unat (length_byte m n AND 0x7F) = n \<and> (drop_bit 7 (length_byte m n) AND 1 = 1) = m"
proof -
  have "\<forall>n \<in> set [0..<128]. \<forall>m. unat (length_byte m n AND 0x7F) = n \<and> (drop_bit 7 (length_byte m n) AND 1 = 1) = m"
    by code_simp
  then show "n < 128 \<Longrightarrow> unat (length_byte m n AND 0x7F) = n \<and> (drop_bit 7 (length_byte m n) AND 1 = 1) = m" by simp
qed

lemma rfc_mask_unmask: "length k = 4 \<Longrightarrow> rfc_mask k p = unmask k p"
proof (induction k p rule: rfc_mask.induct)
  case (1 k ks b bs)
  have "(k # ks) ! (Suc i mod 4) = (ks @ [k]) ! (i mod 4)" for i
  proof (cases "i mod 4 = 3")
    case True
    then have "Suc i mod 4 = 0" by presburger
    then show ?thesis using True 1(2) by (simp add: nth_append)
  next
    case False
    then have "Suc i mod 4 = Suc (i mod 4)" "i mod 4 < 3" by presburger+
    then show ?thesis using 1(2) by (simp add: nth_append)
  qed
  then have "map (\<lambda>i. bs ! i XOR (ks @ [k]) ! (i mod 4)) [0..<length bs] = map (\<lambda>i. bs ! i XOR (k # ks) ! (Suc i mod 4)) [0..<length bs]"
    by simp
  then show ?case using 1 by (simp add: unmask_def map_upt_Suc del: upt_Suc)
qed (simp_all add: unmask_def)

lemma length_unmask [simp]: "length (unmask k p) = length p"
  by (simp add: unmask_def)

lemma unmask_unmask [simp]: "unmask k (unmask k p) = p"
  by (rule nth_equalityI) (simp_all add: unmask_def xor.assoc)

definition frame_opening :: "nat \<Rightarrow> bool \<Rightarrow> nat \<Rightarrow> bytes" where
  "frame_opening opcode masked n = of_nat (128 + opcode) # encode_length masked n"

lemma opening_length:
  "length (frame_opening oc m n) = (if n \<le> 125 then 2 else if n < 65536 then 4 else 10)"
  by (simp add: frame_opening_def encode_length_def)

lemma opening_byte:
  "\<exists>l7 < 128. (frame_opening oc m n @ r) ! 1 = length_byte m l7
    \<and> l7 = (if n \<le> 125 then n else if n < 65536 then 126 else 127)"
  by (auto simp: frame_opening_def encode_length_def)

lemma opening_data_length:
  assumes "n < 2 ^ 63" and l7: "l7 = (if n \<le> 125 then n else if n < 65536 then 126 else 127)"
  shows "data_length (frame_opening oc m n @ r) m l7 = Some (Inr (length (frame_opening oc m n) + mask_len m, n))"
proof (cases "n \<le> 125")
  case True
  then show ?thesis using l7 by (simp add: data_length_def opening_length)
next
  case big: False
  show ?thesis
  proof (cases "n < 65536")
    case True
    then have "slice (frame_opening oc m n @ r) 2 4 = be_bytes 2 n"
      using big by (simp add: frame_opening_def encode_length_def slice_def)
    moreover have "be_nat (be_bytes 2 n) = n" using True by (intro be_nat_be_bytes) simp
    ultimately show ?thesis using big True l7 by (simp add: data_length_def opening_length)
  next
    case False
    then have "slice (frame_opening oc m n @ r) 2 10 = be_bytes 8 n"
      using big by (simp add: frame_opening_def encode_length_def slice_def)
    moreover have "be_nat (be_bytes 8 n) = n" using assms(1) by (intro be_nat_be_bytes) simp
    ultimately show ?thesis using big False l7 assms(1) by (simp add: data_length_def opening_length)
  qed
qed

definition frame_key :: "bool \<Rightarrow> bytes \<Rightarrow> bytes option" where
  "frame_key server_sender k = (if server_sender then None else Some k)"

lemma encode_payload:
  assumes "length k = 4" and h: "h = length (frame_opening oc (\<not> ss) (length p)) + mask_len (\<not> ss)"
  shows "frame_payload (encode_frame oc (frame_key ss k) p @ r) (\<not> ss) h (length p) = p"
    and "length (encode_frame oc (frame_key ss k) p) = h + length p"
proof -
  let ?o = "frame_opening oc (\<not> ss) (length p)"
  have "frame_payload (encode_frame oc (frame_key ss k) p @ r) (\<not> ss) h (length p) = p
    \<and> length (encode_frame oc (frame_key ss k) p) = h + length p"
  proof (cases ss)
    case True
    then have "encode_frame oc (frame_key ss k) p = ?o @ p"
      by (simp add: encode_frame_def frame_key_def frame_opening_def)
    then show ?thesis using True h slice_mid [of ?o p r] by (simp add: frame_payload_def mask_len_def)
  next
    case False
    then have e: "encode_frame oc (frame_key ss k) p = ?o @ k @ unmask k p"
      using assms(1) by (simp add: encode_frame_def frame_key_def frame_opening_def rfc_mask_unmask)
    have "slice (?o @ k @ unmask k p @ r) (length ?o) (length ?o + 4) = k"
      using slice_mid [of ?o k "unmask k p @ r"] assms(1) by simp
    moreover have "slice (?o @ k @ unmask k p @ r) (length ?o + 4) (length ?o + 4 + length p) = unmask k p"
      using slice_mid [of "?o @ k" "unmask k p" r] assms(1) by simp
    ultimately show ?thesis using False h e assms(1) by (simp add: frame_payload_def mask_len_def)
  qed
  then show "frame_payload (encode_frame oc (frame_key ss k) p @ r) (\<not> ss) h (length p) = p"
    "length (encode_frame oc (frame_key ss k) p) = h + length p" by blast+
qed

lemma parse_encoded:
  assumes "oc = 1 \<or> oc = 2" "length k = 4" "length p \<le> MAX_FRAME_BYTES"
  shows "parse_frame E ss off (encode_frame oc (frame_key ss k) p @ r)
    = app_frame E off oc (\<not> ss) (length p) p (length (encode_frame oc (frame_key ss k) p))"
proof -
  let ?n = "length p" and ?s = "encode_frame oc (frame_key ss k) p @ r"
  let ?o = "frame_opening oc (\<not> ss) ?n"
  obtain r' where s: "?s = ?o @ r'" by (simp add: encode_frame_def frame_opening_def frame_key_def)
  obtain l7 where l7: "l7 < 128" "?s ! 1 = length_byte (\<not> ss) l7"
    "l7 = (if ?n \<le> 125 then ?n else if ?n < 65536 then 126 else 127)"
    using opening_byte [of oc "\<not> ss" ?n r'] s by auto
  have b0: "?s ! 0 = of_nat (128 + oc)" by (simp add: encode_frame_def)
  have w: "unat (drop_bit 7 (of_nat (128 + oc) :: byte) AND 1) = 1" "unat (drop_bit 4 (of_nat (128 + oc) :: byte) AND 7) = 0"
    "unat ((of_nat (128 + oc) :: byte) AND 0x0F) = oc" using assms(1) by auto
  note w1 = length_byte_facts [OF l7(1), of "\<not> ss"]
  have len: "\<not> length ?s < 2" using s opening_length [of oc "\<not> ss" ?n] by (simp split: if_splits)
  define h where "h = length ?o + mask_len (\<not> ss)"
  have d: "data_length ?s (\<not> ss) l7 = Some (Inr (h, ?n))"
    using opening_data_length [of ?n l7 oc "\<not> ss" r'] l7(3) assms(3) s by (simp add: MAX_FRAME_BYTES_def h_def)
  have "h \<le> 14" by (simp add: h_def opening_length mask_len_def)
  then have df: "data_frame E off ?s 1 oc (\<not> ss) l7 = app_frame E off oc (\<not> ss) ?n p (h + ?n)"
    using assms d encode_payload [OF assms(2) h_def] by (auto simp: data_frame_def MAX_FRAME_BYTES_def)
  show ?thesis
    using assms(1) w1 unfolding parse_frame_def Let_def b0 w l7(2) if_not_P [OF len] encode_payload(2) [OF assms(2) h_def] df [symmetric]
    by auto
qed

text \<open>A stream of binary messages, each with its masking key, and what is reported of it.\<close>

definition binary_stream :: "bool \<Rightarrow> (bytes \<times> bytes) list \<Rightarrow> bytes" where
  "binary_stream ss msgs = concat (map (\<lambda>(k, p). encode_frame 2 (frame_key ss k) p) msgs)"

definition binary_entry :: "env \<Rightarrow> bool \<Rightarrow> nat \<Rightarrow> bytes \<Rightarrow> frame_entry" where
  "binary_entry E ss off p = (let mp = safe_msgpack_summary (e_lib E) p in
     (plain_entry off True ''msgpack'' 2 (\<not> ss) (length p))\<lparr>f_msgpack := Some mp, f_app_complete := Some (mp_decode_ok mp)\<rparr>)"

fun binary_entries :: "env \<Rightarrow> bool \<Rightarrow> nat \<Rightarrow> (bytes \<times> bytes) list \<Rightarrow> frame_entry list" where
  "binary_entries E ss off [] = []"
| "binary_entries E ss off ((k, p) # msgs) =
     binary_entry E ss off p # binary_entries E ss (off + length (encode_frame 2 (frame_key ss k) p)) msgs"

lemma binary_loop:
  assumes "list_all (\<lambda>(k, p). length k = 4 \<and> length p \<le> MAX_FRAME_BYTES) msgs"
    and "length fr + length msgs \<le> MAX_FRAMES_PER_FLOW * 2"
    and "drop off buf = binary_stream ss msgs" "off \<le> length buf"
  shows "ws_loop E ss buf off fr = (fr @ binary_entries E ss off msgs, length buf, None)"
  using assms
proof (induction msgs arbitrary: off fr)
  case Nil
  then show ?case by (subst ws_loop.simps) (simp add: binary_stream_def)
next
  case (Cons kp msgs)
  obtain k p where kp: "kp = (k, p)" by force
  let ?e = "encode_frame 2 (frame_key ss k) p"
  have d: "drop off buf = ?e @ binary_stream ss msgs" using Cons.prems(3) kp by (simp add: binary_stream_def)
  have p: "parse_frame E ss off (drop off buf) = Accept (binary_entry E ss off p) (length ?e)"
    using Cons.prems(1) kp parse_encoded [of 2 k p E ss off] unfolding d by (simp add: app_frame_def binary_entry_def Let_def)
  have "2 \<le> length ?e" using parse_frame_total [OF p] by blast
  then have off: "off < length buf" using d Cons.prems(4)
    by (metis (no_types) append_is_Nil_conv drop_all leI length_0_conv not_numeral_le_zero)
  have "drop (off + length ?e) buf = binary_stream ss msgs"
    using d by (metis add.commute append_eq_conv_conj drop_drop)
  moreover have "off + length ?e \<le> length buf" using arg_cong [OF d, of length] Cons.prems(4) by simp
  ultimately have "ws_loop E ss buf (off + length ?e) (fr @ [binary_entry E ss off p])
     = ((fr @ [binary_entry E ss off p]) @ binary_entries E ss (off + length ?e) msgs, length buf, None)"
    using Cons.prems by (intro Cons.IH) auto
  with off p Cons.prems(2) kp show ?case by (subst ws_loop.simps) simp
qed

subsection \<open>Properties\<close>

text \<open>Whatever the bytes, the frame parser returns complete frames that lie one after the other
  from the first byte up to the reported offset, within the buffer, each as long as
  \<open>_frame_total_len\<close> computes, at most 256 of them; a rejected entry comes last, at that offset,
  and carries the reason the parse stopped.\<close>

theorem frames_tile_buffer:
  "run_result_ok buf 0 (parse_ws_frames E buf ss)"
  unfolding parse_ws_frames_def by (rule ws_loop_ok) simp_all

text \<open>C4. Resuming the parse at the reported offset when more bytes have arrived gives, up to the
  position of the frames, what one parse of all the bytes gives, as long as the cap of 256
  frames is not reached.\<close>

theorem parse_resumes:
  assumes "parse_ws_frames E buf ss = (fs, o1, None)"
    and "parse_ws_frames E (drop o1 buf @ ext) ss = (gs, o2, r)"
    and "length fs + length gs < MAX_FRAMES_PER_FLOW * 2"
  shows "parse_ws_frames E (buf @ ext) ss = (fs @ map (shift_frame o1) gs, o1 + o2, r)"
  using assms by (rule parse_frames_piecewise)

definition demo_env :: env where
  "demo_env = \<lparr>e_json_loads = (\<lambda>_. None), e_lib = None, e_policy = load_policy_uuid_sets None\<rparr>"

theorem parse_resumes_witness:
  "\<exists>fs gs. parse_ws_frames demo_env [0x89, 0, 0x8A] True = (fs, 2, None)
     \<and> parse_ws_frames demo_env (drop 2 [0x89, 0, 0x8A] @ [1, 0xC0]) True = (gs, 3, None)
     \<and> parse_ws_frames demo_env ([0x89, 0, 0x8A] @ [1, 0xC0]) True = (fs @ map (shift_frame 2) gs, 2 + 3, None)"
proof -
  obtain fs where a: "parse_ws_frames demo_env [0x89, 0, 0x8A] True = (fs, 2, None)" and la: "length fs = 1"
  proof -
    have "snd (parse_ws_frames demo_env [0x89, 0, 0x8A] True) = (2, None)
      \<and> length (fst (parse_ws_frames demo_env [0x89, 0, 0x8A] True)) = 1" by code_simp
    then show ?thesis using that by (metis prod.collapse)
  qed
  obtain gs where b: "parse_ws_frames demo_env (drop 2 [0x89, 0, 0x8A] @ [1, 0xC0]) True = (gs, 3, None)"
    and lb: "length gs = 1"
  proof -
    have "snd (parse_ws_frames demo_env (drop 2 [0x89, 0, 0x8A] @ [1, 0xC0]) True) = (3, None)
      \<and> length (fst (parse_ws_frames demo_env (drop 2 [0x89, 0, 0x8A] @ [1, 0xC0]) True)) = 1" by code_simp
    then show ?thesis using that by (metis prod.collapse)
  qed
  have "length fs + length gs < MAX_FRAMES_PER_FLOW * 2" using la lb by (simp add: MAX_FRAMES_PER_FLOW_def)
  from parse_resumes [OF a b this] a b show ?thesis by blast
qed

text \<open>A sequence of up to 256 binary messages of at most 64 KiB, framed as RFC 6455 prescribes
  (masked when the client sends), is decoded completely: one entry per message with the summary
  of the unmasked payload, no error, no byte left.\<close>

theorem binary_stream_decoded:
  assumes "list_all (\<lambda>(k, p). length k = 4 \<and> length p \<le> MAX_FRAME_BYTES) msgs"
    and "length msgs \<le> MAX_FRAMES_PER_FLOW * 2"
  shows "parse_ws_frames E (binary_stream ss msgs) ss
    = (binary_entries E ss 0 msgs, length (binary_stream ss msgs), None)"
  using binary_loop [OF assms(1), of "[]" 0 "binary_stream ss msgs"] assms(2) by (simp add: parse_ws_frames_def)

theorem binary_stream_decoded_witness:
  "parse_ws_frames demo_env (binary_stream False [([1, 2, 3, 4], [0xC0]), ([9, 9, 9, 9], [0x80, 0x01])]) False
    = (binary_entries demo_env False 0 [([1, 2, 3, 4], [0xC0]), ([9, 9, 9, 9], [0x80, 0x01])],
       length (binary_stream False [([1, 2, 3, 4], [0xC0]), ([9, 9, 9, 9], [0x80, 0x01])]), None)"
  by (rule binary_stream_decoded) (simp_all add: MAX_FRAME_BYTES_def MAX_FRAMES_PER_FLOW_def)

end
