(* ===== verification/Records.thy ===== *)
theory Records
  imports Prelude
begin

text \<open>
  The record lines of the passive observer, \<open>parse_record_line\<close> and the endpoint tests of
  \<open>tools/m4/decode_passive_records.py\<close>. The regular expression \<open>_RECORD_RE\<close> is a list of fields, each a
  literal name and a class of text; because every class excludes white space and every gap is
  white space only, the greedy left-to-right reading here is the only match the expression has.

  Shown: an accepted record is well formed (ports, sequence numbers and counts in range, the
  payload has exactly the advertised captured bytes, the truncated flag agrees with the
  counts), and printing a well-formed record in the documented format and parsing it again
  gives the record.
\<close>

subsection \<open>The line grammar\<close>

datatype matcher = Digits | Hex nat | Bit | NonSpace | HexRest

text \<open>One group of the expression: the text it takes and what is left.\<close>

definition take_class :: "(char \<Rightarrow> bool) \<Rightarrow> string \<Rightarrow> string \<times> string" where
  "take_class P s = (takeWhile P s, dropWhile P s)"

fun match_one :: "matcher \<Rightarrow> string \<Rightarrow> (string \<times> string) option" where
  "match_one Digits s = (let (g, r) = take_class is_digit s in if g = [] then None else Some (g, r))"
| "match_one (Hex n) s =
     (if n \<le> length s \<and> list_all is_hex (take n s) then Some (take n s, drop n s) else None)"
| "match_one Bit s = (case s of c # r \<Rightarrow> if c = CHR ''0'' \<or> c = CHR ''1'' then Some ([c], r) else None | [] \<Rightarrow> None)"
| "match_one NonSpace s =
     (let (g, r) = take_class (\<lambda>c. \<not> is_space c) s in if g = [] then None else Some (g, r))"
| "match_one HexRest s = Some (take_class is_hex s)"

text \<open>A white-space gap of at least one character.\<close>

definition skip_gap :: "string \<Rightarrow> string option" where
  "skip_gap s = (case s of c # r \<Rightarrow> if is_space c then Some (dropWhile is_space r) else None | [] \<Rightarrow> None)"

definition skip_lit :: "string \<Rightarrow> string \<Rightarrow> string option" where
  "skip_lit p s = (if prefix p s then Some (drop (length p) s) else None)"

fun match_fields :: "(string \<times> matcher) list \<Rightarrow> string \<Rightarrow> string list option" where
  "match_fields [] s = (if s = [] then Some [] else None)"
| "match_fields ((name, m) # fs) s =
     (case skip_lit name s of None \<Rightarrow> None | Some s1 \<Rightarrow>
      (case match_one m s1 of None \<Rightarrow> None | Some (g, s2) \<Rightarrow>
       (case (if fs = [] then Some s2 else skip_gap s2) of None \<Rightarrow> None | Some s3 \<Rightarrow>
         map_option (Cons g) (match_fields fs s3))))"

definition RECORD_RE :: "(string \<times> matcher) list" where
  "RECORD_RE = [(''pkt='', Digits), (''len='', Digits), (''src_ip='', Hex 8), (''dst_ip='', Hex 8),
     (''sport='', Digits), (''dport='', Digits), (''seq='', Digits), (''ack='', Digits),
     (''tcp_flags='', Hex 2), (''payload_len='', Digits), (''captured='', Digits), (''truncated='', Bit),
     (''leg='', NonSpace), (''payload_hex='', HexRest)]"

subsection \<open>Records\<close>

definition SEQ_MOD :: nat where
  "SEQ_MOD = 4294967296"

definition SERVICE_PORTS :: "nat list" where
  "SERVICE_PORTS = [8080, 24012, 26012]"

definition CAM_HEX :: string where
  "CAM_HEX = ''c0a8207b''"

definition PEER_HEX :: string where
  "PEER_HEX = ''c0a82081''"

record rec =
  r_pkt :: nat
  r_wire_len :: nat
  r_src_hex :: string
  r_dst_hex :: string
  r_sport :: nat
  r_dport :: nat
  r_seq :: nat
  r_ack :: nat
  r_tcp_flags :: nat
  r_payload_len :: nat
  r_captured :: nat
  r_truncated :: nat
  r_leg :: string
  r_payload :: bytes
  r_lineno :: nat

text \<open>The reasons of a \<open>RecordError\<close>, in the order they are tested; the number is the packet.\<close>

datatype record_error =
    Format_mismatch
  | Bad_numeric_field
  | Out_of_range nat string
  | Payload_hex_odd nat
  | Captured_disagrees nat nat nat
  | Captured_exceeds nat
  | Truncated_disagrees nat
  | Byte_count_mismatch nat

definition range_limits :: "nat \<Rightarrow> nat \<Rightarrow> nat \<Rightarrow> nat \<Rightarrow> nat \<Rightarrow> nat \<Rightarrow> (string \<times> nat \<times> nat) list" where
  "range_limits sport dport sq ack payload_len captured =
     [(''sport'', sport, 65535), (''dport'', dport, 65535), (''seq'', sq, SEQ_MOD - 1), (''ack'', ack, SEQ_MOD - 1),
      (''payload_len'', payload_len, 10000000), (''captured'', captured, 10000000)]"

definition check_record :: "string \<Rightarrow> rec \<Rightarrow> record_error + rec" where
  "check_record payload_hex r =
     (let captured = r_captured r; payload_len = r_payload_len r; pkt = r_pkt r;
          payload = fromhex payload_hex in
      case find (\<lambda>(name, val, hi). hi < val)
             (range_limits (r_sport r) (r_dport r) (r_seq r) (r_ack r) payload_len captured) of
        Some (name, val, hi) \<Rightarrow> Inl (Out_of_range pkt name)
      | None \<Rightarrow>
          if length payload_hex mod 2 \<noteq> 0 then Inl (Payload_hex_odd pkt)
          else if length payload_hex div 2 \<noteq> captured
            then Inl (Captured_disagrees pkt captured (length payload_hex div 2))
          else if captured > payload_len then Inl (Captured_exceeds pkt)
          else if r_truncated r \<noteq> (if captured < payload_len then 1 else 0) then Inl (Truncated_disagrees pkt)
          else if length payload \<noteq> captured then Inl (Byte_count_mismatch pkt)
          else Inr (r\<lparr>r_payload := payload\<rparr>))"

definition parse_record_line :: "string \<Rightarrow> nat \<Rightarrow> record_error + rec" where
  "parse_record_line line lineno =
     (case match_fields RECORD_RE (strip_by is_space line) of
        Some [pk, wl, sh, dh, sp, dp, sq, ak, fl, pl, cp, tr, leg, payload_hex] \<Rightarrow>
          (case those (map py_int_dec [pk, wl, sp, dp, sq, ak, pl, cp]) of
             Some [pkt, wire_len, sport, dport, seq, ack, payload_len, captured] \<Rightarrow>
               check_record payload_hex
                 \<lparr>r_pkt = pkt, r_wire_len = wire_len, r_src_hex = lower sh, r_dst_hex = lower dh,
                  r_sport = sport, r_dport = dport, r_seq = seq, r_ack = ack, r_tcp_flags = hex_num fl,
                  r_payload_len = payload_len, r_captured = captured, r_truncated = dec_val tr,
                  r_leg = leg, r_payload = [], r_lineno = lineno\<rparr>
           | _ \<Rightarrow> Inl Bad_numeric_field)
      | _ \<Rightarrow> Inl Format_mismatch)"

definition is_known_endpoint :: "rec \<Rightarrow> bool" where
  "is_known_endpoint r =
     (if {r_src_hex r, r_dst_hex r} \<noteq> {CAM_HEX, PEER_HEX} then False
      else if r_src_hex r = CAM_HEX then r_sport r \<in> set SERVICE_PORTS \<and> r_dport r \<notin> set SERVICE_PORTS
      else r_dport r \<in> set SERVICE_PORTS \<and> r_sport r \<notin> set SERVICE_PORTS)"

definition is_server_sender :: "rec \<Rightarrow> bool" where
  "is_server_sender r \<longleftrightarrow> r_src_hex r = CAM_HEX"

subsection \<open>Well-formed records and their printed form\<close>

definition addr_ok :: "string \<Rightarrow> bool" where
  "addr_ok s \<longleftrightarrow> length s = 8 \<and> list_all is_hex s \<and> lower s = s"

definition rec_ok :: "rec \<Rightarrow> bool" where
  "rec_ok r \<longleftrightarrow> length (show_nat (r_pkt r)) \<le> 4300 \<and> length (show_nat (r_wire_len r)) \<le> 4300
     \<and> addr_ok (r_src_hex r) \<and> addr_ok (r_dst_hex r) \<and> r_sport r \<le> 65535 \<and> r_dport r \<le> 65535
     \<and> r_seq r < SEQ_MOD \<and> r_ack r < SEQ_MOD \<and> r_tcp_flags r < 256 \<and> r_payload_len r \<le> 10000000
     \<and> r_captured r = length (r_payload r) \<and> r_captured r \<le> r_payload_len r
     \<and> r_truncated r = (if r_captured r < r_payload_len r then 1 else 0)
     \<and> r_leg r \<noteq> [] \<and> list_all (\<lambda>c. \<not> is_space c) (r_leg r)"

definition hex_char :: "nat \<Rightarrow> char" where
  "hex_char n = char_of (if n < 10 then 48 + n else 87 + n)"

definition hex_byte :: "nat \<Rightarrow> string" where
  "hex_byte n = [hex_char (n div 16), hex_char (n mod 16)]"

definition hex_of :: "bytes \<Rightarrow> string" where
  "hex_of bs = concat (map (\<lambda>b. hex_byte (unat b)) bs)"

text \<open>The line in the format the header of the decoder documents.\<close>

definition record_groups :: "rec \<Rightarrow> string list" where
  "record_groups r = [show_nat (r_pkt r), show_nat (r_wire_len r), r_src_hex r, r_dst_hex r,
     show_nat (r_sport r), show_nat (r_dport r), show_nat (r_seq r), show_nat (r_ack r),
     hex_byte (r_tcp_flags r), show_nat (r_payload_len r), show_nat (r_captured r),
     show_nat (r_truncated r), r_leg r, hex_of (r_payload r)]"

fun print_fields :: "(string \<times> matcher) list \<Rightarrow> string list \<Rightarrow> string" where
  "print_fields [(name, m)] [g] = name @ g"
| "print_fields ((name, m) # fs) (g # gs) = name @ g @ '' '' @ print_fields fs gs"
| "print_fields _ _ = []"

definition format_record :: "rec \<Rightarrow> string" where
  "format_record r = print_fields RECORD_RE (record_groups r)"

subsection \<open>Numbers and hexadecimal\<close>

lemma code_digit [simp]: "n < 10 \<Longrightarrow> code (char_of (48 + n)) = 48 + n"
  by (simp add: code_def)

lemma dec_val_snoc [simp]: "dec_val (s @ [c]) = 10 * dec_val s + digit_val c"
  by (simp add: dec_val_def)

lemma dec_val_show_nat [simp]: "dec_val (show_nat n) = n"
proof (induction n rule: show_nat.induct)
  case (1 n)
  show ?case
  proof (cases "n < 10")
    case True
    then show ?thesis by (simp add: show_nat.simps [of n] dec_val_def digit_val_def)
  next
    case False
    then show ?thesis using 1 by (subst show_nat.simps) (simp add: digit_val_def)
  qed
qed

lemma show_nat_digits: "show_nat n \<noteq> [] \<and> list_all is_digit (show_nat n)"
proof (induction n rule: show_nat.induct)
  case (1 n)
  have "is_digit (char_of (48 + k))" if "k < 10" for k :: nat using that by (simp add: is_digit_def)
  from this [of n] this [of "n mod 10"] 1 show ?case by (subst (1 2) show_nat.simps) auto
qed

lemma length_show_nat: "0 < k \<Longrightarrow> n < 10 ^ k \<Longrightarrow> length (show_nat n) \<le> k"
proof (induction k arbitrary: n)
  case (Suc k)
  show ?case
  proof (cases "n < 10")
    case True
    then show ?thesis by (subst show_nat.simps) simp
  next
    case False
    then have "0 < k" using Suc.prems by (cases k) auto
    moreover have "n div 10 < 10 ^ k" using Suc.prems by (simp add: less_mult_imp_div_less mult.commute)
    ultimately have "length (show_nat (n div 10)) \<le> k" by (rule Suc.IH)
    with False show ?thesis by (subst show_nat.simps) simp
  qed
qed simp

lemma dec_val_bound: "list_all is_digit s \<Longrightarrow> dec_val s < 10 ^ length s"
proof (induction s rule: rev_induct)
  case (snoc c s)
  then have "dec_val s + 1 \<le> 10 ^ length s" and "digit_val c < 10" by (auto simp: is_digit_def digit_val_def)
  then have "10 * dec_val s + digit_val c < 10 * 10 ^ length s" by linarith
  then show ?case by simp
qed (simp add: dec_val_def)

lemma hex_digit: "n < 16 \<Longrightarrow> is_hex (hex_char n) \<and> hex_val (hex_char n) = n"
proof -
  have "\<forall>n \<in> set [0..<16]. is_hex (hex_char n) \<and> hex_val (hex_char n) = n" by code_simp
  then show "n < 16 \<Longrightarrow> is_hex (hex_char n) \<and> hex_val (hex_char n) = n" by simp
qed

lemma hex_byte_facts:
  assumes "n < 256"
  shows "list_all is_hex (hex_byte n)" "hex_num (hex_byte n) = n" "length (hex_byte n) = 2"
proof -
  have "n div 16 < 16" "n mod 16 < 16" using assms by simp_all
  then show "list_all is_hex (hex_byte n)" "hex_num (hex_byte n) = n" "length (hex_byte n) = 2"
    using hex_digit by (simp_all add: hex_byte_def hex_num_def)
qed

lemma fromhex_hex_of [simp]: "fromhex (hex_of bs) = bs"
proof (induction bs)
  case (Cons b bs)
  have "unat b div 16 < 16" "unat b mod 16 < 16" using unat_byte_less [of b] by linarith+
  then show ?case using Cons hex_digit by (simp add: hex_of_def hex_byte_def)
qed (simp add: hex_of_def)

lemma length_hex_of [simp]: "length (hex_of bs) = 2 * length bs"
  by (induction bs) (simp_all add: hex_of_def hex_byte_def)

lemma hex_of_hex: "list_all is_hex (hex_of bs)"
  by (induction bs) (auto simp: hex_of_def hex_byte_facts(1))

subsection \<open>Printing and matching fields\<close>

fun fits :: "matcher \<Rightarrow> string \<Rightarrow> bool" where
  "fits Digits g \<longleftrightarrow> g \<noteq> [] \<and> list_all is_digit g"
| "fits (Hex n) g \<longleftrightarrow> length g = n \<and> list_all is_hex g"
| "fits Bit g \<longleftrightarrow> g = ''0'' \<or> g = ''1''"
| "fits NonSpace g \<longleftrightarrow> g \<noteq> [] \<and> list_all (\<lambda>c. \<not> is_space c) g"
| "fits HexRest g \<longleftrightarrow> list_all is_hex g"

lemma class_facts: "is_digit c \<Longrightarrow> is_hex c" "is_hex c \<Longrightarrow> \<not> is_space c"
  by (auto simp: is_hex_def is_digit_def is_space_def)

lemma take_class_append:
  "list_all P g \<Longrightarrow> r = [] \<or> \<not> P (hd r) \<Longrightarrow> take_class P (g @ r) = (g, r)"
  by (cases r) (auto simp: take_class_def list_all_iff takeWhile_tail dropWhile_append)

lemma match_one_fits:
  assumes "fits m g" "r = [] \<or> is_space (hd r)"
  shows "match_one m (g @ r) = Some (g, r)"
proof (cases m)
  case Digits
  then have "take_class is_digit (g @ r) = (g, r)"
    using assms class_facts by (intro take_class_append) auto
  with Digits assms show ?thesis by simp
next
  case NonSpace
  then have "take_class (\<lambda>c. \<not> is_space c) (g @ r) = (g, r)"
    using assms by (intro take_class_append) auto
  with NonSpace assms show ?thesis by simp
next
  case HexRest
  then have "take_class is_hex (g @ r) = (g, r)"
    using assms class_facts by (intro take_class_append) auto
  with HexRest show ?thesis by simp
qed (use assms in auto)

lemma match_one_sound: "match_one m s = Some (g, r) \<Longrightarrow> fits m g \<and> s = g @ r"
proof (cases m)
  case (Hex n)
  then show "match_one m s = Some (g, r) \<Longrightarrow> fits m g \<and> s = g @ r" by (auto split: if_splits)
next
  case Bit
  then show "match_one m s = Some (g, r) \<Longrightarrow> fits m g \<and> s = g @ r" by (cases s) (auto split: if_splits)
qed (auto simp: take_class_def list_all_iff dest: set_takeWhileD split: if_splits)

definition field_names_ok :: "(string \<times> matcher) list \<Rightarrow> bool" where
  "field_names_ok fs = list_all (\<lambda>(name, m). name \<noteq> [] \<and> \<not> is_space (hd name)) fs"

lemma print_fields_head:
  "list_all2 (\<lambda>(name, m) g. fits m g) fs gs \<Longrightarrow> field_names_ok fs \<Longrightarrow> fs \<noteq> [] \<Longrightarrow>
    print_fields fs gs \<noteq> [] \<and> \<not> is_space (hd (print_fields fs gs))"
  by (induction fs gs rule: print_fields.induct) (auto simp: field_names_ok_def)

lemma print_fields_Cons:
  "fs \<noteq> [] \<Longrightarrow> print_fields ((name, m) # fs) (g # gs) = name @ g @ '' '' @ print_fields fs gs"
  by (cases fs) auto

lemma match_print:
  "list_all2 (\<lambda>(name, m) g. fits m g) fs gs \<Longrightarrow> field_names_ok fs \<Longrightarrow>
    fs \<noteq> [] \<Longrightarrow> match_fields fs (print_fields fs gs) = Some gs"
proof (induction fs arbitrary: gs)
  case (Cons f fs)
  obtain name m where f: "f = (name, m)" by force
  from Cons.prems f obtain g gs' where gs: "gs = g # gs'" "fits m g"
    and ok: "list_all2 (\<lambda>(name, m) g. fits m g) fs gs'" "field_names_ok fs"
    by (auto simp: list_all2_Cons1 field_names_ok_def)
  show ?case
  proof (cases "fs = []")
    case True
    with ok gs f show ?thesis using match_one_fits [OF gs(2), of "[]"] by (simp add: skip_lit_def)
  next
    case False
    let ?rest = "print_fields fs gs'"
    have "dropWhile is_space ?rest = ?rest" using print_fields_head [OF ok False] by (cases ?rest) auto
    then have "skip_gap ('' '' @ ?rest) = Some ?rest" by (simp add: skip_gap_def is_space_def code_def)
    moreover have "match_one m (g @ '' '' @ ?rest) = Some (g, '' '' @ ?rest)"
      by (rule match_one_fits [OF gs(2)]) (simp add: is_space_def code_def)
    ultimately show ?thesis
      using Cons.IH [OF ok False] False gs f by (simp add: skip_lit_def print_fields_Cons)
  qed
qed simp

lemma match_fields_sound:
  "match_fields fs s = Some gs \<Longrightarrow> list_all2 (\<lambda>(name, m) g. fits m g) fs gs"
proof (induction fs s arbitrary: gs rule: match_fields.induct)
  case (2 name m fs s)
  from "2.prems" obtain s1 g s2 s3 gs' where
    "skip_lit name s = Some s1" "match_one m s1 = Some (g, s2)"
    "(if fs = [] then Some s2 else skip_gap s2) = Some s3" "match_fields fs s3 = Some gs'" "gs = g # gs'"
    by (auto split: option.splits)
  with "2.IH" match_one_sound show ?case by auto
qed (auto split: if_splits)

subsection \<open>Accepted and printed records\<close>

lemma lower_hex:
  assumes "is_hex c"
  shows "is_hex (hd (lower [c]))" "lower (lower [c]) = lower [c]"
proof -
  have c: "code (char_of (code c + 32)) = code c + 32" if "code c \<le> 90"
    using that by (simp add: code_def)
  show "is_hex (hd (lower [c]))" "lower (lower [c]) = lower [c]"
    using assms c by (auto simp: lower_def is_hex_def is_digit_def)
qed

lemma lower_addr: "length s = 8 \<Longrightarrow> list_all is_hex s \<Longrightarrow> addr_ok (lower s)"
proof -
  have "list_all is_hex s \<Longrightarrow> list_all is_hex (lower s) \<and> lower (lower s) = lower s"
  proof (induction s)
    case (Cons c s)
    then show ?case using lower_hex [of c] by (simp add: lower_def)
  qed (simp add: lower_def)
  then show "length s = 8 \<Longrightarrow> list_all is_hex s \<Longrightarrow> addr_ok (lower s)"
    by (simp add: addr_ok_def) (simp add: lower_def)
qed

lemma int_digits:
  "py_int_dec s = Some n \<Longrightarrow> fits Digits s \<Longrightarrow> length (show_nat n) \<le> 4300"
proof -
  assume "py_int_dec s = Some n" "fits Digits s"
  then have s: "length s \<le> 4300" "n = dec_val s" "s \<noteq> []" "list_all is_digit s"
    by (auto simp: py_int_dec_def split: if_splits)
  then have "n < 10 ^ length s" using dec_val_bound by simp
  then show ?thesis using length_show_nat [of "length s" n] s by simp
qed

lemma hex_pair: "length fl = 2 \<Longrightarrow> list_all is_hex fl \<Longrightarrow> hex_num fl < 256"
proof -
  assume "length fl = 2" "list_all is_hex fl"
  then obtain a b where "fl = [a, b]" "is_hex a" "is_hex b"
    by (cases fl; cases "tl fl") auto
  moreover have "is_hex c \<Longrightarrow> hex_val c < 16" for c by (auto simp: is_hex_def hex_val_def is_digit_def)
  ultimately have "hex_num fl = 16 * hex_val a + hex_val b" "hex_val a < 16" "hex_val b < 16"
    by (auto simp: hex_num_def)
  then show ?thesis by linarith
qed

lemma check_record_ok:
  assumes "check_record ph r0 = Inr r"
  shows "\<exists>bs. r = r0\<lparr>r_payload := bs\<rparr> \<and> length bs = r_captured r0" and "r_sport r0 \<le> 65535" "r_dport r0 \<le> 65535"
    "r_seq r0 < SEQ_MOD" "r_ack r0 < SEQ_MOD" "r_payload_len r0 \<le> 10000000" "r_captured r0 \<le> r_payload_len r0"
    "r_truncated r0 = (if r_captured r0 < r_payload_len r0 then 1 else 0)"
  using assms by (auto simp: check_record_def Let_def range_limits_def SEQ_MOD_def split: if_splits)

lemma those_map: "those (map f xs) = Some ys \<Longrightarrow> list_all2 (\<lambda>x y. f x = Some y) xs ys"
  by (induction xs arbitrary: ys) (auto split: option.splits)

lemma those_mapI: "list_all2 (\<lambda>x y. f x = Some y) xs ys \<Longrightarrow> those (map f xs) = Some ys"
  by (induction rule: list_all2_induct) auto

lemma parse_record_line_ok:
  assumes "parse_record_line line n = Inr r"
  shows "rec_ok r \<and> r_lineno r = n"
proof -
  from assms obtain gs where m: "match_fields RECORD_RE (strip_by is_space line) = Some gs"
    by (auto simp: parse_record_line_def split: option.splits)
  from match_fields_sound [OF this] obtain pk wl sh dh sp dp sq ak fl pl cp tr leg ph where
    gs: "gs = [pk, wl, sh, dh, sp, dp, sq, ak, fl, pl, cp, tr, leg, ph]"
    and fit: "fits Digits pk" "fits Digits wl" "fits (Hex 8) sh" "fits (Hex 8) dh" "fits (Hex 2) fl" "fits NonSpace leg"
    by (auto simp: RECORD_RE_def list_all2_Cons1)
  note p = assms [unfolded parse_record_line_def m gs option.case list.case]
  from p obtain ns where ns: "those (map py_int_dec [pk, wl, sp, dp, sq, ak, pl, cp]) = Some ns"
    by (cases "those (map py_int_dec [pk, wl, sp, dp, sq, ak, pl, cp])") (simp_all only: option.case sum.distinct)
  from those_map [OF ns] obtain pkt wire_len sport dport sq' ack payload_len captured where
    n8: "ns = [pkt, wire_len, sport, dport, sq', ack, payload_len, captured]" and
    num: "py_int_dec pk = Some pkt" "py_int_dec wl = Some wire_len"
    by (auto simp: list_all2_Cons1)
  note c = p [unfolded ns n8 option.case list.case]
  note d = int_digits [OF num(1) fit(1)] int_digits [OF num(2) fit(2)]
  have "addr_ok (lower sh)" "addr_ok (lower dh)" "hex_num fl < 256" using fit lower_addr hex_pair by auto
  with check_record_ok [OF c] d fit(6) show ?thesis by (auto simp: rec_ok_def)
qed

lemma record_groups_fit:
  assumes "rec_ok r"
  shows "list_all2 (\<lambda>(name, m) g. fits m g) RECORD_RE (record_groups r)"
proof -
  have "show_nat 0 = ''0''" "show_nat 1 = ''1''" by code_simp+
  moreover have "r_truncated r = 0 \<or> r_truncated r = 1" using assms by (simp add: rec_ok_def)
  ultimately have "show_nat (r_truncated r) = ''0'' \<or> show_nat (r_truncated r) = ''1''" by auto
  then show ?thesis
    using assms show_nat_digits hex_byte_facts hex_of_hex
    by (simp add: RECORD_RE_def record_groups_def rec_ok_def addr_ok_def)
qed

lemma format_record_strip:
  assumes "rec_ok r"
  shows "strip_by is_space (format_record r) = format_record r"
proof (rule strip_by_id)
  note f = record_groups_fit [OF assms]
  have ok: "field_names_ok RECORD_RE" by code_simp
  show "format_record r \<noteq> []" "\<not> is_space (hd (format_record r))"
    using print_fields_head [OF f ok] by (simp_all add: format_record_def RECORD_RE_def)
  have "\<exists>x. format_record r = x @ ''='' @ hex_of (r_payload r)"
    by (simp add: format_record_def RECORD_RE_def record_groups_def)
  then obtain x where x: "format_record r = (x @ ''='') @ hex_of (r_payload r)" by auto
  have h: "c \<in> set (hex_of (r_payload r)) \<Longrightarrow> \<not> is_space c" for c
    using hex_of_hex class_facts(2) by (auto simp: list_all_iff)
  show "\<not> is_space (last (format_record r))"
  proof (cases "hex_of (r_payload r) = []")
    case True
    then show ?thesis by (simp add: x is_space_def code_def)
  next
    case False
    then show ?thesis using h [OF last_in_set] by (simp add: x)
  qed
qed

lemma small_numbers:
  assumes "rec_ok r"
  shows "list_all2 (\<lambda>x y. py_int_dec x = Some y)
    [show_nat (r_pkt r), show_nat (r_wire_len r), show_nat (r_sport r), show_nat (r_dport r),
     show_nat (r_seq r), show_nat (r_ack r), show_nat (r_payload_len r), show_nat (r_captured r)]
    [r_pkt r, r_wire_len r, r_sport r, r_dport r, r_seq r, r_ack r, r_payload_len r, r_captured r]"
proof -
  have i: "py_int_dec (show_nat n) = Some n" if "n < 10 ^ 10" for n
    using length_show_nat [of 10 n] that by (simp add: py_int_dec_def)
  show ?thesis
    using assms i by (simp add: rec_ok_def SEQ_MOD_def) (simp add: py_int_dec_def)
qed

lemma parse_format_record:
  assumes "rec_ok r"
  shows "parse_record_line (format_record r) (r_lineno r) = Inr r"
proof -
  have m: "match_fields RECORD_RE (strip_by is_space (format_record r)) = Some (record_groups r)"
    unfolding format_record_strip [OF assms] unfolding format_record_def
    by (rule match_print [OF record_groups_fit [OF assms]]) (simp_all add: field_names_ok_def RECORD_RE_def is_space_def code_def)
  have tr: "dec_val (show_nat (r_truncated r)) = r_truncated r" by simp
  have c: "check_record (hex_of (r_payload r)) (r\<lparr>r_payload := []\<rparr>) = Inr r"
    using assms by (simp add: check_record_def Let_def range_limits_def rec_ok_def SEQ_MOD_def)
  have u: "\<lparr>r_pkt = r_pkt r, r_wire_len = r_wire_len r, r_src_hex = r_src_hex r, r_dst_hex = r_dst_hex r,
      r_sport = r_sport r, r_dport = r_dport r, r_seq = r_seq r, r_ack = r_ack r, r_tcp_flags = r_tcp_flags r,
      r_payload_len = r_payload_len r, r_captured = r_captured r, r_truncated = r_truncated r,
      r_leg = r_leg r, r_payload = [], r_lineno = r_lineno r\<rparr> = r\<lparr>r_payload := []\<rparr>" by simp
  have ad: "lower (r_src_hex r) = r_src_hex r" "lower (r_dst_hex r) = r_dst_hex r"
    "hex_num (hex_byte (r_tcp_flags r)) = r_tcp_flags r"
    using assms hex_byte_facts(2) by (auto simp: rec_ok_def addr_ok_def)
  show ?thesis
    unfolding parse_record_line_def m record_groups_def option.case list.case
      those_mapI [OF small_numbers [OF assms]] ad tr u by (rule c)
qed

subsection \<open>Properties\<close>

text \<open>C10. A record line that is accepted gives a well-formed record: hexadecimal addresses in lower
  case, ports, sequence numbers and counts in range, a payload of exactly the captured length, and
  a truncated flag that says whether bytes of the advertised payload are missing.\<close>

theorem accepted_record_ok:
  "parse_record_line line n = Inr r \<Longrightarrow> rec_ok r \<and> r_lineno r = n"
  by (rule parse_record_line_ok)

definition demo_record :: rec where
  "demo_record = \<lparr>r_pkt = 7, r_wire_len = 62, r_src_hex = ''c0a8207b'', r_dst_hex = ''c0a82081'',
     r_sport = 24012, r_dport = 50123, r_seq = 4294967290, r_ack = 17, r_tcp_flags = 24,
     r_payload_len = 3, r_captured = 3, r_truncated = 0, r_leg = ''cam_m4'', r_payload = [0x82, 0x01, 0xC0],
     r_lineno = 4\<rparr>"

lemma demo_record_ok: "rec_ok demo_record"
proof -
  have "addr_ok ''c0a8207b''" "addr_ok ''c0a82081''" "list_all (\<lambda>c. \<not> is_space c) ''cam_m4''" by code_simp+
  then show ?thesis
    using length_show_nat [of 2 7] length_show_nat [of 2 62] by (simp add: rec_ok_def demo_record_def SEQ_MOD_def)
qed

theorem accepted_record_ok_witness:
  "\<exists>r. parse_record_line (format_record demo_record) 4 = Inr r \<and> rec_ok r \<and> r_lineno r = 4"
proof -
  have "r_lineno demo_record = 4" by (simp add: demo_record_def)
  then have p: "parse_record_line (format_record demo_record) 4 = Inr demo_record"
    using parse_format_record [OF demo_record_ok] by simp
  from accepted_record_ok [OF p] p show ?thesis by blast
qed

text \<open>Printing a well-formed record in the documented line format and parsing the line gives the
  record back, payload and all.\<close>

theorem record_roundtrip:
  "rec_ok r \<Longrightarrow> parse_record_line (format_record r) (r_lineno r) = Inr r"
  by (rule parse_format_record)

theorem record_roundtrip_witness:
  "rec_ok demo_record \<and> parse_record_line (format_record demo_record) (r_lineno demo_record) = Inr demo_record"
  using record_roundtrip [OF demo_record_ok] demo_record_ok by blast

text \<open>A record that belongs to a known endpoint has the camera on exactly one side, that side
  holds the service port, and the peer's port is not a service port.\<close>

theorem known_endpoint_direction:
  "is_known_endpoint r \<longleftrightarrow>
    (if is_server_sender r
     then r_src_hex r = CAM_HEX \<and> r_dst_hex r = PEER_HEX \<and> r_sport r \<in> set SERVICE_PORTS \<and> r_dport r \<notin> set SERVICE_PORTS
     else r_src_hex r = PEER_HEX \<and> r_dst_hex r = CAM_HEX \<and> r_dport r \<in> set SERVICE_PORTS \<and> r_sport r \<notin> set SERVICE_PORTS)"
proof -
  have "CAM_HEX \<noteq> PEER_HEX" by (simp add: CAM_HEX_def PEER_HEX_def)
  then show ?thesis by (auto simp: is_known_endpoint_def is_server_sender_def doubleton_eq_iff)
qed

end
