(* ===== verification/FlowState.thy ===== *)
theory FlowState
  imports WsUpgrade WsFrames Records
begin

text \<open>
  One directed TCP flow: the class \<open>FlowState\<close> of \<open>tools/m4/decode_passive_records.py\<close>. Records are added in
  packet order; contiguous bytes form a run, exact retransmissions are dropped, a gap or an unusable
  record starts a new run, contradicting bytes suspend the flow for good. After every growth of the
  run the HTTP upgrade (only at the first byte of the flow) and then the complete WebSocket frames
  are taken from its front.

  Shown: the bounds the code relies on hold in every reachable state; a run holds exactly the
  bytes of the sender's stream at its position; and a stream of messages is decoded the same however
  TCP cut it into segments.
\<close>

definition MAX_PAYLOAD_PER_RECORD :: nat where
  "MAX_PAYLOAD_PER_RECORD = 1536"

definition MAX_STREAM_BYTES :: nat where
  "MAX_STREAM_BYTES = 98304"

subsection \<open>State\<close>

record flow_frame =
  ff_entry :: frame_entry
  ff_stream_offset :: nat
  ff_recognized :: bool

type_synonym flow_key = "string \<times> string \<times> nat \<times> nat"

record flow =
  fl_key :: flow_key
  fl_server_sender :: bool
  fl_label :: string
  fl_pkt_numbers :: "nat list"
  fl_run_base :: "nat option"
  fl_run_buf :: bytes
  fl_run_decoded :: nat
  fl_frames :: "flow_frame list"
  fl_frame_offset_base :: nat
  fl_gaps :: nat
  fl_retrans_dedup :: nat
  fl_overlap_extended :: nat
  fl_conflicts :: nat
  fl_truncated_skipped :: nat
  fl_oversize_skipped :: nat
  fl_suspended :: "string option"
  fl_start_boundary :: "string option"
  fl_had_data :: bool
  fl_upgrade :: "upgrade_result option"
  fl_upgrade_checked :: bool
  fl_upgrade_at_start :: bool
  fl_handshake_status :: string

definition new_flow :: "flow_key \<Rightarrow> bool \<Rightarrow> string \<Rightarrow> flow" where
  "new_flow key server_sender label =
     \<lparr>fl_key = key, fl_server_sender = server_sender, fl_label = label, fl_pkt_numbers = [],
      fl_run_base = None, fl_run_buf = [], fl_run_decoded = 0, fl_frames = [], fl_frame_offset_base = 0,
      fl_gaps = 0, fl_retrans_dedup = 0, fl_overlap_extended = 0, fl_conflicts = 0,
      fl_truncated_skipped = 0, fl_oversize_skipped = 0, fl_suspended = None, fl_start_boundary = None,
      fl_had_data = False, fl_upgrade = None, fl_upgrade_checked = False, fl_upgrade_at_start = True,
      fl_handshake_status = ''not_observed''\<rparr>"

definition break_upgrade_boundary :: "flow \<Rightarrow> flow" where
  "break_upgrade_boundary st =
     (let st = st\<lparr>fl_upgrade_at_start := False, fl_upgrade_checked := True\<rparr> in
      if fl_handshake_status st = ''pending''
      then st\<lparr>fl_handshake_status := ''incomplete_due_to_gap'', fl_suspended := Some ''http_upgrade_gap''\<rparr>
      else st)"

definition discard_pending :: "flow \<Rightarrow> flow" where
  "discard_pending st =
     (let buf = (if length (fl_run_buf st) > fl_run_decoded st then take (fl_run_decoded st) (fl_run_buf st)
                 else fl_run_buf st)
      in st\<lparr>fl_run_buf := buf, fl_run_decoded := length buf\<rparr>)"

subsection \<open>Taking frames from the run\<close>

text \<open>The entry stored for a parsed frame; \<open>run_off\<close> is its position in the run.\<close>

definition stored_frame :: "nat \<Rightarrow> nat \<Rightarrow> frame_entry \<Rightarrow> flow_frame" where
  "stored_frame offset_base run_off f =
     (let (recognized, app) =
        (if f_complete f \<and> f_kind f = ''json'' then
           ((case f_json f of Some js \<Rightarrow> js_recognized_schema js | None \<Rightarrow> False), True)
         else if f_complete f \<and> f_kind f = ''msgpack'' then
           (case f_msgpack f of Some mp \<Rightarrow> (mp_recognized_schema mp, mp_decode_ok mp) | None \<Rightarrow> (False, False))
         else (False, False))
      in \<lparr>ff_entry = f\<lparr>f_offset := run_off, f_app_complete := Some app\<rparr>,
          ff_stream_offset = offset_base + run_off, ff_recognized = recognized\<rparr>)"

fun store_frames :: "nat \<Rightarrow> frame_entry list \<Rightarrow> flow \<Rightarrow> flow" where
  "store_frames base [] st = st"
| "store_frames base (f # fs) st =
     (if length (fl_frames st) \<ge> MAX_FRAMES_PER_FLOW then
        (if fl_suspended st = None then st\<lparr>fl_suspended := Some ''frame_cap_exceeded''\<rparr> else st)
      else
        (let run_off = base + f_offset f;
             entry = stored_frame (fl_frame_offset_base st) run_off f;
             st' = st\<lparr>fl_frames := fl_frames st @ [entry]\<rparr>
         in if f_complete f \<and> f_kind f \<in> {''json'', ''msgpack'', ''control''} then
              store_frames base fs
                (st'\<lparr>fl_run_decoded := run_off + frame_total_len (fl_run_buf st) (ff_entry entry)\<rparr>)
            else st'))"

definition set_start_boundary :: "string option \<Rightarrow> flow \<Rightarrow> flow" where
  "set_start_boundary suspended_reason st =
     (if fl_start_boundary st = None \<and> (fl_frames st \<noteq> [] \<or> suspended_reason \<noteq> None) then
        (case fl_frames st of
           first # _ \<Rightarrow>
             if f_complete (ff_entry first) \<and> f_app_complete (ff_entry first) = Some True \<and> ff_recognized first
             then st\<lparr>fl_start_boundary := Some ''verified_recognized''\<rparr>
             else st\<lparr>fl_start_boundary := Some ''candidate_unverified''\<rparr>
         | [] \<Rightarrow> st\<lparr>fl_start_boundary := Some ''candidate_unverified''\<rparr>)
      else st)"

definition default_boundary :: "flow \<Rightarrow> flow" where
  "default_boundary st = (if fl_start_boundary st = None
     then st\<lparr>fl_start_boundary := Some ''candidate_unverified''\<rparr> else st)"

definition parse_run :: "env \<Rightarrow> flow \<Rightarrow> flow" where
  "parse_run E st =
     (if length (fl_frames st) \<ge> MAX_FRAMES_PER_FLOW then
        default_boundary (if fl_suspended st = None then st\<lparr>fl_suspended := Some ''frame_cap_exceeded''\<rparr> else st)
      else let suffix = drop (fl_run_decoded st) (fl_run_buf st) in
        if suffix = [] then
          (if fl_frames st \<noteq> [] \<or> fl_had_data st then default_boundary st else st)
        else
          (let (frames, upto, suspended_reason) = parse_ws_frames E suffix (fl_server_sender st);
               st' = set_start_boundary suspended_reason (store_frames (fl_run_decoded st) frames st)
           in if suspended_reason \<noteq> None \<and> fl_suspended st' = None
              then st'\<lparr>fl_suspended := suspended_reason\<rparr> else st'))"

text \<open>The upgrade check: the state after it, and whether \<open>_try_parse\<close> returns there.\<close>

definition check_upgrade_prefix :: "flow \<Rightarrow> flow \<times> bool" where
  "check_upgrade_prefix st =
     (if \<not> fl_upgrade_checked st \<and> fl_upgrade_at_start st then
        (let upgrade = parse_upgrade_prefix (fl_run_buf st) (fl_server_sender st) in
         case up_status upgrade of
           up_status.Pending \<Rightarrow> (st\<lparr>fl_handshake_status := ''pending''\<rparr>, True)
         | Invalid \<Rightarrow> (st\<lparr>fl_upgrade_checked := True, fl_handshake_status := ''invalid_http_upgrade'',
                          fl_suspended := Some ''invalid_http_upgrade''\<rparr>, True)
         | Valid \<Rightarrow> (st\<lparr>fl_upgrade_checked := True, fl_upgrade := Some upgrade,
                        fl_run_decoded := up_consumed upgrade,
                        fl_handshake_status := (if fl_server_sender st then ''valid_response_only''
                                                else ''valid_request_only'')\<rparr>, False)
         | NotHttp \<Rightarrow> (st\<lparr>fl_upgrade_checked := True\<rparr>, False))
      else (st, False))"

definition try_parse :: "env \<Rightarrow> flow \<Rightarrow> flow" where
  "try_parse E st =
     (if fl_suspended st \<noteq> None then st
      else case check_upgrade_prefix st of (st', stop) \<Rightarrow> if stop then st' else parse_run E st')"

subsection \<open>Adding a record\<close>

definition sub_mod :: "nat \<Rightarrow> nat \<Rightarrow> nat" where
  "sub_mod a b = nat ((int a - int b) mod int SEQ_MOD)"

text \<open>A flow, the errors so far and the stream byte budget used so far.\<close>

type_synonym flow_st = "flow \<times> string list \<times> nat"

definition conflict_suspended :: "flow \<Rightarrow> bool" where
  "conflict_suspended st = (case fl_suspended st of None \<Rightarrow> False | Some s \<Rightarrow> prefix ''conflict'' s)"

definition reset_run :: "nat \<Rightarrow> bytes \<Rightarrow> flow \<Rightarrow> flow" where
  "reset_run base buf st = st\<lparr>fl_run_base := Some base, fl_run_buf := buf, fl_run_decoded := 0\<rparr>"

definition flush_run :: "flow \<Rightarrow> flow" where
  "flush_run st = (let st = discard_pending st in
     st\<lparr>fl_frame_offset_base := fl_frame_offset_base st + fl_run_decoded st\<rparr>)"

definition skip_truncated :: "rec \<Rightarrow> flow \<Rightarrow> flow" where
  "skip_truncated r st =
     (let st = break_upgrade_boundary st;
          st = flush_run (st\<lparr>fl_truncated_skipped := fl_truncated_skipped st + 1\<rparr>);
          next_base = (r_seq r + r_payload_len r) mod SEQ_MOD;
          st = (if fl_run_base st \<noteq> None then reset_run next_base [] st else st\<lparr>fl_run_base := Some next_base\<rparr>)
      in st\<lparr>fl_gaps := fl_gaps st + 1\<rparr>)"

definition skip_oversize :: "rec \<Rightarrow> flow \<Rightarrow> flow" where
  "skip_oversize r st =
     (let st = break_upgrade_boundary st;
          st = flush_run (st\<lparr>fl_oversize_skipped := fl_oversize_skipped st + 1\<rparr>);
          st = reset_run ((r_seq r + r_payload_len r) mod SEQ_MOD) [] st
      in st\<lparr>fl_gaps := fl_gaps st + 1\<rparr>)"

definition budget_error :: "flow \<Rightarrow> string" where
  "budget_error st = ''flow '' @ fl_label st @ '': stream byte budget exceeded''"

definition suspend_budget :: "flow_st \<Rightarrow> flow_st" where
  "suspend_budget fs = (case fs of (st, errors, budget) \<Rightarrow>
     (st\<lparr>fl_suspended := Some ''budget_exceeded''\<rparr>, errors @ [budget_error st], budget))"

definition conflict :: "string \<Rightarrow> flow \<Rightarrow> flow" where
  "conflict reason st = st\<lparr>fl_conflicts := fl_conflicts st + 1, fl_suspended := Some reason\<rparr>"

text \<open>A record behind the end of the run: a retransmission, an overlap or a contradiction.\<close>

definition add_behind :: "env \<Rightarrow> rec \<Rightarrow> nat \<Rightarrow> nat \<Rightarrow> flow_st \<Rightarrow> flow_st" where
  "add_behind E r base run_next fs = (case fs of (st, errors, budget) \<Rightarrow>
     (let seq = r_seq r; data = r_payload r; len = r_payload_len r; buf = fl_run_buf st;
          behind = sub_mod run_next seq; offset = sub_mod seq base in
      if offset \<ge> length buf then (conflict ''conflict_stale_overlap'' st, errors, budget)
      else if len \<le> behind \<and> offset + len \<le> length buf then
        (if slice buf offset (offset + len) = data
         then (st\<lparr>fl_retrans_dedup := fl_retrans_dedup st + 1\<rparr>, errors, budget)
         else (conflict ''conflict_overlap_bytes_differ'' st, errors, budget))
      else
        (let overlap_len = min (length buf - offset) len; tail = drop overlap_len data in
         if slice buf offset (offset + overlap_len) \<noteq> take overlap_len data
         then (conflict ''conflict_overlap_bytes_differ'' st, errors, budget)
         else if tail \<noteq> [] then
           (if budget + length tail > MAX_STREAM_BYTES then suspend_budget (st, errors, budget)
            else (try_parse E (st\<lparr>fl_run_buf := buf @ tail, fl_overlap_extended := fl_overlap_extended st + 1\<rparr>),
                  errors, budget + length tail))
         else (try_parse E (st\<lparr>fl_retrans_dedup := fl_retrans_dedup st + 1\<rparr>), errors, budget))))"

definition add_forward :: "env \<Rightarrow> rec \<Rightarrow> flow_st \<Rightarrow> flow_st" where
  "add_forward E r fs = (case fs of (st, errors, budget) \<Rightarrow>
     (let st = break_upgrade_boundary st;
          st = flush_run (st\<lparr>fl_gaps := fl_gaps st + 1\<rparr>) in
      if budget + length (r_payload r) > MAX_STREAM_BYTES then
        (case suspend_budget (st, errors, budget) of (st, errors, budget) \<Rightarrow> (reset_run (r_seq r) [] st, errors, budget))
      else (try_parse E (reset_run (r_seq r) (r_payload r) st), errors, budget + length (r_payload r))))"

text \<open>The \<open>assert self.run_base is not None\<close> of the source cannot fail: without a base the run is empty
  (\<open>flow_inv\<close> below), which is the first case.\<close>

definition add_data :: "env \<Rightarrow> rec \<Rightarrow> flow_st \<Rightarrow> flow_st" where
  "add_data E r fs = (case fs of (st, errors, budget) \<Rightarrow>
     (case fl_run_base st of
        None \<Rightarrow>
          if budget + length (r_payload r) > MAX_STREAM_BYTES then suspend_budget (st, errors, budget)
          else (try_parse E (st\<lparr>fl_run_base := Some (r_seq r), fl_run_buf := r_payload r\<rparr>), errors,
                budget + length (r_payload r))
      | Some base \<Rightarrow>
          (let run_next = (base + length (fl_run_buf st)) mod SEQ_MOD; delta = sub_mod (r_seq r) run_next in
           if delta = 0 then
             if budget + length (r_payload r) > MAX_STREAM_BYTES then suspend_budget (st, errors, budget)
             else (try_parse E (st\<lparr>fl_run_buf := fl_run_buf st @ r_payload r\<rparr>), errors,
                   budget + length (r_payload r))
           else if delta < SEQ_MOD div 2 then add_forward E r (st, errors, budget)
           else add_behind E r base run_next (st, errors, budget))))"

definition add_record :: "env \<Rightarrow> rec \<Rightarrow> flow_st \<Rightarrow> flow_st" where
  "add_record E r fs = (case fs of (st, errors, budget) \<Rightarrow>
     (if conflict_suspended st then (st, errors, budget)
      else if r_truncated r \<noteq> 0 then (skip_truncated r st, errors, budget)
      else if r_payload_len r > MAX_PAYLOAD_PER_RECORD then (skip_oversize r st, errors, budget)
      else if r_payload r = [] then (st, errors, budget)
      else add_data E r (st\<lparr>fl_had_data := True, fl_pkt_numbers := fl_pkt_numbers st @ [r_pkt r]\<rparr>, errors, budget)))"

subsection \<open>What parsing leaves alone\<close>

named_theorems flow_frame_simps \<open>fields of the flow that the parsing steps do not change\<close>

lemma store_frames_keeps [flow_frame_simps]:
  "fl_run_buf (store_frames base fs st) = fl_run_buf st" "fl_run_base (store_frames base fs st) = fl_run_base st"
  "fl_upgrade (store_frames base fs st) = fl_upgrade st"
  "fl_frame_offset_base (store_frames base fs st) = fl_frame_offset_base st"
  "fl_server_sender (store_frames base fs st) = fl_server_sender st"
  "fl_upgrade_checked (store_frames base fs st) = fl_upgrade_checked st"
  by (induction base fs st rule: store_frames.induct) (simp_all add: Let_def)

lemma set_start_boundary_keeps [flow_frame_simps]:
  "set_start_boundary r st = st\<lparr>fl_start_boundary := fl_start_boundary (set_start_boundary r st)\<rparr>"
  "default_boundary st = st\<lparr>fl_start_boundary := fl_start_boundary (default_boundary st)\<rparr>"
  by (simp_all add: set_start_boundary_def default_boundary_def split: list.split)

lemma boundary_sel [simp]:
  "fl_run_buf (set_start_boundary r st) = fl_run_buf st" "fl_run_base (set_start_boundary r st) = fl_run_base st"
  "fl_run_decoded (set_start_boundary r st) = fl_run_decoded st" "fl_frames (set_start_boundary r st) = fl_frames st"
  "fl_suspended (set_start_boundary r st) = fl_suspended st" "fl_upgrade (set_start_boundary r st) = fl_upgrade st"
  "fl_frame_offset_base (set_start_boundary r st) = fl_frame_offset_base st"
  "fl_server_sender (set_start_boundary r st) = fl_server_sender st"
  "fl_upgrade_checked (set_start_boundary r st) = fl_upgrade_checked st"
  "fl_run_buf (default_boundary st) = fl_run_buf st" "fl_run_base (default_boundary st) = fl_run_base st"
  "fl_run_decoded (default_boundary st) = fl_run_decoded st" "fl_frames (default_boundary st) = fl_frames st"
  "fl_suspended (default_boundary st) = fl_suspended st" "fl_upgrade (default_boundary st) = fl_upgrade st"
  "fl_frame_offset_base (default_boundary st) = fl_frame_offset_base st"
  "fl_server_sender (default_boundary st) = fl_server_sender st"
  "fl_upgrade_checked (default_boundary st) = fl_upgrade_checked st"
  by (simp_all add: set_start_boundary_def default_boundary_def split: list.split)

lemma parse_run_keeps [simp]:
  "fl_run_buf (parse_run E st) = fl_run_buf st" "fl_run_base (parse_run E st) = fl_run_base st"
  "fl_upgrade (parse_run E st) = fl_upgrade st"
  by (simp_all add: parse_run_def Let_def flow_frame_simps(1-6) split: prod.split)

lemma check_upgrade_keeps [simp]:
  "fl_run_buf (fst (check_upgrade_prefix st)) = fl_run_buf st"
  "fl_run_base (fst (check_upgrade_prefix st)) = fl_run_base st"
  "fl_frames (fst (check_upgrade_prefix st)) = fl_frames st"
  by (simp_all add: check_upgrade_prefix_def Let_def split: up_status.split)

lemma try_parse_eq: "try_parse E st = (if fl_suspended st \<noteq> None then st
    else if snd (check_upgrade_prefix st) then fst (check_upgrade_prefix st)
    else parse_run E (fst (check_upgrade_prefix st)))"
  by (simp add: try_parse_def split: prod.split)

lemma try_parse_keeps [simp]:
  "fl_run_buf (try_parse E st) = fl_run_buf st" "fl_run_base (try_parse E st) = fl_run_base st"
  by (simp_all add: try_parse_eq)

subsection \<open>The invariant of a flow\<close>

text \<open>Decoded bytes are bytes of the run, the frame list is bounded, without a base there is no run, and
  a stored upgrade is a valid one.\<close>

definition flow_inv :: "flow \<Rightarrow> bool" where
  "flow_inv st \<longleftrightarrow> fl_run_decoded st \<le> length (fl_run_buf st) \<and> length (fl_frames st) \<le> MAX_FRAMES_PER_FLOW
     \<and> (fl_run_base st = None \<longrightarrow> fl_run_buf st = [])
     \<and> (case fl_upgrade st of None \<Rightarrow> True | Some u \<Rightarrow> up_status u = Valid)"

definition frame_within :: "bytes \<Rightarrow> frame_entry \<Rightarrow> bool" where
  "frame_within buf f \<longleftrightarrow> (f_complete f \<longrightarrow> f_offset f + frame_total_len buf f \<le> length buf)"

lemma contiguous_within:
  "contiguous buf a fs b \<Longrightarrow> b \<le> length buf \<Longrightarrow> list_all (frame_within buf) fs"
proof (induction fs arbitrary: a)
  case (Cons f fs)
  then have "contiguous buf (a + frame_total_len buf f) fs b" "f_offset f = a" by simp_all
  with contiguous_le [of buf "a + frame_total_len buf f" fs b] Cons show ?case
    by (auto simp: frame_within_def)
qed simp

lemma parsed_within:
  assumes "parse_ws_frames E buf ss = (fs, off, r)"
  shows "list_all (frame_within buf) fs"
proof -
  have "run_result_ok buf 0 (ws_loop E ss buf 0 [])" by (rule ws_loop_ok) simp_all
  then have ok: "run_result_ok buf 0 (fs, off, r)" using assms by (simp add: parse_ws_frames_def)
  show ?thesis
  proof (cases "contiguous buf 0 fs off")
    case True
    with ok show ?thesis by (auto simp: run_result_ok_def intro: contiguous_within)
  next
    case False
    with ok have "fs \<noteq> []" "contiguous buf 0 (butlast fs) off" "\<not> f_complete (last fs)" "off \<le> length buf"
      by (auto simp: run_result_ok_def split: if_splits)
    moreover from this have "list_all (frame_within buf) (butlast fs)" by (blast intro: contiguous_within)
    moreover have "frame_within buf (last fs)" using calculation by (simp add: frame_within_def)
    ultimately show ?thesis by (cases fs rule: rev_cases) simp_all
  qed
qed

lemma frame_total_len_drop:
  assumes "base \<le> length buf"
  shows "frame_total_len buf (f\<lparr>f_offset := base + f_offset f, f_app_complete := a\<rparr>) = frame_total_len (drop base buf) f"
  using assms by (simp add: frame_total_len_def Let_def add.assoc) linarith

lemma stored_entry: "ff_entry (stored_frame ob ro f) = f\<lparr>f_offset := ro, f_app_complete := f_app_complete (ff_entry (stored_frame ob ro f))\<rparr>"
  by (simp add: stored_frame_def split: prod.split)

lemma store_frames_bounds:
  assumes "list_all (frame_within (drop base (fl_run_buf st))) fs" "base \<le> length (fl_run_buf st)"
    "fl_run_decoded st \<le> length (fl_run_buf st)" "length (fl_frames st) \<le> MAX_FRAMES_PER_FLOW"
  shows "fl_run_decoded (store_frames base fs st) \<le> length (fl_run_buf st)
    \<and> length (fl_frames (store_frames base fs st)) \<le> MAX_FRAMES_PER_FLOW"
  using assms
proof (induction base fs st rule: store_frames.induct)
  case (2 base f fs st)
  let ?buf = "fl_run_buf st" and ?e = "stored_frame (fl_frame_offset_base st) (base + f_offset f) f"
  have t: "frame_total_len ?buf (ff_entry ?e) = frame_total_len (drop base ?buf) f"
    by (subst stored_entry) (rule frame_total_len_drop [OF "2.prems"(2)])
  have "base + f_offset f + frame_total_len ?buf (ff_entry ?e) \<le> length ?buf" if "f_complete f"
    using "2.prems"(1,2) that unfolding t by (auto simp: frame_within_def)
  with 2 show ?case by (auto simp: Let_def)
qed simp

lemma parse_run_inv: "flow_inv st \<Longrightarrow> flow_inv (parse_run E st)"
proof -
  assume inv: "flow_inv st"
  obtain fs off r where p: "parse_ws_frames E (drop (fl_run_decoded st) (fl_run_buf st)) (fl_server_sender st) = (fs, off, r)"
    using prod_cases3 by blast
  note b = store_frames_bounds [OF parsed_within [OF p]]
  show "flow_inv (parse_run E st)"
    using inv b by (simp add: flow_inv_def parse_run_def Let_def p flow_frame_simps(1-6))
qed

lemma consumed_bound: "up_status (parse_upgrade_prefix buf ss) = Valid \<Longrightarrow> up_consumed (parse_upgrade_prefix buf ss) \<le> length buf"
  by (erule parse_upgrade_validD) (auto dest: find_sub_bound)

lemma check_upgrade_inv: "flow_inv st \<Longrightarrow> flow_inv (fst (check_upgrade_prefix st))"
  using consumed_bound [of "fl_run_buf st" "fl_server_sender st"]
  by (auto simp: flow_inv_def check_upgrade_prefix_def Let_def split: up_status.split)

lemma try_parse_inv [intro]: "flow_inv st \<Longrightarrow> flow_inv (try_parse E st)"
  using check_upgrade_inv [of st] parse_run_inv by (simp add: try_parse_eq)

lemma break_inv: "flow_inv st \<Longrightarrow> flow_inv (break_upgrade_boundary st)"
  by (simp add: flow_inv_def break_upgrade_boundary_def Let_def)

lemma flush_reset_inv: "flow_inv st \<Longrightarrow> flow_inv (reset_run b buf st)"
  by (simp add: flow_inv_def reset_run_def)

lemma flush_run_inv: "flow_inv st \<Longrightarrow> flow_inv (flush_run st)"
  by (auto simp: flow_inv_def flush_run_def discard_pending_def Let_def)

text \<open>Changes to the fields the invariant does not mention.\<close>

lemma counters_inv [simp]:
  "flow_inv (st\<lparr>fl_gaps := a\<rparr>) = flow_inv st" "flow_inv (st\<lparr>fl_truncated_skipped := a\<rparr>) = flow_inv st"
  "flow_inv (st\<lparr>fl_oversize_skipped := a\<rparr>) = flow_inv st" "flow_inv (st\<lparr>fl_retrans_dedup := a\<rparr>) = flow_inv st"
  "flow_inv (st\<lparr>fl_overlap_extended := a\<rparr>) = flow_inv st" "flow_inv (st\<lparr>fl_conflicts := a\<rparr>) = flow_inv st"
  "flow_inv (st\<lparr>fl_suspended := s\<rparr>) = flow_inv st" "flow_inv (st\<lparr>fl_pkt_numbers := ps\<rparr>) = flow_inv st"
  "flow_inv (st\<lparr>fl_had_data := h\<rparr>) = flow_inv st"
  by (simp_all add: flow_inv_def)

lemmas step_inv_rules = break_inv flush_reset_inv flush_run_inv

definition flow_st_inv :: "flow_st \<Rightarrow> bool" where
  "flow_st_inv fs = (case fs of (st, errors, budget) \<Rightarrow> flow_inv st \<and> budget \<le> MAX_STREAM_BYTES)"

lemma suspend_budget_inv: "flow_st_inv fs \<Longrightarrow> flow_st_inv (suspend_budget fs)"
  by (cases fs) (simp add: suspend_budget_def flow_st_inv_def)

lemma grow_inv: "flow_inv st \<Longrightarrow> fl_run_base st = Some b \<Longrightarrow> flow_inv (st\<lparr>fl_run_buf := fl_run_buf st @ xs\<rparr>)"
  by (simp add: flow_inv_def)

lemma grow_overlap_inv:
  "flow_inv st \<Longrightarrow> fl_run_base st = Some b \<Longrightarrow>
    flow_inv (st\<lparr>fl_run_buf := fl_run_buf st @ xs, fl_overlap_extended := n\<rparr>)"
  by (simp add: flow_inv_def)

lemma add_behind_inv:
  assumes "flow_st_inv (st, errors, budget)" "fl_run_base st = Some b"
  shows "flow_st_inv (add_behind E r base run_next (st, errors, budget))"
proof -
  have inv: "flow_inv st" "budget \<le> MAX_STREAM_BYTES" using assms by (simp_all add: flow_st_inv_def)
  show ?thesis
    using inv assms suspend_budget_inv grow_overlap_inv [OF inv(1) assms(2)] unfolding add_behind_def Let_def
    by (auto simp: conflict_def flow_st_inv_def)
qed

lemma add_forward_inv:
  assumes "flow_st_inv (st, errors, budget)"
  shows "flow_st_inv (add_forward E r (st, errors, budget))"
  using assms
  by (auto simp: add_forward_def Let_def flow_st_inv_def suspend_budget_def intro!: step_inv_rules try_parse_inv)

lemma add_data_inv:
  assumes "flow_st_inv (st, errors, budget)"
  shows "flow_st_inv (add_data E r (st, errors, budget))"
proof (cases "fl_run_base st")
  case None
  then have "flow_inv (st\<lparr>fl_run_base := Some (r_seq r), fl_run_buf := r_payload r\<rparr>)"
    using assms by (auto simp: flow_inv_def flow_st_inv_def)
  with None assms show ?thesis
    using suspend_budget_inv [OF assms] by (auto simp: add_data_def flow_st_inv_def)
next
  case (Some b)
  have g: "flow_inv (try_parse E (st\<lparr>fl_run_buf := fl_run_buf st @ r_payload r\<rparr>))" if "flow_inv st"
    using grow_inv [OF that Some] by (rule try_parse_inv)
  show ?thesis
    using assms g suspend_budget_inv [OF assms] add_forward_inv [OF assms] add_behind_inv [OF assms Some]
    by (auto simp: add_data_def Some Let_def flow_st_inv_def)
qed

lemma add_record_inv:
  assumes "flow_st_inv fs"
  shows "flow_st_inv (add_record E r fs)"
proof -
  obtain st errors budget where fs: "fs = (st, errors, budget)" by (rule prod_cases3)
  let ?st = "st\<lparr>fl_had_data := True, fl_pkt_numbers := fl_pkt_numbers st @ [r_pkt r]\<rparr>"
  have "flow_st_inv (?st, errors, budget)" using assms fs by (simp add: flow_st_inv_def flow_inv_def)
  note d = add_data_inv [OF this, of E r]
  have t: "flow_inv (skip_truncated r st)" if "flow_inv st"
  proof -
    let ?s = "flush_run ((break_upgrade_boundary st)\<lparr>fl_truncated_skipped := fl_truncated_skipped (break_upgrade_boundary st) + 1\<rparr>)"
    have "flow_inv ?s" using that by (auto intro!: step_inv_rules)
    moreover have "flow_inv (x\<lparr>fl_run_base := Some n\<rparr>)" if "flow_inv x" for x n using that by (simp add: flow_inv_def)
    ultimately show ?thesis unfolding skip_truncated_def Let_def by (auto intro!: step_inv_rules)
  qed
  have o: "flow_inv (skip_oversize r st)" if "flow_inv st"
    using that unfolding skip_oversize_def Let_def by (auto intro!: step_inv_rules)
  show ?thesis
    using assms fs d t o by (auto simp: add_record_def flow_st_inv_def)
qed

interpretation flow_run: invariant_machine "add_record E" "\<lambda>r. True" flow_st_inv for E
  by unfold_locales (rule add_record_inv)

subsection \<open>A run holds the sender's bytes\<close>

text \<open>The sender's stream as a function of the 32-bit sequence number, and a record and a run that
  agree with it.\<close>

definition rec_of_stream :: "(nat \<Rightarrow> byte) \<Rightarrow> rec \<Rightarrow> bool" where
  "rec_of_stream S r \<longleftrightarrow> rec_ok r
     \<and> list_all (\<lambda>i. r_payload r ! i = S ((r_seq r + i) mod SEQ_MOD)) [0..<length (r_payload r)]"

definition run_of_stream :: "(nat \<Rightarrow> byte) \<Rightarrow> flow \<Rightarrow> bool" where
  "run_of_stream S st = (case fl_run_base st of None \<Rightarrow> fl_run_buf st = []
     | Some b \<Rightarrow> b < SEQ_MOD \<and>
         list_all (\<lambda>i. fl_run_buf st ! i = S ((b + i) mod SEQ_MOD)) [0..<length (fl_run_buf st)])"

lemma rec_of_stream_nth: "rec_of_stream S r \<Longrightarrow> i < length (r_payload r) \<Longrightarrow> r_payload r ! i = S ((r_seq r + i) mod SEQ_MOD)"
  by (auto simp: rec_of_stream_def list_all_iff)

lemma run_of_stream_Some:
  "fl_run_base st = Some b \<Longrightarrow> run_of_stream S st \<longleftrightarrow> b < SEQ_MOD \<and>
    (\<forall>i < length (fl_run_buf st). fl_run_buf st ! i = S ((b + i) mod SEQ_MOD))"
  by (auto simp: run_of_stream_def list_all_iff)

lemma sub_mod_spec: "a < SEQ_MOD \<Longrightarrow> (b + sub_mod a b) mod SEQ_MOD = a"
proof -
  assume a: "a < SEQ_MOD"
  have pos: "0 < int SEQ_MOD" by (simp add: SEQ_MOD_def)
  then have i: "int (sub_mod a b) = (int a - int b) mod int SEQ_MOD" by (simp add: sub_mod_def)
  have "int ((b + sub_mod a b) mod SEQ_MOD) = (int b + (int a - int b)) mod int SEQ_MOD"
    by (simp add: zmod_int i mod_add_right_eq)
  also have "\<dots> = int a" using a by simp
  finally show ?thesis by linarith
qed

lemma sub_mod_zero: "a < SEQ_MOD \<Longrightarrow> sub_mod a b = 0 \<Longrightarrow> a = b mod SEQ_MOD"
  using sub_mod_spec [of a b] by simp

definition DIFFER :: string where
  "DIFFER = ''conflict_overlap_bytes_differ''"

lemma stop_reason: "parse_frame E ss off s = Stop f r \<Longrightarrow> r \<noteq> DIFFER"
  by (auto simp: DIFFER_def parse_frame_def Let_def control_frame_def data_frame_def app_frame_def reject_def
      split: if_splits option.splits sum.splits)

lemma ws_loop_reason: "ws_loop E ss buf off fr = (fs, o', r) \<Longrightarrow> r \<noteq> Some DIFFER"
proof (induction E ss buf off fr arbitrary: fs o' r rule: ws_loop.induct)
  case (1 E ss buf off frames)
  show ?case
  proof (cases "parse_frame E ss off (drop off buf)")
    case (Stop f x)
    with "1.prems" stop_reason [OF Stop] show ?thesis
      by (subst (asm) ws_loop.simps) (auto simp: DIFFER_def split: if_splits)
  next
    case (Accept f t)
    with "1.prems" "1.IH" show ?thesis
      by (subst (asm) ws_loop.simps) (auto simp: DIFFER_def split: if_splits)
  qed (use "1.prems" in \<open>subst (asm) ws_loop.simps, auto simp: DIFFER_def split: if_splits\<close>)
qed

lemma store_frames_suspended:
  "fl_suspended st \<noteq> Some DIFFER \<Longrightarrow> fl_suspended (store_frames base fs st) \<noteq> Some DIFFER"
  by (induction base fs st rule: store_frames.induct) (simp_all add: Let_def DIFFER_def)

lemma try_parse_suspended:
  assumes "fl_suspended st \<noteq> Some DIFFER"
  shows "fl_suspended (try_parse E st) \<noteq> Some DIFFER"
proof -
  have pr: "fl_suspended (parse_run E s) \<noteq> Some DIFFER" if "fl_suspended s \<noteq> Some DIFFER" for s
  proof -
    obtain fs off r where p: "parse_ws_frames E (drop (fl_run_decoded s) (fl_run_buf s)) (fl_server_sender s) = (fs, off, r)"
      using prod_cases3 by blast
    have "r \<noteq> Some DIFFER" using ws_loop_reason p unfolding parse_ws_frames_def by blast
    then show ?thesis
      using that store_frames_suspended [OF that] by (simp add: parse_run_def Let_def p) (simp add: DIFFER_def)
  qed
  have "fl_suspended (fst (check_upgrade_prefix st)) \<noteq> Some DIFFER"
    using assms by (simp add: check_upgrade_prefix_def Let_def DIFFER_def split: up_status.split)
  with pr assms show ?thesis by (simp add: try_parse_eq)
qed

definition stream_inv :: "(nat \<Rightarrow> byte) \<Rightarrow> flow_st \<Rightarrow> bool" where
  "stream_inv S fs = (case fs of (st, errors, budget) \<Rightarrow> run_of_stream S st \<and> fl_suspended st \<noteq> Some DIFFER)"

lemma run_of_stream_cong:
  "fl_run_base st' = fl_run_base st \<Longrightarrow> fl_run_buf st' = fl_run_buf st \<Longrightarrow> run_of_stream S st' = run_of_stream S st"
  by (simp add: run_of_stream_def split: option.split)

lemma run_of_stream_upd [simp]:
  "run_of_stream S (st\<lparr>fl_suspended := x\<rparr>) = run_of_stream S st"
  "run_of_stream S (st\<lparr>fl_conflicts := k\<rparr>) = run_of_stream S st"
  "run_of_stream S (st\<lparr>fl_retrans_dedup := k\<rparr>) = run_of_stream S st"
  "run_of_stream S (st\<lparr>fl_overlap_extended := k\<rparr>) = run_of_stream S st"
  "run_of_stream S (st\<lparr>fl_had_data := h\<rparr>) = run_of_stream S st"
  "run_of_stream S (st\<lparr>fl_pkt_numbers := ps\<rparr>) = run_of_stream S st"
  by (rule run_of_stream_cong; simp)+

lemma run_of_stream_try [simp]: "run_of_stream S (try_parse E st) = run_of_stream S st"
  by (rule run_of_stream_cong) simp_all

lemma overlap_slice:
  assumes "run_of_stream S st" "fl_run_base st = Some b" "rec_of_stream S r"
    and off: "off = sub_mod (r_seq r) b" and "off + k \<le> length (fl_run_buf st)" "k \<le> length (r_payload r)"
  shows "slice (fl_run_buf st) off (off + k) = take k (r_payload r)"
proof (rule nth_equalityI)
  show "length (slice (fl_run_buf st) off (off + k)) = length (take k (r_payload r))" using assms by simp
  fix i assume "i < length (slice (fl_run_buf st) off (off + k))"
  then have i: "i < k" by simp
  have "r_seq r < SEQ_MOD" using assms(3) by (simp add: rec_of_stream_def rec_ok_def)
  then have "(b + off + i) mod SEQ_MOD = (r_seq r + i) mod SEQ_MOD"
    using sub_mod_spec [of "r_seq r" b] off by (metis mod_add_left_eq)
  moreover have "fl_run_buf st ! (off + i) = S ((b + (off + i)) mod SEQ_MOD)"
    using assms(1,2,5) i run_of_stream_Some [OF assms(2)] by auto
  moreover have "r_payload r ! i = S ((r_seq r + i) mod SEQ_MOD)" using rec_of_stream_nth assms(3,6) i by auto
  ultimately show "slice (fl_run_buf st) off (off + k) ! i = take k (r_payload r) ! i"
    using i assms(5) by (simp add: nth_slice add.assoc)
qed

lemma grow_stream:
  assumes "run_of_stream S st" "fl_run_base st = Some b" "rec_of_stream S r"
    and ov: "(b + length (fl_run_buf st)) mod SEQ_MOD = (r_seq r + ov) mod SEQ_MOD"
  shows "run_of_stream S (st\<lparr>fl_run_buf := fl_run_buf st @ drop ov (r_payload r)\<rparr>)"
proof -
  let ?n = "length (fl_run_buf st)"
  have "(fl_run_buf st @ drop ov (r_payload r)) ! i = S ((b + i) mod SEQ_MOD)"
    if i: "i < ?n + (length (r_payload r) - ov)" for i
  proof (cases "i < ?n")
    case True
    then show ?thesis using assms(1,2) run_of_stream_Some [OF assms(2)] by (simp add: nth_append)
  next
    case False
    then obtain j where j: "i = ?n + j" using le_Suc_ex not_less by blast
    with i have jj: "ov + j < length (r_payload r)" by simp
    have "(b + i) mod SEQ_MOD = (r_seq r + (ov + j)) mod SEQ_MOD"
      using ov j by (metis add.assoc mod_add_left_eq)
    with rec_of_stream_nth [OF assms(3) jj] j jj show ?thesis by (simp add: nth_append)
  qed
  with assms(1,2) show ?thesis using run_of_stream_Some [OF assms(2)] by (simp add: run_of_stream_def list_all_iff)
qed

lemma fresh_stream: "rec_of_stream S r \<Longrightarrow> fl_run_base st = Some (r_seq r) \<Longrightarrow> fl_run_buf st = r_payload r \<Longrightarrow> run_of_stream S st"
  by (simp add: run_of_stream_Some rec_of_stream_nth) (simp add: rec_of_stream_def rec_ok_def)

lemma empty_run_stream: "b < SEQ_MOD \<Longrightarrow> fl_run_base st = Some b \<Longrightarrow> fl_run_buf st = [] \<Longrightarrow> run_of_stream S st"
  by (simp add: run_of_stream_def)

lemma stream_invI: "run_of_stream S st \<Longrightarrow> fl_suspended st \<noteq> Some DIFFER \<Longrightarrow> stream_inv S (st, e, n)"
  by (simp add: stream_inv_def)

lemma try_parse_stream:
  "run_of_stream S st \<Longrightarrow> fl_suspended st \<noteq> Some DIFFER \<Longrightarrow> stream_inv S (try_parse E st, e, n)"
  using try_parse_suspended by (simp add: stream_inv_def)

lemma suspend_budget_stream: "run_of_stream S st \<Longrightarrow> stream_inv S (suspend_budget (st, e, n))"
  by (simp add: suspend_budget_def stream_inv_def DIFFER_def)

lemma break_flush_suspended:
  "fl_suspended st \<noteq> Some DIFFER \<Longrightarrow> fl_suspended (break_upgrade_boundary st) \<noteq> Some DIFFER"
  "fl_suspended (flush_run st) = fl_suspended st"
  by (simp_all add: break_upgrade_boundary_def flush_run_def discard_pending_def Let_def DIFFER_def)

lemma add_behind_stream:
  assumes s: "stream_inv S (st, e, n)" and b: "fl_run_base st = Some b" and r: "rec_of_stream S r"
    and nt: "r_truncated r = 0" and rn: "run_next = (b + length (fl_run_buf st)) mod SEQ_MOD"
  shows "stream_inv S (add_behind E r b run_next (st, e, n))"
proof -
  let ?buf = "fl_run_buf st" and ?off = "sub_mod (r_seq r) b"
  have len: "r_payload_len r = length (r_payload r)" "r_seq r < SEQ_MOD"
    using r nt by (auto simp: rec_of_stream_def rec_ok_def split: if_splits)
  have st: "run_of_stream S st" "fl_suspended st \<noteq> Some DIFFER" using s by (simp_all add: stream_inv_def)
  note sl = overlap_slice [OF st(1) b r refl]
  define ov where "ov = min (length ?buf - ?off) (r_payload_len r)"
  have full: "slice ?buf ?off (?off + r_payload_len r) = r_payload r" if "?off + r_payload_len r \<le> length ?buf"
    using sl [of "r_payload_len r"] that len by simp
  have part: "slice ?buf ?off (?off + ov) = take ov (r_payload r)" if "?off < length ?buf"
    using sl [of ov] that len by (simp add: ov_def)
  have grow: "run_of_stream S (st\<lparr>fl_run_buf := ?buf @ drop ov (r_payload r), fl_overlap_extended := m\<rparr>)"
    if "?off < length ?buf" "drop ov (r_payload r) \<noteq> []" for m
  proof -
    have "ov = length ?buf - ?off" using that len by (simp add: ov_def min_def split: if_splits)
    then have "b + length ?buf = b + ?off + ov" using that by simp
    then have "(b + length ?buf) mod SEQ_MOD = (r_seq r + ov) mod SEQ_MOD"
      using sub_mod_spec [OF len(2), of b] by (metis mod_add_left_eq)
    from grow_stream [OF st(1) b r this] show ?thesis by simp
  qed
  show ?thesis
  proof (cases "?off \<ge> length ?buf")
    case True
    then show ?thesis using st
      by (simp add: add_behind_def Let_def stream_inv_def conflict_def DIFFER_def)
  next
    case False
    then have lt: "?off < length ?buf" by simp
    have upd: "run_of_stream S (st\<lparr>fl_retrans_dedup := m\<rparr>)" for m using st by (simp add:)
    show ?thesis
    proof (cases "r_payload_len r \<le> sub_mod run_next (r_seq r) \<and> ?off + r_payload_len r \<le> length ?buf")
      case True
      then show ?thesis using lt full st upd by (simp add: add_behind_def Let_def stream_inv_def)
    next
      case False
      have "add_behind E r b run_next (st, e, n) =
          (if drop ov (r_payload r) \<noteq> [] then
             (if n + length (drop ov (r_payload r)) > MAX_STREAM_BYTES then suspend_budget (st, e, n)
              else (try_parse E (st\<lparr>fl_run_buf := ?buf @ drop ov (r_payload r), fl_overlap_extended := fl_overlap_extended st + 1\<rparr>),
                  e, n + length (drop ov (r_payload r))))
           else (try_parse E (st\<lparr>fl_retrans_dedup := fl_retrans_dedup st + 1\<rparr>), e, n))"
        using lt False part [OF lt] unfolding add_behind_def Let_def prod.case ov_def [symmetric] by (simp only: if_not_P not_le if_False)
      then show ?thesis
        using grow [OF lt] st upd suspend_budget_stream [OF st(1)] by (simp add: try_parse_stream)
    qed
  qed
qed

lemma add_forward_stream:
  assumes s: "stream_inv S (st, e, n)" and r: "rec_of_stream S r"
  shows "stream_inv S (add_forward E r (st, e, n))"
proof -
  let ?b = "break_upgrade_boundary st"
  let ?st = "flush_run (?b\<lparr>fl_gaps := fl_gaps ?b + 1\<rparr>)"
  have "fl_suspended st \<noteq> Some DIFFER" using s by (simp add: stream_inv_def)
  then have su: "fl_suspended ?st \<noteq> Some DIFFER" by (simp add: break_flush_suspended)
  have seq: "r_seq r < SEQ_MOD" using r by (simp add: rec_of_stream_def rec_ok_def)
  have "run_of_stream S (reset_run (r_seq r) (r_payload r) ?st)"
    using r by (rule fresh_stream) (simp_all add: reset_run_def)
  moreover have "run_of_stream S (reset_run (r_seq r) [] (x\<lparr>fl_suspended := y\<rparr>))" for x y
    using seq by (rule empty_run_stream) (simp_all add: reset_run_def)
  moreover have "fl_suspended (reset_run (r_seq r) (r_payload r) ?st) \<noteq> Some DIFFER" using su by (simp add: reset_run_def)
  moreover have "fl_suspended (reset_run (r_seq r) [] (x\<lparr>fl_suspended := Some ''budget_exceeded''\<rparr>)) \<noteq> Some DIFFER" for x
    by (simp add: reset_run_def DIFFER_def)
  ultimately show ?thesis
    using try_parse_stream [of S "reset_run (r_seq r) (r_payload r) ?st" E e "n + length (r_payload r)"]
    unfolding add_forward_def Let_def prod.case by (simp add: suspend_budget_def stream_invI)
qed

lemma add_data_stream:
  assumes s: "stream_inv S (st, e, n)" and r: "rec_of_stream S r" and nt: "r_truncated r = 0"
  shows "stream_inv S (add_data E r (st, e, n))"
proof -
  have st: "run_of_stream S st" "fl_suspended st \<noteq> Some DIFFER" using s by (simp_all add: stream_inv_def)
  have seq: "r_seq r < SEQ_MOD" using r by (simp add: rec_of_stream_def rec_ok_def)
  show ?thesis
  proof (cases "fl_run_base st")
    case None
    have "run_of_stream S (st\<lparr>fl_run_base := Some (r_seq r), fl_run_buf := r_payload r\<rparr>)"
      using r by (rule fresh_stream) simp_all
    with None st show ?thesis
      using suspend_budget_stream [OF st(1)] by (auto simp: add_data_def intro!: try_parse_stream)
  next
    case (Some b)
    define run_next where "run_next = (b + length (fl_run_buf st)) mod SEQ_MOD"
    have "run_of_stream S (st\<lparr>fl_run_buf := fl_run_buf st @ r_payload r\<rparr>)" if "sub_mod (r_seq r) run_next = 0"
      using grow_stream [OF st(1) Some r, of 0] sub_mod_zero [OF seq that] by (simp add: run_next_def)
    then show ?thesis
      using st suspend_budget_stream [OF st(1)] add_forward_stream [OF s r] add_behind_stream [OF s Some r nt run_next_def]
      by (auto simp: add_data_def Some Let_def run_next_def [symmetric] intro!: try_parse_stream)
  qed
qed

lemma add_record_stream:
  assumes s: "stream_inv S fs" and r: "rec_of_stream S r"
  shows "stream_inv S (add_record E r fs)"
proof -
  obtain st e n where fs: "fs = (st, e, n)" by (rule prod_cases3)
  have st: "run_of_stream S st" "fl_suspended st \<noteq> Some DIFFER" using s fs by (simp_all add: stream_inv_def)
  have m: "x mod SEQ_MOD < SEQ_MOD" for x by (simp add: SEQ_MOD_def)
  let ?st = "st\<lparr>fl_had_data := True, fl_pkt_numbers := fl_pkt_numbers st @ [r_pkt r]\<rparr>"
  have "stream_inv S (?st, e, n)" using st by (simp add: stream_inv_def)
  note d = add_data_stream [OF this r]
  have tr: "stream_inv S (skip_truncated r st, e, n)"
  proof (rule stream_invI)
    have "fl_run_base st = None \<Longrightarrow> fl_run_buf st = []" using st(1) by (simp add: run_of_stream_def)
    then show "run_of_stream S (skip_truncated r st)" using m
      by (intro empty_run_stream [of "(r_seq r + r_payload_len r) mod SEQ_MOD"])
         (auto simp: skip_truncated_def Let_def reset_run_def flush_run_def discard_pending_def break_upgrade_boundary_def)
    show "fl_suspended (skip_truncated r st) \<noteq> Some DIFFER"
      using break_flush_suspended [of st] st by (simp add: skip_truncated_def Let_def reset_run_def break_flush_suspended)
  qed
  have ov: "stream_inv S (skip_oversize r st, e, n)"
  proof (rule stream_invI)
    show "run_of_stream S (skip_oversize r st)" using m
      by (intro empty_run_stream [of "(r_seq r + r_payload_len r) mod SEQ_MOD"])
         (auto simp: skip_oversize_def Let_def reset_run_def)
    show "fl_suspended (skip_oversize r st) \<noteq> Some DIFFER"
      using break_flush_suspended [of st] st by (simp add: skip_oversize_def Let_def reset_run_def break_flush_suspended)
  qed
  show ?thesis using s d tr ov fs by (auto simp: add_record_def)
qed

interpretation flow_stream: invariant_machine "add_record E" "rec_of_stream S" "stream_inv S" for E S
  by unfold_locales (rule add_record_stream)

subsection \<open>Segmentation does not matter\<close>

text \<open>Records that carry a stream in order, without loss, from sequence number \<open>s\<close> on.\<close>

fun in_order :: "nat \<Rightarrow> rec list \<Rightarrow> bool" where
  "in_order s [] \<longleftrightarrow> True"
| "in_order s (r # rs) \<longleftrightarrow> rec_ok r \<and> r_truncated r = 0 \<and> r_payload r \<noteq> []
     \<and> length (r_payload r) \<le> MAX_PAYLOAD_PER_RECORD \<and> r_seq r = s
     \<and> in_order ((s + length (r_payload r)) mod SEQ_MOD) rs"

text \<open>How many bytes of HTTP upgrade precede the frames: none, or a valid head.\<close>

definition upgrade_skip :: "bool \<Rightarrow> bytes \<Rightarrow> nat option" where
  "upgrade_skip ss full = (let u = parse_upgrade_prefix full ss in
     case up_status u of NotHttp \<Rightarrow> Some 0 | Valid \<Rightarrow> Some (up_consumed u) | _ \<Rightarrow> None)"

definition msgs_ok :: "(bytes \<times> bytes) list \<Rightarrow> bool" where
  "msgs_ok msgs = list_all (\<lambda>(k, p). length k = 4 \<and> length p \<le> MAX_FRAME_BYTES) msgs"

definition stored_at :: "nat \<Rightarrow> frame_entry list \<Rightarrow> flow_frame list" where
  "stored_at k fs = map (\<lambda>f. stored_frame 0 (k + f_offset f) f) fs"

lemma binary_stream_Cons: "binary_stream ss ((k, p) # msgs) = encode_frame 2 (frame_key ss k) p @ binary_stream ss msgs"
  by (simp add: binary_stream_def)

lemma binary_stream_append: "binary_stream ss (xs @ ys) = binary_stream ss xs @ binary_stream ss ys"
  by (simp add: binary_stream_def)

lemma binary_entries_append:
  "binary_entries E ss off (xs @ ys) = binary_entries E ss off xs @ binary_entries E ss (off + length (binary_stream ss xs)) ys"
proof (induction xs arbitrary: off)
  case (Cons kp xs)
  then show ?case by (cases kp) (simp add: binary_stream_Cons add.assoc)
qed (simp add: binary_stream_def)

lemma length_binary_entries [simp]: "length (binary_entries E ss off msgs) = length msgs"
  by (induction E ss off msgs rule: binary_entries.induct) auto

lemma stored_binary: "stored_frame 0 ro (binary_entry E ss o' p) = stored_frame 0 ro (binary_entry E ss ro p)"
  and stored_binary_entry: "ff_entry (stored_frame 0 ro (binary_entry E ss ro p)) = binary_entry E ss ro p"
  by (simp_all add: stored_frame_def binary_entry_def plain_entry_def Let_def)

lemma stored_at_shift: "stored_at (k + d) (binary_entries E ss o' ms) = stored_at k (binary_entries E ss (d + o') ms)"
proof (induction ms arbitrary: o')
  case (Cons kp ms)
  obtain key p where kp: "kp = (key, p)" by force
  have "stored_frame 0 (k + d + o') (binary_entry E ss o' p) = stored_frame 0 (k + (d + o')) (binary_entry E ss (d + o') p)"
    using stored_binary [of "k + d + o'" E ss o' p] stored_binary [of "k + d + o'" E ss "d + o'" p] by (simp add: add.assoc)
  with Cons.IH [of "o' + length (encode_frame 2 (frame_key ss key) p)"] kp show ?case
    by (simp add: stored_at_def binary_entry_def plain_entry_def Let_def add.assoc)
qed (simp add: stored_at_def)

lemma parse_binary:
  assumes "length key = 4" "length p \<le> MAX_FRAME_BYTES" "drop off buf = encode_frame 2 (frame_key ss key) p @ r"
  shows "parse_frame E ss off (drop off buf) = Accept (binary_entry E ss off p) (length (encode_frame 2 (frame_key ss key) p))"
  unfolding assms(3) using parse_encoded [of 2 key p E ss off r] assms(1,2)
  by (simp add: app_frame_def binary_entry_def Let_def)

text \<open>Parsing a prefix of a stream of messages gives the complete messages in it.\<close>

lemma binary_prefix_loop:
  assumes "msgs_ok msgs" "length fr + length msgs \<le> MAX_FRAMES_PER_FLOW * 2"
    "prefix (drop off buf) (binary_stream ss msgs)" "off \<le> length buf"
  shows "\<exists>i \<le> length msgs. ws_loop E ss buf off fr
      = (fr @ binary_entries E ss off (take i msgs), off + length (binary_stream ss (take i msgs)), None)
    \<and> off + length (binary_stream ss (take i msgs)) \<le> length buf
    \<and> (drop off buf = binary_stream ss msgs \<longrightarrow> i = length msgs)"
  using assms
proof (induction msgs arbitrary: off fr)
  case Nil
  then show ?case by (subst ws_loop.simps) (simp add: binary_stream_def)
next
  case (Cons kp msgs)
  obtain key p where kp: "kp = (key, p)" by force
  let ?e = "encode_frame 2 (frame_key ss key) p"
  have ok: "length key = 4" "length p \<le> MAX_FRAME_BYTES" "msgs_ok msgs" using Cons.prems(1) kp by (simp_all add: msgs_ok_def)
  obtain t where t: "drop off buf @ t = ?e @ binary_stream ss msgs"
    using Cons.prems(3) kp by (auto simp: binary_stream_Cons prefix_def)
  have full: "parse_frame E ss off (drop off buf @ t) = Accept (binary_entry E ss off p) (length ?e)"
    using parse_binary [OF ok(1,2), of off "replicate off 0 @ drop off buf @ t" ss "binary_stream ss msgs" E] t by simp
  show ?case
  proof (cases "off < length buf \<and> parse_frame E ss off (drop off buf) \<noteq> Pending")
    case False
    have "drop off buf \<noteq> binary_stream ss (kp # msgs)"
    proof
      assume "drop off buf = binary_stream ss (kp # msgs)"
      then have d: "drop off buf = ?e @ binary_stream ss msgs" using kp by (simp add: binary_stream_Cons)
      from parse_binary [OF ok(1,2) d] False Cons.prems(4) d show False
        by (simp add: encode_frame_def)
    qed
    with False Cons.prems show ?thesis
      by (intro exI [of _ 0]) (subst ws_loop.simps, auto simp: binary_stream_def)
  next
    case True
    then have a: "parse_frame E ss off (drop off buf) = Accept (binary_entry E ss off p) (length ?e)"
      using parse_frame_append [of E ss off "drop off buf" t] full by simp
    then have le: "length ?e \<le> length (drop off buf)" using parse_frame_total by blast
    then have d: "drop off buf = ?e @ drop (off + length ?e) buf" "prefix (drop (off + length ?e) buf) (binary_stream ss msgs)"
    proof -
      have "?e = take (length ?e) (drop off buf)" using arg_cong [OF t, of "take (length ?e)"] le by simp
      then show d1: "drop off buf = ?e @ drop (off + length ?e) buf"
        by (metis add.commute append_take_drop_id drop_drop)
      from t show "prefix (drop (off + length ?e) buf) (binary_stream ss msgs)"
        by (subst (asm) d1) (simp, metis prefixI)
    qed
    have "length (fr @ [binary_entry E ss off p]) + length msgs \<le> MAX_FRAMES_PER_FLOW * 2" using Cons.prems(2) by simp
    moreover have "off + length ?e \<le> length buf" using le True by (simp only: length_drop) linarith
    ultimately obtain i where i: "i \<le> length msgs"
      "ws_loop E ss buf (off + length ?e) (fr @ [binary_entry E ss off p])
        = ((fr @ [binary_entry E ss off p]) @ binary_entries E ss (off + length ?e) (take i msgs),
           off + length ?e + length (binary_stream ss (take i msgs)), None)"
      "off + length ?e + length (binary_stream ss (take i msgs)) \<le> length buf"
      "drop (off + length ?e) buf = binary_stream ss msgs \<longrightarrow> i = length msgs"
      using Cons.IH [OF ok(3) _ d(2)] by blast
    have "drop off buf = binary_stream ss (kp # msgs) \<longrightarrow> i = length msgs"
      using i(4) d(1) kp by (simp add: binary_stream_Cons)
    with i a True Cons.prems(2) kp show ?thesis
      by (intro exI [of _ "Suc i"]) (subst ws_loop.simps, simp add: binary_stream_Cons add.assoc)
  qed
qed

lemma parse_binary_prefix:
  assumes "msgs_ok msgs" "length msgs \<le> MAX_FRAMES_PER_FLOW * 2" "prefix buf (binary_stream ss msgs)"
  shows "\<exists>i \<le> length msgs. parse_ws_frames E buf ss
      = (binary_entries E ss 0 (take i msgs), length (binary_stream ss (take i msgs)), None)
    \<and> length (binary_stream ss (take i msgs)) \<le> length buf \<and> (buf = binary_stream ss msgs \<longrightarrow> i = length msgs)"
  using binary_prefix_loop [OF assms(1), of "[]" 0 buf ss E] assms(2,3) by (simp add: parse_ws_frames_def)

lemma store_binary:
  assumes "msgs_ok ms" "length (fl_frames st) + length ms \<le> MAX_FRAMES_PER_FLOW" "fl_frame_offset_base st = 0"
    "fl_run_decoded st = base + o'" "prefix (binary_stream ss ms) (drop (base + o') (fl_run_buf st))"
  shows "store_frames base (binary_entries E ss o' ms) st
    = st\<lparr>fl_frames := fl_frames st @ stored_at base (binary_entries E ss o' ms),
         fl_run_decoded := base + o' + length (binary_stream ss ms)\<rparr>"
  using assms
proof (induction ms arbitrary: st o')
  case Nil
  then show ?case by (simp add: stored_at_def binary_stream_def)
next
  case (Cons kp ms)
  obtain key p where kp: "kp = (key, p)" by force
  let ?e = "encode_frame 2 (frame_key ss key) p" and ?buf = "fl_run_buf st"
  have ok: "length key = 4" "length p \<le> MAX_FRAME_BYTES" "msgs_ok ms" using Cons.prems(1) kp by (simp_all add: msgs_ok_def)
  obtain t where t: "drop (base + o') ?buf = ?e @ binary_stream ss ms @ t"
    using Cons.prems(5) kp by (auto simp: binary_stream_Cons prefix_def)
  let ?en = "stored_frame 0 (base + o') (binary_entry E ss o' p)"
  have en: "ff_entry ?en = binary_entry E ss (base + o') p"
    using stored_binary [of "base + o'" E ss o' p] stored_binary_entry by simp
  have tl: "frame_total_len ?buf (ff_entry ?en) = length ?e"
    using accept_entry [OF parse_binary [OF ok(1,2) t, of E]] en by simp
  have d: "drop (base + (o' + length ?e)) ?buf = binary_stream ss ms @ t"
    using t by (metis add.assoc add.commute append_eq_conv_conj drop_drop)
  let ?st = "st\<lparr>fl_frames := fl_frames st @ [?en], fl_run_decoded := base + (o' + length ?e)\<rparr>"
  have "store_frames base (binary_entries E ss o' (kp # ms)) st = store_frames base (binary_entries E ss (o' + length ?e) ms) ?st"
    using Cons.prems(2,3) kp tl by (simp add: Let_def binary_entry_def plain_entry_def add.assoc)
  also have "\<dots> = ?st\<lparr>fl_frames := fl_frames ?st @ stored_at base (binary_entries E ss (o' + length ?e) ms),
         fl_run_decoded := base + (o' + length ?e) + length (binary_stream ss ms)\<rparr>"
    using Cons.prems d ok(3) by (intro Cons.IH) simp_all
  finally show ?case
    using kp by (simp add: stored_at_def binary_stream_Cons binary_entry_def plain_entry_def Let_def add.assoc)
qed

text \<open>What holds between two records: either the upgrade head is still incomplete, or the first \<open>j\<close>
  messages have been taken.\<close>

definition seg_inv :: "env \<Rightarrow> bool \<Rightarrow> nat \<Rightarrow> (bytes \<times> bytes) list \<Rightarrow> nat option \<Rightarrow> flow \<Rightarrow> bool" where
  "seg_inv E ss k msgs j st \<longleftrightarrow> fl_server_sender st = ss \<and> fl_suspended st = None \<and> fl_frame_offset_base st = 0
     \<and> (case j of
          None \<Rightarrow> \<not> fl_upgrade_checked st \<and> fl_upgrade_at_start st \<and> fl_frames st = [] \<and> fl_run_decoded st = 0
        | Some j \<Rightarrow> fl_upgrade_checked st \<and> j \<le> length msgs
            \<and> fl_frames st = stored_at k (binary_entries E ss 0 (take j msgs))
            \<and> fl_run_decoded st = k + length (binary_stream ss (take j msgs)))"

lemma parse_run_seg:
  assumes inv: "seg_inv E ss k msgs (Some j) st" and ok: "msgs_ok msgs" "length msgs < MAX_FRAMES_PER_FLOW"
    and pre: "prefix (fl_run_buf st) full" and full: "drop k full = binary_stream ss msgs"
    and le: "fl_run_decoded st \<le> length (fl_run_buf st)"
  shows "\<exists>j'. seg_inv E ss k msgs (Some j') (parse_run E st)
    \<and> fl_run_decoded (parse_run E st) \<le> length (fl_run_buf st) \<and> (fl_run_buf st = full \<longrightarrow> j' = length msgs)"
proof -
  let ?buf = "fl_run_buf st" and ?rest = "drop j msgs" and ?d = "fl_run_decoded st"
  have i: "fl_server_sender st = ss" "fl_suspended st = None" "fl_frame_offset_base st = 0" "fl_upgrade_checked st"
    "j \<le> length msgs" "fl_frames st = stored_at k (binary_entries E ss 0 (take j msgs))"
    and d: "?d = k + length (binary_stream ss (take j msgs))"
    using inv by (simp_all add: seg_inv_def)
  have nf: "length (fl_frames st) = j" using i by (simp add: stored_at_def)
  have dropd: "drop ?d full = binary_stream ss ?rest"
  proof -
    have "binary_stream ss msgs = binary_stream ss (take j msgs) @ binary_stream ss ?rest"
      by (metis append_take_drop_id binary_stream_append)
    then show ?thesis using full d by (metis add.commute append_eq_conv_conj drop_drop)
  qed
  obtain t where t: "full = ?buf @ t" using pre by (auto simp: prefix_def)
  have ps: "prefix (drop ?d ?buf) (binary_stream ss ?rest)"
  proof -
    have "drop ?d full = drop ?d ?buf @ t" using t le by simp
    with dropd show ?thesis by (metis prefixI)
  qed
  have ok': "msgs_ok ?rest" "length ?rest \<le> MAX_FRAMES_PER_FLOW * 2"
    using ok by (simp_all add: msgs_ok_def list_all_iff) (meson in_set_dropD)
  show ?thesis
  proof (cases "drop ?d ?buf = []")
    case True
    have "j = length msgs" if "?buf = full"
    proof (rule ccontr)
      assume "j \<noteq> length msgs"
      then obtain kp ms where "?rest = kp # ms" using i(5) by (cases ?rest) auto
      then have "binary_stream ss ?rest \<noteq> []" by (cases kp) (simp add: binary_stream_Cons encode_frame_def)
      with True that dropd show False by simp
    qed
    with True inv le nf ok i show ?thesis
      by (intro exI [of _ j]) (simp add: parse_run_def Let_def seg_inv_def split del: if_split, simp add: default_boundary_def)
  next
    case False
    from parse_binary_prefix [OF ok' ps, of E] obtain n where n: "n \<le> length ?rest"
      "parse_ws_frames E (drop ?d ?buf) ss = (binary_entries E ss 0 (take n ?rest), length (binary_stream ss (take n ?rest)), None)"
      "length (binary_stream ss (take n ?rest)) \<le> length (drop ?d ?buf)"
      "drop ?d ?buf = binary_stream ss ?rest \<longrightarrow> n = length ?rest" by blast
    let ?ms = "take n ?rest"
    have pre_ms: "prefix (binary_stream ss ?ms) (drop (?d + 0) ?buf)"
    proof -
      have "prefix (binary_stream ss ?ms) (binary_stream ss ?rest)"
        by (metis append_take_drop_id binary_stream_append prefixI)
      from prefix_length_prefix [OF this ps n(3)] show ?thesis by simp
    qed
    have okm: "msgs_ok ?ms" using ok' by (simp add: msgs_ok_def list_all_iff) (meson in_set_takeD)
    have cap: "length (fl_frames st) + length ?ms \<le> MAX_FRAMES_PER_FLOW" using nf ok n(1) i(5) by simp
    have sf: "store_frames ?d (binary_entries E ss 0 ?ms) st
       = st\<lparr>fl_frames := fl_frames st @ stored_at ?d (binary_entries E ss 0 ?ms),
            fl_run_decoded := ?d + 0 + length (binary_stream ss ?ms)\<rparr>"
      by (rule store_binary [OF okm cap i(3) _ pre_ms]) simp
    have tk: "take (j + n) msgs = take j msgs @ ?ms" by (simp add: take_add)
    have "stored_at ?d (binary_entries E ss 0 ?ms) = stored_at k (binary_entries E ss (length (binary_stream ss (take j msgs))) ?ms)"
      using stored_at_shift [of k "length (binary_stream ss (take j msgs))" E ss 0 ?ms] d by simp
    then have fr: "fl_frames st @ stored_at ?d (binary_entries E ss 0 ?ms) = stored_at k (binary_entries E ss 0 (take (j + n) msgs))"
      using i(6) unfolding tk binary_entries_append by (simp add: stored_at_def)
    have pr: "parse_run E st = set_start_boundary None (store_frames ?d (binary_entries E ss 0 ?ms) st)"
    proof -
      have "\<not> length (fl_frames st) \<ge> MAX_FRAMES_PER_FLOW" using nf ok(2) i(5) by simp
      then show ?thesis using False i(1) n(2) by (simp add: parse_run_def Let_def)
    qed
    have "seg_inv E ss k msgs (Some (j + n)) (parse_run E st)"
      unfolding seg_inv_def pr sf using i(1-5) n(1) fr by (simp add: tk binary_stream_append) (simp add: d)
    moreover have "fl_run_decoded (parse_run E st) \<le> length ?buf" unfolding pr sf using n(3) le by simp
    moreover have "?buf = full \<longrightarrow> j + n = length msgs" using n(4) dropd i(5) by auto
    ultimately show ?thesis by blast
  qed
qed

lemma upgrade_decided:
  assumes "prefix buf full" "upgrade_skip ss full = Some k" "up_status (parse_upgrade_prefix buf ss) \<noteq> up_status.Pending"
  shows "up_status (parse_upgrade_prefix buf ss) = NotHttp \<and> k = 0
    \<or> up_status (parse_upgrade_prefix buf ss) = Valid \<and> up_consumed (parse_upgrade_prefix buf ss) = k \<and> k \<le> length buf"
proof -
  obtain t where "full = buf @ t" using assms(1) by (auto simp: prefix_def)
  then have "parse_upgrade_prefix full ss = parse_upgrade_prefix buf ss"
    using parse_upgrade_prefix_final assms(3) by blast
  with assms(2) show ?thesis
    using consumed_bound [of buf ss] by (auto simp: upgrade_skip_def Let_def split: up_status.splits)
qed

lemma try_parse_seg:
  assumes inv: "seg_inv E ss k msgs j st" and ok: "msgs_ok msgs" "length msgs < MAX_FRAMES_PER_FLOW"
    and pre: "prefix (fl_run_buf st) full" and full: "upgrade_skip ss full = Some k" "drop k full = binary_stream ss msgs"
    and le: "fl_run_decoded st \<le> length (fl_run_buf st)"
  shows "\<exists>j'. seg_inv E ss k msgs j' (try_parse E st)
    \<and> fl_run_decoded (try_parse E st) \<le> length (fl_run_buf st) \<and> (fl_run_buf st = full \<longrightarrow> j' = Some (length msgs))"
proof (cases "fl_upgrade_checked st")
  case True
  then have "check_upgrade_prefix st = (st, False)" by (simp add: check_upgrade_prefix_def)
  moreover have "fl_suspended st = None" using inv by (simp add: seg_inv_def)
  ultimately have tp: "try_parse E st = parse_run E st" by (simp add: try_parse_def)
  obtain i where "j = Some i" using inv True by (cases j) (auto simp: seg_inv_def)
  with parse_run_seg [of E ss k msgs i st, OF _ ok pre full(2) le] inv show ?thesis unfolding tp by auto
next
  case False
  then have j: "j = None" using inv by (cases j) (auto simp: seg_inv_def)
  then have i: "fl_server_sender st = ss" "fl_suspended st = None" "fl_frame_offset_base st = 0" "fl_upgrade_at_start st"
    "fl_frames st = []" "fl_run_decoded st = 0" using inv by (simp_all add: seg_inv_def)
  let ?u = "parse_upgrade_prefix (fl_run_buf st) ss"
  show ?thesis
  proof (cases "up_status ?u = up_status.Pending")
    case True
    then have "try_parse E st = st\<lparr>fl_handshake_status := ''pending''\<rparr>"
      using False i by (simp add: try_parse_def check_upgrade_prefix_def)
    moreover have "fl_run_buf st \<noteq> full" using True full(1) by (auto simp: upgrade_skip_def)
    ultimately show ?thesis using inv j le by (intro exI [of _ None]) (simp add: seg_inv_def)
  next
    case decided: False
    note v = upgrade_decided [OF pre full(1) decided]
    let ?st = "fst (check_upgrade_prefix st)"
    have c: "check_upgrade_prefix st = (?st, False)" and s: "seg_inv E ss k msgs (Some 0) ?st"
      "fl_run_buf ?st = fl_run_buf st" "fl_run_decoded ?st \<le> length (fl_run_buf st)"
      using v False i by (auto simp: check_upgrade_prefix_def Let_def seg_inv_def stored_at_def binary_stream_def)
    have tp: "try_parse E st = parse_run E ?st" using i(2) unfolding try_parse_def by (subst c) simp
    from parse_run_seg [OF s(1) ok _ full(2)] s pre show ?thesis unfolding tp by auto
  qed
qed

definition seg_state :: "env \<Rightarrow> bool \<Rightarrow> nat \<Rightarrow> (bytes \<times> bytes) list \<Rightarrow> bytes \<Rightarrow> nat \<Rightarrow> nat \<Rightarrow> flow \<Rightarrow> bool" where
  "seg_state E ss k msgs full s n st \<longleftrightarrow> (\<exists>j. seg_inv E ss k msgs j st \<and> (fl_run_buf st = full \<longrightarrow> j = Some (length msgs)))
     \<and> fl_run_decoded st \<le> length (fl_run_buf st) \<and> n = length (fl_run_buf st)
     \<and> (case fl_run_base st of None \<Rightarrow> fl_run_buf st = [] | Some b \<Rightarrow> (b + length (fl_run_buf st)) mod SEQ_MOD = s)"

lemma seg_inv_upd [simp]:
  "seg_inv E ss k msgs j (st\<lparr>fl_had_data := h, fl_pkt_numbers := ps\<rparr>) = seg_inv E ss k msgs j st"
  "seg_inv E ss k msgs j (st\<lparr>fl_run_buf := b\<rparr>) = seg_inv E ss k msgs j st"
  "seg_inv E ss k msgs j (st\<lparr>fl_run_base := rb\<rparr>) = seg_inv E ss k msgs j st"
  by (simp_all add: seg_inv_def split: option.split)

lemma sub_mod_self: "sub_mod a a = 0"
  by (simp add: sub_mod_def)

lemma add_record_seg:
  assumes st: "seg_state E ss k msgs full s n st" and r: "in_order s (r # rs)" "r_seq r < SEQ_MOD"
    and ok: "msgs_ok msgs" "length msgs < MAX_FRAMES_PER_FLOW"
    and full: "upgrade_skip ss full = Some k" "drop k full = binary_stream ss msgs" "length full \<le> MAX_STREAM_BYTES"
    and cut: "full = fl_run_buf st @ r_payload r @ concat (map r_payload rs)"
  shows "\<exists>st'. add_record E r (st, [], n) = (st', [], n + length (r_payload r))
    \<and> seg_state E ss k msgs full ((s + length (r_payload r)) mod SEQ_MOD) (n + length (r_payload r)) st'
    \<and> fl_run_buf st' = fl_run_buf st @ r_payload r"
proof -
  obtain j where j: "seg_inv E ss k msgs j st" using st by (auto simp: seg_state_def)
  have ro: "rec_ok r" "r_truncated r = 0" "r_payload r \<noteq> []" "length (r_payload r) \<le> MAX_PAYLOAD_PER_RECORD" "r_seq r = s"
    using r by simp_all
  then have pl: "r_payload_len r \<le> MAX_PAYLOAD_PER_RECORD" by (auto simp: rec_ok_def split: if_splits)
  have n: "n = length (fl_run_buf st)" using st by (simp add: seg_state_def)
  have bud: "\<not> n + length (r_payload r) > MAX_STREAM_BYTES" using full(3) cut n by simp
  let ?st = "st\<lparr>fl_had_data := True, fl_pkt_numbers := fl_pkt_numbers st @ [r_pkt r]\<rparr>"
  have ns: "\<not> conflict_suspended st" using j by (simp add: seg_inv_def conflict_suspended_def)
  define base where "base = (case fl_run_base st of None \<Rightarrow> s | Some b \<Rightarrow> b)"
  define st1 where "st1 = ?st\<lparr>fl_run_base := Some base, fl_run_buf := fl_run_buf st @ r_payload r\<rparr>"
  have mod: "s mod SEQ_MOD = s" using r(2) ro(5) by simp
  have ar: "add_record E r (st, [], n) = (try_parse E st1, [], n + length (r_payload r))"
  proof (cases "fl_run_base st")
    case None
    then have "fl_run_buf st = []" using st by (simp add: seg_state_def)
    with None ns ro pl bud show ?thesis by (simp add: add_record_def add_data_def st1_def base_def)
  next
    case (Some b)
    then have "(b + length (fl_run_buf st)) mod SEQ_MOD = s" using st by (simp add: seg_state_def)
    moreover have "?st\<lparr>fl_run_buf := fl_run_buf st @ r_payload r\<rparr> = st1" using Some by (simp add: st1_def base_def)
    ultimately show ?thesis
      using Some ns ro pl bud by (simp add: add_record_def add_data_def Let_def sub_mod_self)
  qed
  have i1: "seg_inv E ss k msgs j st1" using j by (simp add: st1_def)
  have p1: "prefix (fl_run_buf st1) full" using cut by (simp add: st1_def prefix_def)
  have le1: "fl_run_decoded st1 \<le> length (fl_run_buf st1)" using st by (simp add: st1_def seg_state_def)
  from try_parse_seg [OF i1 ok p1 full(1,2) le1] obtain j' where
    "seg_inv E ss k msgs j' (try_parse E st1)" "fl_run_decoded (try_parse E st1) \<le> length (fl_run_buf st1)"
    "fl_run_buf st1 = full \<longrightarrow> j' = Some (length msgs)" by blast
  moreover have "(base + length (fl_run_buf st @ r_payload r)) mod SEQ_MOD = (s + length (r_payload r)) mod SEQ_MOD"
  proof (cases "fl_run_base st")
    case None
    then show ?thesis using st by (simp add: seg_state_def base_def)
  next
    case (Some b)
    then have "(b + length (fl_run_buf st)) mod SEQ_MOD = s" using st by (simp add: seg_state_def)
    then have "(b + length (fl_run_buf st) + length (r_payload r)) mod SEQ_MOD = (s + length (r_payload r)) mod SEQ_MOD"
      by (metis mod_add_left_eq)
    then show ?thesis using Some by (simp add: base_def add.assoc)
  qed
  ultimately show ?thesis unfolding ar seg_state_def by (auto simp: st1_def n)
qed

lemma run_seg:
  assumes "seg_state E ss k msgs full s n st" "in_order s rs" "s < SEQ_MOD"
    and "msgs_ok msgs" "length msgs < MAX_FRAMES_PER_FLOW"
    and "upgrade_skip ss full = Some k" "drop k full = binary_stream ss msgs" "length full \<le> MAX_STREAM_BYTES"
    and "full = fl_run_buf st @ concat (map r_payload rs)"
  shows "\<exists>st'. fold (add_record E) rs (st, [], n) = (st', [], length full) \<and> fl_run_buf st' = full
    \<and> seg_inv E ss k msgs (Some (length msgs)) st'"
  using assms
proof (induction rs arbitrary: s n st)
  case Nil
  then show ?case by (auto simp: seg_state_def)
next
  case (Cons r rs)
  have "r_seq r < SEQ_MOD" using Cons.prems(2,3) by simp
  from add_record_seg [OF Cons.prems(1,2) this Cons.prems(4-8)] Cons.prems(9)
  obtain st' where "add_record E r (st, [], n) = (st', [], n + length (r_payload r))"
    "seg_state E ss k msgs full ((s + length (r_payload r)) mod SEQ_MOD) (n + length (r_payload r)) st'"
    "fl_run_buf st' = fl_run_buf st @ r_payload r" by auto
  with Cons show ?case by (auto simp: SEQ_MOD_def)
qed

subsection \<open>Properties\<close>


text \<open>C2. If every record agrees with one stream of bytes indexed by sequence number (any losses,
  retransmissions, reorderings and overlaps), then the run holds exactly the stream's bytes from
  its base on, and the flow is never suspended for contradicting bytes.\<close>

theorem reassembly_sound:
  "list_all (rec_of_stream S) rs \<Longrightarrow> stream_inv S (fold (add_record E) rs (new_flow key ss label, [], 0))"
  by (rule flow_stream.run_inv) (simp_all add: stream_inv_def run_of_stream_def new_flow_def)

definition demo_segment :: "nat \<Rightarrow> nat \<Rightarrow> bytes \<Rightarrow> rec" where
  "demo_segment n s data = demo_record\<lparr>r_pkt := n, r_seq := s, r_payload := data,
     r_payload_len := length data, r_captured := length data\<rparr>"

lemma demo_segment_ok: "n < 100 \<Longrightarrow> s < SEQ_MOD \<Longrightarrow> length data \<le> 1536 \<Longrightarrow> rec_ok (demo_segment n s data)"
  using demo_record_ok length_show_nat [of 2 n]
  by (simp add: demo_segment_def rec_ok_def) (simp add: demo_record_def)

theorem reassembly_sound_witness:
  "stream_inv (\<lambda>i. of_nat i) (fold (add_record demo_env)
     [demo_segment 1 130 [130, 131], demo_segment 2 131 [131, 132]] (new_flow (''c'', ''p'', 1, 2) True [], [], 0))"
proof (rule reassembly_sound)
  have "rec_ok (demo_segment 1 130 [130, 131])" "rec_ok (demo_segment 2 131 [131, 132])"
    by (rule demo_segment_ok; simp add: SEQ_MOD_def)+
  then show "list_all (rec_of_stream (\<lambda>i. of_nat i)) [demo_segment 1 130 [130, 131], demo_segment 2 131 [131, 132]]"
    by (simp add: rec_of_stream_def demo_segment_def demo_record_def SEQ_MOD_def)
qed

text \<open>C1. A stream of fewer than 128 binary messages, alone or behind a complete HTTP upgrade, that
  arrives in order and without loss is decoded to exactly those messages and nothing is left
  pending, no matter how it was cut into TCP segments; no error is reported.\<close>

theorem segmentation_irrelevant:
  assumes "in_order s rs" "s < SEQ_MOD" "concat (map r_payload rs) = full"
    and "upgrade_skip ss full = Some k" "drop k full = binary_stream ss msgs" "length full \<le> MAX_STREAM_BYTES"
    and "msgs_ok msgs" "length msgs < MAX_FRAMES_PER_FLOW"
  shows "\<exists>st. fold (add_record E) rs (new_flow key ss label, [], 0) = (st, [], length full)
    \<and> fl_run_buf st = full \<and> seg_inv E ss k msgs (Some (length msgs)) st"
proof (rule run_seg [OF _ assms(1,2,7,8,4-6)])
  have "full \<noteq> []"
  proof
    assume "full = []"
    then show False using assms(4) by (simp add: upgrade_skip_def parse_upgrade_prefix_def http_start_def)
  qed
  then show "seg_state E ss k msgs full s 0 (new_flow key ss label)"
    unfolding seg_state_def
    by (intro conjI exI [of _ None]) (simp_all add: seg_inv_def new_flow_def)
  show "full = fl_run_buf (new_flow key ss label) @ concat (map r_payload rs)" using assms(3) by (simp add: new_flow_def)
qed

theorem segmentation_irrelevant_witness:
  "\<exists>st. fold (add_record demo_env) [demo_segment 1 4294967294 [0x82], demo_segment 2 4294967295 [1, 0xC0, 0x82], demo_segment 3 2 [0]]
        (new_flow (''c'', ''p'', 1, 2) True [], [], 0) = (st, [], length [0x82, 1, 0xC0, 0x82, 0 :: byte])
    \<and> fl_run_buf st = [0x82, 1, 0xC0, 0x82, 0]
    \<and> seg_inv demo_env True 0 [([0, 0, 0, 0], [0xC0]), ([0, 0, 0, 0], [])] (Some (length [([0, 0, 0, 0 :: byte], [0xC0 :: byte]), ([0, 0, 0, 0], [])])) st"
proof (rule segmentation_irrelevant)
  have "rec_ok (demo_segment 1 4294967294 [0x82])" "rec_ok (demo_segment 2 4294967295 [1, 0xC0, 0x82])"
    "rec_ok (demo_segment 3 2 [0])" by (rule demo_segment_ok; simp add: SEQ_MOD_def)+
  then show "in_order 4294967294 [demo_segment 1 4294967294 [0x82], demo_segment 2 4294967295 [1, 0xC0, 0x82], demo_segment 3 2 [0]]"
    by (simp add: demo_segment_def demo_record_def SEQ_MOD_def MAX_PAYLOAD_PER_RECORD_def)
  show "upgrade_skip True [0x82, 1, 0xC0, 0x82, 0] = Some 0" by code_simp
  show "drop 0 [0x82, 1, 0xC0, 0x82, 0] = binary_stream True [([0, 0, 0, 0], [0xC0]), ([0, 0, 0, 0], [])]" by code_simp
qed (simp_all add: SEQ_MOD_def demo_segment_def MAX_STREAM_BYTES_def msgs_ok_def MAX_FRAME_BYTES_def MAX_FRAMES_PER_FLOW_def)

end
