(* ===== verification/Capture.thy ===== *)
theory Capture
  imports FlowState "HOL-Library.AList" "HOL-Library.Product_Lexorder" "HOL-Library.Multiset"
begin

text \<open>
  The whole decode of a capture: \<open>decode_capture_text\<close>, \<open>_error_report\<close> and the checks of \<open>main\<close>
  in \<open>tools/m4/decode_passive_records.py\<close>. The flows are a dict in insertion order (an association
  list). \<open>sha1\<close> is a parameter; so is what \<open>main\<close> reads from the file system.

  Shown: a malformed or duplicate record, or a limit that is exceeded, gives an error report without
  any decoded message; the stream budget is never exceeded, so a capture that passes the record checks
  is reported as ok; the counts of the report agree; the packet numbers, not the order of the lines,
  decide the result; and a capture printed in the documented format is read back completely.
\<close>

definition MAX_INPUT_BYTES :: nat where "MAX_INPUT_BYTES = 98304"
definition MAX_RECORDS :: nat where "MAX_RECORDS = 48"
definition MAX_PER_PORT :: nat where "MAX_PER_PORT = 16"

subsection \<open>Reports\<close>

record flow_report =
  fr_flow :: string
  fr_direction :: string
  fr_service_port :: nat
  fr_server_sender :: bool
  fr_pkt_numbers :: "nat list"
  fr_bytes_assembled :: nat
  fr_run_bytes_pending :: nat
  fr_gaps :: nat
  fr_retrans_dedup :: nat
  fr_overlap_extended :: nat
  fr_conflicts :: nat
  fr_truncated_skipped :: nat
  fr_oversize_skipped :: nat
  fr_suspended :: "string option"
  fr_start_boundary :: string
  fr_upgrade_status :: string
  fr_upgrade_header_bytes :: nat
  fr_frames :: "flow_frame list"
  fr_complete_messages :: nat
  fr_recognized_messages :: nat

record report =
  rp_status :: string
  rp_fail_closed :: bool
  rp_records_total :: nat
  rp_malformed_records :: nat
  rp_skipped_ack_only :: nat
  rp_skipped_unknown_endpoint :: nat
  rp_pkt_sequence_gaps :: nat
  rp_flow_count :: nat
  rp_flows :: "flow_report list"
  rp_complete_messages :: nat
  rp_recognized_messages :: nat
  rp_candidate_unverified_flows :: nat
  rp_errors :: "string list"
  rp_warnings :: "string list"

definition error_report :: "string list \<Rightarrow> string list \<Rightarrow> nat \<Rightarrow> nat \<Rightarrow> report" where
  "error_report errors warns n_records malformed =
     \<lparr>rp_status = ''error'', rp_fail_closed = True, rp_records_total = n_records, rp_malformed_records = malformed,
      rp_skipped_ack_only = 0, rp_skipped_unknown_endpoint = 0, rp_pkt_sequence_gaps = 0, rp_flow_count = 0,
      rp_flows = [], rp_complete_messages = 0, rp_recognized_messages = 0, rp_candidate_unverified_flows = 0,
      rp_errors = map (take 200) (take 32 errors), rp_warnings = map (take 200) (take 32 warns)\<rparr>"

subsection \<open>Reading the record lines\<close>

fun record_error_text :: "record_error \<Rightarrow> string" where
  "record_error_text Format_mismatch = ''malformed record line (format mismatch)''"
| "record_error_text Bad_numeric_field = ''malformed record line (bad numeric field)''"
| "record_error_text (Out_of_range pkt name) = ''pkt='' @ show_nat pkt @ '' field '' @ name @ '' out of range''"
| "record_error_text (Payload_hex_odd pkt) = ''pkt='' @ show_nat pkt @ '' payload_hex odd length''"
| "record_error_text (Captured_disagrees pkt captured n) = ''pkt='' @ show_nat pkt @ '' captured='' @ show_nat captured
     @ '' disagrees with payload_hex bytes='' @ show_nat n"
| "record_error_text (Captured_exceeds pkt) = ''pkt='' @ show_nat pkt @ '' captured exceeds payload_len''"
| "record_error_text (Truncated_disagrees pkt) = ''pkt='' @ show_nat pkt
     @ '' truncated flag disagrees with captured/payload_len counts''"
| "record_error_text (Byte_count_mismatch pkt) = ''pkt='' @ show_nat pkt @ '' payload byte count mismatch''"

definition error_line :: "nat \<Rightarrow> record_error \<Rightarrow> string" where
  "error_line lineno e = ''line '' @ show_nat lineno @ '': '' @ record_error_text e"

text \<open>The packet numbers seen so far are those of the records kept so far.\<close>

fun scan_lines :: "(nat \<times> string) list \<Rightarrow> rec list \<times> string list \<times> nat \<Rightarrow> rec list \<times> string list \<times> nat" where
  "scan_lines [] acc = acc"
| "scan_lines ((idx, raw) # lns) (records, errors, malformed) =
     (let s = strip_by is_space raw in
      if s = [] \<or> prefix ''#'' s then scan_lines lns (records, errors, malformed)
      else if \<not> prefix ''pkt='' s then scan_lines lns (records, errors, malformed)
      else if length records \<ge> MAX_RECORDS + 200 then
        (records, errors @ [''record count far exceeds bound; stopped parsing''], malformed)
      else case parse_record_line s idx of
        Inl e \<Rightarrow> scan_lines lns (records, errors @ [take 200 (error_line idx e)], malformed + 1)
      | Inr r \<Rightarrow>
          if r_pkt r \<in> set (map r_pkt records) then
            scan_lines lns (records, errors @ [''line '' @ show_nat idx @ '': duplicate pkt='' @ show_nat (r_pkt r)], malformed + 1)
          else scan_lines lns (records @ [r], errors, malformed))"

definition port_count :: "rec list \<Rightarrow> nat \<Rightarrow> nat" where
  "port_count records p = length (filter (\<lambda>r. r_sport r = p \<or> r_dport r = p) records)"

definition over_port :: "rec list \<Rightarrow> nat option" where
  "over_port records = find (\<lambda>p. port_count records p > MAX_PER_PORT) (sort SERVICE_PORTS)"

fun count_pkt_gaps :: "rec list \<Rightarrow> nat" where
  "count_pkt_gaps (a # b # rs) = (if r_pkt b > r_pkt a + 1 then 1 else 0) + count_pkt_gaps (b # rs)"
| "count_pkt_gaps _ = 0"

subsection \<open>Dispatching to flows\<close>

type_synonym flows = "(flow_key \<times> flow) list"

record dispatch =
  d_flows :: flows
  d_errors :: "string list"
  d_budget :: nat
  d_skipped_ack :: nat
  d_skipped_endpoint :: nat

definition flow_label :: "rec \<Rightarrow> string" where
  "flow_label r = r_src_hex r @ '':'' @ show_nat (r_sport r) @ ''->'' @ r_dst_hex r @ '':'' @ show_nat (r_dport r)"

definition rec_key :: "rec \<Rightarrow> flow_key" where
  "rec_key r = (r_src_hex r, r_dst_hex r, r_sport r, r_dport r)"

definition dispatch_record :: "env \<Rightarrow> rec \<Rightarrow> dispatch \<Rightarrow> dispatch" where
  "dispatch_record E r d =
     (if r_payload_len r = 0 then d\<lparr>d_skipped_ack := d_skipped_ack d + 1\<rparr>
      else if \<not> is_known_endpoint r then d\<lparr>d_skipped_endpoint := d_skipped_endpoint d + 1\<rparr>
      else let key = rec_key r;
          st = (case map_of (d_flows d) key of Some st \<Rightarrow> st | None \<Rightarrow> new_flow key (is_server_sender r) (flow_label r));
          (st', errors, budget) = add_record E r (st, d_errors d, d_budget d)
        in d\<lparr>d_flows := AList.update key st' (d_flows d), d_errors := errors, d_budget := budget\<rparr>)"

text \<open>The loop over the records; \<open>Inl\<close> is the return when the total budget is exceeded.\<close>

fun dispatch_records :: "env \<Rightarrow> rec list \<Rightarrow> dispatch \<Rightarrow> string list + dispatch" where
  "dispatch_records E [] d = Inr d"
| "dispatch_records E (r # rs) d =
     (let d' = dispatch_record E r d in
      if d_budget d' > MAX_STREAM_BYTES
      then Inl (d_errors d' @ [''total stream byte budget exceeded (> '' @ show_nat MAX_STREAM_BYTES @ '')''])
      else dispatch_records E rs d')"

subsection \<open>Pairing the handshakes\<close>

definition mismatch_flow :: "flow \<Rightarrow> flow" where
  "mismatch_flow st = st\<lparr>fl_handshake_status := ''accept_mismatch'',
     fl_suspended := Some ''http_upgrade_accept_mismatch'', fl_frames := []\<rparr>"

definition pair_flow :: "(bytes \<Rightarrow> bytes) \<Rightarrow> flow_key \<Rightarrow> flows \<Rightarrow> flows" where
  "pair_flow sha1 key fls =
     (case map_of fls key of None \<Rightarrow> fls | Some st \<Rightarrow>
      (case (fl_server_sender st, fl_upgrade st, key) of
         (True, Some up, (a, b, c, d)) \<Rightarrow>
           (let pk = (b, a, d, c) in
            case map_of fls pk of None \<Rightarrow> fls | Some peer \<Rightarrow>
             (case fl_upgrade peer of None \<Rightarrow> fls | Some pu \<Rightarrow>
                if match_upgrade sha1 pu up then
                  AList.update pk (peer\<lparr>fl_handshake_status := ''matched_passive_upgrade''\<rparr>)
                    (AList.update key (st\<lparr>fl_handshake_status := ''matched_passive_upgrade''\<rparr>) fls)
                else AList.update pk (mismatch_flow peer) (AList.update key (mismatch_flow st) fls)))
       | _ \<Rightarrow> fls))"

definition pair_flows :: "(bytes \<Rightarrow> bytes) \<Rightarrow> flows \<Rightarrow> flows" where
  "pair_flows sha1 fls = fold (pair_flow sha1) (map fst fls) fls"

subsection \<open>Reporting\<close>

definition final_boundary :: "flow \<Rightarrow> string" where
  "final_boundary st =
     (if fl_handshake_status st = ''matched_passive_upgrade'' then ''matched_passive_upgrade''
      else if fl_handshake_status st = ''accept_mismatch'' then ''invalid_http_upgrade''
      else case fl_start_boundary st of Some b \<Rightarrow> b
        | None \<Rightarrow> if fl_had_data st then ''candidate_unverified'' else ''no_data'')"

definition complete_msgs :: "flow \<Rightarrow> flow_frame list" where
  "complete_msgs st = filter (\<lambda>f. f_complete (ff_entry f) \<and> f_app_complete (ff_entry f) = Some True
     \<and> f_kind (ff_entry f) \<in> {''json'', ''msgpack''}) (fl_frames st)"

definition flow_report_of :: "flow \<Rightarrow> flow_report" where
  "flow_report_of st =
     (case fl_key st of (src, dst, sport, dport) \<Rightarrow>
      (let msgs = complete_msgs st in
       \<lparr>fr_flow = fl_label st,
        fr_direction = (if fl_server_sender st then ''server_to_client'' else ''client_to_server''),
        fr_service_port = (if src = CAM_HEX then sport else dport),
        fr_server_sender = fl_server_sender st,
        fr_pkt_numbers = take MAX_RECORDS (fl_pkt_numbers st),
        fr_bytes_assembled = length (fl_run_buf st) + fl_frame_offset_base st,
        fr_run_bytes_pending = length (fl_run_buf st) - fl_run_decoded st,
        fr_gaps = fl_gaps st, fr_retrans_dedup = fl_retrans_dedup st, fr_overlap_extended = fl_overlap_extended st,
        fr_conflicts = fl_conflicts st, fr_truncated_skipped = fl_truncated_skipped st,
        fr_oversize_skipped = fl_oversize_skipped st, fr_suspended = fl_suspended st,
        fr_start_boundary = final_boundary st, fr_upgrade_status = fl_handshake_status st,
        fr_upgrade_header_bytes = (case fl_upgrade st of Some u \<Rightarrow> up_consumed u | None \<Rightarrow> 0),
        fr_frames = take MAX_FRAMES_PER_FLOW (fl_frames st),
        fr_complete_messages = length msgs,
        fr_recognized_messages = length (filter ff_recognized msgs)\<rparr>))"

definition flow_warnings :: "flow \<Rightarrow> string list" where
  "flow_warnings st =
     (if fl_gaps st > 0 then [''flow '' @ fl_label st @ '': '' @ show_nat (fl_gaps st)
        @ '' gap/truncation flush(es); no decode across gaps''] else [])
     @ (if fl_conflicts st > 0 \<or> conflict_suspended st then [''flow '' @ fl_label st
        @ '': overlap conflict; flow suspended (fail-closed)''] else [])
     @ (if fl_truncated_skipped st > 0 then [''flow '' @ fl_label st @ '': '' @ show_nat (fl_truncated_skipped st)
        @ '' truncated capture(s) flushed, not decoded''] else [])
     @ (if fl_oversize_skipped st > 0 then [''flow '' @ fl_label st @ '': '' @ show_nat (fl_oversize_skipped st)
        @ '' oversize capture(s) flushed, not decoded''] else [])"

definition sorted_flows :: "flows \<Rightarrow> flow list" where
  "sorted_flows fls = map (\<lambda>k. the (map_of fls k)) (sort (map fst fls))"

definition final_report :: "nat \<Rightarrow> nat \<Rightarrow> nat \<Rightarrow> dispatch \<Rightarrow> flows \<Rightarrow> report" where
  "final_report n_records malformed pkt_gaps d fls =
     (let sts = sorted_flows fls; reports = map flow_report_of sts; errors = d_errors d in
      \<lparr>rp_status = (if errors = [] then ''ok'' else ''error''), rp_fail_closed = (errors \<noteq> []),
       rp_records_total = n_records, rp_malformed_records = malformed,
       rp_skipped_ack_only = d_skipped_ack d, rp_skipped_unknown_endpoint = d_skipped_endpoint d,
       rp_pkt_sequence_gaps = pkt_gaps, rp_flow_count = length reports, rp_flows = reports,
       rp_complete_messages = sum_list (map (\<lambda>st. length (complete_msgs st)) sts),
       rp_recognized_messages = sum_list (map (\<lambda>st. length (filter ff_recognized (complete_msgs st))) sts),
       rp_candidate_unverified_flows = length (filter (\<lambda>st. final_boundary st = ''candidate_unverified'') sts),
       rp_errors = take 32 errors, rp_warnings = take 32 (concat (map flow_warnings sts))\<rparr>)"

text \<open>From the accepted records to the report.\<close>

definition decode_records :: "env \<Rightarrow> (bytes \<Rightarrow> bytes) \<Rightarrow> rec list \<Rightarrow> nat \<Rightarrow> report" where
  "decode_records E sha1 records malformed =
     (if length records > MAX_RECORDS then
        error_report [''record limit exceeded: '' @ show_nat (length records) @ '' > '' @ show_nat MAX_RECORDS] []
          (length records) malformed
      else case over_port records of
        Some p \<Rightarrow> error_report [''per-port record limit exceeded: port '' @ show_nat p @ '' has ''
            @ show_nat (port_count records p) @ '' > '' @ show_nat MAX_PER_PORT] [] (length records) malformed
      | None \<Rightarrow>
          (let recs = sort_key r_pkt records;
               d0 = \<lparr>d_flows = [], d_errors = [], d_budget = 0, d_skipped_ack = 0, d_skipped_endpoint = 0\<rparr>
           in case dispatch_records E recs d0 of
             Inl errors \<Rightarrow> error_report errors [] (length recs) malformed
           | Inr d \<Rightarrow> final_report (length recs) malformed (count_pkt_gaps recs) d (pair_flows sha1 (d_flows d))))"

definition decode_capture_text :: "env \<Rightarrow> (bytes \<Rightarrow> bytes) \<Rightarrow> string \<Rightarrow> report" where
  "decode_capture_text E sha1 text =
     (if utf8_length text > MAX_INPUT_BYTES then
        error_report [''input too large: over '' @ show_nat MAX_INPUT_BYTES @ '' bytes (fail-closed)''] [] 0 0
      else let lns = splitlines text in
        if length lns > 10000 then error_report [''input has too many lines''] [] 0 0
        else case scan_lines (enumerate 1 lns) ([], [], 0) of (records, errors, malformed) \<Rightarrow>
          if errors \<noteq> [] then error_report errors [] (length records) malformed
          else decode_records E sha1 records malformed)"

text \<open>\<open>main\<close>: the size \<open>stat\<close> reports (\<open>None\<close> when the file cannot be opened) and the text, if it is
  valid UTF-8; the report and the exit code.\<close>

definition main_report :: "env \<Rightarrow> (bytes \<Rightarrow> bytes) \<Rightarrow> nat option \<Rightarrow> string option \<Rightarrow> report \<times> nat" where
  "main_report E sha1 file_size text =
     (case file_size of
        None \<Rightarrow> (error_report [''cannot open capture file''] [] 0 0, 2)
      | Some n \<Rightarrow>
          if n > MAX_INPUT_BYTES then
            (error_report [''input too large: '' @ show_nat n @ '' > '' @ show_nat MAX_INPUT_BYTES @ '' (fail-closed)''] [] 0 0, 2)
          else case text of
            None \<Rightarrow> (error_report [''capture file is not valid UTF-8 text (fail-closed)''] [] 0 0, 2)
          | Some t \<Rightarrow>
              if utf8_length t > MAX_INPUT_BYTES then
                (error_report [''input too large after decode (fail-closed)''] [] 0 0, 2)
              else let rep = decode_capture_text E sha1 t in (rep, if rp_status rep = ''ok'' then 0 else 1))"

subsection \<open>Malformed input\<close>

lemma error_report_sel [simp]:
  "rp_status (error_report es ws n m) = ''error''" "rp_flows (error_report es ws n m) = []"
  "rp_complete_messages (error_report es ws n m) = 0" "rp_recognized_messages (error_report es ws n m) = 0"
  "rp_fail_closed (error_report es ws n m)" "rp_errors (error_report es ws n m) = map (take 200) (take 32 es)"
  "rp_flow_count (error_report es ws n m) = 0"
  by (simp_all add: error_report_def)

text \<open>A report that says nothing about the content of the capture.\<close>

definition rejected :: "report \<Rightarrow> bool" where
  "rejected r \<longleftrightarrow> rp_status r = ''error'' \<and> rp_fail_closed r \<and> rp_flows r = [] \<and> rp_complete_messages r = 0
     \<and> rp_recognized_messages r = 0 \<and> rp_errors r \<noteq> []"

lemma error_report_rejected: "es \<noteq> [] \<Longrightarrow> rejected (error_report es ws n m)"
  by (simp add: rejected_def)

lemma scan_lines_errors: "scan_lines lns (rs, es, m) = (rs', es', m') \<Longrightarrow> \<exists>ds. es' = es @ ds"
proof (induction lns "(rs, es, m)" arbitrary: rs es m rule: scan_lines.induct)
  case (2 idx raw lns records errors malformed)
  note ih = "2.hyps" [OF refl]
  from "2.prems" ih show ?case
    by (auto simp: Let_def split: if_splits sum.splits)
qed auto

definition bad_line :: "nat \<times> string \<Rightarrow> bool" where
  "bad_line numbered = (let s = strip_by is_space (snd numbered) in
     prefix ''pkt='' s \<and> (case parse_record_line s (fst numbered) of Inl _ \<Rightarrow> True | Inr _ \<Rightarrow> False))"

lemma scan_lines_bad:
  assumes "list_ex bad_line lns"
  shows "fst (snd (scan_lines lns (rs, es, m))) \<noteq> []"
  using assms
proof (induction lns "(rs, es, m)" arbitrary: rs es m rule: scan_lines.induct)
  case (2 idx raw lns records errors malformed)
  note ih = "2.hyps" [OF refl]
  let ?s = "strip_by is_space raw"
  show ?case
  proof (cases "bad_line (idx, raw)")
    case True
    then obtain e where e: "prefix ''pkt='' ?s" "parse_record_line ?s idx = Inl e"
      by (auto simp: bad_line_def Let_def split: sum.splits)
    moreover have "fst (snd (scan_lines lns (records, errors @ [x], k))) \<noteq> []" for x k
      using scan_lines_errors [of lns records "errors @ [x]" k] by (metis append_is_Nil_conv not_Cons_self2 prod.collapse)
    moreover have "\<not> prefix ''#'' ?s" "?s \<noteq> []" using e(1) by (cases ?s; auto)+
    ultimately show ?thesis by (simp add: Let_def)
  next
    case False
    then have "list_ex bad_line lns" using "2.prems" by simp
    with ih show ?thesis by (auto simp: Let_def split: sum.split)
  qed
qed simp

subsection \<open>The stream budget is never exceeded\<close>

lemma add_record_budget:
  assumes "n + MAX_PAYLOAD_PER_RECORD \<le> MAX_STREAM_BYTES" and ok: "rec_ok r"
  shows "\<exists>st' n'. add_record E r (st, e, n) = (st', e, n') \<and> n' \<le> n + MAX_PAYLOAD_PER_RECORD"
proof (cases "conflict_suspended st \<or> r_truncated r \<noteq> 0 \<or> r_payload_len r > MAX_PAYLOAD_PER_RECORD \<or> r_payload r = []")
  case True
  then show ?thesis by (auto simp: add_record_def)
next
  case False
  then have len: "length (r_payload r) \<le> MAX_PAYLOAD_PER_RECORD" using ok by (simp add: rec_ok_def)
  then have bud: "\<not> n + length (r_payload r) > MAX_STREAM_BYTES" using assms(1) by simp
  let ?st = "st\<lparr>fl_had_data := True, fl_pkt_numbers := fl_pkt_numbers st @ [r_pkt r]\<rparr>"
  have ar: "add_record E r (st, e, n) = add_data E r (?st, e, n)" using False by (simp add: add_record_def)
  have fw: "\<exists>st' n'. add_forward E r (s, e, n) = (st', e, n') \<and> n' \<le> n + MAX_PAYLOAD_PER_RECORD" for s
    using bud len by (simp add: add_forward_def Let_def)
  have bw: "\<exists>st' n'. add_behind E r b rn (s, e, n) = (st', e, n') \<and> n' \<le> n + MAX_PAYLOAD_PER_RECORD" for b rn s
    using bud len by (auto simp: add_behind_def Let_def)
  show ?thesis
    using bud len fw bw unfolding ar by (auto simp: add_data_def Let_def split: option.split)
qed

lemma dispatch_record_budget:
  assumes "d_budget d + MAX_PAYLOAD_PER_RECORD \<le> MAX_STREAM_BYTES" "rec_ok r"
  shows "d_errors (dispatch_record E r d) = d_errors d"
    and "d_budget (dispatch_record E r d) \<le> d_budget d + MAX_PAYLOAD_PER_RECORD"
proof -
  have "d_errors (dispatch_record E r d) = d_errors d \<and> d_budget (dispatch_record E r d) \<le> d_budget d + MAX_PAYLOAD_PER_RECORD"
  proof (cases "r_payload_len r = 0 \<or> \<not> is_known_endpoint r")
    case True
    then show ?thesis by (auto simp: dispatch_record_def)
  next
    case False
    define st where "st = (case map_of (d_flows d) (rec_key r) of Some st \<Rightarrow> st
        | None \<Rightarrow> new_flow (rec_key r) (is_server_sender r) (flow_label r))"
    from add_record_budget [OF assms, of E st "d_errors d"] obtain st' n' where
      a: "add_record E r (st, d_errors d, d_budget d) = (st', d_errors d, n')" "n' \<le> d_budget d + MAX_PAYLOAD_PER_RECORD" by blast
    with False show ?thesis by (simp add: dispatch_record_def Let_def st_def [symmetric])
  qed
  then show "d_errors (dispatch_record E r d) = d_errors d"
    "d_budget (dispatch_record E r d) \<le> d_budget d + MAX_PAYLOAD_PER_RECORD" by blast+
qed

lemma dispatch_records_budget:
  assumes "d_budget d + length rs * MAX_PAYLOAD_PER_RECORD \<le> MAX_STREAM_BYTES" "list_all rec_ok rs"
  shows "dispatch_records E rs d = Inr (fold (dispatch_record E) rs d)
    \<and> d_errors (fold (dispatch_record E) rs d) = d_errors d"
  using assms
proof (induction rs arbitrary: d)
  case (Cons r rs)
  have "d_budget d + MAX_PAYLOAD_PER_RECORD \<le> MAX_STREAM_BYTES" "rec_ok r" using Cons.prems by simp_all
  note b = dispatch_record_budget [OF this, of E]
  have "d_budget (dispatch_record E r d) + length rs * MAX_PAYLOAD_PER_RECORD \<le> MAX_STREAM_BYTES"
    using b(2) Cons.prems(1) by simp
  moreover from this have "\<not> d_budget (dispatch_record E r d) > MAX_STREAM_BYTES" by linarith
  ultimately show ?case using Cons b by (simp add: Let_def)
qed simp

subsection \<open>Accepted captures\<close>

lemma scan_lines_records:
  assumes "scan_lines lns (rs, es, m) = (rs', es', m')" "list_all rec_ok rs" "distinct (map r_pkt rs)"
  shows "list_all rec_ok rs' \<and> distinct (map r_pkt rs')"
  using assms
proof (induction lns "(rs, es, m)" arbitrary: rs es m rule: scan_lines.induct)
  case (2 idx raw lns records errors malformed)
  note ih = "2.hyps" [OF refl]
  let ?s = "strip_by is_space raw"
  show ?case
  proof (cases "parse_record_line ?s idx")
    case (Inl e)
    with "2.prems" ih show ?thesis by (auto simp: Let_def split: if_splits)
  next
    case (Inr r)
    then have "rec_ok r" using parse_record_line_ok by blast
    with Inr "2.prems" ih show ?thesis by (auto simp: Let_def split: if_splits)
  qed
qed simp

lemma list_all_sort_key: "list_all P xs \<Longrightarrow> list_all P (sort_key f xs)"
  by (simp add: list_all_iff)

lemma decode_records_cases:
  assumes "list_all rec_ok records"
  shows "rejected (decode_records E sha1 records m)
    \<or> (\<exists>d. d_errors d = [] \<and> d = fold (dispatch_record E) (sort_key r_pkt records)
            \<lparr>d_flows = [], d_errors = [], d_budget = 0, d_skipped_ack = 0, d_skipped_endpoint = 0\<rparr>
         \<and> length records \<le> MAX_RECORDS
         \<and> decode_records E sha1 records m = final_report (length records) m (count_pkt_gaps (sort_key r_pkt records)) d
             (pair_flows sha1 (d_flows d)))"
proof (cases "length records > MAX_RECORDS \<or> over_port records \<noteq> None")
  case True
  then show ?thesis by (auto simp: decode_records_def intro: error_report_rejected split: option.split)
next
  case False
  let ?d0 = "\<lparr>d_flows = [], d_errors = [], d_budget = 0, d_skipped_ack = 0, d_skipped_endpoint = 0\<rparr>"
  have "length records * 1536 \<le> 98304" using False by (simp add: MAX_RECORDS_def)
  then have "d_budget ?d0 + length (sort_key r_pkt records) * MAX_PAYLOAD_PER_RECORD \<le> MAX_STREAM_BYTES"
    by (simp add: MAX_STREAM_BYTES_def MAX_PAYLOAD_PER_RECORD_def)
  from dispatch_records_budget [OF this list_all_sort_key [OF assms], of E] False show ?thesis
    by (auto simp: decode_records_def Let_def)
qed

text \<open>A report is consistent: errors and status agree, and the totals are the sums over the flows.\<close>

definition report_ok :: "report \<Rightarrow> bool" where
  "report_ok r \<longleftrightarrow> rp_flow_count r = length (rp_flows r)
     \<and> rp_complete_messages r = sum_list (map fr_complete_messages (rp_flows r))
     \<and> rp_recognized_messages r = sum_list (map fr_recognized_messages (rp_flows r))
     \<and> rp_recognized_messages r \<le> rp_complete_messages r
     \<and> rp_candidate_unverified_flows r = length (filter (\<lambda>f. fr_start_boundary f = ''candidate_unverified'') (rp_flows r))
     \<and> (rp_status r = ''ok'' \<and> \<not> rp_fail_closed r \<and> rp_errors r = [] \<and> rp_records_total r \<le> MAX_RECORDS \<or> rejected r)"

lemma flow_report_sel [simp]:
  "fr_complete_messages (flow_report_of st) = length (complete_msgs st)"
  "fr_recognized_messages (flow_report_of st) = length (filter ff_recognized (complete_msgs st))"
  "fr_start_boundary (flow_report_of st) = final_boundary st"
  "fr_frames (flow_report_of st) = take MAX_FRAMES_PER_FLOW (fl_frames st)"
  by (simp_all add: flow_report_of_def Let_def split: prod.split)

lemma sum_list_le: "(\<And>x. x \<in> set xs \<Longrightarrow> (f x :: nat) \<le> g x) \<Longrightarrow> sum_list (map f xs) \<le> sum_list (map g xs)"
  by (rule sum_list_mono)

lemma final_report_ok: "d_errors d = [] \<Longrightarrow> n \<le> MAX_RECORDS \<Longrightarrow> report_ok (final_report n m g d fls)"
proof -
  assume "d_errors d = []" "n \<le> MAX_RECORDS"
  moreover have "sum_list (map (\<lambda>st. length (filter ff_recognized (complete_msgs st))) sts)
      \<le> sum_list (map (\<lambda>st. length (complete_msgs st)) sts)" for sts
    by (rule sum_list_le) simp
  ultimately show ?thesis
    by (simp add: report_ok_def final_report_def Let_def filter_map comp_def)
qed

lemma rejected_ok: "es \<noteq> [] \<Longrightarrow> report_ok (error_report es ws n m)"
  using error_report_rejected [of es ws n m] by (simp add: report_ok_def) (simp add: error_report_def)

lemma decode_records_ok: "list_all rec_ok records \<Longrightarrow> report_ok (decode_records E sha1 records m)"
proof -
  assume a: "list_all rec_ok records"
  show ?thesis
  proof (cases "length records > MAX_RECORDS \<or> over_port records \<noteq> None")
    case True
    then show ?thesis by (auto simp: decode_records_def intro: rejected_ok split: option.split)
  next
    case False
    from decode_records_cases [OF a, of E sha1 m] final_report_ok
    have "report_ok (decode_records E sha1 records m) \<or> rejected (decode_records E sha1 records m)" by metis
    moreover have "\<not> rejected (decode_records E sha1 records m)"
    proof -
      let ?d0 = "\<lparr>d_flows = [], d_errors = [], d_budget = 0, d_skipped_ack = 0, d_skipped_endpoint = 0\<rparr>"
      have "length records * 1536 \<le> 98304" using False by (simp add: MAX_RECORDS_def)
      then have "d_budget ?d0 + length (sort_key r_pkt records) * MAX_PAYLOAD_PER_RECORD \<le> MAX_STREAM_BYTES"
        by (simp add: MAX_STREAM_BYTES_def MAX_PAYLOAD_PER_RECORD_def)
      from dispatch_records_budget [OF this list_all_sort_key [OF a], of E] False show ?thesis
        by (auto simp: decode_records_def Let_def rejected_def final_report_def)
    qed
    ultimately show ?thesis by blast
  qed
qed

subsection \<open>A printed capture is read back\<close>

definition print_capture :: "rec list \<Rightarrow> string" where
  "print_capture rs = concat (map (\<lambda>r. format_record r @ [CHR 0x0A]) rs)"

lemma linebreak_space: "is_linebreak c \<Longrightarrow> is_space c"
  by (auto simp: is_linebreak_def is_space_def)

lemma splitlines_aux_line:
  "list_all (\<lambda>c. \<not> is_linebreak c) xs \<Longrightarrow> splitlines_aux False acc (xs @ CHR 0x0A # ys) = (rev acc @ xs) # splitlines_aux False [] ys"
proof (induction xs arbitrary: acc)
  case Nil
  then show ?case by (simp add: is_linebreak_def code_def)
qed simp

lemma splitlines_lines:
  "list_all (list_all (\<lambda>c. \<not> is_linebreak c)) lns \<Longrightarrow> splitlines (concat (map (\<lambda>l. l @ [CHR 0x0A]) lns)) = lns"
  unfolding splitlines_def by (induction lns) (simp_all add: splitlines_aux_line)

lemma fits_no_break: "fits m g \<Longrightarrow> list_all (\<lambda>c. \<not> is_linebreak c) g"
proof (cases m)
  case Bit
  then show "fits m g \<Longrightarrow> list_all (\<lambda>c. \<not> is_linebreak c) g" by (auto simp: is_linebreak_def code_def)
qed (use class_facts linebreak_space in \<open>auto simp: list_all_iff\<close>)

lemma print_fields_no_break:
  "list_all2 (\<lambda>(name, m) g. fits m g) fs gs \<Longrightarrow> list_all (\<lambda>(name, m). list_all (\<lambda>c. \<not> is_linebreak c) name) fs
    \<Longrightarrow> list_all (\<lambda>c. \<not> is_linebreak c) (print_fields fs gs)"
proof (induction fs gs rule: list_all2_induct)
  case (Cons f fs g gs)
  obtain name m where f: "f = (name, m)" by force
  have sp: "\<not> is_linebreak CHR '' ''" by (simp add: is_linebreak_def code_def)
  have g: "list_all (\<lambda>c. \<not> is_linebreak c) g" using Cons.hyps(1) f fits_no_break by simp
  show ?case
  proof (cases "fs = []")
    case True
    then have "gs = []" using Cons.hyps(2) by simp
    then show ?thesis using True f g Cons.prems by simp
  next
    case False
    then show ?thesis using f g sp Cons by (simp add: print_fields_Cons)
  qed
qed simp

lemma format_record_no_break: "rec_ok r \<Longrightarrow> list_all (\<lambda>c. \<not> is_linebreak c) (format_record r)"
proof -
  assume "rec_ok r"
  moreover have "list_all (\<lambda>(name, m). list_all (\<lambda>c. \<not> is_linebreak c) name) RECORD_RE" by code_simp
  ultimately show ?thesis unfolding format_record_def by (intro print_fields_no_break record_groups_fit)
qed

lemma format_record_start: "prefix ''pkt='' (format_record r)"
  by (simp add: format_record_def RECORD_RE_def record_groups_def)

lemma scan_printed:
  assumes "list_all rec_ok rs" "distinct (map r_pkt (pre @ rs))" "map r_lineno rs = [k..<k + length rs]"
    "length pre + length rs \<le> MAX_RECORDS + 200"
  shows "scan_lines (enumerate k (map format_record rs)) (pre, [], 0) = (pre @ rs, [], 0)"
  using assms
proof (induction rs arbitrary: k pre)
  case (Cons r rs)
  have ln: "r_lineno r = k" "map r_lineno rs = [Suc k..<Suc k + length rs]"
  proof -
    have "[k..<k + length (r # rs)] = k # [Suc k..<Suc k + length rs]" by (simp del: upt_Suc add: upt_conv_Cons)
    with Cons.prems(3) show "r_lineno r = k" "map r_lineno rs = [Suc k..<Suc k + length rs]" by simp_all
  qed
  have ok: "rec_ok r" using Cons.prems(1) by simp
  have p: "parse_record_line (format_record r) k = Inr r" using parse_format_record [OF ok] ln(1) by simp
  have h: "\<not> prefix ''#'' (format_record r)" "format_record r \<noteq> []" using format_record_start [of r] by (auto simp: prefix_def)
  have "scan_lines (enumerate (Suc k) (map format_record rs)) (pre @ [r], [], 0) = ((pre @ [r]) @ rs, [], 0)"
    using Cons.prems ln by (intro Cons.IH) auto
  then show ?case
    using Cons.prems h p format_record_strip [OF ok] format_record_start [of r] by (simp add: Let_def)
qed simp

lemma decode_printed:
  assumes "list_all rec_ok rs" "distinct (map r_pkt rs)" "map r_lineno rs = [1..<1 + length rs]" "length rs \<le> MAX_RECORDS"
    and "utf8_length (print_capture rs) \<le> MAX_INPUT_BYTES"
  shows "decode_capture_text E sha1 (print_capture rs) = decode_records E sha1 rs 0"
proof -
  have "list_all (list_all (\<lambda>c. \<not> is_linebreak c)) (map format_record rs)"
    using assms(1) format_record_no_break by (induction rs) auto
  from splitlines_lines [OF this] have l: "splitlines (print_capture rs) = map format_record rs"
    by (simp add: print_capture_def comp_def)
  have "scan_lines (enumerate 1 (map format_record rs)) ([], [], 0) = ([] @ rs, [], 0)"
    using assms by (intro scan_printed) simp_all
  then show ?thesis using assms(4,5) l by (simp add: decode_capture_text_def Let_def MAX_RECORDS_def)
qed

subsection \<open>The order of the records\<close>

lemma port_count_perm: "mset rs = mset rs' \<Longrightarrow> port_count rs p = port_count rs' p"
  unfolding port_count_def by (metis mset_filter size_mset)

lemma decode_records_perm:
  assumes "mset rs = mset rs'" "distinct (map r_pkt rs)"
  shows "decode_records E sha1 rs m = decode_records E sha1 rs' m"
proof -
  have len: "length rs = length rs'" using assms(1) by (metis size_mset)
  have op: "over_port rs = over_port rs'" unfolding over_port_def using port_count_perm [OF assms(1)] by simp
  have "set rs = set rs'" using assms(1) by (metis set_mset_mset)
  have "inj_on r_pkt (set rs)" using assms(2) by (simp add: distinct_map)
  then have so: "sort_key r_pkt rs = sort_key r_pkt rs'"
    using assms(1) by (intro sort_key_inj_key_eq) simp_all
  have pc: "port_count rs = port_count rs'" using port_count_perm [OF assms(1)] by blast
  show ?thesis unfolding decode_records_def len op so pc by simp
qed

subsection \<open>Properties\<close>

text \<open>C3. A capture with a malformed record line is rejected as a whole: the report is an error, it
  names at least one error, and it contains no flow and no message, whatever the other lines
  are.\<close>

theorem malformed_record_rejected:
  "list_ex bad_line (enumerate 1 (splitlines text)) \<Longrightarrow> rejected (decode_capture_text E sha1 text)"
  using scan_lines_bad [of "enumerate 1 (splitlines text)" "[]" "[]" 0]
  by (auto simp: decode_capture_text_def Let_def intro: error_report_rejected split: prod.split)

theorem malformed_record_rejected_witness:
  "rejected (decode_capture_text demo_env id ''# header\<newline>pkt=1 len=60'')"
proof (rule malformed_record_rejected)
  show "list_ex bad_line (enumerate 1 (splitlines ''# header\<newline>pkt=1 len=60''))" by code_simp
qed

text \<open>Every report is consistent: the totals are the sums over the flows, recognised messages are
  complete messages, and either the status is ok without any error and at most 48 records, or
  nothing of the capture is reported. In particular the stream budget error cannot occur.\<close>

theorem report_consistent:
  "report_ok (decode_capture_text E sha1 text)"
proof -
  obtain rs es m where sc: "scan_lines (enumerate 1 (splitlines text)) ([], [], 0) = (rs, es, m)" by (rule prod_cases3)
  have "list_all rec_ok rs" using scan_lines_records [OF sc] by simp
  then show ?thesis
    using sc decode_records_ok by (auto simp: decode_capture_text_def Let_def intro: rejected_ok)
qed

text \<open>The result depends on the packet numbers, not on the order in which the records stand in the
  capture.\<close>

theorem record_order_irrelevant:
  "mset rs = mset rs' \<Longrightarrow> distinct (map r_pkt rs) \<Longrightarrow> decode_records E sha1 rs m = decode_records E sha1 rs' m"
  by (rule decode_records_perm)

theorem record_order_irrelevant_witness:
  "decode_records demo_env id [demo_segment 1 5 [0x82, 0], demo_segment 2 7 [0x89, 0]] 0
    = decode_records demo_env id [demo_segment 2 7 [0x89, 0], demo_segment 1 5 [0x82, 0]] 0"
  by (rule record_order_irrelevant) (simp_all add: demo_segment_def add_mset_commute)

text \<open>C6. A capture file printed in the documented format, with at most 48 well-formed records with
  distinct packet numbers, is read back completely: the decode of the text is the decode of the
  records.\<close>

theorem capture_roundtrip:
  assumes "list_all rec_ok rs" "distinct (map r_pkt rs)" "map r_lineno rs = [1..<1 + length rs]" "length rs \<le> MAX_RECORDS"
    and "utf8_length (print_capture rs) \<le> MAX_INPUT_BYTES"
  shows "decode_capture_text E sha1 (print_capture rs) = decode_records E sha1 rs 0"
  using assms by (rule decode_printed)

lemma utf8_length_le: "utf8_length t \<le> 2 * length t"
  unfolding utf8_length_def by (induction t) auto

theorem capture_roundtrip_witness:
  "decode_capture_text demo_env id (print_capture [demo_record\<lparr>r_lineno := 1\<rparr>])
    = decode_records demo_env id [demo_record\<lparr>r_lineno := 1\<rparr>] 0"
proof (rule capture_roundtrip)
  show ok: "list_all rec_ok [demo_record\<lparr>r_lineno := 1\<rparr>]" using demo_record_ok by (simp add: rec_ok_def)
  have "utf8_length (print_capture [demo_record\<lparr>r_lineno := 1\<rparr>]) \<le> 2 * length (print_capture [demo_record\<lparr>r_lineno := 1\<rparr>])"
    by (rule utf8_length_le)
  also have "length (print_capture [demo_record\<lparr>r_lineno := 1\<rparr>]) \<le> 400"
  proof -
    have s: "length (show_nat n) \<le> 10" if "n < 10 ^ 10" for n using length_show_nat [of 10 n] that by simp
    show ?thesis
      using s [of 7] s [of 62] s [of 24012] s [of 50123] s [of 4294967290] s [of 17] s [of 3] s [of 0]
      by (simp add: print_capture_def format_record_def RECORD_RE_def record_groups_def demo_record_def hex_byte_def)
  qed
  finally show "utf8_length (print_capture [demo_record\<lparr>r_lineno := 1\<rparr>]) \<le> MAX_INPUT_BYTES"
    by (simp add: MAX_INPUT_BYTES_def)
qed (simp_all add: MAX_RECORDS_def)

end
