(* ===== verification/ReplayGuard.thy ===== *)
theory ReplayGuard
  imports PyValue "HOL-Library.Multiset"
begin

text \<open>
  The replay guard \<open>tools/m4/replay_guard.py\<close>: which planned messages may be replayed. The list of
  allowed uuids comes from \<open>m4_policy.json\<close> (the parameter \<open>allow\<close>; \<open>POLICY_ALLOW\<close> is its content)
  and \<open>json.loads\<close> is a parameter. A candidate is a dict with the optional entries
  \<open>uuid\<close>, \<open>key\<close> and \<open>payload\<close>.

  Shown: the guard splits the candidates without losing, adding or reordering any; a candidate
  passes exactly when its uuid is allowed and its payload, if there is one, is a JSON object with
  documented keys only and no denied word; semantic keys never pass.
\<close>

record candidate =
  c_uuid :: "string option"
  c_key :: "string option"
  c_payload :: "string option"

definition POLICY_ALLOW :: "string list" where
  "POLICY_ALLOW = [''DispBrightSet'', ''StorageStatus'', ''ScreenModeSet'', ''ClientConn'']"

definition SHAPES :: "(string \<times> string list) list" where
  "SHAPES =
    [(''DispBrightSet'', [''type'', ''uuid'', ''brightness'']),
     (''StorageStatus'', [''type'', ''uuid'', ''status'']),
     (''ScreenModeSet'', [''type'', ''uuid'', ''theme'']),
     (''ClientConn'', [''type'', ''uuid'', ''connected''])]"

definition DENIED_SUBSTRINGS :: "string list" where
  "DENIED_SUBSTRINGS =
    [''vehicleWarning'', ''vehicleMeasure'', ''pedestrians'', ''laneWarningRes'', ''AdasStatus'',
     ''HeavyCalibStatus'', ''GPSSpeed'', ''GPSLevel'', ''RecordVoice'', ''warning_level'', ''warn'', ''crucial'',
     ''danger'', ''deviat'', ''fcw'', ''ttc'', ''dist'', ''headway'', ''lane'', ''ped'', ''bike'', ''frame_id'', ''is_key'',
     ''speed'']"

definition classify_json_uuid :: "string list \<Rightarrow> string \<Rightarrow> string" where
  "classify_json_uuid allow uuid = (if uuid \<in> set allow then ''ALLOW-L2'' else ''DENY'')"

definition payload_shape_ok :: "(string \<Rightarrow> pyval option) \<Rightarrow> string \<Rightarrow> string \<Rightarrow> bool" where
  "payload_shape_ok json_loads uuid payload =
     (case map_of SHAPES uuid of
        None \<Rightarrow> False
      | Some want \<Rightarrow>
          (case json_loads payload of
             Some (PDict obj) \<Rightarrow>
               if list_ex (\<lambda>k. \<not> str_in k want) (map fst obj) then False
               else if list_ex (\<lambda>d. contains d payload) DENIED_SUBSTRINGS then False
               else True
           | _ \<Rightarrow> False))"

definition classify_inner_key :: "string \<Rightarrow> string" where
  "classify_inner_key key = ''DENY''"

definition verdict :: "string list \<Rightarrow> (string \<Rightarrow> pyval option) \<Rightarrow> candidate \<Rightarrow> string" where
  "verdict allow json_loads c =
     (let uuid = (case c_uuid c of Some u \<Rightarrow> u | None \<Rightarrow> []); key = (case c_key c of Some k \<Rightarrow> k | None \<Rightarrow> []) in
      if uuid \<noteq> [] then
        (case c_payload c of
           Some payload \<Rightarrow>
             if classify_json_uuid allow uuid = ''ALLOW-L2''
             then (if payload_shape_ok json_loads uuid payload then ''ALLOW-L2'' else ''DENY'')
             else classify_json_uuid allow uuid
         | None \<Rightarrow> classify_json_uuid allow uuid)
      else classify_inner_key key)"

fun guard_loop :: "string list \<Rightarrow> (string \<Rightarrow> pyval option) \<Rightarrow> candidate list \<Rightarrow>
    candidate list \<times> candidate list \<Rightarrow> candidate list \<times> candidate list" where
  "guard_loop allow json_loads [] acc = acc"
| "guard_loop allow json_loads (c # cs) (ok, blocked) =
     guard_loop allow json_loads cs
       (if verdict allow json_loads c = ''ALLOW-L2'' then (ok @ [c], blocked) else (ok, blocked @ [c]))"

definition guard_replay :: "string list \<Rightarrow> (string \<Rightarrow> pyval option) \<Rightarrow> candidate list \<Rightarrow> candidate list \<times> candidate list" where
  "guard_replay allow json_loads candidates = guard_loop allow json_loads candidates ([], [])"

subsection \<open>What may pass\<close>

text \<open>The rule the guard enforces, written out.\<close>

definition may_replay :: "string list \<Rightarrow> (string \<Rightarrow> pyval option) \<Rightarrow> candidate \<Rightarrow> bool" where
  "may_replay allow json_loads c \<longleftrightarrow>
     (\<exists>u. c_uuid c = Some u \<and> u \<noteq> [] \<and> u \<in> set allow
       \<and> (case c_payload c of None \<Rightarrow> True | Some p \<Rightarrow>
            (\<exists>want obj. map_of SHAPES u = Some want \<and> json_loads p = Some (PDict obj)
              \<and> set (map fst obj) \<subseteq> PStr ` set want \<and> (\<forall>d \<in> set DENIED_SUBSTRINGS. \<not> contains d p))))"

lemma payload_shape_ok_iff:
  "payload_shape_ok jl u p \<longleftrightarrow> (\<exists>want obj. map_of SHAPES u = Some want \<and> jl p = Some (PDict obj)
     \<and> set (map fst obj) \<subseteq> PStr ` set want \<and> (\<forall>d \<in> set DENIED_SUBSTRINGS. \<not> contains d p))"
proof -
  have keys: "list_ex (\<lambda>k. \<not> str_in k want) ks \<longleftrightarrow> \<not> set ks \<subseteq> PStr ` set want" for want ks
    by (auto simp: list_ex_iff str_in_iff)
  show ?thesis
    unfolding payload_shape_ok_def keys by (auto simp: list_ex_iff split: option.split pyval.split)
qed

lemma verdict_iff: "verdict allow jl c = ''ALLOW-L2'' \<longleftrightarrow> may_replay allow jl c"
  unfolding verdict_def may_replay_def Let_def payload_shape_ok_iff [symmetric]
  by (auto simp: classify_json_uuid_def classify_inner_key_def split: option.split)

lemma guard_loop_filter:
  "guard_loop allow jl cs (ok, bl) = (ok @ filter (may_replay allow jl) cs, bl @ filter (\<lambda>c. \<not> may_replay allow jl c) cs)"
  by (induction cs arbitrary: ok bl) (simp_all add: verdict_iff)

subsection \<open>Properties\<close>

text \<open>The guard splits the candidates, in order and without loss, into those that satisfy the
  replay rule (an allowed uuid and, when a payload is given, only documented keys and no denied
  word in it) and the others; a candidate known only by a semantic key is always blocked.\<close>

theorem guard_replay_spec:
  "guard_replay allow jl cs = (filter (may_replay allow jl) cs, filter (\<lambda>c. \<not> may_replay allow jl c) cs)
    \<and> mset (fst (guard_replay allow jl cs)) + mset (snd (guard_replay allow jl cs)) = mset cs
    \<and> (c_uuid c = None \<longrightarrow> c \<notin> set (fst (guard_replay allow jl cs)))"
proof -
  have "c_uuid c = None \<Longrightarrow> \<not> may_replay allow jl c" by (simp add: may_replay_def)
  then show ?thesis
    unfolding guard_replay_def guard_loop_filter by (simp add: multiset_partition [symmetric])
qed

theorem guard_replay_spec_witness:
  "guard_replay POLICY_ALLOW (\<lambda>_. None)
      [\<lparr>c_uuid = Some ''DispBrightSet'', c_key = None, c_payload = None\<rparr>,
       \<lparr>c_uuid = None, c_key = Some ''vehicleWarning'', c_payload = None\<rparr>]
     = ([\<lparr>c_uuid = Some ''DispBrightSet'', c_key = None, c_payload = None\<rparr>],
        [\<lparr>c_uuid = None, c_key = Some ''vehicleWarning'', c_payload = None\<rparr>])
   \<and> \<lparr>c_uuid = None, c_key = Some ''vehicleWarning'', c_payload = None\<rparr> \<notin>
       set (fst (guard_replay POLICY_ALLOW (\<lambda>_. None)
         [\<lparr>c_uuid = Some ''DispBrightSet'', c_key = None, c_payload = None\<rparr>,
          \<lparr>c_uuid = None, c_key = Some ''vehicleWarning'', c_payload = None\<rparr>]))"
  using guard_replay_spec [of POLICY_ALLOW "\<lambda>_. None"
      "[\<lparr>c_uuid = Some ''DispBrightSet'', c_key = None, c_payload = None\<rparr>,
        \<lparr>c_uuid = None, c_key = Some ''vehicleWarning'', c_payload = None\<rparr>]"
      "\<lparr>c_uuid = None, c_key = Some ''vehicleWarning'', c_payload = None\<rparr>"]
  by (simp add: may_replay_def POLICY_ALLOW_def)

end
