(* ===== verification/TsrLab.thy ===== *)
theory TsrLab
  imports Libflow
begin

text \<open>
  The TSR capture summary \<open>tools/m4/tsr_event_lab.py\<close>: \<open>field_shapes\<close> lists schema paths and types of a
  payload, \<open>analyze\<close> counts the frames of a capture directory, \<open>markdown\<close> prints the counts. A set of
  paths is a list without repetitions; a counter that stays zero is an absent key of \<open>stats\<close>.

  Shown: the published paths do not depend on any value, only on keys and types; their number and
  depth are bounded by the limits; every file is counted in exactly one outcome.
\<close>

definition TSR_MAX_FRAME_BYTES :: nat where "TSR_MAX_FRAME_BYTES = 262144"
definition MAX_DEPTH :: nat where "MAX_DEPTH = 4"
definition MAX_FIELDS :: nat where "MAX_FIELDS = 100"
definition TSR_KEYS :: "string list" where "TSR_KEYS = [''tsr_warning'', ''tsr_trace_res_list'']"

subsection \<open>Schema paths\<close>

text \<open>\<open>str.isidentifier\<close> on code points below 256.\<close>

definition ident_start :: "char \<Rightarrow> bool" where
  "ident_start c \<longleftrightarrow> (65 \<le> code c \<and> code c \<le> 90) \<or> (97 \<le> code c \<and> code c \<le> 122) \<or> code c \<in> {95, 170, 181, 186}
     \<or> (192 \<le> code c \<and> code c \<noteq> 215 \<and> code c \<noteq> 247)"

definition is_identifier :: "string \<Rightarrow> bool" where
  "is_identifier s \<longleftrightarrow> s \<noteq> [] \<and> ident_start (hd s)
     \<and> list_all (\<lambda>c. ident_start c \<or> is_digit c \<or> code c = 183) (tl s)"

fun scalar_kind :: "pyval \<Rightarrow> string" where
  "scalar_kind (PBool _) = ''bool''"
| "scalar_kind (PInt _) = ''int''"
| "scalar_kind (PFloat _) = ''float''"
| "scalar_kind (PStr _) = ''string''"
| "scalar_kind (PBytes _) = ''binary''"
| "scalar_kind PNone = ''null''"
| "scalar_kind _ = ''other''"

fun key_path :: "string \<Rightarrow> pyval \<Rightarrow> string option" where
  "key_path pre (PStr k) = (if is_identifier k \<and> length k \<le> 64 then Some (pre @ ''.'' @ k) else None)"
| "key_path pre _ = None"

text \<open>The depth argument of the source runs up to \<open>MAX_DEPTH\<close>; here it is what is left.\<close>

fun shapes_left :: "nat \<Rightarrow> string \<Rightarrow> pyval \<Rightarrow> string list" where
  "shapes_left 0 pre v = [pre @ '':depth_limit'']"
| "shapes_left (Suc n) pre v =
     (case v of
        PDict d \<Rightarrow> (pre @ '':object'') # concat (map (\<lambda>kv. case key_path pre (fst kv) of
            Some path \<Rightarrow> shapes_left n path (snd kv)
          | None \<Rightarrow> [pre @ '':unrecognized_key'']) (take MAX_FIELDS d))
      | PList xs \<Rightarrow> (pre @ '':array'') # (case xs of [] \<Rightarrow> [] | x # _ \<Rightarrow> shapes_left n (pre @ ''[]'') x)
      | _ \<Rightarrow> [pre @ '':'' @ scalar_kind v])"

definition field_shapes :: "pyval \<Rightarrow> string list" where
  "field_shapes v = remdups (shapes_left MAX_DEPTH ''data'' v)"

subsection \<open>Analysing a directory\<close>

record frame_file =
  ff_name :: string
  ff_is_file :: bool
  ff_size :: nat
  ff_bytes :: bytes

record tsr_frame =
  tf_file :: string
  tf_key :: string
  tf_data_shape :: string
  tf_nonempty :: bool
  tf_schema_fields :: nat

record tsr_stats =
  all_frames :: nat
  other_topic :: nat
  tsr_topic :: nat
  unknown_inner :: nat
  unrecognized_tsr_key :: nat
  recognized_tsr_envelopes :: nat
  decode_error :: nat

type_synonym schemas = "(string \<times> (string \<times> nat) list) list"

record tsr_state =
  ts_stats :: tsr_stats
  ts_schemas :: schemas
  ts_frames :: "tsr_frame list"

fun type_name :: "pyval \<Rightarrow> string" where
  "type_name PNone = ''NoneType''"
| "type_name (PBool _) = ''bool''"
| "type_name (PInt _) = ''int''"
| "type_name (PFloat _) = ''float''"
| "type_name (PStr _) = ''str''"
| "type_name (PBytes _) = ''bytes''"
| "type_name (PList _) = ''list''"
| "type_name (PDict _) = ''dict''"
| "type_name (PTuple _) = ''ExtType''"
| "type_name POther = ''Timestamp''"

fun truthy :: "pyval \<Rightarrow> bool" where
  "truthy PNone = False"
| "truthy (PBool b) = b"
| "truthy (PInt n) = (n \<noteq> 0)"
| "truthy (PFloat f) = (f \<noteq> FFin 0)"
| "truthy (PStr s) = (s \<noteq> [])"
| "truthy (PBytes b) = (b \<noteq> [])"
| "truthy (PList xs) = (xs \<noteq> [])"
| "truthy (PDict d) = (d \<noteq> [])"
| "truthy (PTuple xs) = (xs \<noteq> [])"
| "truthy POther = True"

text \<open>\<open>key not in TSR_KEYS\<close> raises \<open>TypeError\<close> for an unhashable key.\<close>

fun hashable :: "pyval \<Rightarrow> bool" where
  "hashable (PList _) = False"
| "hashable (PDict _) = False"
| "hashable (PTuple xs) = list_all hashable xs"
| "hashable _ = True"

fun bump :: "string \<Rightarrow> (string \<times> nat) list \<Rightarrow> (string \<times> nat) list" where
  "bump k [] = [(k, 1)]"
| "bump k ((x, n) # c) = (if x = k then (x, n + 1) # c else (x, n) # bump k c)"

fun add_shapes :: "string \<Rightarrow> string list \<Rightarrow> schemas \<Rightarrow> schemas" where
  "add_shapes k shapes [] = [(k, fold bump shapes [])]"
| "add_shapes k shapes ((x, c) # s) = (if x = k then (x, fold bump shapes c) # s else (x, c) # add_shapes k shapes s)"

text \<open>The outcome of one file; the source counts it by a \<open>stats[...] += 1\<close>.\<close>

datatype tsr_outcome = Decode_error | Other_topic | Unknown_inner | Unrecognized_key | Recognized string pyval

definition frame_outcome :: "msgpack_lib \<Rightarrow> frame_file \<Rightarrow> bool \<times> tsr_outcome" where
  "frame_outcome E f =
     (if \<not> ff_is_file f \<or> ff_size f > TSR_MAX_FRAME_BYTES then (False, Decode_error)
      else case decode_ws_binary E (ff_bytes f) of
        None \<Rightarrow> (False, Decode_error)
      | Some decoded \<Rightarrow>
          (case outer decoded of
             PDict o' \<Rightarrow>
               if dget o' ''topic'' \<noteq> PStr ''tsr'' then (False, Other_topic)
               else (case inner decoded of
                   PDict d \<Rightarrow>
                     let key = dget d ''key'' in
                     if \<not> hashable key then (True, Decode_error)
                     else if \<not> str_in key TSR_KEYS then (True, Unrecognized_key)
                     else (True, Recognized (the_str key) (dget d ''data''))
                 | _ \<Rightarrow> (True, Unknown_inner))
           | _ \<Rightarrow> (False, Decode_error)))"

definition count_outcome :: "bool \<times> tsr_outcome \<Rightarrow> tsr_stats \<Rightarrow> tsr_stats" where
  "count_outcome r s =
     (let s = s\<lparr>all_frames := all_frames s + 1, tsr_topic := tsr_topic s + (if fst r then 1 else 0)\<rparr> in
      case snd r of
        Decode_error \<Rightarrow> s\<lparr>decode_error := decode_error s + 1\<rparr>
      | Other_topic \<Rightarrow> s\<lparr>other_topic := other_topic s + 1\<rparr>
      | Unknown_inner \<Rightarrow> s\<lparr>unknown_inner := unknown_inner s + 1\<rparr>
      | Unrecognized_key \<Rightarrow> s\<lparr>unrecognized_tsr_key := unrecognized_tsr_key s + 1\<rparr>
      | Recognized _ _ \<Rightarrow> s\<lparr>recognized_tsr_envelopes := recognized_tsr_envelopes s + 1\<rparr>)"

definition step_file :: "msgpack_lib \<Rightarrow> frame_file \<Rightarrow> tsr_state \<Rightarrow> tsr_state" where
  "step_file E f st =
     (let r = frame_outcome E f; st = st\<lparr>ts_stats := count_outcome r (ts_stats st)\<rparr> in
      case snd r of
        Recognized key data \<Rightarrow>
          (let shapes = field_shapes data in
           st\<lparr>ts_schemas := add_shapes key shapes (ts_schemas st),
              ts_frames := ts_frames st @ [\<lparr>tf_file = ff_name f, tf_key = key,
                tf_data_shape = (case data of PList _ \<Rightarrow> ''list'' | PDict _ \<Rightarrow> ''dict'' | _ \<Rightarrow> type_name data),
                tf_nonempty = truthy data, tf_schema_fields = length shapes\<rparr>]\<rparr>)
      | _ \<Rightarrow> st)"

definition empty_stats :: tsr_stats where
  "empty_stats = \<lparr>all_frames = 0, other_topic = 0, tsr_topic = 0, unknown_inner = 0, unrecognized_tsr_key = 0,
     recognized_tsr_envelopes = 0, decode_error = 0\<rparr>"

text \<open>\<open>analyze\<close> on the files \<open>glob\<close> finds, sorted by name, with the sorted report.\<close>

definition analyze :: "msgpack_lib \<Rightarrow> frame_file list \<Rightarrow> tsr_state" where
  "analyze E files =
     (let st = fold (step_file E) (sort_key ff_name files) \<lparr>ts_stats = empty_stats, ts_schemas = [], ts_frames = []\<rparr> in
      st\<lparr>ts_schemas := map (\<lambda>(k, c). (k, sort_key fst c)) (sort_key fst (ts_schemas st))\<rparr>)"

definition NL :: string where "NL = [CHR 0x0A]"

definition markdown_lines :: "tsr_state \<Rightarrow> string list" where
  "markdown_lines st =
     (let s = ts_stats st in
      [''# D3 TSR event/schema report'', [],
       ''Observed native message envelopes only; sign meaning and units remain unverified.'', [],
       ''Frames: '' @ show_nat (all_frames s) @ ''; TSR topic: '' @ show_nat (tsr_topic s)
         @ ''; known envelopes: '' @ show_nat (recognized_tsr_envelopes s)
         @ ''; decode errors: '' @ show_nat (decode_error s) @ ''.'', []]
      @ concat (map (\<lambda>(key, paths). [''## '' @ key, []]
          @ map (\<lambda>(path, n). ''- '' @ path @ '': '' @ show_nat n @ '' frame(s)'') paths @ [[]]) (ts_schemas st))
      @ [''## Next D3 integration gate'', [],
         ''Verify captured field semantics, then bind verified events to the stock display/audio path. No sign value or message meaning is inferred.'', []])"

definition markdown :: "tsr_state \<Rightarrow> string" where
  "markdown st = join NL (markdown_lines st)"

subsection \<open>Values do not matter\<close>

text \<open>A payload with every scalar value blanked; keys, types and nesting stay.\<close>

function erase :: "pyval \<Rightarrow> pyval" where
  "erase PNone = PNone"
| "erase (PBool _) = PBool False"
| "erase (PInt _) = PInt 0"
| "erase (PFloat _) = PFloat (FFin 0)"
| "erase (PStr _) = PStr []"
| "erase (PBytes _) = PBytes []"
| "erase (PList xs) = PList (map erase xs)"
| "erase (PTuple xs) = PTuple (map erase xs)"
| "erase (PDict d) = PDict (map (\<lambda>kv. (fst kv, erase (snd kv))) d)"
| "erase POther = POther"
  by pat_completeness auto
termination
proof (relation "measure size")
  fix d :: pydict and kv assume "kv \<in> set d"
  then show "(snd kv, PDict d) \<in> measure size"
    by (auto simp: less_Suc_eq_le size_prod_simp intro!: size_list_estimation' [of kv])
qed (auto simp: less_Suc_eq_le size_list_estimation')

lemma shapes_left_erase: "shapes_left n pre (erase v) = shapes_left n pre v"
proof (induction n arbitrary: pre v)
  case (Suc n)
  show ?case
  proof (cases v)
    case (PList xs)
    then show ?thesis using Suc by (cases xs) simp_all
  next
    case (PDict d)
    have "(\<lambda>kv. case key_path pre (fst kv) of Some path \<Rightarrow> shapes_left n path (snd kv) | None \<Rightarrow> [pre @ '':unrecognized_key''])
        \<circ> (\<lambda>kv. (fst kv, erase (snd kv)))
      = (\<lambda>kv. case key_path pre (fst kv) of Some path \<Rightarrow> shapes_left n path (snd kv) | None \<Rightarrow> [pre @ '':unrecognized_key''])"
      by (rule ext) (simp add: Suc split: option.split)
    then show ?thesis using PDict by (simp add: take_map)
  qed simp_all
qed simp

fun shape_bound :: "nat \<Rightarrow> nat" where
  "shape_bound 0 = 1"
| "shape_bound (Suc n) = 1 + MAX_FIELDS * shape_bound n"

lemma shape_bound_pos: "1 \<le> shape_bound n"
  by (cases n) auto

lemma length_concat_le: "(\<And>x. x \<in> set xs \<Longrightarrow> length (f x) \<le> b) \<Longrightarrow> length (concat (map f xs)) \<le> length xs * b"
  by (induction xs) (auto simp: add_mono)

lemma shapes_left_length: "length (shapes_left n pre v) \<le> shape_bound n"
proof (induction n arbitrary: pre v)
  case (Suc n)
  have s1: "shape_bound n \<le> MAX_FIELDS * shape_bound n" by (simp add: MAX_FIELDS_def)
  show ?case
  proof (cases v)
    case (PList xs)
    then show ?thesis using le_trans [OF Suc s1] by (cases xs) simp_all
  next
    case (PDict d)
    have "length (concat (map (\<lambda>kv. case key_path pre (fst kv) of Some path \<Rightarrow> shapes_left n path (snd kv)
        | None \<Rightarrow> [pre @ '':unrecognized_key'']) (take MAX_FIELDS d))) \<le> length (take MAX_FIELDS d) * shape_bound n"
      using Suc shape_bound_pos by (intro length_concat_le) (simp split: option.split)
    also have "\<dots> \<le> MAX_FIELDS * shape_bound n" by simp
    finally show ?thesis using PDict by simp
  qed (simp_all)
qed simp

subsection \<open>Accounting\<close>

definition stats_ok :: "tsr_state \<Rightarrow> bool" where
  "stats_ok st \<longleftrightarrow> (let s = ts_stats st in
     all_frames s = decode_error s + other_topic s + unknown_inner s + unrecognized_tsr_key s + recognized_tsr_envelopes s
     \<and> tsr_topic s \<le> all_frames s \<and> recognized_tsr_envelopes s + unknown_inner s + unrecognized_tsr_key s \<le> tsr_topic s
     \<and> length (ts_frames st) = recognized_tsr_envelopes s
     \<and> list_all (\<lambda>f. tf_key f \<in> set TSR_KEYS) (ts_frames st) \<and> list_all (\<lambda>kc. fst kc \<in> set TSR_KEYS) (ts_schemas st))"

lemma add_shapes_keys:
  "k \<in> A \<Longrightarrow> list_all (\<lambda>kc. fst kc \<in> A) s \<Longrightarrow> list_all (\<lambda>kc. fst kc \<in> A) (add_shapes k shapes s)"
  by (induction k shapes s rule: add_shapes.induct) auto

lemma frame_outcome_topic:
  "frame_outcome E f = (t, r) \<Longrightarrow> (r \<in> {Unknown_inner, Unrecognized_key} \<longrightarrow> t)
    \<and> (case r of Recognized k d \<Rightarrow> t \<and> k \<in> set TSR_KEYS | _ \<Rightarrow> True)"
proof -
  assume a: "frame_outcome E f = (t, r)"
  show ?thesis
  proof (cases "decode_ws_binary E (ff_bytes f)")
    case None
    with a show ?thesis by (auto simp: frame_outcome_def split: if_splits)
  next
    case (Some x)
    show ?thesis
    proof (cases "\<exists>o' d. outer x = PDict o' \<and> inner x = PDict d")
      case True
      then obtain o' d where "outer x = PDict o'" "inner x = PDict d" by blast
      with a Some show ?thesis by (auto simp: frame_outcome_def Let_def str_in_iff split: if_splits)
    next
      case False
      with a Some show ?thesis by (cases "outer x"; cases "inner x") (auto simp: frame_outcome_def split: if_splits)
    qed
  qed
qed

lemma step_file_ok:
  assumes "stats_ok st"
  shows "stats_ok (step_file E f st)"
proof -
  obtain t r where fr: "frame_outcome E f = (t, r)" by force
  from assms frame_outcome_topic [OF fr] show ?thesis
    by (cases r) (auto simp: step_file_def count_outcome_def Let_def fr stats_ok_def add_shapes_keys)
qed

interpretation tsr_run: invariant_machine "step_file E" "\<lambda>f. True" stats_ok for E
  by unfold_locales (rule step_file_ok)

lemma fold_all_frames: "all_frames (ts_stats (fold (step_file E) fs st)) = all_frames (ts_stats st) + length fs"
proof (induction fs arbitrary: st)
  case (Cons f fs)
  have "all_frames (ts_stats (step_file E f st)) = Suc (all_frames (ts_stats st))"
    by (simp add: step_file_def count_outcome_def Let_def split: tsr_outcome.split)
  with Cons show ?case by simp
qed simp

lemma analyze_ok: "stats_ok (analyze E files) \<and> all_frames (ts_stats (analyze E files)) = length files"
proof -
  define st where "st = fold (step_file E) (sort_key ff_name files) \<lparr>ts_stats = empty_stats, ts_schemas = [], ts_frames = []\<rparr>"
  have "stats_ok st"
    unfolding st_def by (rule tsr_run.run_inv) (simp_all add: stats_ok_def empty_stats_def list_all_iff)
  moreover have "list_all (\<lambda>kc. fst kc \<in> A) s \<Longrightarrow> list_all (\<lambda>kc. fst kc \<in> A) (map (\<lambda>(k, c). (k, sort_key fst c)) (sort_key fst s))"
    for s :: "(string \<times> (string \<times> nat) list) list" and A by (auto simp: list_all_iff)
  moreover have "all_frames (ts_stats st) = length files"
    unfolding st_def fold_all_frames by (simp add: empty_stats_def)
  ultimately show ?thesis by (simp add: analyze_def Let_def stats_ok_def st_def [symmetric])
qed

subsection \<open>Properties\<close>

text \<open>The published schema paths do not depend on the values in a payload: blanking every scalar
  leaves them unchanged, and there are never more than the limits on depth and fields allow.\<close>

theorem field_shapes_value_free:
  "field_shapes (erase v) = field_shapes v \<and> length (field_shapes v) \<le> 101010101"
proof -
  have "length (field_shapes v) \<le> length (shapes_left MAX_DEPTH ''data'' v)"
    by (simp add: field_shapes_def length_remdups_leq)
  also have "\<dots> \<le> shape_bound MAX_DEPTH" by (rule shapes_left_length)
  also have "MAX_DEPTH = Suc (Suc (Suc (Suc 0)))" by (simp add: MAX_DEPTH_def)
  also have "shape_bound (Suc (Suc (Suc (Suc 0)))) = 101010101" by (simp add: MAX_FIELDS_def)
  finally show ?thesis by (simp add: field_shapes_def shapes_left_erase)
qed

text \<open>Every file of a capture directory is counted, in exactly one outcome; the frames listed are
  the recognised ones and carry a TSR key.\<close>

theorem analyze_accounts:
  "stats_ok (analyze E files) \<and> all_frames (ts_stats (analyze E files)) = length files"
  by (rule analyze_ok)

end
