(* ===== verification/Normalize.thy ===== *)
theory Normalize
  imports PyValue
begin

text \<open>
  The ADAS snapshot normaliser \<open>tools/m4/normalize_adas.py\<close>. A finite float is a rational; \<open>float(n)\<close> of
  an \<open>int\<close> rounds to 53 bits, half to even, and fails beyond the largest double, as in Python; \<open>int(f)\<close>
  truncates, and raises for a NaN or an infinity, which \<open>normalize_stock\<close> does not catch
  (\<open>None\<close>). The entries of the snapshot have the types the signature gives them; an absent entry
  is \<open>None\<close>.

  Shown: the three alarms and the lead vehicle depend on their documented drivers only; the age is
  never negative and the runtime class is Ok exactly for a fresh frame of a process not known absent.
\<close>

subsection \<open>Numbers\<close>

definition bit_len :: "nat \<Rightarrow> nat" where
  "bit_len n = length (takeWhile (\<lambda>k. 2 ^ k \<le> n) [0..<1100])"

text \<open>The nearest double to a natural number below \<open>2 ^ 1100\<close>, ties to even.\<close>

definition round53 :: "nat \<Rightarrow> nat" where
  "round53 n = (if n < 2 ^ 53 then n
     else let k = bit_len n - 53; q = n div 2 ^ k; r = n mod 2 ^ k; half = 2 ^ (k - 1);
              q' = (if half < r \<or> half = r \<and> odd q then q + 1 else q)
          in q' * 2 ^ k)"

definition float_of_int :: "int \<Rightarrow> pyfloat option" where
  "float_of_int n =
     (let m = nat \<bar>n\<bar> in
      if 2 ^ 1100 \<le> m \<or> 2 ^ 1024 \<le> round53 m then None
      else Some (FFin (of_int (sgn n * int (round53 m)))))"

text \<open>\<open>_num\<close>: a bool is an int; a failed conversion gives the default.\<close>

definition num :: "pydict \<Rightarrow> string \<Rightarrow> pyfloat \<Rightarrow> pyfloat" where
  "num row key dflt =
     (case map_of row (PStr key) of
        None \<Rightarrow> dflt
      | Some (PFloat f) \<Rightarrow> f
      | Some (PInt n) \<Rightarrow> (case float_of_int n of Some f \<Rightarrow> f | None \<Rightarrow> dflt)
      | Some (PBool b) \<Rightarrow> FFin (if b then 1 else 0)
      | Some _ \<Rightarrow> dflt)"

fun float_int :: "pyfloat \<Rightarrow> int option" where
  "float_int (FFin q) = Some (if q < 0 then - \<lfloor>- q\<rfloor> else \<lfloor>q\<rfloor>)"
| "float_int _ = None"

fun float_bool :: "pyfloat \<Rightarrow> bool" where
  "float_bool (FFin q) = (q \<noteq> 0)"
| "float_bool _ = True"

definition num_int :: "pydict \<Rightarrow> string \<Rightarrow> int \<Rightarrow> int option" where
  "num_int row key dflt = float_int (num row key (FFin (of_int dflt)))"

abbreviation num0 :: "pydict \<Rightarrow> string \<Rightarrow> pyfloat" where
  "num0 row key \<equiv> num row key (FFin 0)"

definition num_bool :: "pydict \<Rightarrow> string \<Rightarrow> bool" where
  "num_bool row key = float_bool (num0 row key)"

subsection \<open>Snapshots and results\<close>

record snapshot =
  sn_now_ms :: "int option"
  sn_last_frame_ms :: "int option"
  sn_frame_id :: "int option"
  sn_libflow_reachable :: "bool option"
  sn_libflow_connected :: "bool option"
  sn_subscription_active :: "bool option"
  sn_cardv_reachable :: "bool option"
  sn_cardv_connected :: "bool option"
  sn_frame_seen :: "bool option"
  sn_process :: "string option"
  sn_nums :: "(string \<times> pydict list) list"
  sn_cardv :: "(string \<times> string) list"

record vehicle =
  v_id :: int
  v_class :: int
  v_width :: pyfloat
  v_long_dist :: pyfloat
  v_lat_dist :: pyfloat
  v_ttc :: pyfloat
  v_is_crucial :: bool
  v_is_second_crucial :: bool
  v_headway :: pyfloat

record pedestrian =
  p_id :: int
  p_world_x :: pyfloat
  p_world_y :: pyfloat
  p_is_key :: bool
  p_is_danger :: bool
  p_ttc_m :: pyfloat
  p_ttc :: pyfloat
  p_have_bike :: bool

record lane =
  l_deviate_state :: int
  l_turn_radius :: pyfloat
  l_turn_frequently :: bool

record raw_info =
  raw_vehicle_warning :: pydict
  raw_warning_level :: int
  raw_headway_warning :: int
  raw_vb_warning :: int
  raw_sag_warning :: int
  raw_key_pedestrian_count :: nat
  raw_deviate_state :: int
  raw_second_crucial_count :: nat

record alarm =
  a_active :: bool
  a_level :: int
  a_evidence :: string

record adas_state =
  as_timestamp_ms :: int
  as_frame_id :: int
  as_stale :: bool
  as_age_ms :: int
  as_runtime_class :: string
  as_process :: string
  as_libflow_reachable :: bool
  as_subscription_active :: bool
  as_cardv_reachable :: bool
  as_vehicles :: "vehicle list"
  as_lead :: "(pyfloat \<times> pyfloat) option"
  as_fcw :: alarm
  as_pcw :: alarm
  as_ldw :: alarm
  as_lane :: lane
  as_pedestrians :: "pedestrian list"
  as_raw :: raw_info
  as_adas_status :: string
  as_calib_status :: string
  as_cardv_stale :: bool

subsection \<open>Normalising\<close>

definition rows :: "snapshot \<Rightarrow> string \<Rightarrow> pydict list" where
  "rows sn key = (case map_of (sn_nums sn) key of None \<Rightarrow> [] | Some rs \<Rightarrow> rs)"

definition dflt :: "'a option \<Rightarrow> 'a \<Rightarrow> 'a" where
  "dflt x d = (case x of None \<Rightarrow> d | Some v \<Rightarrow> v)"

definition norm_vehicle :: "int \<Rightarrow> pyfloat \<Rightarrow> pydict \<Rightarrow> vehicle option" where
  "norm_vehicle warn_id headway r =
     (case (num_int r ''vehicle_id'' (-1), num_int r ''vehicle_class'' (-1)) of
        (Some vid, Some vclass) \<Rightarrow>
          Some \<lparr>v_id = vid, v_class = vclass, v_width = num0 r ''vehicle_width'', v_long_dist = num0 r ''longitude_dist'',
                v_lat_dist = num0 r ''lateral_dist'', v_ttc = num0 r ''ttc'', v_is_crucial = num_bool r ''is_crucial'',
                v_is_second_crucial = num_bool r ''is_second_crucial'', v_headway = (if vid = warn_id then headway else FFin 0)\<rparr>
      | _ \<Rightarrow> None)"

definition norm_pedestrian :: "pydict \<Rightarrow> pedestrian option" where
  "norm_pedestrian r =
     map_option (\<lambda>i. \<lparr>p_id = i, p_world_x = num0 r ''world_x'', p_world_y = num0 r ''world_y'', p_is_key = num_bool r ''is_key'',
         p_is_danger = num_bool r ''is_danger'', p_ttc_m = num0 r ''ttc_m'', p_ttc = num0 r ''ttc'',
         p_have_bike = num_bool r ''have_bike''\<rparr>) (num_int r ''id'' (-1))"

definition norm_lane :: "pydict list \<Rightarrow> lane option" where
  "norm_lane lane_rows =
     (case lane_rows of
        [] \<Rightarrow> Some \<lparr>l_deviate_state = 0, l_turn_radius = FFin 0, l_turn_frequently = False\<rparr>
      | r # _ \<Rightarrow> map_option (\<lambda>d. \<lparr>l_deviate_state = d, l_turn_radius = num0 r ''turn_radius'',
          l_turn_frequently = num_bool r ''turn_frequently''\<rparr>) (num_int r ''deviate_state'' 0))"

definition find_lead :: "vehicle list \<Rightarrow> (pyfloat \<times> pyfloat) option" where
  "find_lead vs = map_option (\<lambda>v. (v_long_dist v, v_ttc v)) (find v_is_crucial vs)"

definition level_alarm :: "int \<Rightarrow> alarm" where
  "level_alarm n = \<lparr>a_active = (n \<noteq> 0), a_level = n, a_evidence = (if n \<noteq> 0 then ''HighConfidence'' else ''Unknown'')\<rparr>"

definition runtime_class :: "string \<Rightarrow> bool \<Rightarrow> bool \<Rightarrow> string" where
  "runtime_class process frame_seen stale =
     (if process = ''Absent'' then ''A_ProcessAbsent''
      else if \<not> frame_seen then ''Unknown''
      else if stale then ''C_InputPathSuspect''
      else ''Ok'')"

text \<open>The warning row: its id, headway, level, fcw and the three raw warnings.\<close>

definition warn_fields :: "pydict \<Rightarrow> (int \<times> int \<times> int \<times> int \<times> int \<times> int) option" where
  "warn_fields warn =
     (case (num_int warn ''vehicle_id'' (-1), num_int warn ''warning_level'' 0, num_int warn ''fcw'' 0,
            num_int warn ''headway_warning'' 0, num_int warn ''vb_warning'' 0, num_int warn ''sag_warning'' 0) of
        (Some i, Some l, Some f, Some h, Some v, Some s) \<Rightarrow> Some (i, l, f, h, v, s)
      | _ \<Rightarrow> None)"

definition frame_seen :: "snapshot \<Rightarrow> bool" where
  "frame_seen sn = dflt (sn_frame_seen sn) (dflt (sn_libflow_connected sn) False)"

definition age_ms :: "snapshot \<Rightarrow> int \<Rightarrow> int" where
  "age_ms sn now = (if frame_seen sn then max 0 (now - dflt (sn_last_frame_ms sn) 0) else 0)"

definition normalize_stock :: "snapshot \<Rightarrow> int option \<Rightarrow> int \<Rightarrow> adas_state option" where
  "normalize_stock sn now_ms stale_after_ms =
     (let now = dflt now_ms (dflt (sn_now_ms sn) 0);
          libflow = dflt (sn_libflow_reachable sn) (dflt (sn_libflow_connected sn) False);
          process = dflt (sn_process sn) ''Unknown'';
          age = age_ms sn now;
          stale = (\<not> frame_seen sn \<or> age > stale_after_ms);
          warn = (case rows sn ''vehicleWarning'' of [] \<Rightarrow> [] | r # _ \<Rightarrow> r);
          headway = num0 warn ''headway'' in
      case warn_fields warn of None \<Rightarrow> None | Some (warn_id, warning_level, fcw_raw, hw, vb, sag) \<Rightarrow>
      (case those (map (norm_vehicle warn_id headway) (rows sn ''vehicleMeasure'')) of None \<Rightarrow> None | Some vehicles \<Rightarrow>
      (case those (map norm_pedestrian (rows sn ''pedestrians'')) of None \<Rightarrow> None | Some pedestrians \<Rightarrow>
      (case norm_lane (rows sn ''laneWarningRes'') of None \<Rightarrow> None | Some lane \<Rightarrow>
        (let pcw = list_ex p_is_danger pedestrians in
         Some \<lparr>as_timestamp_ms = now, as_frame_id = dflt (sn_frame_id sn) 0, as_stale = stale, as_age_ms = age,
           as_runtime_class = runtime_class process (frame_seen sn) stale, as_process = process,
           as_libflow_reachable = libflow, as_subscription_active = dflt (sn_subscription_active sn) libflow,
           as_cardv_reachable = dflt (sn_cardv_reachable sn) (dflt (sn_cardv_connected sn) False),
           as_vehicles = vehicles, as_lead = find_lead vehicles, as_fcw = level_alarm fcw_raw,
           as_pcw = \<lparr>a_active = pcw, a_level = 0, a_evidence = (if pcw then ''HighConfidence'' else ''Unknown'')\<rparr>,
           as_ldw = level_alarm (l_deviate_state lane), as_lane = lane, as_pedestrians = pedestrians,
           as_raw = \<lparr>raw_vehicle_warning = warn, raw_warning_level = warning_level, raw_headway_warning = hw,
             raw_vb_warning = vb, raw_sag_warning = sag,
             raw_key_pedestrian_count = length (filter p_is_key pedestrians),
             raw_deviate_state = l_deviate_state lane,
             raw_second_crucial_count = length (filter v_is_second_crucial vehicles)\<rparr>,
           as_adas_status = dflt (map_of (sn_cardv sn) ''AdasStatus'') ''UNKNOWN'',
           as_calib_status = dflt (map_of (sn_cardv sn) ''HeavyCalibStatus'') ''UNKNOWN'',
           as_cardv_stale = (map_of (sn_cardv sn) ''AdasStatus'' = None)\<rparr>)))))"

subsection \<open>Lemmas\<close>

lemma those_map_ex:
  assumes "those (map f xs) = Some ys" "\<And>x y. f x = Some y \<Longrightarrow> P y \<longleftrightarrow> Q x"
  shows "list_ex P ys \<longleftrightarrow> list_ex Q xs"
  using assms(1) by (induction xs arbitrary: ys) (auto split: option.splits simp: assms(2))

lemma norm_pedestrian_danger: "norm_pedestrian r = Some p \<Longrightarrow> p_is_danger p \<longleftrightarrow> num_bool r ''is_danger''"
  by (auto simp: norm_pedestrian_def)

lemma norm_vehicle_fields:
  "norm_vehicle w h r = Some v \<Longrightarrow> v_is_crucial v = num_bool r ''is_crucial'' \<and> v_long_dist v = num0 r ''longitude_dist''
    \<and> v_ttc v = num0 r ''ttc''"
  by (auto simp: norm_vehicle_def split: option.splits)

lemma find_lead_rows:
  "those (map (norm_vehicle w h) rs) = Some vs \<Longrightarrow>
    find_lead vs = map_option (\<lambda>r. (num0 r ''longitude_dist'', num0 r ''ttc'')) (find (\<lambda>r. num_bool r ''is_crucial'') rs)"
proof (induction rs arbitrary: vs)
  case (Cons r rs)
  then obtain v vs' where v: "norm_vehicle w h r = Some v" "those (map (norm_vehicle w h) rs) = Some vs'" "vs = v # vs'"
    by (auto split: option.splits)
  with Cons.IH [OF v(2)] norm_vehicle_fields [OF v(1)] show ?case by (auto simp: find_lead_def)
qed (simp add: find_lead_def)

definition first_row :: "pydict list \<Rightarrow> pydict" where
  "first_row rs = (case rs of [] \<Rightarrow> [] | r # _ \<Rightarrow> r)"

lemma norm_lane_deviate: "norm_lane rs = Some l \<Longrightarrow> num_int (first_row rs) ''deviate_state'' 0 = Some (l_deviate_state l)"
  by (auto simp: norm_lane_def first_row_def num_int_def num_def split: list.splits)

lemma normalize_drivers:
  assumes "normalize_stock sn t k = Some s"
  shows "num_int (first_row (rows sn ''vehicleWarning'')) ''fcw'' 0 = Some (a_level (as_fcw s))"
    and "a_active (as_fcw s) \<longleftrightarrow> a_level (as_fcw s) \<noteq> 0"
    and "a_active (as_pcw s) \<longleftrightarrow> list_ex (\<lambda>r. num_bool r ''is_danger'') (rows sn ''pedestrians'')"
    and "num_int (first_row (rows sn ''laneWarningRes'')) ''deviate_state'' 0 = Some (a_level (as_ldw s))"
    and "a_active (as_ldw s) \<longleftrightarrow> a_level (as_ldw s) \<noteq> 0"
    and "as_lead s = map_option (\<lambda>r. (num0 r ''longitude_dist'', num0 r ''ttc''))
           (find (\<lambda>r. num_bool r ''is_crucial'') (rows sn ''vehicleMeasure''))"
proof -
  from assms obtain i l f h v g vs ps la where
    w: "warn_fields (first_row (rows sn ''vehicleWarning'')) = Some (i, l, f, h, v, g)"
    and vs: "those (map (norm_vehicle i (num0 (first_row (rows sn ''vehicleWarning'')) ''headway'')) (rows sn ''vehicleMeasure'')) = Some vs"
    and ps: "those (map norm_pedestrian (rows sn ''pedestrians'')) = Some ps"
    and la: "norm_lane (rows sn ''laneWarningRes'') = Some la"
    and s: "as_fcw s = level_alarm f" "a_active (as_pcw s) = list_ex p_is_danger ps"
      "as_ldw s = level_alarm (l_deviate_state la)" "as_lead s = find_lead vs"
    by (auto simp: normalize_stock_def Let_def first_row_def [symmetric] split: option.splits)
  show "num_int (first_row (rows sn ''vehicleWarning'')) ''fcw'' 0 = Some (a_level (as_fcw s))"
    using w s by (auto simp: warn_fields_def level_alarm_def split: option.splits)
  show "a_active (as_fcw s) \<longleftrightarrow> a_level (as_fcw s) \<noteq> 0" "a_active (as_ldw s) \<longleftrightarrow> a_level (as_ldw s) \<noteq> 0"
    using s by (simp_all add: level_alarm_def)
  show "a_active (as_pcw s) \<longleftrightarrow> list_ex (\<lambda>r. num_bool r ''is_danger'') (rows sn ''pedestrians'')"
    unfolding s(2) by (rule those_map_ex [OF ps norm_pedestrian_danger])
  show "num_int (first_row (rows sn ''laneWarningRes'')) ''deviate_state'' 0 = Some (a_level (as_ldw s))"
    using norm_lane_deviate [OF la] s by (simp add: level_alarm_def)
  show "as_lead s = map_option (\<lambda>r. (num0 r ''longitude_dist'', num0 r ''ttc''))
      (find (\<lambda>r. num_bool r ''is_crucial'') (rows sn ''vehicleMeasure''))"
    unfolding s(4) by (rule find_lead_rows [OF vs])
qed

lemma normalize_runtime:
  assumes "normalize_stock sn t k = Some s"
  shows "0 \<le> as_age_ms s"
    and "as_stale s \<longleftrightarrow> \<not> frame_seen sn \<or> as_age_ms s > k"
    and "as_runtime_class s = ''Ok'' \<longleftrightarrow> \<not> as_stale s \<and> as_process s \<noteq> ''Absent''"
    and "as_runtime_class s = ''A_ProcessAbsent'' \<longleftrightarrow> as_process s = ''Absent''"
proof -
  let ?now = "dflt t (dflt (sn_now_ms sn) 0)"
  have s: "as_age_ms s = age_ms sn ?now" "as_stale s = (\<not> frame_seen sn \<or> age_ms sn ?now > k)"
    "as_runtime_class s = runtime_class (as_process s) (frame_seen sn) (as_stale s)"
    using assms by (auto simp: normalize_stock_def Let_def split: option.splits)
  show "0 \<le> as_age_ms s" "as_stale s \<longleftrightarrow> \<not> frame_seen sn \<or> as_age_ms s > k" using s by (simp_all add: age_ms_def)
  show "as_runtime_class s = ''Ok'' \<longleftrightarrow> \<not> as_stale s \<and> as_process s \<noteq> ''Absent''"
    "as_runtime_class s = ''A_ProcessAbsent'' \<longleftrightarrow> as_process s = ''Absent''"
    unfolding s(3) using s(2) by (auto simp: runtime_class_def)
qed

subsection \<open>When a result is returned\<close>

definition finite_row :: "pydict \<Rightarrow> bool" where
  "finite_row r = list_all (\<lambda>kv. case snd kv of PFloat f \<Rightarrow> float_int f \<noteq> None | _ \<Rightarrow> True) r"

lemma num_int_total: "finite_row r \<Longrightarrow> \<exists>n. num_int r key d = Some n"
proof -
  assume f: "finite_row r"
  have fl: "float_int x \<noteq> None" if "map_of r k = Some (PFloat x)" for k x
    using f map_of_SomeD [OF that] by (fastforce simp: finite_row_def list_all_iff)
  have fi: "float_int x \<noteq> None" if "float_of_int n = Some x" for n x
    using that by (auto simp: float_of_int_def Let_def split: if_splits)
  show ?thesis
    unfolding num_int_def num_def using fl fi by (auto split: option.split pyval.split)
qed

definition finite_snapshot :: "snapshot \<Rightarrow> bool" where
  "finite_snapshot sn = list_all (\<lambda>(k, rs). list_all finite_row rs) (sn_nums sn)"

lemma finite_rows: "finite_snapshot sn \<Longrightarrow> list_all finite_row (rows sn k)"
proof (cases "map_of (sn_nums sn) k")
  case (Some rs)
  then have "(k, rs) \<in> set (sn_nums sn)" by (rule map_of_SomeD)
  with Some show "finite_snapshot sn \<Longrightarrow> list_all finite_row (rows sn k)"
    by (auto simp: finite_snapshot_def rows_def list_all_iff)
qed (simp add: rows_def)

lemma those_total: "(\<And>x. x \<in> set xs \<Longrightarrow> \<exists>y. f x = Some y) \<Longrightarrow> \<exists>ys. those (map f xs) = Some ys"
  by (induction xs) fastforce+

lemma normalize_total:
  assumes "finite_snapshot sn"
  shows "\<exists>s. normalize_stock sn t k = Some s"
proof -
  have fr: "finite_row (first_row (rows sn key))" for key
    using finite_rows [OF assms, of key] by (auto simp: first_row_def finite_row_def split: list.split)
  obtain w where w: "warn_fields (first_row (rows sn ''vehicleWarning'')) = Some w"
  proof -
    obtain g where "\<And>key d. num_int (first_row (rows sn ''vehicleWarning'')) key d = Some (g key d)"
      using num_int_total [OF fr] by metis
    with that show ?thesis by (simp add: warn_fields_def)
  qed
  have "\<exists>vs. those (map (norm_vehicle i h) (rows sn ''vehicleMeasure'')) = Some vs" for i h
  proof (rule those_total)
    fix r assume "r \<in> set (rows sn ''vehicleMeasure'')"
    then have "finite_row r" using finite_rows [OF assms] by (auto simp: list_all_iff)
    then show "\<exists>v. norm_vehicle i h r = Some v"
      using num_int_total [of r "''vehicle_id''" "-1"] num_int_total [of r "''vehicle_class''" "-1"]
      by (auto simp: norm_vehicle_def)
  qed
  moreover have "\<exists>ps. those (map norm_pedestrian (rows sn ''pedestrians'')) = Some ps"
  proof (rule those_total)
    fix r assume "r \<in> set (rows sn ''pedestrians'')"
    then have "finite_row r" using finite_rows [OF assms] by (auto simp: list_all_iff)
    then show "\<exists>p. norm_pedestrian r = Some p"
      using num_int_total [of r "''id''" "-1"] by (auto simp: norm_pedestrian_def)
  qed
  moreover have "\<exists>la. norm_lane (rows sn ''laneWarningRes'') = Some la"
    using num_int_total [OF fr [of "''laneWarningRes''"], of "''deviate_state''" 0]
    by (auto simp: norm_lane_def first_row_def split: list.splits)
  ultimately show ?thesis
    using w by (cases w) (auto simp: normalize_stock_def Let_def first_row_def [symmetric] split: option.split)
qed

subsection \<open>Properties\<close>

text \<open>The forward-collision alarm is the \<open>fcw\<close> field of the first warning row, the pedestrian
  alarm is raised exactly when some pedestrian has \<open>is_danger\<close>, the lane alarm is the
  \<open>deviate_state\<close> of the first lane row, and the lead vehicle is the first one with
  \<open>is_crucial\<close>; nothing else of the snapshot drives them.\<close>

theorem alarms_have_sole_drivers:
  assumes "normalize_stock sn t k = Some s"
  shows "num_int (first_row (rows sn ''vehicleWarning'')) ''fcw'' 0 = Some (a_level (as_fcw s))
    \<and> (a_active (as_fcw s) \<longleftrightarrow> a_level (as_fcw s) \<noteq> 0)
    \<and> (a_active (as_pcw s) \<longleftrightarrow> list_ex (\<lambda>r. num_bool r ''is_danger'') (rows sn ''pedestrians''))
    \<and> num_int (first_row (rows sn ''laneWarningRes'')) ''deviate_state'' 0 = Some (a_level (as_ldw s))
    \<and> (a_active (as_ldw s) \<longleftrightarrow> a_level (as_ldw s) \<noteq> 0)
    \<and> as_lead s = map_option (\<lambda>r. (num0 r ''longitude_dist'', num0 r ''ttc''))
         (find (\<lambda>r. num_bool r ''is_crucial'') (rows sn ''vehicleMeasure''))"
  using normalize_drivers [OF assms] by blast

definition demo_snapshot :: snapshot where
  "demo_snapshot = \<lparr>sn_now_ms = Some 1000, sn_last_frame_ms = Some 900, sn_frame_id = Some 7, sn_libflow_reachable = Some True,
     sn_libflow_connected = None, sn_subscription_active = None, sn_cardv_reachable = None, sn_cardv_connected = None,
     sn_frame_seen = Some True, sn_process = Some ''Present'',
     sn_nums = [(''vehicleWarning'', [[(PStr ''fcw'', PInt 2), (PStr ''vehicle_id'', PInt 4)]]),
       (''pedestrians'', [[(PStr ''is_danger'', PBool True)]])], sn_cardv = []\<rparr>"

lemma demo_snapshot_finite: "finite_snapshot demo_snapshot"
  by (simp add: finite_snapshot_def demo_snapshot_def finite_row_def)

theorem alarms_have_sole_drivers_witness:
  "\<exists>s. normalize_stock demo_snapshot None 500 = Some s
    \<and> (a_active (as_pcw s) \<longleftrightarrow> list_ex (\<lambda>r. num_bool r ''is_danger'') (rows demo_snapshot ''pedestrians''))"
proof -
  obtain s where s: "normalize_stock demo_snapshot None 500 = Some s" using normalize_total [OF demo_snapshot_finite] by blast
  from alarms_have_sole_drivers [OF s] s show ?thesis by blast
qed

text \<open>The age is never negative, a state is stale exactly without a frame or beyond the age limit,
  and the runtime class is Ok exactly when it is not stale and the process is not known to be absent.\<close>

theorem runtime_class_sound:
  assumes "normalize_stock sn t k = Some s"
  shows "0 \<le> as_age_ms s \<and> (as_stale s \<longleftrightarrow> \<not> frame_seen sn \<or> as_age_ms s > k)
    \<and> (as_runtime_class s = ''Ok'' \<longleftrightarrow> \<not> as_stale s \<and> as_process s \<noteq> ''Absent'')
    \<and> (as_runtime_class s = ''A_ProcessAbsent'' \<longleftrightarrow> as_process s = ''Absent'')"
  using normalize_runtime [OF assms] by blast

theorem runtime_class_sound_witness:
  "\<exists>s. normalize_stock demo_snapshot None 500 = Some s \<and> 0 \<le> as_age_ms s
    \<and> (as_runtime_class s = ''Ok'' \<longleftrightarrow> \<not> as_stale s \<and> as_process s \<noteq> ''Absent'')"
proof -
  obtain s where s: "normalize_stock demo_snapshot None 500 = Some s" using normalize_total [OF demo_snapshot_finite] by blast
  from runtime_class_sound [OF s] s show ?thesis by blast
qed

text \<open>A snapshot without NaN and infinite numbers is always normalised.\<close>

theorem finite_snapshot_normalised:
  "finite_snapshot sn \<Longrightarrow> \<exists>s. normalize_stock sn t k = Some s"
  by (rule normalize_total)

theorem finite_snapshot_normalised_witness:
  "finite_snapshot demo_snapshot \<and> (\<exists>s. normalize_stock demo_snapshot None 500 = Some s)"
  using finite_snapshot_normalised [OF demo_snapshot_finite] demo_snapshot_finite by blast

end
