(* ===== verification/Script.thy ===== *)
theory Script
  imports Prelude
begin

text \<open>
  The U-Boot script at the start of the inner upgrade image. The tools read it with three regular
  expressions of Python's \<open>re\<close> (\<open>SECTION_RE\<close> and \<open>FATLOAD_RE\<close> of \<open>tools/fw/package_contract.py\<close>,
  shared with \<open>tools/fw/carve_upgrade.py\<close>, and the two of \<open>tools/fw/reversion_sd_package.py\<close>), so the first
  part of this theory is \<open>finditer\<close> for the constructs they use: a backtracking matcher that lists the ways
  to match in Python's order of preference. The text is the latin-1 decoding of the image's bytes and
  stays a list of bytes. Then \<open>parse_script\<close> and the list of loads of \<open>carve_upgrade.py\<close>.

  Shown: \<open>finditer\<close> yields ordered, disjoint, non-empty matches inside the text, and its result is all of them
  (between two matches nothing matches); each row within the image selects as many bytes as it
  declares.
\<close>

subsection \<open>Regular expressions\<close>

datatype rx =
    Cls "byte \<Rightarrow> bool"
  | Many "byte \<Rightarrow> bool"
  | Many1 "byte \<Rightarrow> bool"
  | Seq rx rx
  | Alt rx rx
  | Grp nat rx
  | Bol
  | Eol
  | Wordb
  | Eps

type_synonym groups = "(nat \<times> bytes) list"

definition is_word :: "byte \<Rightarrow> bool" where
  "is_word b \<longleftrightarrow> (48 \<le> b \<and> b \<le> 57) \<or> (65 \<le> b \<and> b \<le> 90) \<or> (97 \<le> b \<and> b \<le> 122) \<or> b = 95"

definition at_word :: "bytes \<Rightarrow> nat \<Rightarrow> bool" where
  "at_word s i \<longleftrightarrow> i < length s \<and> is_word (s ! i)"

definition run_len :: "(byte \<Rightarrow> bool) \<Rightarrow> bytes \<Rightarrow> nat \<Rightarrow> nat" where
  "run_len p s i = length (takeWhile p (drop i s))"

text \<open>All ways to match from position \<open>i\<close>, the preferred one first: the end position and the groups.\<close>

fun ways :: "rx \<Rightarrow> bytes \<Rightarrow> nat \<times> groups \<Rightarrow> (nat \<times> groups) list" where
  "ways (Cls p) s (i, g) = (if i < length s \<and> p (s ! i) then [(Suc i, g)] else [])"
| "ways (Many p) s (i, g) = map (\<lambda>k. (i + k, g)) (rev [0..<Suc (run_len p s i)])"
| "ways (Many1 p) s (i, g) = map (\<lambda>k. (i + k, g)) (rev [1..<Suc (run_len p s i)])"
| "ways (Seq a b) s (i, g) = concat (map (ways b s) (ways a s (i, g)))"
| "ways (Alt a b) s (i, g) = ways a s (i, g) @ ways b s (i, g)"
| "ways (Grp k a) s (i, g) = map (\<lambda>(j, h). (j, (k, slice s i j) # h)) (ways a s (i, g))"
| "ways Bol s (i, g) = (if i = 0 \<or> i \<le> length s \<and> s ! (i - 1) = 10 then [(i, g)] else [])"
| "ways Eol s (i, g) = (if i = length s \<or> i < length s \<and> s ! i = 10 then [(i, g)] else [])"
| "ways Wordb s (i, g) = (if (0 < i \<and> at_word s (i - 1)) \<noteq> at_word s i then [(i, g)] else [])"
| "ways Eps s (i, g) = [(i, g)]"

record match =
  m_start :: nat
  m_end :: nat
  m_groups :: groups

definition match_at :: "rx \<Rightarrow> bytes \<Rightarrow> nat \<Rightarrow> match option" where
  "match_at r s i =
     (case ways r s (i, []) of [] \<Rightarrow> None | (j, g) # _ \<Rightarrow> Some \<lparr>m_start = i, m_end = j, m_groups = g\<rparr>)"

text \<open>The scan. None of the expressions here matches the empty string; a step never stays in place.\<close>

function finditer_from :: "rx \<Rightarrow> bytes \<Rightarrow> nat \<Rightarrow> match list" where
  "finditer_from r s i =
     (if length s < i then []
      else case match_at r s i of
        None \<Rightarrow> finditer_from r s (Suc i)
      | Some m \<Rightarrow> m # finditer_from r s (max (m_end m) (Suc i)))"
  by pat_completeness auto
termination
  by (relation "measure (\<lambda>(r, s, i). Suc (length s) - i)") auto

declare finditer_from.simps [simp del]

definition finditer :: "rx \<Rightarrow> bytes \<Rightarrow> match list" where
  "finditer r s = finditer_from r s 0"

definition group :: "nat \<Rightarrow> match \<Rightarrow> bytes" where
  "group k m = the (map_of (m_groups m) k)"

definition m_text :: "bytes \<Rightarrow> match \<Rightarrow> bytes" where
  "m_text s m = slice s (m_start m) (m_end m)"

subsection \<open>The expressions\<close>

fun Seqs :: "rx list \<Rightarrow> rx" where
  "Seqs [] = Eps"
| "Seqs [r] = r"
| "Seqs (r # rs) = Seq r (Seqs rs)"

definition lower_byte :: "byte \<Rightarrow> byte" where
  "lower_byte b = (if 65 \<le> b \<and> b \<le> 90 then b + 32 else b)"

definition Lit :: "string \<Rightarrow> rx" where
  "Lit t = Seqs (map (\<lambda>c. Cls (\<lambda>b. b = c)) (bytes_of t))"

definition LitI :: "string \<Rightarrow> rx" where
  "LitI t = Seqs (map (\<lambda>c. Cls (\<lambda>b. lower_byte b = lower_byte c)) (bytes_of t))"

text \<open>The classes \<open>\\s\<close>, \<open>\\d\<close> and \<open>[0-9a-fA-F]\<close> of a \<open>str\<close> pattern below code point 256.\<close>

definition sp :: "byte \<Rightarrow> bool" where
  "sp b \<longleftrightarrow> b \<in> {9, 10, 11, 12, 13, 28, 29, 30, 31, 32, 133, 160}"

definition dig :: "byte \<Rightarrow> bool" where
  "dig b \<longleftrightarrow> 48 \<le> b \<and> b \<le> 57"

definition hexdig :: "byte \<Rightarrow> bool" where
  "hexdig b \<longleftrightarrow> dig b \<or> (65 \<le> b \<and> b \<le> 70) \<or> (97 \<le> b \<and> b \<le> 102)"

definition END_MARKER :: bytes where
  "END_MARKER = bytes_of ''% <- this is end of script symbol''"

definition SECTION_RE :: rx where
  "SECTION_RE = Seqs [Bol, Lit ''# File Partition:'', Many sp, Grp 1 (Many1 (\<lambda>b. \<not> sp b)), Many sp, Eol]"

definition NUMBER_RX :: rx where
  "NUMBER_RX = Alt (Seq (LitI ''0x'') (Many1 hexdig)) (Many1 dig)"

definition FATLOAD_RE :: rx where
  "FATLOAD_RE = Seqs [LitI ''fatload'', Many1 sp, LitI ''mmc'', Many1 sp, Many1 dig, Many1 sp,
     LitI ''0x'', Many1 hexdig, Many1 sp, LitI ''$(SdUpgradeImage)'', Many1 sp,
     Grp 1 NUMBER_RX, Many1 sp, Grp 2 NUMBER_RX]"

definition SYSVER_RE :: rx where
  "SYSVER_RE = Seqs [Bol, Many (\<lambda>b. b = 32 \<or> b = 9), Lit ''sysVer'', Wordb, Many (\<lambda>b. b \<noteq> 10), Eol]"

definition FATLOAD_WORD :: rx where
  "FATLOAD_WORD = Seqs [Wordb, LitI ''fatload'', Wordb]"

subsection \<open>Numbers\<close>

definition digval :: "byte \<Rightarrow> nat" where
  "digval b = (if dig b then unat b - 48 else unat (lower_byte b) - 87)"

definition base_val :: "nat \<Rightarrow> bytes \<Rightarrow> nat" where
  "base_val base ds = foldl (\<lambda>n b. base * n + digval b) 0 ds"

definition hex_prefixed :: "bytes \<Rightarrow> bool" where
  "hex_prefixed t \<longleftrightarrow> prefix [48, 120] (map lower_byte t)"

text \<open>\<open>int(text, 0)\<close> of a group of \<open>FATLOAD_RE\<close>: a decimal number may not start with \<open>0\<close> (unless it is zero) nor
  have more than 4300 digits.\<close>

definition int_base0 :: "bytes \<Rightarrow> nat option" where
  "int_base0 t =
     (if hex_prefixed t then Some (base_val 16 (drop 2 t))
      else if 4300 < length t then None
      else if prefix [48] t \<and> list_ex (\<lambda>b. b \<noteq> 48) t then None
      else Some (base_val 10 t))"

subsection \<open>Loads\<close>

record load_row =
  ld_section :: bytes
  ld_index :: nat
  ld_offset :: nat
  ld_size :: nat
  ld_end :: nat
  ld_within :: bool
  ld_body :: bytes

text \<open>\<open>ld_body\<close> is the \<open>script_body\<close> of \<open>package_contract.py\<close>; \<open>carve_upgrade.py\<close> does not report it.
  The bodies between the sections, with the section names.\<close>

definition section_bodies :: "bytes \<Rightarrow> (bytes \<times> bytes) list" where
  "section_bodies script =
     (let ms = finditer SECTION_RE script in
      map (\<lambda>(m, stop). (group 1 m, slice script (m_end m) stop))
        (zip ms (map m_start (tl ms) @ [length script])))"

definition load_row_of :: "bytes \<Rightarrow> bytes \<Rightarrow> bytes \<Rightarrow> nat \<times> match \<Rightarrow> load_row option" where
  "load_row_of data section body jm =
     (case (int_base0 (group 1 (snd jm)), int_base0 (group 2 (snd jm))) of
        (Some sz, Some off) \<Rightarrow>
          Some \<lparr>ld_section = section, ld_index = fst jm, ld_offset = off, ld_size = sz, ld_end = off + sz,
            ld_within = (off + sz \<le> length data), ld_body = take 2000 (strip_by (\<lambda>b. b = 10) body)\<rparr>
      | _ \<Rightarrow> None)"

text \<open>The rows of one section: \<open>None\<close> is the \<open>ValueError\<close> of \<open>int\<close>.\<close>

definition section_rows :: "bytes \<Rightarrow> bytes \<times> bytes \<Rightarrow> load_row list option" where
  "section_rows data nb =
     those (map (load_row_of data (fst nb) (snd nb)) (enumerate 0 (finditer FATLOAD_RE (snd nb))))"

definition script_loads :: "bytes \<Rightarrow> bytes \<Rightarrow> load_row list option" where
  "script_loads data script = map_option concat (those (map (section_rows data) (section_bodies script)))"

subsection \<open>Carving an image\<close>

text \<open>\<open>parse_script\<close>: without the end marker the first 128 KiB are taken for the script.\<close>

definition parse_script :: "bytes \<Rightarrow> bytes \<times> nat" where
  "parse_script data =
     (let cap = (case find_sub END_MARKER data of
          None \<Rightarrow> min (length data) 131072
        | Some idx \<Rightarrow> idx + length END_MARKER)
      in (take cap data, cap))"

text \<open>\<open>safe_name\<close>: every run of other characters becomes one underscore.\<close>

definition name_char :: "byte \<Rightarrow> bool" where
  "name_char b \<longleftrightarrow> is_word b \<or> b = 46 \<or> b = 45"

fun squeeze :: "bool \<Rightarrow> bytes \<Rightarrow> bytes" where
  "squeeze inside [] = []"
| "squeeze inside (b # bs) =
     (if name_char b then b # squeeze False bs
      else if inside then squeeze True bs
      else 95 # squeeze True bs)"

definition safe_name :: "bytes \<Rightarrow> bytes" where
  "safe_name section = squeeze False section"

definition hex_digit :: "nat \<Rightarrow> byte" where
  "hex_digit n = of_nat (if n < 10 then 48 + n else 87 + n)"

fun hex_text :: "nat \<Rightarrow> bytes" where
  "hex_text n = (if n < 16 then [hex_digit n] else hex_text (n div 16) @ [hex_digit (n mod 16)])"

declare hex_text.simps [simp del]

definition pad0 :: "nat \<Rightarrow> bytes \<Rightarrow> bytes" where
  "pad0 w t = replicate (w - length t) 48 @ t"

definition carve_name :: "load_row \<Rightarrow> bytes" where
  "carve_name r = safe_name (ld_section r) @ bytes_of ''.load'' @ bytes_of (show_nat (ld_index r)) @ bytes_of ''.off_''
     @ pad0 8 (hex_text (ld_offset r)) @ bytes_of ''.size_'' @ hex_text (ld_size r) @ bytes_of ''.bin''"

text \<open>\<open>main\<close>: the manifest's script end and rows, and the files written (name and contents, in order).\<close>

definition carve :: "bytes \<Rightarrow> bool \<Rightarrow> (nat \<times> load_row list \<times> (bytes \<times> bytes) list) option" where
  "carve data no_carve =
     (let (script, script_end) = parse_script data in
      map_option (\<lambda>rows. (script_end, rows,
          if no_carve then []
          else map (\<lambda>r. (carve_name r, slice data (ld_offset r) (ld_end r))) (filter ld_within rows)))
        (script_loads data script))"

subsection \<open>Matches\<close>

lemma run_len_bound: "i \<le> length s \<Longrightarrow> i + run_len p s i \<le> length s"
  using length_takeWhile_le [of p "drop i s"] by (simp add: run_len_def)

lemma ways_bound: "(j, h) \<in> set (ways r s (i, g)) \<Longrightarrow> i \<le> length s \<Longrightarrow> i \<le> j \<and> j \<le> length s"
proof (induction r arbitrary: i g j h)
  case (Many p)
  then show ?case using run_len_bound [of i s p] by auto
next
  case (Many1 p)
  then show ?case using run_len_bound [of i s p] by auto
next
  case (Seq a b)
  then obtain k h' where k: "(k, h') \<in> set (ways a s (i, g))" "(j, h) \<in> set (ways b s (k, h'))" by auto
  with Seq.IH(1) [OF k(1) Seq.prems(2)] Seq.IH(2) [OF k(2)] show ?case by simp
qed (auto split: if_splits)

lemma match_at_Some:
  "match_at r s i = Some m \<Longrightarrow> i \<le> length s \<Longrightarrow> m_start m = i \<and> i \<le> m_end m \<and> m_end m \<le> length s"
  using ways_bound [of "m_end m" "m_groups m" r s i "[]"]
  by (auto simp: match_at_def split: list.splits)

definition covers :: "match \<Rightarrow> nat \<Rightarrow> bool" where
  "covers m i \<longleftrightarrow> m_start m \<le> i \<and> i < max (m_end m) (Suc (m_start m))"

lemma finditer_from_ok:
  "m \<in> set (finditer_from r s i) \<Longrightarrow>
   i \<le> m_start m \<and> m_start m \<le> m_end m \<and> m_end m \<le> length s \<and> match_at r s (m_start m) = Some m"
proof (induction r s i rule: finditer_from.induct)
  case (1 r s i)
  show ?case
  proof (cases "length s < i")
    case False
    show ?thesis
    proof (cases "match_at r s i")
      case None
      then show ?thesis using 1 False by (subst (asm) (3) finditer_from.simps) auto
    next
      case (Some n)
      then show ?thesis using 1 False match_at_Some [OF Some] by (subst (asm) (3) finditer_from.simps) auto
    qed
  qed (use 1 in \<open>simp add: finditer_from.simps\<close>)
qed

lemma finditer_from_sorted:
  "sorted_wrt (\<lambda>a b. max (m_end a) (Suc (m_start a)) \<le> m_start b) (finditer_from r s i)"
proof (induction r s i rule: finditer_from.induct)
  case (1 r s i)
  show ?case
  proof (cases "length s < i")
    case False
    show ?thesis
    proof (cases "match_at r s i")
      case None
      then show ?thesis using 1 False by (subst finditer_from.simps) simp
    next
      case (Some n)
      then show ?thesis
        using 1 False match_at_Some [OF Some] finditer_from_ok [of _ r s "max (m_end n) (Suc i)"]
        by (subst finditer_from.simps) fastforce
    qed
  qed (simp add: finditer_from.simps)
qed

lemma finditer_from_complete:
  "i \<le> k \<Longrightarrow> k \<le> length s \<Longrightarrow> match_at r s k \<noteq> None \<Longrightarrow> \<exists>m \<in> set (finditer_from r s i). covers m k"
proof (induction r s i rule: finditer_from.induct)
  case (1 r s i)
  show ?case
  proof (cases "match_at r s i")
    case None
    then have "i \<noteq> k" using 1 by auto
    then show ?thesis using 1 None by (subst finditer_from.simps) auto
  next
    case (Some n)
    have n: "m_start n = i" "i \<le> m_end n" using match_at_Some [OF Some] 1 by auto
    show ?thesis
    proof (cases "k < max (m_end n) (Suc i)")
      case True
      then have "covers n k" using 1 n by (simp add: covers_def)
      then show ?thesis using 1 Some by (subst finditer_from.simps) auto
    next
      case False
      then have "m_end n \<le> k \<and> Suc i \<le> k" by linarith
      then have "\<exists>m \<in> set (finditer_from r s (max (m_end n) (Suc i))). covers m k" using 1 Some by simp
      then show ?thesis using 1 Some by (subst finditer_from.simps) auto
    qed
  qed
qed

lemmas finditer_facts = finditer_from_ok [where i = 0, folded finditer_def] finditer_from_sorted [where i = 0, folded finditer_def]
  finditer_from_complete [where i = 0, folded finditer_def, simplified]

subsection \<open>Rows\<close>

lemma load_row_of_Some:
  "load_row_of data section body jm = Some r \<Longrightarrow> ld_end r = ld_offset r + ld_size r \<and> (ld_within r \<longleftrightarrow> ld_end r \<le> length data)
     \<and> ld_section r = section \<and> ld_index r = fst jm"
  by (auto simp: load_row_of_def split: option.splits)

lemma script_loads_row:
  assumes "script_loads data script = Some rows" "r \<in> set rows"
  shows "\<exists>nb \<in> set (section_bodies script). \<exists>jm \<in> set (enumerate 0 (finditer FATLOAD_RE (snd nb))). load_row_of data (fst nb) (snd nb) jm = Some r"
proof -
  obtain xss where x: "those (map (section_rows data) (section_bodies script)) = Some xss" "rows = concat xss"
    using assms(1) by (auto simp: script_loads_def)
  then obtain xs where xs: "xs \<in> set xss" "r \<in> set xs" using assms(2) by auto
  have "Some xs \<in> set (map (section_rows data) (section_bodies script))"
    using xs(1) by (auto simp flip: those_Some [OF x(1)])
  then obtain nb where nb: "nb \<in> set (section_bodies script)" "section_rows data nb = Some xs" by auto
  have "Some r \<in> set (map (load_row_of data (fst nb) (snd nb)) (enumerate 0 (finditer FATLOAD_RE (snd nb))))"
    using xs(2) those_Some [of "map (load_row_of data (fst nb) (snd nb)) (enumerate 0 (finditer FATLOAD_RE (snd nb)))" xs] nb(2)
    unfolding section_rows_def by (metis image_eqI set_map)
  then obtain jm where "jm \<in> set (enumerate 0 (finditer FATLOAD_RE (snd nb)))" "load_row_of data (fst nb) (snd nb) jm = Some r"
    by auto
  then show ?thesis using nb(1) by blast
qed

lemma script_loads_ok:
  "script_loads data script = Some rows \<Longrightarrow> r \<in> set rows \<Longrightarrow>
   ld_end r = ld_offset r + ld_size r \<and> (ld_within r \<longleftrightarrow> ld_end r \<le> length data)"
  using script_loads_row load_row_of_Some by blast

subsection \<open>A small image\<close>

definition demo_script :: bytes where
  "demo_script = bytes_of ''sysVer 20240101000000'' @ [10] @ bytes_of ''# File Partition: a'' @ [10]
     @ bytes_of ''fatload mmc 0 0x1 $(SdUpgradeImage) 0x2 0x80'' @ [10] @ END_MARKER"

definition demo_image :: bytes where
  "demo_image = demo_script @ [10] @ replicate (128 - Suc (length demo_script)) 255 @ [7, 8] @ [1, 2, 3]"

lemma demo_length: "length demo_script = 120" "length demo_image = 133"
  by (simp_all add: demo_image_def demo_script_def END_MARKER_def)

lemma demo_marker: "find_sub END_MARKER demo_image = Some 87"
  by code_simp

lemma demo_sections: "section_bodies demo_script = [(bytes_of ''a'', slice demo_script 41 120)]"
  by code_simp

lemma demo_row: "section_rows demo_image (bytes_of ''a'', slice demo_script 41 120)
   = Some [\<lparr>ld_section = bytes_of ''a'', ld_index = 0, ld_offset = 128, ld_size = 2, ld_end = 130, ld_within = True,
       ld_body = strip_by (\<lambda>b. b = 10) (slice demo_script 41 120)\<rparr>]"
proof -
  have "map (\<lambda>m. (group 1 m, group 2 m)) (finditer FATLOAD_RE (slice demo_script 41 120)) = [(bytes_of ''0x2'', bytes_of ''0x80'')]"
    by code_simp
  then obtain m where m: "finditer FATLOAD_RE (slice demo_script 41 120) = [m]" "group 1 m = bytes_of ''0x2''" "group 2 m = bytes_of ''0x80''"
    by (auto simp: map_eq_Cons_conv)
  have n: "int_base0 (bytes_of ''0x2'') = Some 2" "int_base0 (bytes_of ''0x80'') = Some 128" by code_simp+
  have "length (strip_by (\<lambda>b. b = 10) (slice demo_script 41 120)) \<le> 2000" by code_simp
  then show ?thesis by (simp add: section_rows_def m load_row_of_def n demo_length enumerate_eq_zip del: One_nat_def)
qed

lemma demo_loads: "script_loads demo_image demo_script
   = Some [\<lparr>ld_section = bytes_of ''a'', ld_index = 0, ld_offset = 128, ld_size = 2, ld_end = 130, ld_within = True,
       ld_body = strip_by (\<lambda>b. b = 10) (slice demo_script 41 120)\<rparr>]"
  by (simp add: script_loads_def demo_sections demo_row)

lemma demo_parse: "parse_script demo_image = (demo_script, 120)"
  by (simp add: parse_script_def demo_marker) (simp add: END_MARKER_def demo_image_def demo_length)

subsection \<open>Properties\<close>

text \<open>Carving: the script ends right after the first end marker (when there is one); every
  row is the load of one fatload command in the body of one section, rows outside the image
  write no file, and each file written holds exactly the declared number of the image's bytes,
  in the order of the rows.\<close>

theorem carve_exact:
  assumes "carve data False = Some (script_end, rows, files)"
  shows "map fst files = map carve_name (filter ld_within rows)
    \<and> map (length \<circ> snd) files = map ld_size (filter ld_within rows)
    \<and> map snd files = map (\<lambda>r. slice data (ld_offset r) (ld_end r)) (filter ld_within rows)
    \<and> (\<forall>r \<in> set rows. ld_end r = ld_offset r + ld_size r \<and> (ld_within r \<longleftrightarrow> ld_end r \<le> length data)
        \<and> (\<exists>body m. (ld_section r, body) \<in> set (section_bodies (take script_end data)) \<and> m \<in> set (finditer FATLOAD_RE body)
             \<and> int_base0 (group 1 m) = Some (ld_size r) \<and> int_base0 (group 2 m) = Some (ld_offset r)))
    \<and> (\<forall>idx. find_sub END_MARKER data = Some idx \<longrightarrow> script_end = idx + length END_MARKER \<and> script_end \<le> length data)"
proof -
  have rows: "script_loads data (take script_end data) = Some rows" and se: "parse_script data = (take script_end data, script_end)"
    and files: "files = map (\<lambda>r. (carve_name r, slice data (ld_offset r) (ld_end r))) (filter ld_within rows)"
    using assms by (auto simp: carve_def parse_script_def Let_def)
  have "map (length \<circ> snd) files = map ld_size (filter ld_within rows)"
    using script_loads_ok [OF rows] by (auto simp: files)
  moreover have "\<exists>body m. (ld_section r, body) \<in> set (section_bodies (take script_end data)) \<and> m \<in> set (finditer FATLOAD_RE body)
      \<and> int_base0 (group 1 m) = Some (ld_size r) \<and> int_base0 (group 2 m) = Some (ld_offset r)" if r: "r \<in> set rows" for r
  proof -
    from script_loads_row [OF rows r] obtain n b j m where *: "(n, b) \<in> set (section_bodies (take script_end data))"
        "(j, m) \<in> set (enumerate 0 (finditer FATLOAD_RE b))" "load_row_of data n b (j, m) = Some r" by auto
    then have "m \<in> set (finditer FATLOAD_RE b)" by (auto simp: in_set_enumerate_eq)
    with * show ?thesis by (intro exI [of _ b] exI [of _ m]) (auto simp: load_row_of_def split: option.splits)
  qed
  moreover have "script_end = idx + length END_MARKER \<and> script_end \<le> length data" if "find_sub END_MARKER data = Some idx" for idx
    using that se find_sub_bound [OF that] by (simp add: parse_script_def Let_def)
  ultimately show ?thesis using script_loads_ok [OF rows] by (auto simp: files)
qed

theorem carve_exact_witness:
  "\<exists>rows files. carve demo_image False = Some (120, rows, files) \<and> map (length \<circ> snd) files = [2]"
proof -
  obtain rows files where c: "carve demo_image False = Some (120, rows, files)" and r: "map ld_size (filter ld_within rows) = [2]"
    by (simp add: carve_def demo_parse demo_loads)
  show ?thesis using carve_exact [OF c] c r by auto
qed

end
