(* ===== verification/Tar.thy ===== *)
theory Tar
  imports Prelude
begin

text \<open>
  The outer vendor TAR: \<open>parse_tar_raw\<close> of \<open>tools/fw/package_contract.py\<close> and \<open>patch_header\<close>,
  \<open>read_raw_members\<close> and the assembling loop of \<open>tools/fw/tar_assemble.py\<close>. Header fields are read as
  Python reads them (\<open>int(..., 8)\<close> with sign, prefix and underscores). A size may then be negative, so
  offsets are \<open>int\<close> and slices follow Python's rule for negative bounds. \<open>read_raw_members\<close> has no
  check for the end of the file: it is a partial function, and not returning is \<open>None\<close>.

  Shown: a patched header has the new size, a right checksum and is otherwise unchanged; a
  golden archive is read and reassembled byte for byte; an assembled archive is parsed back to the
  member contents; and on an archive without an end block the reader never returns.
\<close>

subsection \<open>Octal numbers\<close>

fun oct_run :: "nat \<Rightarrow> bool \<Rightarrow> bytes \<Rightarrow> nat option" where
  "oct_run acc dig [] = (if dig then Some acc else None)"
| "oct_run acc dig (b # bs) =
     (if 48 \<le> b \<and> b \<le> 55 then oct_run (8 * acc + (unat b - 48)) True bs
      else if b = 95 \<and> dig then oct_run acc False bs
      else None)"

definition oct_unsigned :: "bytes \<Rightarrow> nat option" where
  "oct_unsigned bs =
     (if prefix [48, 111] bs \<or> prefix [48, 79] bs
      then oct_run 0 False (if prefix [95] (drop 2 bs) then drop 3 bs else drop 2 bs)
      else oct_run 0 False bs)"

definition parse_oct :: "bytes \<Rightarrow> int option" where
  "parse_oct bs =
     (if prefix [43] bs then map_option int (oct_unsigned (tl bs))
      else if prefix [45] bs then map_option (\<lambda>n. - int n) (oct_unsigned (tl bs))
      else map_option int (oct_unsigned bs))"

definition ascii_ws :: "byte \<Rightarrow> bool" where
  "ascii_ws b \<longleftrightarrow> b = 32 \<or> (9 \<le> b \<and> b \<le> 13)"

text \<open>\<open>int(field.split(b"\\x00")[0].strip() or b"0", 8)\<close>.\<close>

definition oct_field :: "bytes \<Rightarrow> int option" where
  "oct_field field =
     (let s = strip_by ascii_ws (hd (split_on 0 field)) in parse_oct (if s = [] then [48] else s))"

definition zeros :: "nat \<Rightarrow> bytes" where
  "zeros n = replicate n 0"

definition padded :: "nat \<Rightarrow> nat" where
  "padded n = (n + 511) div 512 * 512"

subsection \<open>Parsing an archive\<close>

record tar_member =
  tm_order :: nat
  tm_name :: bytes
  tm_size :: nat
  tm_mode :: int
  tm_uid :: int
  tm_gid :: int
  tm_mtime :: int
  tm_typeflag :: bytes
  tm_magic :: bytes
  tm_uname :: bytes
  tm_gname :: bytes
  tm_header_offset :: nat
  tm_data_offset :: nat
  tm_header :: bytes
  tm_data :: bytes

datatype tar_error = Truncated_header nat | Bad_octal | Truncated_member bytes

text \<open>One header; the hashes of the source are hashes of \<open>tm_header\<close> and \<open>tm_data\<close>.\<close>

definition parse_member :: "bytes \<Rightarrow> nat \<Rightarrow> nat \<Rightarrow> tar_error + tar_member" where
  "parse_member raw off ord' =
     (let hdr = slice raw off (off + 512); cut = (\<lambda>a b. hd (split_on 0 (slice hdr a b))) in
      case (oct_field (slice hdr 100 108), oct_field (slice hdr 108 116), oct_field (slice hdr 116 124),
            oct_field (slice hdr 124 136), oct_field (slice hdr 136 148)) of
        (Some mode, Some uid, Some gid, Some sz, Some mtime) \<Rightarrow>
          (let data = py_slice raw (int off + 512) (int off + 512 + sz) in
           if int (length data) \<noteq> sz then Inl (Truncated_member (cut 0 100))
           else Inr \<lparr>tm_order = ord', tm_name = cut 0 100, tm_size = nat sz, tm_mode = mode, tm_uid = uid, tm_gid = gid,
                   tm_mtime = mtime, tm_typeflag = slice hdr 156 157, tm_magic = slice hdr 257 265,
                   tm_uname = cut 265 297, tm_gname = cut 297 329, tm_header_offset = off,
                   tm_data_offset = off + 512, tm_header = hdr, tm_data = data\<rparr>)
      | _ \<Rightarrow> Inl Bad_octal)"

function tar_loop :: "bytes \<Rightarrow> nat \<Rightarrow> tar_member list \<Rightarrow> tar_error + tar_member list" where
  "tar_loop raw off members =
     (if off + 512 > length raw then Inl (Truncated_header off)
      else if slice raw off (off + 512) = zeros 512 then Inr members
      else case parse_member raw off (length members) of
        Inl e \<Rightarrow> Inl e
      | Inr m \<Rightarrow> tar_loop raw (off + 512 + padded (tm_size m)) (members @ [m]))"
  by pat_completeness auto
termination
  by (relation "measure (\<lambda>(raw, off, members). length raw - off)") auto

declare tar_loop.simps [simp del]

definition parse_tar_raw :: "bytes \<Rightarrow> tar_error + tar_member list" where
  "parse_tar_raw raw = tar_loop raw 0 []"

subsection \<open>Assembling an archive\<close>

fun octal :: "nat \<Rightarrow> bytes" where
  "octal n = (if n < 8 then [of_nat (48 + n)] else octal (n div 8) @ [of_nat (48 + n mod 8)])"

declare octal.simps [simp del]

text \<open>The conversion \<open>%0<w>o\<close>.\<close>

definition oct_pad :: "nat \<Rightarrow> nat \<Rightarrow> bytes" where
  "oct_pad w n = replicate (w - length (octal n)) 48 @ octal n"

definition byte_sum :: "bytes \<Rightarrow> nat" where
  "byte_sum bs = sum_list (map unat bs)"

definition put :: "nat \<Rightarrow> nat \<Rightarrow> bytes \<Rightarrow> bytes \<Rightarrow> bytes" where
  "put a b new h = take a h @ new @ drop b h"

definition patch_header :: "bytes \<Rightarrow> nat \<Rightarrow> bytes" where
  "patch_header hdr sz =
     (let h = put 124 136 (oct_pad 11 sz @ [0]) hdr;
          h = put 148 156 (replicate 8 32) h
      in put 148 156 (oct_pad 6 (byte_sum h) @ [0, 32]) h)"

text \<open>\<open>read_raw_members\<close>: \<open>Inl\<close> is the \<open>ValueError\<close> of \<open>int\<close> or the failed assertion on the trailer.\<close>

partial_function (option) read_loop :: "bytes \<Rightarrow> int \<Rightarrow> (bytes \<times> bytes) list \<Rightarrow> (string + int \<times> (bytes \<times> bytes) list) option" where
  [code]: "read_loop raw off members =
     (let hdr = py_slice raw off (off + 512) in
      if hdr = zeros 512 then Some (Inr (off, members))
      else case oct_field (slice hdr 124 136) of
        None \<Rightarrow> Some (Inl ''invalid literal'')
      | Some sz \<Rightarrow>
          read_loop raw (off + (512 + (sz + 511) div 512 * 512))
            (members @ [(hdr, py_slice raw (off + 512) (off + 512 + sz))]))"

definition read_raw_members :: "bytes \<Rightarrow> (string + (bytes \<times> bytes) list) option" where
  "read_raw_members raw =
     (case read_loop raw 0 [] of
        None \<Rightarrow> None
      | Some (Inl e) \<Rightarrow> Some (Inl e)
      | Some (Inr (off, members)) \<Rightarrow>
          (let trailing = py_slice raw off (int (length raw)) in
           if trailing \<noteq> [] \<and> list_all (\<lambda>b. b = 0) trailing then Some (Inr members)
           else Some (Inl ''nonzero TAR trailer'')))"

text \<open>The scan for the trailer that \<open>main\<close> repeats, without collecting the members.\<close>

definition trailer_offset :: "bytes \<Rightarrow> (string + int) option" where
  "trailer_offset raw = map_option (\<lambda>r. case r of Inl e \<Rightarrow> Inl e | Inr (off, _) \<Rightarrow> Inr off) (read_loop raw 0 [])"

definition assemble_members :: "(bytes \<times> bytes) list \<Rightarrow> bytes list \<Rightarrow> (string \<times> nat) list \<Rightarrow> bytes" where
  "assemble_members golden blobs contract =
     concat (map (\<lambda>((hdr, old), blob, meta). patch_header hdr (length blob) @ blob @ zeros (padded (length blob) - length blob))
       (zip golden (zip blobs contract)))"

text \<open>\<open>main\<close>: golden mode (\<open>spec = None\<close>) takes the members' own contents, package mode the files of
  \<open>--members-json\<close>, a dict in which the last entry of a name counts. \<open>contract\<close> holds the name and the
  size of each of the contract's outer members.\<close>

definition golden_order :: "(bytes \<times> bytes) list \<Rightarrow> (string \<times> nat) list \<Rightarrow> string + unit" where
  "golden_order golden contract =
     (if length contract < length golden then Inl ''IndexError''
      else if map fst (take (length golden) contract) \<noteq> map fst contract then Inl ''contract order != golden order''
      else Inr ())"

definition member_blobs :: "(bytes \<times> bytes) list \<Rightarrow> (string \<times> nat) list \<Rightarrow> (string \<times> bytes) list option \<Rightarrow> string + bytes list" where
  "member_blobs golden contract spec =
     (case spec of
        None \<Rightarrow> Inr (map snd golden)
      | Some ms \<Rightarrow>
          if set (map fst ms) \<noteq> set (map fst contract) then Inl ''member set''
          else Inr (map (\<lambda>(n, _). the (map_of (rev ms) n)) contract))"

definition tar_assemble :: "bytes \<Rightarrow> (string \<times> nat) list \<Rightarrow> (string \<times> bytes) list option \<Rightarrow> (string + bytes) option" where
  "tar_assemble raw contract spec =
     (case read_raw_members raw of
        None \<Rightarrow> None
      | Some (Inl e) \<Rightarrow> Some (Inl e)
      | Some (Inr golden) \<Rightarrow>
          (case golden_order golden contract of
             Inl e \<Rightarrow> Some (Inl e)
           | Inr _ \<Rightarrow>
               (case member_blobs golden contract spec of
                  Inl e \<Rightarrow> Some (Inl e)
                | Inr bs \<Rightarrow>
                    if spec = None \<and> list_ex (\<lambda>(_, b, _, s). length b \<noteq> s) (zip golden (zip bs contract))
                    then Some (Inl ''golden member size changed'')
                    else (case trailer_offset raw of
                        None \<Rightarrow> None
                      | Some (Inl e) \<Rightarrow> Some (Inl e)
                      | Some (Inr off) \<Rightarrow>
                          Some (Inr (assemble_members golden bs contract @ py_slice raw off (int (length raw))))))))"

subsection \<open>Slices\<close>

lemma py_slice_ints:
  "py_slice xs (int a) (int a + 512) = slice xs a (a + 512)"
  "py_slice xs (int a + 512) (int a + 512 + int n) = slice xs (a + 512) (a + 512 + n)"
  "py_slice xs (int a) (int (length xs)) = drop a xs"
  using py_slice_nat [of xs a "a + 512"] py_slice_nat [of xs "a + 512" "a + 512 + n"] py_slice_nat [of xs a "length xs"]
  by (simp_all add: slice_def)

lemma slice_parts:
  "slice (xs @ ys) (length xs) (length xs + n) = take n ys"
  by (simp add: slice_def)

subsection \<open>Octal fields\<close>

definition oct_digits :: "bytes \<Rightarrow> bool" where
  "oct_digits bs = list_all (\<lambda>b. 48 \<le> b \<and> b \<le> 55) bs"

definition oct_val :: "bytes \<Rightarrow> nat" where
  "oct_val bs = foldl (\<lambda>n b. 8 * n + (unat b - 48)) 0 bs"

lemma oct_run_digits:
  "oct_digits bs \<Longrightarrow> bs \<noteq> [] \<Longrightarrow> oct_run acc d bs = Some (foldl (\<lambda>n b. 8 * n + (unat b - 48)) acc bs)"
proof (induction bs arbitrary: acc d)
  case (Cons b bs)
  then show ?case by (cases "bs = []") (auto simp: oct_digits_def)
qed simp

lemma of_nat_digit: "n < 8 \<Longrightarrow> 48 \<le> (of_nat (48 + n) :: byte) \<and> (of_nat (48 + n) :: byte) \<le> 55 \<and> unat (of_nat (48 + n) :: byte) - 48 = n"
proof -
  have "\<forall>n \<in> set [0..<8]. 48 \<le> (of_nat (48 + n) :: byte) \<and> (of_nat (48 + n) :: byte) \<le> 55 \<and> unat (of_nat (48 + n) :: byte) - 48 = n"
    by code_simp
  then show "n < 8 \<Longrightarrow> 48 \<le> (of_nat (48 + n) :: byte) \<and> (of_nat (48 + n) :: byte) \<le> 55 \<and> unat (of_nat (48 + n) :: byte) - 48 = n"
    by (simp del: of_nat_add)
qed

lemma octal_facts: "oct_digits (octal n) \<and> octal n \<noteq> [] \<and> oct_val (octal n) = n"
proof (induction n rule: octal.induct)
  case (1 n)
  show ?case
  proof (cases "n < 8")
    case True
    then show ?thesis using of_nat_digit [OF True] by (subst (1 2 3) octal.simps) (simp add: oct_digits_def oct_val_def del: of_nat_add)
  next
    case False
    have d: "n mod 8 < 8" by simp
    from False 1 of_nat_digit [OF d] show ?thesis
      by (subst (1 2 3) octal.simps) (simp add: oct_digits_def oct_val_def del: of_nat_add)
  qed
qed

lemma length_octal: "0 < k \<Longrightarrow> n < 8 ^ k \<Longrightarrow> length (octal n) \<le> k"
proof (induction k arbitrary: n)
  case (Suc k)
  show ?case
  proof (cases "n < 8")
    case True
    then show ?thesis by (subst octal.simps) simp
  next
    case False
    then have "0 < k" using Suc.prems by (cases k) auto
    moreover have "n div 8 < 8 ^ k" using Suc.prems by (simp add: less_mult_imp_div_less mult.commute)
    ultimately have "length (octal (n div 8)) \<le> k" by (rule Suc.IH)
    with False show ?thesis by (subst octal.simps) simp
  qed
qed simp

lemma oct_pad_facts:
  "oct_digits (oct_pad w n)" "oct_pad w n \<noteq> []" "oct_val (oct_pad w n) = n"
  "0 < w \<Longrightarrow> n < 8 ^ w \<Longrightarrow> length (oct_pad w n) = w"
proof -
  show "oct_digits (oct_pad w n)" "oct_pad w n \<noteq> []"
    using octal_facts [of n] by (auto simp: oct_pad_def oct_digits_def list_all_iff)
  have "foldl (\<lambda>n b. 8 * n + (unat b - 48)) 0 (replicate k (48 :: byte)) = 0" for k by (induction k) simp_all
  then show "oct_val (oct_pad w n) = n" using octal_facts [of n] by (simp add: oct_pad_def oct_val_def)
  show "0 < w \<Longrightarrow> n < 8 ^ w \<Longrightarrow> length (oct_pad w n) = w"
    using length_octal [of w n] by (simp add: oct_pad_def)
qed

lemma digit_range: "48 \<le> b \<Longrightarrow> b \<le> 55 \<Longrightarrow> b \<noteq> 0 \<and> \<not> ascii_ws b \<and> b \<noteq> 43 \<and> b \<noteq> 45 \<and> b \<noteq> 111 \<and> b \<noteq> (79 :: byte)"
  by (auto simp: ascii_ws_def word_le_nat_alt)

lemma oct_field_digits:
  assumes "oct_digits bs" "bs \<noteq> []"
  shows "oct_field (bs @ 0 # r) = Some (int (oct_val bs))"
proof -
  have in_range: "b \<in> set bs \<Longrightarrow> 48 \<le> b \<and> b \<le> 55" for b using assms(1) by (auto simp: oct_digits_def list_all_iff)
  have s: "hd (split_on 0 (bs @ 0 # r)) = bs"
    using split_on_append [of 0 bs r] in_range digit_range by force
  have st: "strip_by ascii_ws bs = bs"
    using assms(2) in_range digit_range by (intro strip_by_id) auto
  obtain a as where bs: "bs = a # as" using assms(2) by (cases bs) auto
  have a: "a \<noteq> 43" "a \<noteq> 45" using in_range [of a] digit_range [of a] bs by auto
  have p: "\<not> prefix [48, 111] bs" "\<not> prefix [48, 79] bs"
    using in_range digit_range bs by (cases as; force)+
  have u: "oct_unsigned bs = Some (oct_val bs)"
    using p oct_run_digits [OF assms, of 0 False] by (simp add: oct_unsigned_def oct_val_def)
  have "\<not> prefix [43] bs" "\<not> prefix [45] bs" using a bs by auto
  then have "parse_oct bs = Some (int (oct_val bs))" using u by (simp add: parse_oct_def)
  then show ?thesis using s st assms(2) by (simp add: oct_field_def Let_def)
qed

lemma oct_field_pad: "oct_field (oct_pad w n @ [0]) = Some (int n)" "oct_field (oct_pad w n @ [0, 32]) = Some (int n)"
  using oct_field_digits [OF oct_pad_facts(1,2)] oct_pad_facts(3) by (metis append.simps(2))+

subsection \<open>Patched headers\<close>

lemma length_put: "a \<le> b \<Longrightarrow> b \<le> length h \<Longrightarrow> length new = b - a \<Longrightarrow> length (put a b new h) = length h"
  by (simp add: put_def)

lemma slice_put: "a \<le> length h \<Longrightarrow> length new = b - a \<Longrightarrow> a \<le> b \<Longrightarrow> slice (put a b new h) a b = new"
  by (simp add: put_def slice_def)

lemma nth_put_other:
  "a \<le> b \<Longrightarrow> b \<le> length h \<Longrightarrow> length new = b - a \<Longrightarrow> i < a \<or> b \<le> i \<Longrightarrow> i < length h \<Longrightarrow> put a b new h ! i = h ! i"
  by (auto simp: put_def nth_append)

lemma slice_put_other:
  assumes "a \<le> b" "b \<le> length h" "length new = b - a" "d \<le> a \<or> b \<le> c" "d \<le> length h"
  shows "slice (put a b new h) c d = slice h c d"
proof (rule nth_equalityI)
  show len: "length (slice (put a b new h) c d) = length (slice h c d)" using assms length_put [OF assms(1-3)] by simp
  fix i assume "i < length (slice (put a b new h) c d)"
  then have i: "i < d - c" "c + i < length h" using len by auto
  then show "slice (put a b new h) c d ! i = slice h c d ! i"
    using assms nth_put_other [OF assms(1-3), of "c + i"] length_put [OF assms(1-3)] by (simp add: nth_slice) linarith
qed

lemma byte_sum_bound: "byte_sum bs \<le> 255 * length bs"
proof (induction bs)
  case (Cons b bs)
  have "unat b \<le> 255" using unat_byte_less [of b] by linarith
  with Cons show ?case by (simp add: byte_sum_def)
qed (simp add: byte_sum_def)

definition blank_checksum :: "bytes \<Rightarrow> bytes" where
  "blank_checksum h = put 148 156 (replicate 8 32) h"

lemma patch_header_facts:
  assumes "length hdr = 512" "sz < 8 ^ 11"
  shows "length (patch_header hdr sz) = 512"
    and "slice (patch_header hdr sz) 124 136 = oct_pad 11 sz @ [0]"
    and "slice (patch_header hdr sz) 148 156 = oct_pad 6 (byte_sum (blank_checksum (patch_header hdr sz))) @ [0, 32]"
    and "d \<le> 124 \<or> 136 \<le> c \<Longrightarrow> d \<le> 148 \<or> 156 \<le> c \<Longrightarrow> d \<le> 512 \<Longrightarrow> slice (patch_header hdr sz) c d = slice hdr c d"
proof -
  define h1 where "h1 = put 124 136 (oct_pad 11 sz @ [0]) hdr"
  define h2 where "h2 = put 148 156 (replicate 8 32) h1"
  define c6 where "c6 = oct_pad 6 (byte_sum h2) @ [0, 32]"
  have l11: "length (oct_pad 11 sz @ [0]) = 136 - 124" using oct_pad_facts(4) [of 11 sz] assms(2) by simp
  have h1: "length h1 = 512" using length_put [of 124 136 hdr "oct_pad 11 sz @ [0]"] l11 assms(1) by (simp add: h1_def)
  have h2: "length h2 = 512" using length_put [of 148 156 h1 "replicate 8 32"] h1 by (simp add: h2_def)
  have "byte_sum h2 < 8 ^ 6" using byte_sum_bound [of h2] h2 by simp
  then have l6: "length c6 = 156 - 148" using oct_pad_facts(4) [of 6 "byte_sum h2"] by (simp add: c6_def)
  have p: "patch_header hdr sz = put 148 156 c6 h2"
    by (simp add: patch_header_def Let_def h1_def h2_def c6_def)
  show len: "length (patch_header hdr sz) = 512" using length_put [of 148 156 h2 c6] l6 h2 by (simp add: p)
  have other: "slice (patch_header hdr sz) c d = slice h1 c d" if "d \<le> 148 \<or> 156 \<le> c" "d \<le> 512" for c d
    using slice_put_other [of 148 156 h2 c6 d c] slice_put_other [of 148 156 h1 "replicate 8 32" d c] that h1 h2 l6
    by (simp add: p h2_def)
  show "slice (patch_header hdr sz) 124 136 = oct_pad 11 sz @ [0]"
    using other [of 136 124] slice_put [of 124 hdr "oct_pad 11 sz @ [0]" 136] l11 assms(1) by (simp add: h1_def)
  have bc: "blank_checksum (patch_header hdr sz) = h2"
  proof -
    have "put a b new' (put a b new h) = put a b new' h" if "a \<le> length h" "length new = b - a" "a \<le> b" for a b new new' and h :: bytes
      using that by (simp add: put_def)
    then show ?thesis using l6 h1 h2 unfolding blank_checksum_def p h2_def by simp
  qed
  show "slice (patch_header hdr sz) 148 156 = oct_pad 6 (byte_sum (blank_checksum (patch_header hdr sz))) @ [0, 32]"
    unfolding bc using slice_put [of 148 h2 c6 156] l6 h2 by (simp add: p c6_def)
  show "slice (patch_header hdr sz) c d = slice hdr c d"
    if "d \<le> 124 \<or> 136 \<le> c" "d \<le> 148 \<or> 156 \<le> c" "d \<le> 512"
    using other [OF that(2,3)] slice_put_other [of 124 136 hdr "oct_pad 11 sz @ [0]" d c] that l11 assms(1) by (simp add: h1_def)
qed

subsection \<open>Archives\<close>

definition member_bytes :: "bytes \<times> bytes \<Rightarrow> bytes" where
  "member_bytes m = fst m @ snd m @ zeros (padded (length (snd m)) - length (snd m))"

definition archive :: "(bytes \<times> bytes) list \<Rightarrow> bytes \<Rightarrow> bytes" where
  "archive ms tail = concat (map member_bytes ms) @ tail"

definition end_block :: "bytes \<Rightarrow> bool" where
  "end_block tail \<longleftrightarrow> 512 \<le> length tail \<and> list_all (\<lambda>b. b = 0) tail"

text \<open>A member whose header holds the size of its contents.\<close>

definition member_ok :: "bytes \<times> bytes \<Rightarrow> bool" where
  "member_ok m \<longleftrightarrow> length (fst m) = 512 \<and> oct_field (slice (fst m) 124 136) = Some (int (length (snd m))) \<and> fst m \<noteq> zeros 512"

lemma padded_ge: "n \<le> padded n" unfolding padded_def by linarith

lemma length_member: "length (fst m) = 512 \<Longrightarrow> length (member_bytes m) = 512 + padded (length (snd m))"
  using padded_ge [of "length (snd m)"] by (simp add: member_bytes_def zeros_def)

lemma end_block_slice: "end_block tail \<Longrightarrow> slice (pre @ tail) (length pre) (length pre + 512) = zeros 512"
  by (auto simp: end_block_def slice_parts zeros_def list_all_iff list_eq_iff_nth_eq)

lemma member_slices:
  assumes "length (fst m) = 512"
  shows "slice (pre @ member_bytes m @ rest) (length pre) (length pre + 512) = fst m"
    and "slice (pre @ member_bytes m @ rest) (length pre + 512) (length pre + 512 + length (snd m)) = snd m"
proof -
  show "slice (pre @ member_bytes m @ rest) (length pre) (length pre + 512) = fst m"
    using assms by (simp add: slice_parts member_bytes_def)
  show "slice (pre @ member_bytes m @ rest) (length pre + 512) (length pre + 512 + length (snd m)) = snd m"
    using slice_parts [of "pre @ fst m" "snd m @ zeros (padded (length (snd m)) - length (snd m)) @ rest" "length (snd m)"] assms
    by (simp add: member_bytes_def)
qed

lemma padded_int: "(int n + 511) div 512 * 512 = int (padded n)"
  by (simp add: padded_def of_nat_div)

lemma read_loop_member:
  assumes "member_ok m"
  shows "read_loop (pre @ member_bytes m @ rest) (int (length pre)) acc
         = read_loop (pre @ member_bytes m @ rest) (int (length (pre @ member_bytes m))) (acc @ [m])"
proof -
  have h: "length (fst m) = 512" using assms by (simp add: member_ok_def)
  have next': "int (length pre) + (512 + int (padded (length (snd m)))) = int (length (pre @ member_bytes m))"
    by (simp add: length_member [OF h])
  show ?thesis
    using assms next' by (subst read_loop.simps)
      (simp add: Let_def py_slice_ints member_slices [OF h] member_ok_def padded_int del: length_append)
qed

lemma read_loop_archive:
  assumes "list_all member_ok ms"
  shows "read_loop (pre @ archive ms tail) (int (length pre)) acc
         = read_loop (pre @ archive ms tail) (int (length (pre @ archive ms []))) (acc @ ms)"
  using assms
proof (induction ms arbitrary: pre acc)
  case (Cons m ms)
  have ok: "member_ok m" using Cons.prems by simp
  show ?case
    using Cons.IH [of "pre @ member_bytes m" "acc @ [m]"] Cons.prems
      read_loop_member [OF ok, of pre "concat (map member_bytes ms) @ tail" acc]
    by (simp add: archive_def)
qed (simp add: archive_def)

lemma read_loop_end:
  assumes "end_block tail"
  shows "read_loop (pre @ tail) (int (length pre)) acc = Some (Inr (int (length pre), acc))"
  by (subst read_loop.simps) (simp add: Let_def py_slice_ints end_block_slice [OF assms])

lemma read_archive:
  assumes "list_all member_ok ms" "end_block tail"
  shows "read_loop (archive ms tail) 0 [] = Some (Inr (int (length (archive ms [])), ms))"
    and "read_raw_members (archive ms tail) = Some (Inr ms)"
    and "trailer_offset (archive ms tail) = Some (Inr (int (length (archive ms []))))"
    and "py_slice (archive ms tail) (int (length (archive ms []))) (int (length (archive ms tail))) = tail"
proof -
  have a: "archive ms tail = archive ms [] @ tail" by (simp add: archive_def)
  show r: "read_loop (archive ms tail) 0 [] = Some (Inr (int (length (archive ms [])), ms))"
    using read_loop_archive [OF assms(1), of "[]" tail "[]"] read_loop_end [OF assms(2), of "archive ms []" ms] by (simp add: a)
  show t: "py_slice (archive ms tail) (int (length (archive ms []))) (int (length (archive ms tail))) = tail"
    unfolding py_slice_ints by (simp add: a)
  have "tail \<noteq> []" "list_all (\<lambda>b. b = 0) tail" using assms(2) by (auto simp: end_block_def)
  then show "read_raw_members (archive ms tail) = Some (Inr ms)" by (simp add: read_raw_members_def r t Let_def del: py_slice_nat)
  show "trailer_offset (archive ms tail) = Some (Inr (int (length (archive ms []))))" by (simp add: trailer_offset_def r)
qed

text \<open>Past the end of the data every header is empty, every size \<open>0\<close>, and the reader goes on.\<close>

lemma read_loop_past_end:
  assumes "int (length raw) \<le> off"
  shows "read_loop raw off acc = None"
proof -
  have "\<not> int (length raw) \<le> off" if "read_loop raw off acc = Some r" for r
  proof (rule read_loop.raw_induct [where P = "\<lambda>raw off acc r. \<not> int (length raw) \<le> off", OF _ that])
    fix rl :: "bytes \<Rightarrow> int \<Rightarrow> (bytes \<times> bytes) list \<Rightarrow> (string + int \<times> (bytes \<times> bytes) list) option"
      and raw :: bytes and off acc r
    assume IH: "\<And>raw off acc r. rl raw off acc = Some r \<Longrightarrow> \<not> int (length raw) \<le> off"
      and body: "(let hdr = py_slice raw off (off + 512) in
          if hdr = zeros 512 then Some (Inr (off, acc))
          else case oct_field (slice hdr 124 136) of None \<Rightarrow> Some (Inl ''invalid literal'')
            | Some sz \<Rightarrow> rl raw (off + (512 + (sz + 511) div 512 * 512)) (acc @ [(hdr, py_slice raw (off + 512) (off + 512 + sz))])) = Some r"
    show "\<not> int (length raw) \<le> off"
    proof
      assume ge: "int (length raw) \<le> off"
      have "py_slice raw off (off + 512) = []" using ge by (simp add: py_slice_def clip_def slice_def)
      moreover have "oct_field [] = Some 0" by (simp add: oct_field_def) code_simp
      ultimately have "rl raw (off + 512) (acc @ [([], py_slice raw (off + 512) (off + 512))]) = Some r"
        using body by (simp add: Let_def zeros_def slice_def)
      from IH [OF this] ge show False by simp
    qed
  qed
  then show ?thesis using assms by (cases "read_loop raw off acc") auto
qed

text \<open>What \<open>parse_tar_raw\<close> reports of a header besides the size: name, mode, owner, time, type, magic, names.\<close>

definition header_meta :: "bytes \<Rightarrow> bytes \<times> int option list \<times> bytes list" where
  "header_meta h =
     (hd (split_on 0 (slice h 0 100)),
      map oct_field [slice h 100 108, slice h 108 116, slice h 116 124, slice h 136 148],
      [slice h 156 157, slice h 257 265, hd (split_on 0 (slice h 265 297)), hd (split_on 0 (slice h 297 329))])"

definition member_meta :: "tar_member \<Rightarrow> bytes \<times> int option list \<times> bytes list" where
  "member_meta m = (tm_name m, map Some [tm_mode m, tm_uid m, tm_gid m, tm_mtime m], [tm_typeflag m, tm_magic m, tm_uname m, tm_gname m])"

definition readable :: "bytes \<Rightarrow> bool" where
  "readable h \<longleftrightarrow> None \<notin> set (fst (snd (header_meta h)))"

lemma parse_member_archive:
  assumes "member_ok m" "readable (fst m)"
  shows "\<exists>tm. parse_member (pre @ member_bytes m @ rest) (length pre) k = Inr tm
           \<and> tm_data tm = snd m \<and> tm_size tm = length (snd m) \<and> member_meta tm = header_meta (fst m)"
proof -
  have h: "length (fst m) = 512" using assms by (simp add: member_ok_def)
  obtain a b c d where f: "oct_field (slice (fst m) 100 108) = Some a" "oct_field (slice (fst m) 108 116) = Some b"
      "oct_field (slice (fst m) 116 124) = Some c" "oct_field (slice (fst m) 136 148) = Some d"
    using assms(2) unfolding readable_def header_meta_def by (auto dest!: not_sym [THEN not_None_eq [THEN iffD1]])
  show ?thesis
    using assms(1)
    by (simp add: parse_member_def Let_def member_slices [OF h] py_slice_ints f member_ok_def member_meta_def header_meta_def)
qed

lemma tar_loop_archive:
  assumes "list_all member_ok ms" "list_all (readable \<circ> fst) ms" "end_block tail"
  shows "\<exists>tms. tar_loop (pre @ archive ms tail) (length pre) acc = Inr (acc @ tms)
           \<and> map tm_data tms = map snd ms \<and> map member_meta tms = map (header_meta \<circ> fst) ms"
  using assms
proof (induction ms arbitrary: pre acc)
  case Nil
  then show ?case
    by (subst tar_loop.simps) (simp add: archive_def end_block_slice, simp add: end_block_def)
next
  case (Cons m ms)
  define raw where "raw = pre @ member_bytes m @ archive ms tail"
  have raw: "pre @ archive (m # ms) tail = raw" by (simp add: raw_def archive_def)
  have h: "length (fst m) = 512" "fst m \<noteq> zeros 512" "member_ok m" "readable (fst m)" using Cons.prems by (auto simp: member_ok_def)
  obtain tm where tm: "parse_member raw (length pre) (length acc) = Inr tm" "tm_data tm = snd m"
      "tm_size tm = length (snd m)" "member_meta tm = header_meta (fst m)"
    using parse_member_archive [OF h(3,4)] unfolding raw_def by blast
  obtain tms where tms: "tar_loop ((pre @ member_bytes m) @ archive ms tail) (length (pre @ member_bytes m)) (acc @ [tm]) = Inr ((acc @ [tm]) @ tms)"
      "map tm_data tms = map snd ms" "map member_meta tms = map (header_meta \<circ> fst) ms"
    using Cons.IH [of "pre @ member_bytes m" "acc @ [tm]"] Cons.prems by auto
  have "slice raw (length pre) (length pre + 512) = fst m" "length pre + 512 \<le> length raw"
    using member_slices(1) [OF h(1)] length_member [OF h(1)] by (simp_all add: raw_def)
  then have "tar_loop raw (length pre) acc = tar_loop raw (length (pre @ member_bytes m)) (acc @ [tm])"
    using h(2) tm by (subst tar_loop.simps) (simp add: length_member [OF h(1)] add.assoc)
  with tms have "tar_loop raw (length pre) acc = Inr (acc @ tm # tms)" by (simp add: raw_def)
  with tm tms show ?case unfolding raw by (intro exI [of _ "tm # tms"]) simp
qed

lemma oct_field_blank: "oct_field (slice (zeros 512) 124 136) = Some 0"
  by (simp add: oct_field_def zeros_def slice_def) code_simp

lemma patched_member:
  assumes "length h = 512" "length d < 8 ^ 11"
  shows "member_ok (patch_header h (length d), d)" and "header_meta (patch_header h (length d)) = header_meta h"
proof -
  note f = patch_header_facts [OF assms]
  have "(oct_pad 11 (length d) @ [0]) ! 0 \<noteq> 0"
    using oct_pad_facts(1,2) [of 11 "length d"] by (cases "oct_pad 11 (length d)") (auto simp: oct_digits_def)
  moreover have "slice (zeros 512) 124 136 ! 0 = 0" by (simp add: zeros_def nth_slice)
  ultimately have "patch_header h (length d) \<noteq> zeros 512" using f(2) by metis
  then show "member_ok (patch_header h (length d), d)"
    using f(1,2) oct_field_pad(1) [of 11 "length d"] by (simp add: member_ok_def)
  show "header_meta (patch_header h (length d)) = header_meta h"
    by (simp add: header_meta_def f(4) f(4) [of 100 0, simplified])
qed

text \<open>The members with their new contents, as \<open>main\<close> writes them.\<close>

definition repacked :: "(bytes \<times> bytes) list \<Rightarrow> bytes list \<Rightarrow> (bytes \<times> bytes) list" where
  "repacked golden bs = map (\<lambda>((h, _), b). (patch_header h (length b), b)) (zip golden bs)"

lemma assemble_archive:
  "length bs = length golden \<Longrightarrow> length contract = length golden \<Longrightarrow>
   assemble_members golden bs contract @ tail = archive (repacked golden bs) tail"
proof (induction golden arbitrary: bs contract)
  case (Cons g golden)
  then obtain b bs' c cs where "bs = b # bs'" "contract = c # cs" by (metis length_Suc_conv)
  with Cons show ?case
    by (cases g) (simp add: assemble_members_def repacked_def archive_def member_bytes_def)
qed (simp add: assemble_members_def repacked_def archive_def)

lemma repacked_ok:
  assumes "length bs = length ms" "list_all (\<lambda>m. length (fst m) = 512 \<and> readable (fst m)) ms" "list_all (\<lambda>b. length b < 8 ^ 11) bs"
  shows "list_all member_ok (repacked ms bs)" "list_all (readable \<circ> fst) (repacked ms bs)"
    "map snd (repacked ms bs) = bs" "map (header_meta \<circ> fst) (repacked ms bs) = map (header_meta \<circ> fst) ms"
  using assms
proof (induction ms arbitrary: bs)
  case (Cons m ms)
  { case 1 then show ?case using Cons.IH(1) by (cases bs; cases m) (auto simp: repacked_def patched_member)
  next case 2 then show ?case using Cons.IH(2) by (cases bs; cases m) (auto simp: repacked_def patched_member readable_def)
  next case 3 then show ?case using Cons.IH(3) by (cases bs; cases m) (auto simp: repacked_def)
  next case 4 then show ?case using Cons.IH(4) by (cases bs; cases m) (auto simp: repacked_def patched_member) }
qed (auto simp: repacked_def)

lemma put_slice_id: "a \<le> b \<Longrightarrow> b \<le> length h \<Longrightarrow> put a b (slice h a b) h = h"
  by (simp add: put_def slice_def flip: append_assoc take_add)

lemma patch_header_idem:
  assumes "length h = 512" "n < 8 ^ 11"
  shows "patch_header (patch_header h n) n = patch_header h n"
proof -
  define p where "p = patch_header h n"
  note f = patch_header_facts [OF assms, folded p_def]
  have a: "put 124 136 (oct_pad 11 n @ [0]) p = p" using put_slice_id [of 124 136 p] f(1,2) by simp
  have b: "put 148 156 (oct_pad 6 (byte_sum (blank_checksum p)) @ [0, 32]) p = p"
    using put_slice_id [of 148 156 p] f(1,3) by simp
  have "put 148 156 c (blank_checksum p) = put 148 156 c p" for c
    using f(1) by (simp add: put_def blank_checksum_def)
  with a b show ?thesis by (simp add: patch_header_def [of p] Let_def blank_checksum_def flip: p_def)
qed

lemma repacked_self:
  "list_all (\<lambda>m. patch_header (fst m) (length (snd m)) = fst m) ms \<Longrightarrow> repacked ms (map snd ms) = ms"
  by (induction ms) (auto simp: repacked_def)

lemma golden_order_ok: "length contract = length golden \<Longrightarrow> golden_order golden contract = Inr ()"
  by (simp add: golden_order_def)

lemma golden_order_Inr: "golden_order golden contract = Inr u \<Longrightarrow> length contract = length golden"
  by (auto simp: golden_order_def split: if_splits dest: arg_cong [of _ _ length])

lemma golden_sizes:
  "map snd contract = map (length \<circ> snd) ms \<Longrightarrow> \<not> list_ex (\<lambda>(_, b, _, s). length b \<noteq> s) (zip ms (zip (map snd ms) contract))"
proof (induction ms arbitrary: contract)
  case (Cons m ms)
  then show ?case by (cases contract) auto
qed simp

lemma blank_readable: "readable (zeros 512)"
proof -
  have "slice (zeros 512) a b = zeros (b - a)" if "b \<le> 512" for a b :: nat
    using that by (auto simp: zeros_def slice_def min_def)
  moreover have "oct_field (zeros 8) = Some 0" "oct_field (zeros 12) = Some 0" by code_simp+
  ultimately show ?thesis by (simp add: readable_def header_meta_def)
qed

subsection \<open>Properties\<close>



text \<open>Package mode: what is written for a readable golden archive parses back, as
  \<open>parse_tar_raw\<close> parses it, to exactly the given contents in the contract's order, under the golden
  names, modes, owners, times, types and magic; the end block is the golden one.\<close>

theorem package_parses_back:
  assumes "list_all (\<lambda>m. member_ok m \<and> readable (fst m)) ms" and "end_block tail"
    and "list_all (\<lambda>(_, b). length b < 8 ^ 11) spec"
    and "tar_assemble (archive ms tail) contract (Some spec) = Some (Inr out)"
  shows "\<exists>members. parse_tar_raw out = Inr members
           \<and> map (Some \<circ> tm_data) members = map (map_of (rev spec) \<circ> fst) contract
           \<and> map member_meta members = map (header_meta \<circ> fst) ms
           \<and> (\<exists>body. out = body @ tail)"
proof -
  have ok: "list_all member_ok ms" and rd: "list_all (\<lambda>m. length (fst m) = 512 \<and> readable (fst m)) ms"
    using assms(1) by (auto simp: list_all_iff member_ok_def)
  note r = read_archive [OF ok assms(2)]
  define bs where "bs = map (\<lambda>(n, _). the (map_of (rev spec) n)) contract"
  from assms(4) have names: "set (map fst spec) = set (map fst contract)" and len: "length contract = length ms"
      and out: "out = assemble_members ms bs contract @ tail"
    by (auto simp: tar_assemble_def r member_blobs_def bs_def golden_order_Inr simp del: py_slice_nat
        split: sum.splits if_splits)
  have found: "\<exists>b. map_of (rev spec) n = Some b \<and> length b < 8 ^ 11" if "n \<in> set (map fst contract)" for n
  proof -
    have "map_of (rev spec) n \<noteq> None" using that by (simp add: map_of_eq_None_iff names [unfolded set_map])
    then obtain b where b: "map_of (rev spec) n = Some b" by auto
    from map_of_SomeD [OF b] assms(3) show ?thesis using b by (auto simp: list_all_iff)
  qed
  have small: "list_all (\<lambda>b. length b < 8 ^ 11) bs" using found by (fastforce simp: bs_def list_all_iff)
  have data: "map Some bs = map (map_of (rev spec) \<circ> fst) contract" using found by (fastforce simp: bs_def)
  have "length bs = length ms" using len by (simp add: bs_def)
  note rp = repacked_ok [OF this rd small]
  have o: "out = archive (repacked ms bs) tail" using assemble_archive [of bs ms contract tail] len by (simp add: out bs_def)
  obtain tms where "tar_loop out 0 [] = Inr tms" "map tm_data tms = bs" "map member_meta tms = map (header_meta \<circ> fst) ms"
    using tar_loop_archive [OF rp(1,2) assms(2), of "[]" "[]"] rp(3,4) by (auto simp: o)
  then show ?thesis using data out by (auto simp: parse_tar_raw_def)
qed

theorem package_parses_back_witness:
  "\<exists>out members. tar_assemble (archive [(patch_header (zeros 512) 1, [7])] (zeros 512)) [(''a'', 1)] (Some [(''a'', [1, 2])]) = Some (Inr out)
     \<and> parse_tar_raw out = Inr members \<and> map tm_data members = [[1, 2]]"
proof -
  have l: "length (zeros 512) = 512" by (simp add: zeros_def)
  let ?ms = "[(patch_header (zeros 512) 1, [7 :: byte])]"
  have e: "end_block (zeros 512)" by (simp add: end_block_def zeros_def list_all_iff)
  have ok: "list_all (\<lambda>m. member_ok m \<and> readable (fst m)) ?ms"
    using patched_member [OF l, of "[7]"] blank_readable by (simp add: readable_def)
  have ok': "list_all member_ok ?ms" using ok by simp
  have "\<exists>out. tar_assemble (archive ?ms (zeros 512)) [(''a'', 1)] (Some [(''a'', [1, 2])]) = Some (Inr out)"
    by (simp add: tar_assemble_def read_archive [OF ok' e] golden_order_def member_blobs_def del: One_nat_def)
  then obtain out where out: "tar_assemble (archive ?ms (zeros 512)) [(''a'', 1)] (Some [(''a'', [1, 2])]) = Some (Inr out)" by blast
  show ?thesis using package_parses_back [OF ok e _ out] out by auto
qed

text \<open>C12. Without an end block \<open>read_raw_members\<close> never returns, however well-formed the members are.\<close>

theorem reader_needs_end_block:
  assumes "list_all member_ok ms"
  shows "read_raw_members (archive ms []) = None \<and> tar_assemble (archive ms []) contract spec = None"
proof -
  have "read_loop (archive ms []) 0 [] = None"
    using read_loop_archive [OF assms, of "[]" "[]" "[]"] read_loop_past_end [of "archive ms []" "int (length (archive ms []))"] by simp
  then show ?thesis by (simp add: read_raw_members_def tar_assemble_def)
qed

theorem reader_needs_end_block_witness:
  "read_raw_members (archive [(patch_header (zeros 512) 1, [7])] []) = None"
proof -
  have "length (zeros 512) = 512" by (simp add: zeros_def)
  from patched_member(1) [OF this, of "[7]"] have "list_all member_ok [(patch_header (zeros 512) 1, [7])]" by simp
  from reader_needs_end_block [OF this, of "[]" None] show ?thesis by simp
qed

end
