(* ===== verification/Image.thy ===== *)
theory Image
  imports Script Tar "HOL-Library.Multiset"
begin

text \<open>
  The inner upgrade image as a whole: the byte accounting of \<open>tools/fw/package_contract.py\<close> (\<open>main\<close>), the
  assembler \<open>tools/fw/assemble_inner.py\<close> and the exact repacker \<open>tools/fw/repack_firmware.py\<close>. SHA-256 is
  a parameter; offsets are natural numbers; the members and contents that \<open>tarfile\<close> lists are arguments.
\<close>

subsection \<open>The contract\<close>

record gap =
  gp_from :: nat
  gp_to :: nat
  gp_bytes :: bytes
  gp_ff :: bool

definition make_gap :: "bytes \<Rightarrow> nat \<Rightarrow> nat \<Rightarrow> gap" where
  "make_gap inner a b =
     \<lparr>gp_from = a, gp_to = b, gp_bytes = slice inner a b, gp_ff = (set (slice inner a b) = {255})\<rparr>"

record accounting =
  ac_script :: nat
  ac_payload :: nat
  ac_pad :: nat
  ac_tail :: nat
  ac_total :: nat
  ac_check :: bool

record contract =
  cn_script_end :: nat
  cn_newline :: bool
  cn_loads :: "load_row list"
  cn_gaps :: "gap list"
  cn_tail_offset :: nat
  cn_tail :: bytes
  cn_accounting :: accounting

definition ordered_loads :: "load_row list \<Rightarrow> load_row list" where
  "ordered_loads loads = sort_key ld_offset (filter ld_within loads)"

fun inter_gaps :: "bytes \<Rightarrow> load_row list \<Rightarrow> gap list" where
  "inter_gaps inner (a # b # rs) =
     (if ld_end a < ld_offset b then make_gap inner (ld_end a) (ld_offset b) # inter_gaps inner (b # rs)
      else inter_gaps inner (b # rs))"
| "inter_gaps inner _ = []"

definition account :: "bytes \<Rightarrow> nat \<Rightarrow> bool \<Rightarrow> load_row list \<Rightarrow> gap list \<Rightarrow> bytes \<Rightarrow> accounting" where
  "account inner script_end nl loads gaps tail =
     (let sb = script_end + (if nl then 1 else 0);
          pb = sum_list (map ld_size (filter ld_within loads));
          pad = sum_list (map (\<lambda>g. length (gp_bytes g)) gaps)
      in \<lparr>ac_script = sb, ac_payload = pb, ac_pad = pad, ac_tail = length tail, ac_total = length inner,
          ac_check = (sb + pb + pad + length tail = length inner)\<rparr>)"

text \<open>The errors: no end marker, a bad number in a command, no load within the image (\<open>min\<close> of nothing).\<close>

definition derive_contract :: "bytes \<Rightarrow> string + contract" where
  "derive_contract inner =
     (case find_sub END_MARKER inner of
        None \<Rightarrow> Inl ''END_MARKER not found in inner image''
      | Some end_idx \<Rightarrow>
          (let script_end = end_idx + length END_MARKER;
               script = take script_end inner;
               nl = (slice inner script_end (script_end + 1) = [10])
           in case script_loads inner script of
                None \<Rightarrow> Inl ''ValueError''
              | Some loads \<Rightarrow>
                  (let ordered = ordered_loads loads in
                   if ordered = [] then Inl ''ValueError''
                   else
                     (let first_off = Min (set (map ld_offset (filter ld_within loads)));
                          gaps = make_gap inner (script_end + 1) first_off # inter_gaps inner ordered;
                          last_end = Max (set (map ld_end (filter ld_within loads)));
                          tail = drop last_end inner
                      in Inr \<lparr>cn_script_end = script_end, cn_newline = nl, cn_loads = loads, cn_gaps = gaps,
                           cn_tail_offset = last_end, cn_tail = tail,
                           cn_accounting = account inner script_end nl loads gaps tail\<rparr>))))"

subsection \<open>The assembler\<close>

fun place_payloads :: "nat \<Rightarrow> nat \<Rightarrow> (nat \<times> bytes) list \<Rightarrow> bytes \<Rightarrow> string + bytes" where
  "place_payloads lo hi [] buf = Inr buf"
| "place_payloads lo hi ((off, blob) # ps) buf =
     (if lo \<le> off \<and> off + length blob \<le> hi then place_payloads lo hi ps (set_slice off (off + length blob) blob buf)
      else Inl ''assemble: payload out of bounds'')"

definition range_le :: "nat \<times> nat \<Rightarrow> nat \<times> nat \<Rightarrow> bool" where
  "range_le x y \<longleftrightarrow> fst x < fst y \<or> fst x = fst y \<and> snd x \<le> snd y"

fun insert_range :: "nat \<times> nat \<Rightarrow> (nat \<times> nat) list \<Rightarrow> (nat \<times> nat) list" where
  "insert_range x [] = [x]"
| "insert_range x (y # ys) = (if range_le x y then x # y # ys else y # insert_range x ys)"

definition sort_ranges :: "(nat \<times> nat) list \<Rightarrow> (nat \<times> nat) list" where
  "sort_ranges xs = foldr insert_range xs []"

fun disjoint_chain :: "(nat \<times> nat) list \<Rightarrow> bool" where
  "disjoint_chain (a # b # rs) \<longleftrightarrow> snd a \<le> fst b \<and> disjoint_chain (b # rs)"
| "disjoint_chain _ \<longleftrightarrow> True"

definition assemble :: "nat \<Rightarrow> bytes \<Rightarrow> (nat \<times> bytes) list \<Rightarrow> bytes \<Rightarrow> nat \<Rightarrow> string + bytes" where
  "assemble total_size script payloads tail tail_offset =
     (if script = [] \<or> last script \<noteq> 10 then Inl ''assemble: script must end with single LF''
      else case place_payloads (length script) tail_offset payloads
             (set_slice 0 (length script) script (replicate total_size 255)) of
        Inl e \<Rightarrow> Inl e
      | Inr buf \<Rightarrow>
          if tail_offset + length tail \<noteq> total_size then Inl ''assemble: tail must end exactly at total_size''
          else if \<not> disjoint_chain (sort_ranges ((0, length script) # map (\<lambda>(o', b). (o', o' + length b)) payloads
                 @ [(tail_offset, total_size)]))
          then Inl ''assemble: overlapping ranges''
          else Inr (set_slice tail_offset (tail_offset + length tail) tail buf))"

text \<open>\<open>main\<close> in golden mode: the parts of the original image, put together again; an image that is not
  identical is not written.\<close>

definition golden_parts :: "bytes \<Rightarrow> contract \<Rightarrow> string + bytes" where
  "golden_parts inner c =
     assemble (length inner) (take (cn_script_end c + 1) inner)
       (map (\<lambda>r. (ld_offset r, slice inner (ld_offset r) (ld_end r))) (cn_loads c)) (cn_tail c) (cn_tail_offset c)"

definition golden_mode :: "bytes \<Rightarrow> contract \<Rightarrow> string + bytes" where
  "golden_mode inner c =
     (case golden_parts inner c of
        Inl e \<Rightarrow> Inl e
      | Inr out \<Rightarrow> if out = inner then Inr out else Inl ''not byte-identical'')"

record payload_spec =
  ps_offset :: nat
  ps_size :: nat
  ps_file :: bytes

text \<open>Layout mode: \<open>ps_file\<close> stands for the contents of the payload file.\<close>

fun layout_payloads :: "payload_spec list \<Rightarrow> string + (nat \<times> bytes) list" where
  "layout_payloads [] = Inr []"
| "layout_payloads (p # ps) =
     (if length (ps_file p) \<noteq> ps_size p then Inl ''layout: size''
      else map_sum id (\<lambda>xs. (ps_offset p, ps_file p) # xs) (layout_payloads ps))"

definition layout_mode :: "nat \<Rightarrow> bytes \<Rightarrow> payload_spec list \<Rightarrow> bytes \<Rightarrow> nat \<Rightarrow> string + bytes" where
  "layout_mode total_size script specs tail tail_offset =
     (case layout_payloads specs of
        Inl e \<Rightarrow> Inl e
      | Inr ps \<Rightarrow> assemble total_size script ps tail tail_offset)"

subsection \<open>The exact repacker\<close>

record outer_entry =
  oe_name :: bytes
  oe_size :: nat
  oe_sha :: string
  oe_data_offset :: nat

record repack_load =
  rl_offset :: nat
  rl_end :: nat
  rl_within :: bool
  rl_sha :: string

record repack_contract =
  rc_source_sha :: string
  rc_members :: "outer_entry list"
  rc_order :: "bytes list"
  rc_inner_sha :: string
  rc_script_end :: nat
  rc_loads :: "repack_load list"
  rc_tail_offset :: nat
  rc_tail_len :: nat
  rc_tail :: bytes

definition INNER :: bytes where
  "INNER = bytes_of ''SigmastarUpgradeSD_SSC8838G.bin''"

definition check_member :: "(bytes \<Rightarrow> string) \<Rightarrow> repack_contract \<Rightarrow> bytes \<times> bytes \<Rightarrow> string option" where
  "check_member sha c nb =
     (case find (\<lambda>x. oe_name x = fst nb) (rc_members c) of
        None \<Rightarrow> Some ''StopIteration''
      | Some x \<Rightarrow> if length (snd nb) \<noteq> oe_size x \<or> sha (snd nb) \<noteq> oe_sha x then Some ''member differs from contract'' else None)"

fun first_error :: "string option list \<Rightarrow> string option" where
  "first_error [] = None"
| "first_error (None # es) = first_error es"
| "first_error (Some e # es) = Some e"

fun rebuild_loads :: "(bytes \<Rightarrow> string) \<Rightarrow> bytes \<Rightarrow> repack_load list \<Rightarrow> bytes \<Rightarrow> string + bytes" where
  "rebuild_loads sha inner [] buf = Inr buf"
| "rebuild_loads sha inner (r # rs) buf =
     (if \<not> rl_within r then Inl ''contract load out of bounds''
      else if sha (slice inner (rl_offset r) (rl_end r)) \<noteq> rl_sha r then Inl ''payload hash mismatch''
      else rebuild_loads sha inner rs (set_slice (rl_offset r) (rl_end r) (slice inner (rl_offset r) (rl_end r)) buf))"

definition rebuild_inner :: "(bytes \<Rightarrow> string) \<Rightarrow> repack_contract \<Rightarrow> bytes \<Rightarrow> string + bytes" where
  "rebuild_inner sha c inner =
     (let buf = set_slice 0 (rc_script_end c + 1) (take (rc_script_end c + 1) inner) (replicate (length inner) 255) in
      case rebuild_loads sha inner (rc_loads c) buf of
        Inl e \<Rightarrow> Inl e
      | Inr buf \<Rightarrow>
          (let tail_end = rc_tail_offset c + rc_tail_len c; tail = slice inner (rc_tail_offset c) tail_end in
           if tail \<noteq> rc_tail c then Inl ''UNKNOWN tail bytes changed''
           else let buf = set_slice (rc_tail_offset c) tail_end tail buf in
             if buf \<noteq> inner then Inl ''rebuilt inner differs'' else Inr buf))"

text \<open>\<open>main\<close> from the hash of the source TAR to the verdict: the TAR written, and whether the verdict is
  \<open>EXACT-ROUND-TRIP-OK\<close> (exit code 0). \<open>members\<close> are the names and contents that \<open>tarfile\<close> lists; of two
  members with one name the contents of the last count, as in the dict of the source.\<close>

definition repack :: "(bytes \<Rightarrow> string) \<Rightarrow> string \<Rightarrow> repack_contract \<Rightarrow> bytes \<Rightarrow> (bytes \<times> bytes) list \<Rightarrow> string + bytes \<times> bool" where
  "repack sha pin c tar members =
     (if sha tar \<noteq> pin then Inl ''source TAR SHA mismatch''
      else if sha tar \<noteq> rc_source_sha c then Inl ''source TAR does not match contract''
      else if map fst members \<noteq> rc_order c then Inl ''member order/names differ''
      else let blobs = map_of (rev members) in
        case first_error (map (\<lambda>(n, _). check_member sha c (n, the (blobs n))) members) of
          Some e \<Rightarrow> Inl e
        | None \<Rightarrow>
            (case blobs INNER of
               None \<Rightarrow> Inl ''KeyError''
             | Some inner \<Rightarrow>
                 if sha inner \<noteq> rc_inner_sha c then Inl ''inner image differs from contract''
                 else case rebuild_inner sha c inner of
                   Inl e \<Rightarrow> Inl e
                 | Inr rebuilt \<Rightarrow>
                     (case find (\<lambda>x. oe_name x = INNER) (rc_members c) of
                        None \<Rightarrow> Inl ''StopIteration''
                      | Some x \<Rightarrow>
                          if length rebuilt \<noteq> oe_size x then Inl ''rebuilt inner size changed''
                          else let out = set_slice (oe_data_offset x) (oe_data_offset x + oe_size x) rebuilt tar
                            in Inr (out, sha out = sha tar))))"

subsection \<open>Ranges\<close>

definition apart :: "nat \<times> nat \<Rightarrow> nat \<times> nat \<Rightarrow> bool" where
  "apart x y \<longleftrightarrow> snd x \<le> fst y \<or> snd y \<le> fst x"

lemma set_insert_range [simp]: "set (insert_range x ys) = insert x (set ys)"
  by (induction ys) auto

lemma set_sort_ranges [simp]: "set (sort_ranges xs) = set xs"
  by (induction xs) (auto simp: sort_ranges_def)

lemma insert_range_apart: "sorted_wrt apart (insert_range x ys) \<longleftrightarrow> sorted_wrt apart (x # ys)"
  by (induction ys) (auto simp: apart_def)

lemma sort_ranges_apart: "sorted_wrt apart (sort_ranges xs) \<longleftrightarrow> sorted_wrt apart xs"
proof (induction xs)
  case (Cons x xs)
  have "sort_ranges (x # xs) = insert_range x (sort_ranges xs)" by (simp add: sort_ranges_def)
  then show ?case using Cons by (simp add: insert_range_apart)
qed (simp add: sort_ranges_def)

lemma insert_range_sorted: "sorted_wrt range_le ys \<Longrightarrow> sorted_wrt range_le (insert_range x ys)"
  by (induction ys) (auto simp: range_le_def)

lemma sort_ranges_sorted: "sorted_wrt range_le (sort_ranges xs)"
  by (induction xs) (simp_all add: sort_ranges_def insert_range_sorted)

lemma chain_before:
  "disjoint_chain zs \<Longrightarrow> list_all (\<lambda>z. fst z \<le> snd z) zs \<Longrightarrow> sorted_wrt (\<lambda>a b. snd a \<le> fst b) zs"
proof (induction zs rule: disjoint_chain.induct)
  case (1 a b rs)
  then show ?case by force
qed auto

lemma chain_iff:
  assumes "list_all (\<lambda>z. fst z \<le> snd z) xs"
  shows "disjoint_chain (sort_ranges xs) \<longleftrightarrow> sorted_wrt apart xs"
proof
  assume "disjoint_chain (sort_ranges xs)"
  then have "sorted_wrt (\<lambda>a b. snd a \<le> fst b) (sort_ranges xs)" using assms by (intro chain_before) (auto simp: list_all_iff)
  then have "sorted_wrt apart (sort_ranges xs)" by (rule sorted_wrt_mono_rel [rotated]) (simp add: apart_def)
  then show "sorted_wrt apart xs" by (simp add: sort_ranges_apart)
next
  have chain: "disjoint_chain zs" if "sorted_wrt range_le zs" "sorted_wrt apart zs" "list_all (\<lambda>z. fst z \<le> snd z) zs" for zs
    using that by (induction zs rule: disjoint_chain.induct) (auto simp: range_le_def apart_def)
  assume "sorted_wrt apart xs"
  then show "disjoint_chain (sort_ranges xs)"
    using assms sort_ranges_sorted by (intro chain) (auto simp: sort_ranges_apart list_all_iff)
qed

subsection \<open>What the assembler writes\<close>

definition inside :: "nat \<times> bytes \<Rightarrow> nat \<Rightarrow> bool" where
  "inside p i \<longleftrightarrow> fst p \<le> i \<and> i < fst p + length (snd p)"

lemma place_payloads_other:
  assumes "place_payloads lo hi ps buf = Inr out" "hi \<le> length buf"
  shows "length out = length buf \<and> (\<forall>i < length buf. \<not> list_ex (\<lambda>p. inside p i) ps \<longrightarrow> out ! i = buf ! i)"
  using assms
proof (induction ps arbitrary: buf)
  case (Cons p ps)
  obtain off blob where p: "p = (off, blob)" by (cases p)
  let ?buf = "set_slice off (off + length blob) blob buf"
  have rest: "place_payloads lo hi ps ?buf = Inr out" "off + length blob \<le> length buf"
    using Cons.prems by (auto simp: p split: if_splits)
  have len: "length ?buf = length buf"
    using length_set_slice [of off "off + length blob" buf blob] rest(2) by simp
  show ?case
    using Cons.IH [OF rest(1)] len rest(2) Cons.prems(2) nth_set_slice [of off "off + length blob" buf blob]
    by (auto simp: p inside_def)
qed auto

definition payload_range :: "nat \<times> bytes \<Rightarrow> nat \<times> nat" where
  "payload_range p = (fst p, fst p + length (snd p))"

lemma place_payloads_in:
  "place_payloads lo hi ps buf = Inr out \<Longrightarrow> hi \<le> length buf \<Longrightarrow> sorted_wrt apart (map payload_range ps) \<Longrightarrow>
   p \<in> set ps \<Longrightarrow> lo \<le> fst p \<and> fst p + length (snd p) \<le> hi \<and> (\<forall>k < length (snd p). out ! (fst p + k) = snd p ! k)"
proof (induction ps arbitrary: buf)
  case (Cons q ps)
  obtain off blob where q: "q = (off, blob)" by (cases q)
  let ?buf = "set_slice off (off + length blob) blob buf"
  have b: "lo \<le> off" "off + length blob \<le> hi" and rest: "place_payloads lo hi ps ?buf = Inr out"
    using Cons.prems(1) by (auto simp: q split: if_splits)
  have len: "length ?buf = length buf" using length_set_slice [of off "off + length blob" buf blob] b Cons.prems(2) by simp
  show ?case
  proof (cases "p \<in> set ps")
    case True
    then show ?thesis using Cons.IH [OF rest] Cons.prems len by simp
  next
    case False
    then have p: "p = (off, blob)" using Cons.prems(4) q by simp
    have "out ! (off + k) = blob ! k" if k: "k < length blob" for k
    proof -
      have "\<not> list_ex (\<lambda>p. inside p (off + k)) ps"
        using Cons.prems(3) k by (force simp: q list_ex_iff inside_def apart_def payload_range_def)
      then have "out ! (off + k) = ?buf ! (off + k)"
        using place_payloads_other [OF rest] len b k Cons.prems(2) by simp
      then show ?thesis using nth_set_slice [of off "off + length blob" buf blob "off + k"] b k Cons.prems(2) by simp
    qed
    then show ?thesis using b by (simp add: p)
  qed
qed simp

lemma assemble_cases:
  assumes "assemble total_size script ps tail toff = Inr out" "0 < total_size"
  obtains buf where "script \<noteq> []" "place_payloads (length script) toff ps (set_slice 0 (length script) script (replicate total_size 255)) = Inr buf"
    "toff + length tail = total_size" "length script \<le> toff" "sorted_wrt apart (map payload_range ps)"
    "out = set_slice toff (toff + length tail) tail buf"
proof -
  let ?used = "(0, length script) # map (\<lambda>(o', b). (o', o' + length b)) ps @ [(toff, total_size)]"
  obtain buf where b: "script \<noteq> []" "place_payloads (length script) toff ps (set_slice 0 (length script) script (replicate total_size 255)) = Inr buf"
    "toff + length tail = total_size" "disjoint_chain (sort_ranges ?used)" "out = set_slice toff (toff + length tail) tail buf"
    using assms(1) by (auto simp: assemble_def split: sum.splits if_splits)
  have "list_all (\<lambda>z. fst z \<le> snd z) ?used" using b(3) by (auto simp: list_all_iff)
  with b(4) have "sorted_wrt apart ?used" by (simp add: chain_iff)
  moreover have "map (\<lambda>(o', b). (o', o' + length b)) ps = map payload_range ps" by (auto simp: payload_range_def)
  ultimately have "sorted_wrt apart (map payload_range ps)" "apart (0, length script) (toff, total_size)"
    by (auto simp: sorted_wrt_append)
  moreover have "length script \<le> toff" using calculation(2) assms(2) by (simp add: apart_def)
  ultimately show thesis using that b by blast
qed

lemma slice_eq_nth:
  "a + length ys \<le> length xs \<Longrightarrow> (\<forall>k < length ys. xs ! (a + k) = ys ! k) \<Longrightarrow> slice xs a (a + length ys) = ys"
  by (rule nth_equalityI) (auto simp: nth_slice)

lemma assemble_bytes:
  assumes "assemble total_size script ps tail toff = Inr out" "0 < total_size"
  shows "length out = total_size"
    and "i < length script \<Longrightarrow> out ! i = script ! i"
    and "p \<in> set ps \<Longrightarrow> k < length (snd p) \<Longrightarrow> out ! (fst p + k) = snd p ! k"
    and "p \<in> set ps \<Longrightarrow> length script \<le> fst p \<and> fst p + length (snd p) \<le> toff"
    and "k < length tail \<Longrightarrow> out ! (toff + k) = tail ! k"
    and "length script \<le> i \<Longrightarrow> i < toff \<Longrightarrow> \<not> list_ex (\<lambda>p. inside p i) ps \<Longrightarrow> out ! i = 255"
    and "length script \<le> toff" "toff + length tail = total_size"
proof -
  let ?buf0 = "set_slice 0 (length script) script (replicate total_size 255)"
  obtain buf where b: "script \<noteq> []" "place_payloads (length script) toff ps ?buf0 = Inr buf"
    "toff + length tail = total_size" "length script \<le> toff" "sorted_wrt apart (map payload_range ps)"
    "out = set_slice toff (toff + length tail) tail buf"
    by (rule assemble_cases [OF assms])
  have l0: "length ?buf0 = total_size" using length_set_slice [of 0 "length script" "replicate total_size 255" script] b by simp
  have l1: "length buf = total_size" using place_payloads_other [OF b(2)] l0 b(3) by simp
  show "length out = total_size" using length_set_slice [of toff "toff + length tail" buf tail] b l1 by simp
  note out = nth_set_slice [of toff "toff + length tail" buf tail, folded b(6)]
  note inp = place_payloads_in [OF b(2) _ b(5), unfolded l0]
  show bnd: "length script \<le> fst p \<and> fst p + length (snd p) \<le> toff" if "p \<in> set ps" for p
    using inp [OF _ that] b(3) by simp
  show "out ! (fst p + k) = snd p ! k" if "p \<in> set ps" "k < length (snd p)"
    using inp [OF _ that(1)] out [of "fst p + k"] bnd [OF that(1)] that(2) b(3) l1 by simp
  show "out ! (toff + k) = tail ! k" if "k < length tail" using out [of "toff + k"] that b(3) l1 by simp
  have keep: "out ! i = ?buf0 ! i" if "i < toff" "\<not> list_ex (\<lambda>p. inside p i) ps" for i
    using that out [of i] place_payloads_other [OF b(2)] l0 l1 b(3) by simp
  have zero: "?buf0 ! i = (if i < length script then script ! i else 255)" if "i < total_size" for i
    using nth_set_slice [of 0 "length script" "replicate total_size 255" script i] that b(3,4) by simp
  show "out ! i = script ! i" if "i < length script"
  proof -
    have "\<not> list_ex (\<lambda>p. inside p i) ps" using bnd that by (fastforce simp: list_ex_iff inside_def)
    then show ?thesis using keep [of i] zero [of i] that b(3,4) by simp
  qed
  show "out ! i = 255" if "length script \<le> i" "i < toff" "\<not> list_ex (\<lambda>p. inside p i) ps"
    using keep [of i] zero [of i] that b(3,4) by simp
  show "length script \<le> toff" "toff + length tail = total_size" using b by simp_all
qed

subsection \<open>Clean contracts\<close>

definition load_range :: "load_row \<Rightarrow> nat \<times> nat" where
  "load_range r = (ld_offset r, ld_end r)"

definition clean :: "contract \<Rightarrow> bool" where
  "clean c \<longleftrightarrow> cn_newline c \<and> list_all (\<lambda>r. ld_within r \<and> cn_script_end c + 1 \<le> ld_offset r) (cn_loads c)
     \<and> disjoint_chain (map load_range (ordered_loads (cn_loads c)))
     \<and> list_all (\<lambda>g. gp_ff g \<or> gp_bytes g = []) (cn_gaps c)"

lemma set_ordered [simp]: "set (ordered_loads loads) = {r \<in> set loads. ld_within r}"
  by (simp add: ordered_loads_def)

lemma gap_byte:
  assumes "g = make_gap inner a b" "gp_ff g \<or> gp_bytes g = []" "a \<le> i" "i < b" "i < length inner"
  shows "inner ! i = 255"
proof -
  have "i - a < b - a" "a < length inner" using assms(3-5) by auto
  then have "slice inner a b ! (i - a) = inner ! i" "i - a < length (slice inner a b)"
    using assms(3-5) by (simp_all add: slice_def)
  then have "inner ! i \<in> set (slice inner a b)" by (metis nth_mem)
  then show ?thesis using assms(1,2) by (auto simp: make_gap_def)
qed

lemma inter_gap_byte:
  assumes "list_all (\<lambda>g. gp_ff g \<or> gp_bytes g = []) (inter_gaps inner rs)" "rs \<noteq> []" "ld_offset (hd rs) \<le> i"
    "list_all (\<lambda>r. \<not> (ld_offset r \<le> i \<and> i < ld_end r)) rs" "r \<in> set rs" "i < ld_end r" "i < length inner"
  shows "inner ! i = 255"
  using assms
proof (induction inner rs rule: inter_gaps.induct)
  case (1 inner a b rs)
  have ge: "ld_end a \<le> i" using 1 by auto
  show ?case
  proof (cases "i < ld_offset b")
    case True
    then have "make_gap inner (ld_end a) (ld_offset b) \<in> set (inter_gaps inner (a # b # rs))" using ge by simp
    then show ?thesis using gap_byte [OF refl _ ge True] 1 by (auto simp: list_all_iff)
  next
    case False
    moreover have "r \<in> set (b # rs)" using 1 ge by auto
    ultimately show ?thesis using 1 by (cases "ld_end a < ld_offset b") auto
  qed
qed auto

lemma ordered_facts:
  assumes "ordered_loads loads \<noteq> []"
  shows "Min (set (map ld_offset (filter ld_within loads))) = ld_offset (hd (ordered_loads loads))"
proof -
  obtain r rs where o: "ordered_loads loads = r # rs" using assms by (cases "ordered_loads loads") auto
  have s: "sorted (map ld_offset (r # rs))" using sorted_sort_key [of ld_offset "filter ld_within loads"] by (simp add: ordered_loads_def flip: o)
  have "set (r # rs) = set (filter ld_within loads)" using set_ordered [of loads] by (auto simp: o)
  then have "set (map ld_offset (filter ld_within loads)) = set (map ld_offset (r # rs))" by (metis set_map)
  also have "Min \<dots> = ld_offset r" using s by (intro Min_eqI) auto
  finally show ?thesis by (simp add: o)
qed

text \<open>The lengths of a disjoint chain of loads and of the gaps between them add up.\<close>

lemma chain_lengths:
  assumes "list_all (\<lambda>r. ld_end r = ld_offset r + ld_size r \<and> ld_end r \<le> length inner) (r # rs)" "disjoint_chain (map load_range (r # rs))"
  shows "ld_offset r + sum_list (map ld_size (r # rs)) + sum_list (map (\<lambda>g. length (gp_bytes g)) (inter_gaps inner (r # rs))) = ld_end (last (r # rs))"
  using assms
proof (induction rs arbitrary: r)
  case (Cons b rs)
  have gap: "ld_end r \<le> ld_offset b" "ld_offset b \<le> length inner" "ld_end r = ld_offset r + ld_size r" using Cons.prems by (auto simp: load_range_def)
  have "sum_list (map (\<lambda>g. length (gp_bytes g)) (inter_gaps inner (r # b # rs)))
      = (ld_offset b - ld_end r) + sum_list (map (\<lambda>g. length (gp_bytes g)) (inter_gaps inner (b # rs)))"
    using gap by (auto simp: make_gap_def)
  with Cons.IH [of b] Cons.prems gap show ?case by simp
qed simp

lemma chain_last_max:
  assumes "list_all (\<lambda>r. ld_offset r \<le> ld_end r) rs" "disjoint_chain (map load_range rs)" "r \<in> set rs"
  shows "ld_end r \<le> ld_end (last rs)"
proof -
  have s: "sorted_wrt (\<lambda>a b. ld_end a \<le> ld_offset b) rs"
    using chain_before [OF assms(2)] assms(1) by (simp add: sorted_wrt_map load_range_def list_all_iff)
  show ?thesis
  proof (cases "r = last rs")
    case False
    obtain ys where ys: "rs = ys @ [last rs]" using assms(3) by (metis append_butlast_last_id empty_iff empty_set)
    then have "r \<in> set ys" using False assms(3) by (metis Un_iff empty_iff insert_iff list.set set_append)
    moreover have "sorted_wrt (\<lambda>a b. ld_end a \<le> ld_offset b) (ys @ [last rs])" using s ys by simp
    ultimately have "ld_end r \<le> ld_offset (last rs)" by (simp add: sorted_wrt_append)
    then show ?thesis using assms by (metis le_trans list_all_iff last_in_set empty_iff empty_set)
  qed simp
qed

lemma insort_apart:
  "sorted_wrt apart (map load_range (insort_key ld_offset x xs)) \<longleftrightarrow> sorted_wrt apart (map load_range (x # xs))"
  by (induction xs) (auto simp: apart_def set_insort_key)

lemma sort_key_apart:
  "sorted_wrt apart (map load_range (sort_key ld_offset xs)) \<longleftrightarrow> sorted_wrt apart (map load_range xs)"
proof (induction xs)
  case (Cons x xs)
  have "sort_key ld_offset (x # xs) = insort_key ld_offset x (sort_key ld_offset xs)" by simp
  then show ?case using Cons insort_apart [of x "sort_key ld_offset xs"] by (simp add: sorted_wrt_map)
qed simp

lemma place_payloads_ok:
  "list_all (\<lambda>p. lo \<le> fst p \<and> fst p + length (snd p) \<le> hi) ps \<Longrightarrow> \<exists>out. place_payloads lo hi ps buf = Inr out"
  by (induction ps arbitrary: buf) auto

lemma derive_contract_Inr:
  assumes "derive_contract inner = Inr c"
  shows "script_loads inner (take (cn_script_end c) inner) = Some (cn_loads c)"
    and "cn_newline c = (slice inner (cn_script_end c) (cn_script_end c + 1) = [10])"
    and "ordered_loads (cn_loads c) \<noteq> []"
    and "cn_gaps c = make_gap inner (cn_script_end c + 1) (ld_offset (hd (ordered_loads (cn_loads c)))) # inter_gaps inner (ordered_loads (cn_loads c))"
    and "cn_tail_offset c = Max (set (map ld_end (filter ld_within (cn_loads c))))"
    and "cn_tail c = drop (cn_tail_offset c) inner"
    and "cn_accounting c = account inner (cn_script_end c) (cn_newline c) (cn_loads c) (cn_gaps c) (cn_tail c)"
  using assms
  by (auto simp: derive_contract_def Let_def ordered_facts split: option.splits if_splits simp del: set_map set_filter)

definition golden_payloads :: "bytes \<Rightarrow> contract \<Rightarrow> (nat \<times> bytes) list" where
  "golden_payloads inner c = map (\<lambda>r. (ld_offset r, slice inner (ld_offset r) (ld_end r))) (cn_loads c)"

text \<open>What a clean derived contract says of the image.\<close>

lemma clean_facts:
  assumes "derive_contract inner = Inr c" "clean c"
  shows "cn_script_end c < length inner" "inner ! cn_script_end c = 10"
    and "r \<in> set (cn_loads c) \<Longrightarrow> cn_script_end c + 1 \<le> ld_offset r \<and> ld_end r = ld_offset r + ld_size r \<and> ld_end r \<le> cn_tail_offset c"
    and "cn_script_end c + 1 \<le> cn_tail_offset c" "cn_tail_offset c \<le> length inner"
    and "sorted_wrt apart (map load_range (cn_loads c))"
    and "ordered_loads (cn_loads c) = sort_key ld_offset (cn_loads c)"
    and "cn_tail_offset c = ld_end (last (ordered_loads (cn_loads c)))"
proof -
  note d = derive_contract_Inr [OF assms(1)]
  have nl: "slice inner (cn_script_end c) (cn_script_end c + 1) = [10]" using assms(2) d(2) by (simp add: clean_def)
  then have "length (slice inner (cn_script_end c) (cn_script_end c + 1)) = 1" by simp
  then show se: "cn_script_end c < length inner" by simp
  show "inner ! cn_script_end c = 10" using nth_slice [of 0 "cn_script_end c + 1" "cn_script_end c" inner] se nl by simp
  have within: "list_all ld_within (cn_loads c)" using assms(2) by (auto simp: clean_def list_all_iff)
  have rows: "ld_end r = ld_offset r + ld_size r \<and> ld_end r \<le> length inner" if "r \<in> set (cn_loads c)" for r
    using script_loads_ok [OF d(1) that] that within by (auto simp: list_all_iff)
  have filt: "filter ld_within (cn_loads c) = cn_loads c" using within by (simp add: list_all_iff)
  then show ord: "ordered_loads (cn_loads c) = sort_key ld_offset (cn_loads c)" by (simp add: ordered_loads_def)
  have chain: "disjoint_chain (map load_range (ordered_loads (cn_loads c)))" using assms(2) by (simp add: clean_def)
  have wf: "list_all (\<lambda>z. fst z \<le> snd z) (map load_range (ordered_loads (cn_loads c)))"
    using rows by (auto simp: list_all_iff load_range_def)
  have "sorted_wrt apart (map load_range (ordered_loads (cn_loads c)))"
    using chain_before [OF chain wf] by (rule sorted_wrt_mono_rel [rotated]) (simp add: apart_def)
  then show "sorted_wrt apart (map load_range (cn_loads c))" by (simp add: ord sort_key_apart)
  have ne: "ordered_loads (cn_loads c) \<noteq> []" by (rule d(3))
  have mx: "cn_tail_offset c = Max (set (map ld_end (cn_loads c)))" using d(5) by (simp add: filt)
  have last_in: "last (ordered_loads (cn_loads c)) \<in> set (cn_loads c)" using last_in_set [OF ne] by simp
  have top: "ld_end r \<le> ld_end (last (ordered_loads (cn_loads c)))" if "r \<in> set (cn_loads c)" for r
    using chain_last_max [OF _ chain] rows that within by (auto simp: list_all_iff)
  show tail: "cn_tail_offset c = ld_end (last (ordered_loads (cn_loads c)))"
    unfolding mx using last_in top by (intro Max_eqI) auto
  show lo: "cn_script_end c + 1 \<le> ld_offset r \<and> ld_end r = ld_offset r + ld_size r \<and> ld_end r \<le> cn_tail_offset c" if "r \<in> set (cn_loads c)" for r
    using rows [OF that] top [OF that] assms(2) that by (auto simp: clean_def list_all_iff tail)
  show "cn_script_end c + 1 \<le> cn_tail_offset c" using lo [OF last_in] by linarith
  show "cn_tail_offset c \<le> length inner" using rows [OF last_in] tail by simp
qed

lemma clean_accounts:
  assumes "derive_contract inner = Inr c" "clean c"
  shows "ac_check (cn_accounting c)"
proof -
  note d = derive_contract_Inr [OF assms(1)]
  note f = clean_facts [OF assms]
  define os where "os = ordered_loads (cn_loads c)"
  obtain r rs where o: "os = r # rs" using d(3) by (cases os) (auto simp: os_def)
  have mem: "set os = set (cn_loads c)" by (simp add: os_def f(7))
  have "disjoint_chain (map load_range os)" using assms(2) by (simp add: clean_def os_def)
  moreover have "list_all (\<lambda>r. ld_end r = ld_offset r + ld_size r \<and> ld_end r \<le> length inner) os"
    using f(3) f(5) le_trans by (fastforce simp: list_all_iff mem)
  ultimately have sum: "ld_offset r + sum_list (map ld_size os) + sum_list (map (\<lambda>g. length (gp_bytes g)) (inter_gaps inner os)) = cn_tail_offset c"
    using chain_lengths [of inner r rs] f(8) [folded os_def] by (simp only: o)
  have "sum_list (map ld_size os) = sum_list (map ld_size (cn_loads c))"
    unfolding os_def f(7) by (metis mset_map mset_sort sum_mset_sum_list)
  moreover have "filter ld_within (cn_loads c) = cn_loads c" using assms(2) by (simp add: clean_def list_all_iff)
  moreover have "r \<in> set (cn_loads c)" using mem [unfolded o] by auto
  then have "cn_script_end c + 1 \<le> ld_offset r" "ld_offset r \<le> length inner"
    using f(3) [of r] f(5) by auto
  ultimately show ?thesis
    using sum d(2,4,6,7) assms(2) f(1,5) by (simp add: account_def Let_def make_gap_def o clean_def flip: os_def)
qed

lemma golden_assembles:
  assumes "derive_contract inner = Inr c" "clean c"
  shows "\<exists>out. golden_parts inner c = Inr out"
proof -
  note d = derive_contract_Inr [OF assms(1)]
  note f = clean_facts [OF assms]
  let ?script = "take (cn_script_end c + 1) inner"
  let ?ps = "golden_payloads inner c"
  have len: "length ?script = cn_script_end c + 1" using f(1) by simp
  have l10: "last ?script = 10" using f(1,2) by (simp add: take_Suc_conv_app_nth)
  have rng: "map (\<lambda>(o', b). (o', o' + length b)) ?ps = map load_range (cn_loads c)"
    using f(3,5) by (fastforce simp: golden_payloads_def load_range_def)
  have "list_all (\<lambda>p. length ?script \<le> fst p \<and> fst p + length (snd p) \<le> cn_tail_offset c) ?ps"
    using f(3,5) unfolding len by (fastforce simp: golden_payloads_def list_all_iff)
  then obtain buf where buf: "place_payloads (length ?script) (cn_tail_offset c) ?ps
      (set_slice 0 (length ?script) ?script (replicate (length inner) 255)) = Inr buf"
    using place_payloads_ok by blast
  let ?used = "(0, length ?script) # map load_range (cn_loads c) @ [(cn_tail_offset c, length inner)]"
  have "sorted_wrt apart ?used"
    using f(4,6) f(3) unfolding len by (fastforce simp: sorted_wrt_append apart_def load_range_def)
  moreover have "list_all (\<lambda>z. fst z \<le> snd z) ?used" using f(3,5) by (auto simp: list_all_iff load_range_def)
  ultimately have "disjoint_chain (sort_ranges ?used)" by (simp add: chain_iff)
  moreover have "cn_tail_offset c + length (cn_tail c) = length inner" using d(6) f(5) by simp
  moreover have "?script \<noteq> []" using len by auto
  ultimately show ?thesis
    using l10 buf by (simp add: golden_parts_def assemble_def rng flip: golden_payloads_def)
qed

lemma clean_gap:
  assumes "derive_contract inner = Inr c" "clean c" "cn_script_end c + 1 \<le> i" "i < cn_tail_offset c"
    "list_all (\<lambda>r. \<not> (ld_offset r \<le> i \<and> i < ld_end r)) (cn_loads c)" "i < length inner"
  shows "inner ! i = 255"
proof -
  note d = derive_contract_Inr [OF assms(1)]
  note f = clean_facts [OF assms(1,2)]
  show ?thesis
  proof (cases "i < ld_offset (hd (ordered_loads (cn_loads c)))")
    case True
    then show ?thesis using gap_byte [OF refl _ assms(3) True assms(6)] assms(2) by (simp add: clean_def d(4))
  next
    case False
    have "last (ordered_loads (cn_loads c)) \<in> set (ordered_loads (cn_loads c))" using d(3) by (rule last_in_set)
    then show ?thesis
      using inter_gap_byte [of inner "ordered_loads (cn_loads c)" i] False assms d(3) f(8)
      by (auto simp: clean_def d(4) list_all_iff)
  qed
qed

subsection \<open>Properties\<close>

text \<open>What \<open>assemble\<close> returns for a non-empty image: the script at the front, every payload at its
  offset, the tail at the end, and \<open>0xFF\<close> at every other position; payloads neither touch the script nor
  the tail. No payload can overwrite another part.\<close>

theorem assemble_layout:
  assumes "assemble total_size script ps tail toff = Inr out" "0 < total_size"
  shows "length out = total_size \<and> take (length script) out = script \<and> drop toff out = tail
    \<and> (\<forall>(off, blob) \<in> set ps. slice out off (off + length blob) = blob \<and> length script \<le> off \<and> off + length blob \<le> toff)
    \<and> (\<forall>i. length script \<le> i \<and> i < toff \<and> (\<forall>(off, blob) \<in> set ps. i < off \<or> off + length blob \<le> i) \<longrightarrow> out ! i = 255)"
proof (intro conjI)
  note a = assemble_bytes [OF assms]
  show "length out = total_size" by (rule a)
  show "take (length script) out = script" using a(1,2,7,8) by (intro nth_equalityI) auto
  show "drop toff out = tail" using a(1,5,8) by (intro nth_equalityI) auto
  show "\<forall>(off, blob) \<in> set ps. slice out off (off + length blob) = blob \<and> length script \<le> off \<and> off + length blob \<le> toff"
  proof clarify
    fix off blob assume p: "(off, blob) \<in> set ps"
    then have b: "length script \<le> off \<and> off + length blob \<le> toff" using a(4) [of "(off, blob)"] by simp
    with p show "slice out off (off + length blob) = blob \<and> length script \<le> off \<and> off + length blob \<le> toff"
      using a(1,8) a(3) [of "(off, blob)"] by (auto intro!: slice_eq_nth)
  qed
  show "\<forall>i. length script \<le> i \<and> i < toff \<and> (\<forall>(off, blob) \<in> set ps. i < off \<or> off + length blob \<le> i) \<longrightarrow> out ! i = 255"
    using a(6) by (force simp: list_ex_iff inside_def)
qed

theorem assemble_layout_witness:
  "assemble 8 [1, 10] [(4, [7]), (3, [9])] [5] 7 = Inr [1, 10, 255, 9, 7, 255, 255, 5]
   \<and> [1, 10, 255, 9, 7, 255, 255, 5] ! 6 = (255 :: byte)"
proof -
  have e: "assemble 8 [1, 10] [(4, [7]), (3, [9])] [5] 7 = Inr [1, 10, 255, 9, 7, 255, 255, 5]" by code_simp
  from assemble_layout [OF this] show ?thesis using e by auto
qed

text \<open>C15. The contract that \<open>package_contract.py\<close> derives proves the assembler: when the derived contract is clean (script
  followed by a newline, every load inside the image and behind the script, no two loads overlapping, every gap \<open>0xFF\<close>)
  its byte accounting closes and golden mode rebuilds the image byte for byte.\<close>

theorem clean_contract_rebuilds:
  assumes "derive_contract inner = Inr c" "clean c"
  shows "ac_check (cn_accounting c) \<and> golden_mode inner c = Inr inner"
proof
  show "ac_check (cn_accounting c)" by (rule clean_accounts [OF assms])
  note d = derive_contract_Inr [OF assms(1)]
  note f = clean_facts [OF assms]
  obtain out where out: "golden_parts inner c = Inr out" using golden_assembles [OF assms] by blast
  have "0 < length inner" using f(1) by linarith
  from assemble_bytes [OF out [unfolded golden_parts_def, folded golden_payloads_def] this]
  have b: "length out = length inner" "\<And>i. i < cn_script_end c + 1 \<Longrightarrow> out ! i = inner ! i"
    "\<And>p k. p \<in> set (golden_payloads inner c) \<Longrightarrow> k < length (snd p) \<Longrightarrow> out ! (fst p + k) = snd p ! k"
    "\<And>k. k < length (cn_tail c) \<Longrightarrow> out ! (cn_tail_offset c + k) = cn_tail c ! k"
    "\<And>i. cn_script_end c + 1 \<le> i \<Longrightarrow> i < cn_tail_offset c \<Longrightarrow> \<not> list_ex (\<lambda>p. inside p i) (golden_payloads inner c) \<Longrightarrow> out ! i = 255"
    using f(1) by auto
  have "out ! i = inner ! i" if i: "i < length inner" for i
  proof -
    consider (script) "i < cn_script_end c + 1" | (tail) "cn_tail_offset c \<le> i"
      | (load) r where "r \<in> set (cn_loads c)" "ld_offset r \<le> i" "i < ld_end r"
      | (gap) "cn_script_end c + 1 \<le> i" "i < cn_tail_offset c" "list_all (\<lambda>r. \<not> (ld_offset r \<le> i \<and> i < ld_end r)) (cn_loads c)"
      unfolding list_all_iff by (metis not_less)
    then show ?thesis
    proof cases
      case tail
      then show ?thesis using b(4) [of "i - cn_tail_offset c"] i by (simp add: d(6))
    next
      case load
      have "ld_end r \<le> length inner" using f(3) [OF load(1)] f(5) by simp
      then show ?thesis
        using load b(3) [of "(ld_offset r, slice inner (ld_offset r) (ld_end r))" "i - ld_offset r"]
        by (auto simp: golden_payloads_def nth_slice)
    next
      case gap
      have "\<not> list_ex (\<lambda>p. inside p i) (golden_payloads inner c)"
        using gap(3) f(3) f(5) by (fastforce simp: golden_payloads_def list_ex_iff list_all_iff inside_def)
      then have "out ! i = 255" using b(5) gap by blast
      moreover have "inner ! i = 255" using clean_gap [OF assms gap] i by simp
      ultimately show ?thesis by simp
    qed (use b(2) in auto)
  qed
  then have "out = inner" using b(1) by (intro nth_equalityI) auto
  then show "golden_mode inner c = Inr inner" by (simp add: golden_mode_def out)
qed

lemma demo_contract:
  "\<exists>c. derive_contract demo_image = Inr c \<and> clean c"
proof -
  have m: "87 + length END_MARKER = 120" by (simp add: END_MARKER_def)
  have t: "take 120 demo_image = demo_script" by (simp add: demo_image_def demo_length)
  have n: "slice demo_image 120 121 = [10]" by (simp add: demo_image_def slice_def demo_length)
  have g: "slice demo_image 121 128 = replicate 7 255" by (simp add: demo_image_def slice_def demo_length)
  show ?thesis
    by (simp add: derive_contract_def demo_marker m Let_def t demo_loads n ordered_loads_def make_gap_def clean_def g load_range_def)
qed

theorem clean_contract_rebuilds_witness:
  "\<exists>c. derive_contract demo_image = Inr c \<and> clean c \<and> golden_mode demo_image c = Inr demo_image"
  using demo_contract clean_contract_rebuilds [of demo_image] by blast

lemma tar_loop_data:
  "tar_loop raw off ms = Inr tms \<Longrightarrow> list_all P ms \<Longrightarrow>
   (\<And>o' k m. parse_member raw o' k = Inr m \<Longrightarrow> P m) \<Longrightarrow> list_all P tms"
proof (induction raw off ms rule: tar_loop.induct)
  case (1 raw off ms)
  then show ?case by (subst (asm) (2) tar_loop.simps) (auto split: if_splits sum.splits)
qed

lemma parse_member_data:
  assumes "parse_member raw off k = Inr m"
  shows "slice raw (tm_data_offset m) (tm_data_offset m + tm_size m) = tm_data m \<and> length (tm_data m) = tm_size m"
proof -
  obtain sz where m: "tm_data m = py_slice raw (int off + 512) (int off + 512 + sz)" "int (length (tm_data m)) = sz"
      "tm_size m = nat sz" "tm_data_offset m = off + 512"
    using assms by (auto simp: parse_member_def Let_def split: option.splits if_splits)
  then have "sz = int (tm_size m)" by auto
  then have "tm_data m = slice raw (off + 512) (off + 512 + tm_size m)" using m(1) py_slice_ints(2) by simp
  then show ?thesis using m(2,3,4) by auto
qed

lemma parsed_data:
  "parse_tar_raw tar = Inr tms \<Longrightarrow> m \<in> set tms \<Longrightarrow>
   slice tar (tm_data_offset m) (tm_data_offset m + tm_size m) = tm_data m \<and> length (tm_data m) = tm_size m"
  using tar_loop_data [of tar 0 "[]" tms, where P = "\<lambda>m. slice tar (tm_data_offset m) (tm_data_offset m + tm_size m) = tm_data m \<and> length (tm_data m) = tm_size m"]
    parse_member_data [of tar] by (auto simp: parse_tar_raw_def list_all_iff)

text \<open>The contract's entry for a parsed member.\<close>

definition entry_of :: "(bytes \<Rightarrow> string) \<Rightarrow> tar_member \<Rightarrow> outer_entry" where
  "entry_of sha m = \<lparr>oe_name = tm_name m, oe_size = tm_size m, oe_sha = sha (tm_data m), oe_data_offset = tm_data_offset m\<rparr>"

lemma set_slice_same: "a \<le> b \<Longrightarrow> set_slice a b (slice xs a b) xs = xs"
  by (simp add: set_slice_def slice_def flip: append_assoc take_add) 

lemma rebuild_inner_id: "rebuild_inner sha c inner = Inr out \<Longrightarrow> out = inner"
  by (auto simp: rebuild_inner_def Let_def split: sum.splits if_splits)

text \<open>The exact repacker never changes a package: when the contract's entries are those of the parsed
  TAR and its member names are distinct, whatever is written is the source TAR itself, and the
  verdict is \<open>EXACT-ROUND-TRIP-OK\<close>, for every hash function.\<close>

theorem repack_exact:
  assumes "parse_tar_raw tar = Inr tms" "distinct (map tm_name tms)" "rc_members c = map (entry_of sha) tms"
    and "repack sha pin c tar (map (\<lambda>m. (tm_name m, tm_data m)) tms) = Inr (out, ok)"
  shows "out = tar \<and> ok"
proof -
  define members where "members = map (\<lambda>m. (tm_name m, tm_data m)) tms"
  obtain inner x where i: "map_of (rev members) INNER = Some inner" "find (\<lambda>x. oe_name x = INNER) (rc_members c) = Some x"
      "length inner = oe_size x" "out = set_slice (oe_data_offset x) (oe_data_offset x + oe_size x) inner tar" "ok \<longleftrightarrow> sha out = sha tar"
    using assms(4) [folded members_def]
    by (auto simp: repack_def Let_def split: if_splits option.splits sum.splits dest!: rebuild_inner_id)
  from map_of_SomeD [OF i(1)] obtain m where m: "m \<in> set tms" "tm_name m = INNER" "tm_data m = inner" by (auto simp: members_def)
  from i(2) have "x \<in> set (rc_members c)" "oe_name x = INNER" by (auto simp: find_Some_iff)
  then obtain m' where m': "m' \<in> set tms" "x = entry_of sha m'" "tm_name m' = INNER" using assms(3) by (auto simp: entry_of_def)
  have "m' = m" using m m' assms(2) by (auto simp: distinct_map inj_on_def)
  then have "slice tar (oe_data_offset x) (oe_data_offset x + oe_size x) = inner"
    using parsed_data [OF assms(1) m(1)] m(3) m' by (simp add: entry_of_def)
  then have "out = tar" using i(4) set_slice_same [of "oe_data_offset x" "oe_data_offset x + oe_size x" tar] by simp
  then show ?thesis using i(5) by simp
qed

definition demo_header :: bytes where
  "demo_header = INNER @ zeros 481"

lemma demo_tar:
  "\<exists>m. parse_tar_raw (archive [(patch_header demo_header 1, [10])] (zeros 512)) = Inr [m] \<and> tm_name m = INNER \<and> tm_data m = [10]"
proof -
  have l: "length demo_header = 512" by (simp add: demo_header_def INNER_def zeros_def)
  have s: "slice demo_header a b = zeros (b - a)" if "31 \<le> a" "b \<le> 512" for a b
    using that by (auto simp: demo_header_def slice_def INNER_def zeros_def min_def)
  have "oct_field (zeros 8) = Some 0" "oct_field (zeros 12) = Some 0" by code_simp+
  then have r: "readable demo_header" by (simp add: readable_def header_meta_def s)
  have p: "member_ok (patch_header demo_header 1, [10])" "header_meta (patch_header demo_header 1) = header_meta demo_header"
    using patched_member [OF l, of "[10]"] by simp_all
  have name: "fst (header_meta demo_header) = INNER"
  proof -
    have "slice demo_header 0 100 = INNER @ 0 # zeros 68" using replicate_Suc [of 68 "0 :: byte"] by (simp add: demo_header_def zeros_def INNER_def)
    moreover have "0 \<notin> set INNER" by code_simp
    ultimately show ?thesis by (simp add: header_meta_def split_on_append del: slice_zero)
  qed
  have e: "end_block (zeros 512)" by (simp add: end_block_def zeros_def list_all_iff)
  have "\<exists>tms. tar_loop ([] @ archive [(patch_header demo_header 1, [10])] (zeros 512)) (length ([] :: bytes)) [] = Inr ([] @ tms)
      \<and> map tm_data tms = map snd [(patch_header demo_header 1, [10])]
      \<and> map member_meta tms = map (header_meta \<circ> fst) [(patch_header demo_header 1, [10 :: byte])]"
    using p r e by (intro tar_loop_archive) (simp_all add: readable_def)
  then obtain m where "parse_tar_raw (archive [(patch_header demo_header 1, [10])] (zeros 512)) = Inr [m]"
      "tm_data m = [10]" "member_meta m = header_meta demo_header"
    using p(2) by (auto simp: parse_tar_raw_def map_eq_Cons_conv)
  then show ?thesis using name by (metis member_meta_def fst_conv)
qed

theorem repack_exact_witness:
  "\<exists>tar c members. repack (\<lambda>_. []) [] c tar members = Inr (tar, True) \<and> members = [(INNER, [10])]"
proof -
  define tar where "tar = archive [(patch_header demo_header 1, [10])] (zeros 512)"
  obtain m where m: "parse_tar_raw tar = Inr [m]" "tm_name m = INNER" "tm_data m = [10]" using demo_tar by (auto simp: tar_def)
  define c where "c = \<lparr>rc_source_sha = [], rc_members = [entry_of (\<lambda>_. []) m], rc_order = [INNER], rc_inner_sha = [], rc_script_end = 0,
    rc_loads = [], rc_tail_offset = 1, rc_tail_len = 0, rc_tail = []\<rparr>"
  have sz: "tm_size m = 1" using parsed_data [OF m(1), of m] m(3) by simp
  have "\<exists>out ok. repack (\<lambda>_. []) [] c tar (map (\<lambda>m. (tm_name m, tm_data m)) [m]) = Inr (out, ok)"
    using m sz by (simp add: repack_def c_def check_member_def entry_of_def rebuild_inner_def set_slice_def slice_def Let_def exI [of _ True])
  then obtain out ok where r: "repack (\<lambda>_. []) [] c tar (map (\<lambda>m. (tm_name m, tm_data m)) [m]) = Inr (out, ok)" by blast
  have "out = tar \<and> ok" by (rule repack_exact [OF m(1) _ _ r]) (simp_all add: c_def)
  then show ?thesis using r m by (intro exI [of _ tar] exI [of _ c]) auto
qed

end
