(* ===== verification/Reversion.thy ===== *)
theory Reversion
  imports Image "HOL-Library.AList"
begin

text \<open>
  The version-only repacker \<open>tools/fw/reversion_sd_package.py\<close>: the checks of the four-file SD package, the
  proof that two packages differ in nothing but the version, and \<open>reversion_package\<close>. A package is a dict
  from names to contents, an association list; SHA-256 and MD5 (as hexadecimal text) are parameters. Every
  \<open>raise\<close> is \<open>Inl\<close> with its message.

  Shown: \<open>prove_version_only\<close> accepts nothing but a change of the fourteen version digits and the two sidecar
  files; and a successful reversion can be undone: reverting the result gives the source package back.
\<close>

subsection \<open>Checks\<close>

definition MEMBERS :: "bytes list" where
  "MEMBERS = [INNER, bytes_of ''sysVer.txt'', bytes_of ''minieye_firmware.md5'', bytes_of ''adas_upgrade.sh'']"

type_synonym package = "(bytes \<times> bytes) list"

definition member :: "package \<Rightarrow> bytes \<Rightarrow> bytes" where
  "member p n = the (map_of p n)"

definition tokens :: "bytes \<Rightarrow> bytes \<Rightarrow> string + bytes \<times> bytes" where
  "tokens old_version new_version =
     (if \<not> (length old_version = 14 \<and> list_all dig old_version) then Inl ''old version must be exactly 14 ASCII digits''
      else if \<not> (length new_version = 14 \<and> list_all dig new_version) then Inl ''new version must be exactly 14 ASCII digits''
      else if old_version = new_version then Inl ''old and new versions must differ''
      else Inr (old_version, new_version))"

definition members_ok :: "package \<Rightarrow> bool" where
  "members_ok p \<longleftrightarrow> set (map fst p) = set MEMBERS"

definition sysver :: "bytes \<Rightarrow> bytes" where
  "sysver token = bytes_of ''sysVer '' @ token @ [10] @ bytes_of ''end'' @ [10]"

definition md5_file :: "(bytes \<Rightarrow> bytes) \<Rightarrow> bytes \<Rightarrow> bytes" where
  "md5_file md5 inner = md5 inner @ bytes_of ''  '' @ INNER @ [10]"

definition number :: "bytes \<Rightarrow> nat option" where
  "number t =
     (if hex_prefixed t then Some (base_val 16 (drop 2 t))
      else if 4300 < length t then None
      else Some (base_val 10 t))"

fun traverse :: "('a \<Rightarrow> string + 'b) \<Rightarrow> 'a list \<Rightarrow> string + 'b list" where
  "traverse f [] = Inr []"
| "traverse f (x # xs) =
     (case f x of Inl e \<Rightarrow> Inl e | Inr y \<Rightarrow> (case traverse f xs of Inl e \<Rightarrow> Inl e | Inr ys \<Rightarrow> Inr (y # ys)))"

record rev_load =
  rv_section :: bytes
  rv_index :: nat
  rv_offset :: nat
  rv_size :: nat
  rv_end :: nat
  rv_command :: bytes
  rv_command_offset :: nat
  rv_sha :: bytes

datatype region_kind = Head_padding | Inter_payload_gap | Unknown_footer

record layout =
  ly_script_end :: nat
  ly_script_bytes :: nat
  ly_newline :: bool
  ly_token_offset :: nat
  ly_loads :: "rev_load list"
  ly_regions :: "(region_kind \<times> nat \<times> nat) list"

text \<open>The line of the text that holds a match, without surrounding blanks and tabs.\<close>

definition line_of :: "bytes \<Rightarrow> match \<Rightarrow> bytes" where
  "line_of text m =
     (let a = m_start m - length (takeWhile (\<lambda>b. b \<noteq> 10) (rev (take (m_start m) text)));
          b = m_end m + length (takeWhile (\<lambda>b. b \<noteq> 10) (drop (m_end m) text))
      in strip_by (\<lambda>b. b = 32 \<or> b = 9) (slice text a b))"

definition single_line :: "bytes \<Rightarrow> match \<Rightarrow> bool" where
  "single_line text m \<longleftrightarrow> 10 \<notin> set (m_text text m) \<and> line_of text m = m_text text m"

definition inspect_load :: "(bytes \<Rightarrow> bytes) \<Rightarrow> bytes \<Rightarrow> bytes \<Rightarrow> nat \<Rightarrow> nat \<Rightarrow> bytes \<Rightarrow> nat \<times> match \<Rightarrow> string + rev_load" where
  "inspect_load sha inner text script_bytes token_offset section jm =
     (case (number (group 1 (snd jm)), number (group 2 (snd jm))) of
        (Some sz, Some off) \<Rightarrow>
          if sz = 0 \<or> \<not> (script_bytes \<le> off \<and> off < off + sz \<and> off + sz \<le> length inner)
          then Inl ''fatload range is empty, in the script, or outside the image''
          else if off < token_offset + 14 \<and> off + sz > token_offset then Inl ''fatload range overlaps the version token''
          else Inr \<lparr>rv_section = section, rv_index = fst jm, rv_offset = off, rv_size = sz, rv_end = off + sz,
            rv_command = m_text text (snd jm), rv_command_offset = m_start (snd jm), rv_sha = sha (slice inner off (off + sz))\<rparr>
      | _ \<Rightarrow> Inl ''invalid literal for int'')"

definition inspect_section :: "(bytes \<Rightarrow> bytes) \<Rightarrow> bytes \<Rightarrow> bytes \<Rightarrow> nat \<Rightarrow> nat \<Rightarrow> match list \<Rightarrow> match \<times> nat \<Rightarrow> string + rev_load list" where
  "inspect_section sha inner text script_bytes token_offset fatloads ms =
     traverse (inspect_load sha inner text script_bytes token_offset (group 1 (fst ms)))
       (enumerate 0 (filter (\<lambda>m. m_end (fst ms) \<le> m_start m \<and> m_start m < snd ms) fatloads))"

definition inspect_loads :: "(bytes \<Rightarrow> bytes) \<Rightarrow> bytes \<Rightarrow> bytes \<Rightarrow> nat \<Rightarrow> nat \<Rightarrow> match list \<Rightarrow> match list \<Rightarrow> string + rev_load list" where
  "inspect_loads sha inner text script_bytes token_offset sections fatloads =
     (case traverse (inspect_section sha inner text script_bytes token_offset fatloads)
             (zip sections (map m_start (tl sections) @ [length text])) of
        Inl e \<Rightarrow> Inl e
      | Inr rows \<Rightarrow> Inr (concat rows))"

fun overlaps :: "rev_load list \<Rightarrow> bool" where
  "overlaps (a # b # rs) \<longleftrightarrow> rv_end a > rv_offset b \<or> overlaps (b # rs)"
| "overlaps _ \<longleftrightarrow> False"

fun gap_regions :: "rev_load list \<Rightarrow> (region_kind \<times> nat \<times> nat) list" where
  "gap_regions (a # b # rs) =
     (if rv_end a < rv_offset b then (Inter_payload_gap, rv_end a, rv_offset b) # gap_regions (b # rs) else gap_regions (b # rs))"
| "gap_regions _ = []"

text \<open>The second half of \<open>_inspect_inner\<close>: loads, overlaps, padding and regions.\<close>

definition inspect_layout :: "(bytes \<Rightarrow> bytes) \<Rightarrow> bytes \<Rightarrow> bytes \<Rightarrow> nat \<Rightarrow> nat \<Rightarrow> bool \<Rightarrow> match list \<Rightarrow> match list \<Rightarrow> string + layout" where
  "inspect_layout sha inner text script_end token_offset nl sections fatloads =
     (let script_bytes = script_end + (if nl then 1 else 0) in
      case inspect_loads sha inner text script_bytes token_offset sections fatloads of
        Inl e \<Rightarrow> Inl e
      | Inr loads \<Rightarrow>
          if length loads \<noteq> length fatloads then Inl ''every fatload must belong to a File Partition section''
          else let ordered = sort_key rv_offset loads in
            if overlaps ordered then Inl ''overlapping fatload payload ranges''
            else if list_ex (\<lambda>b. b \<noteq> 255) (slice inner script_bytes (rv_offset (hd ordered)))
            then Inl ''script must be followed only by optional LF and FF head padding''
            else Inr \<lparr>ly_script_end = script_end, ly_script_bytes = script_bytes, ly_newline = nl, ly_token_offset = token_offset,
                 ly_loads = loads,
                 ly_regions = (Head_padding, script_bytes, rv_offset (hd ordered)) # gap_regions ordered
                   @ [(Unknown_footer, rv_end (last ordered), length inner)]\<rparr>)"

definition inspect_inner :: "(bytes \<Rightarrow> bytes) \<Rightarrow> bytes \<Rightarrow> bytes \<Rightarrow> string + layout" where
  "inspect_inner sha inner token =
     (case find_sub END_MARKER inner of
        None \<Rightarrow> Inl ''inner script must end with a standalone END_MARKER''
      | Some marker_start \<Rightarrow>
          if 0 < marker_start \<and> inner ! (marker_start - 1) \<noteq> 10 then Inl ''inner script must end with a standalone END_MARKER''
          else let script_end = marker_start + length END_MARKER; script = take script_end inner in
            if list_ex (\<lambda>b. 128 \<le> b) script then Inl ''inner script must be ASCII text''
            else if list_ex (\<lambda>b. b \<noteq> 9 \<and> b \<noteq> 10 \<and> \<not> (32 \<le> b \<and> b \<le> 126)) script
            then Inl ''inner script contains CRLF or other control bytes''
            else (case finditer SYSVER_RE script of
                [v] \<Rightarrow>
                  if m_text script v \<noteq> bytes_of ''sysVer '' @ token then Inl ''script must contain exactly one exact sysVer OLD/NEW line''
                  else (let token_offset = m_start v + 7; sections = finditer SECTION_RE script; fatloads = finditer FATLOAD_RE script in
                    if \<not> distinct (map (group 1) sections) then Inl ''duplicate File Partition section''
                    else if fatloads = [] \<or> map m_start (finditer FATLOAD_WORD script) \<noteq> map m_start fatloads
                    then Inl ''missing or unsupported fatload command''
                    else if \<not> list_all (single_line script) fatloads then Inl ''fatload must be a complete single-line command''
                    else inspect_layout sha inner script script_end token_offset
                           (slice inner script_end (script_end + 1) = [10]) sections fatloads)
              | _ \<Rightarrow> Inl ''script must contain exactly one exact sysVer OLD/NEW line''))"

definition inspect_package :: "(bytes \<Rightarrow> bytes) \<Rightarrow> (bytes \<Rightarrow> bytes) \<Rightarrow> package \<Rightarrow> bytes \<Rightarrow> string + layout" where
  "inspect_package sha md5 p token =
     (if \<not> members_ok p then Inl ''package must contain exactly the four SD member names''
      else if member p (bytes_of ''sysVer.txt'') \<noteq> sysver token
      then Inl ''sysVer.txt must exactly match the requested version and LF format''
      else if member p (bytes_of ''minieye_firmware.md5'') \<noteq> md5_file md5 (member p INNER)
      then Inl ''minieye_firmware.md5 is not the exact fresh inner-image MD5 line''
      else inspect_inner sha (member p INNER) token)"

text \<open>\<open>verify_pins\<close>: the hash of each of the four members must be pinned, in either case of letters.\<close>

definition verify_pins :: "(bytes \<Rightarrow> bytes) \<Rightarrow> package \<Rightarrow> (bytes \<times> bytes) list \<Rightarrow> string + (bytes \<times> bytes) list" where
  "verify_pins sha p pins =
     (if \<not> members_ok p then Inl ''package must contain exactly the four SD member names''
      else if set (map fst pins) \<noteq> set MEMBERS then Inl ''pins must map exactly the four SD member names to SHA-256''
      else traverse (\<lambda>n. let v = member pins n; h = sha (member p n) in
             if \<not> (length v = 64 \<and> list_all hexdig v) then Inl ''invalid SHA-256 pin''
             else if map lower_byte v \<noteq> h then Inl ''source SHA-256 pin mismatch''
             else Inr (n, h)) MEMBERS)"

subsection \<open>The proof and the repacker\<close>

record version_proof =
  vp_old :: bytes
  vp_new :: bytes
  vp_source_sha :: "(bytes \<times> bytes) list"
  vp_output_sha :: "(bytes \<times> bytes) list"
  vp_md5 :: bytes
  vp_inner_size :: nat
  vp_token_offset :: nat
  vp_changed :: "nat list"
  vp_script_end :: nat
  vp_newline :: bool
  vp_normalized_sha :: bytes
  vp_loads :: "(rev_load \<times> bytes) list"
  vp_regions :: "(region_kind \<times> nat \<times> nat \<times> bytes \<times> bytes) list"

text \<open>The loop over the load commands; the load proof holds the row of the source and the output's hash.\<close>

definition load_proof :: "bytes \<Rightarrow> bytes \<Rightarrow> rev_load \<times> rev_load \<Rightarrow> string + rev_load \<times> bytes" where
  "load_proof original revised ab =
     (if slice original (rv_offset (fst ab)) (rv_end (fst ab)) \<noteq> slice revised (rv_offset (snd ab)) (rv_end (snd ab))
      then Inl ''partition payload bytes changed'' else Inr (fst ab, rv_sha (snd ab)))"

definition region_proof :: "(bytes \<Rightarrow> bytes) \<Rightarrow> bytes \<Rightarrow> bytes \<Rightarrow> region_kind \<times> nat \<times> nat \<Rightarrow> string + region_kind \<times> nat \<times> nat \<times> bytes \<times> bytes" where
  "region_proof sha original revised r =
     (case r of (kind, a, b) \<Rightarrow>
        if slice original a b \<noteq> slice revised a b then Inl ''region bytes changed''
        else Inr (kind, a, b, sha (slice original a b), sha (slice revised a b)))"

definition compare_layouts :: "package \<Rightarrow> package \<Rightarrow> bytes \<Rightarrow> bytes \<Rightarrow> layout \<Rightarrow> layout \<Rightarrow> string option" where
  "compare_layouts source output old new before after =
     (let original = member source INNER; revised = member output INNER;
          token_offset = ly_token_offset before; stop = token_offset + 14
      in if length original \<noteq> length revised then Some ''inner image length changed''
         else if ly_token_offset before \<noteq> ly_token_offset after then Some ''script token offset changed''
         else if take token_offset original \<noteq> take token_offset revised \<or> drop stop original \<noteq> drop stop revised
         then Some ''inner bytes changed outside the 14-byte version token span''
         else if slice original token_offset stop \<noteq> old \<or> slice revised token_offset stop \<noteq> new
         then Some ''inner token span does not match the requested versions''
         else if ly_script_end before \<noteq> ly_script_end after \<or> ly_script_bytes before \<noteq> ly_script_bytes after
           \<or> ly_newline before \<noteq> ly_newline after \<or> ly_regions before \<noteq> ly_regions after then Some ''inner layout changed''
         else if take token_offset revised @ old @ slice revised stop (ly_script_bytes after) \<noteq> take (ly_script_bytes before) original
         then Some ''script is not exactly identical after token normalization''
         else if member source (bytes_of ''adas_upgrade.sh'') \<noteq> member output (bytes_of ''adas_upgrade.sh'') then Some ''adas_upgrade.sh changed''
         else if ly_loads before \<noteq> ly_loads after then Some ''load command, partition offset, length or SHA-256 changed''
         else None)"

definition prove_version_only :: "(bytes \<Rightarrow> bytes) \<Rightarrow> (bytes \<Rightarrow> bytes) \<Rightarrow> package \<Rightarrow> package \<Rightarrow> bytes \<Rightarrow> bytes \<Rightarrow> string + version_proof" where
  "prove_version_only sha md5 source output old_version new_version =
     (case tokens old_version new_version of Inl e \<Rightarrow> Inl e | Inr (old, new) \<Rightarrow>
      (case inspect_package sha md5 source old of Inl e \<Rightarrow> Inl e | Inr before \<Rightarrow>
      (case inspect_package sha md5 output new of Inl e \<Rightarrow> Inl e | Inr after \<Rightarrow>
      (case compare_layouts source output old new before after of Some e \<Rightarrow> Inl e | None \<Rightarrow>
        (let original = member source INNER; revised = member output INNER; t = ly_token_offset before in
         case traverse (load_proof original revised) (zip (ly_loads before) (ly_loads after)) of Inl e \<Rightarrow> Inl e | Inr lps \<Rightarrow>
        (case traverse (region_proof sha original revised) (ly_regions before) of Inl e \<Rightarrow> Inl e | Inr rps \<Rightarrow>
          Inr \<lparr>vp_old = old_version, vp_new = new_version,
            vp_source_sha = map (\<lambda>n. (n, sha (member source n))) MEMBERS, vp_output_sha = map (\<lambda>n. (n, sha (member output n))) MEMBERS,
            vp_md5 = md5 revised, vp_inner_size = length revised, vp_token_offset = t,
            vp_changed = filter (\<lambda>i. original ! i \<noteq> revised ! i) [t..<t + 14],
            vp_script_end = ly_script_end before, vp_newline = ly_newline before,
            vp_normalized_sha = sha (take t revised @ old @ slice revised (t + 14) (ly_script_bytes after)),
            vp_loads = lps, vp_regions = rps\<rparr>))))))"

definition reversion_package :: "(bytes \<Rightarrow> bytes) \<Rightarrow> (bytes \<Rightarrow> bytes) \<Rightarrow> package \<Rightarrow> bytes \<Rightarrow> bytes \<Rightarrow> string + package \<times> version_proof" where
  "reversion_package sha md5 source old_version new_version =
     (case tokens old_version new_version of Inl e \<Rightarrow> Inl e | Inr (old, new) \<Rightarrow>
      (case inspect_package sha md5 source old of Inl e \<Rightarrow> Inl e | Inr layout \<Rightarrow>
        (let offset = ly_token_offset layout;
             inner = take offset (member source INNER) @ new @ drop (offset + 14) (member source INNER);
             output = AList.update (bytes_of ''minieye_firmware.md5'') (md5_file md5 inner)
               (AList.update (bytes_of ''sysVer.txt'') (sysver new) (AList.update INNER inner source))
         in case prove_version_only sha md5 source output old_version new_version of
              Inl e \<Rightarrow> Inl e
            | Inr proof' \<Rightarrow> Inr (output, proof'))))"

subsection \<open>What the checks establish\<close>

lemma traverse_Inr: "traverse f xs = Inr ys \<longleftrightarrow> length ys = length xs \<and> (\<forall>i < length xs. f (xs ! i) = Inr (ys ! i))"
proof (induction xs arbitrary: ys)
  case (Cons x xs)
  show ?case
  proof (cases "f x")
    case (Inl e)
    then show ?thesis by auto
  next
    case (Inr y)
    then have "traverse f (x # xs) = Inr ys \<longleftrightarrow> (\<exists>zs. traverse f xs = Inr zs \<and> ys = y # zs)" by (auto split: sum.splits)
    also have "\<dots> \<longleftrightarrow> length ys = length (x # xs) \<and> (\<forall>i < length (x # xs). f ((x # xs) ! i) = Inr (ys ! i))"
      unfolding Cons using Inr by (cases ys) (auto simp: less_Suc_eq_0_disj)
    finally show ?thesis .
  qed
qed auto

lemma traverse_in:
  assumes "traverse f xs = Inr ys" "y \<in> set ys"
  obtains x where "x \<in> set xs" "f x = Inr y"
proof -
  from assms(2) obtain i where "i < length ys" "ys ! i = y" by (auto simp: in_set_conv_nth)
  with assms(1) that show thesis by (metis nth_mem traverse_Inr)
qed

lemma traverse_ok: "(\<And>x. x \<in> set xs \<Longrightarrow> \<exists>y. f x = Inr y) \<Longrightarrow> \<exists>ys. traverse f xs = Inr ys"
  by (induction xs) (auto, fastforce)

lemma inspect_load_Inr:
  "inspect_load sha inner text sb t n jm = Inr r \<Longrightarrow>
   sb \<le> rv_offset r \<and> rv_end r = rv_offset r + rv_size r \<and> 0 < rv_size r \<and> rv_end r \<le> length inner
     \<and> rv_sha r = sha (slice inner (rv_offset r) (rv_end r))"
  by (auto simp: inspect_load_def split: option.splits if_splits)

lemma inspect_loads_Inr:
  assumes "inspect_loads sha inner text sb t sections fatloads = Inr loads" "r \<in> set loads"
  shows "sb \<le> rv_offset r \<and> rv_end r = rv_offset r + rv_size r \<and> 0 < rv_size r \<and> rv_end r \<le> length inner
     \<and> rv_sha r = sha (slice inner (rv_offset r) (rv_end r))"
proof -
  obtain rows where rows: "traverse (inspect_section sha inner text sb t fatloads) (zip sections (map m_start (tl sections) @ [length text])) = Inr rows"
      "loads = concat rows"
    using assms(1) by (auto simp: inspect_loads_def split: sum.splits)
  then obtain rs where rs: "rs \<in> set rows" "r \<in> set rs" using assms(2) by auto
  obtain ms where "inspect_section sha inner text sb t fatloads ms = Inr rs" by (rule traverse_in [OF rows(1) rs(1)])
  then obtain jm where "inspect_load sha inner text sb t (group 1 (fst ms)) jm = Inr r"
    unfolding inspect_section_def by (rule traverse_in [OF _ rs(2)])
  then show ?thesis by (rule inspect_load_Inr)
qed

lemma inspect_inner_Inr:
  assumes "inspect_inner sha inner token = Inr ly" "length token = 14"
  shows "ly_token_offset ly + 14 \<le> ly_script_end ly" "ly_script_end ly \<le> ly_script_bytes ly" "ly_script_end ly \<le> length inner"
    and "r \<in> set (ly_loads ly) \<Longrightarrow> ly_script_bytes ly \<le> rv_offset r \<and> 0 < rv_size r \<and> rv_end r = rv_offset r + rv_size r \<and> rv_end r \<le> length inner"
proof -
  obtain k v where k: "find_sub END_MARKER inner = Some k"
    and v: "finditer SYSVER_RE (take (k + length END_MARKER) inner) = [v]"
      "m_text (take (k + length END_MARKER) inner) v = bytes_of ''sysVer '' @ token"
    and l: "inspect_layout sha inner (take (k + length END_MARKER) inner) (k + length END_MARKER) (m_start v + 7)
        (slice inner (k + length END_MARKER) (k + length END_MARKER + 1) = [10])
        (finditer SECTION_RE (take (k + length END_MARKER) inner)) (finditer FATLOAD_RE (take (k + length END_MARKER) inner)) = Inr ly"
    using assms(1) by (auto simp: inspect_inner_def Let_def split: option.splits if_splits list.splits)
  have b: "k + length END_MARKER \<le> length inner" using find_sub_bound [OF k] .
  let ?script = "take (k + length END_MARKER) inner"
  have vb: "m_start v \<le> m_end v" "m_end v \<le> length ?script" using finditer_facts(1) [of v SYSVER_RE ?script] v(1) by auto
  have "length (m_text ?script v) = 21" using v(2) assms(2) by simp
  then have "m_end v = m_start v + 21" using vb unfolding m_text_def length_slice by linarith
  then have off: "m_start v + 7 + 14 \<le> k + length END_MARKER" using vb b by simp
  show "ly_token_offset ly + 14 \<le> ly_script_end ly" "ly_script_end ly \<le> ly_script_bytes ly" "ly_script_end ly \<le> length inner"
    using l off b by (auto simp: inspect_layout_def Let_def split: sum.splits if_splits)
  show "ly_script_bytes ly \<le> rv_offset r \<and> 0 < rv_size r \<and> rv_end r = rv_offset r + rv_size r \<and> rv_end r \<le> length inner"
    if r: "r \<in> set (ly_loads ly)"
  proof -
    have "\<exists>t s f. inspect_loads sha inner ?script (ly_script_bytes ly) t s f = Inr (ly_loads ly)"
      using l by (fastforce simp: inspect_layout_def Let_def split: sum.splits if_splits)
    then show ?thesis using inspect_loads_Inr r by blast
  qed
qed

lemma prove_cases:
  assumes "prove_version_only sha md5 source output old new = Inr vp"
  obtains before after where "tokens old new = Inr (old, new)" "inspect_package sha md5 source old = Inr before"
    "inspect_package sha md5 output new = Inr after" "compare_layouts source output old new before after = None"
    "traverse (load_proof (member source INNER) (member output INNER)) (zip (ly_loads before) (ly_loads after)) = Inr (vp_loads vp)"
    "vp_token_offset vp = ly_token_offset before" "vp_script_end vp = ly_script_end before"
    "traverse (region_proof sha (member source INNER) (member output INNER)) (ly_regions before) = Inr (vp_regions vp)"
proof -
  have t: "tokens old new = Inr ab \<Longrightarrow> ab = (old, new)" for ab by (auto simp: tokens_def split: if_splits)
  from assms that show thesis
    by (auto simp: prove_version_only_def Let_def split: sum.splits option.splits prod.splits dest!: t)
qed

lemma compare_None:
  assumes "compare_layouts source output old new before after = None"
  shows "length (member source INNER) = length (member output INNER)" "ly_token_offset before = ly_token_offset after"
    and "take (ly_token_offset before) (member source INNER) = take (ly_token_offset before) (member output INNER)"
    and "drop (ly_token_offset before + 14) (member source INNER) = drop (ly_token_offset before + 14) (member output INNER)"
    and "slice (member source INNER) (ly_token_offset before) (ly_token_offset before + 14) = old"
    and "slice (member output INNER) (ly_token_offset before) (ly_token_offset before + 14) = new"
    and "ly_script_end before = ly_script_end after" "ly_script_bytes before = ly_script_bytes after" "ly_newline before = ly_newline after"
    and "ly_regions before = ly_regions after" "ly_loads before = ly_loads after"
    and "member source (bytes_of ''adas_upgrade.sh'') = member output (bytes_of ''adas_upgrade.sh'')"
  using assms by (simp_all add: compare_layouts_def Let_def split: if_splits)

lemma take_slice_drop: "a \<le> b \<Longrightarrow> take a xs @ slice xs a b @ drop b xs = xs"
  by (simp add: slice_def flip: append_assoc take_add)

lemma take_slice_slice: "a \<le> b \<Longrightarrow> b \<le> c \<Longrightarrow> take a xs @ slice xs a b @ slice xs b c = take c xs"
  by (simp add: slice_def flip: append_assoc take_add)

lemma tokens_length: "tokens old new = Inr ab \<Longrightarrow> length old = 14 \<and> length new = 14 \<and> tokens new old = Inr (new, old)"
  by (auto simp: tokens_def split: if_splits)

lemma inspect_package_Inr:
  "inspect_package sha md5 p token = Inr ly \<Longrightarrow> members_ok p \<and> member p (bytes_of ''sysVer.txt'') = sysver token
     \<and> member p (bytes_of ''minieye_firmware.md5'') = md5_file md5 (member p INNER) \<and> inspect_inner sha (member p INNER) token = Inr ly"
  by (auto simp: inspect_package_def split: if_splits)

subsection \<open>Reverting\<close>

text \<open>The comparison is symmetric, so the output passes the same proof against the source.\<close>

lemma prove_symmetric:
  assumes "prove_version_only sha md5 source output old new = Inr vp"
  shows "\<exists>vp'. prove_version_only sha md5 output source new old = Inr vp'"
proof -
  obtain before after where p: "tokens old new = Inr (old, new)" "inspect_package sha md5 source old = Inr before"
    "inspect_package sha md5 output new = Inr after" "compare_layouts source output old new before after = None"
    and rps: "traverse (region_proof sha (member source INNER) (member output INNER)) (ly_regions before) = Inr (vp_regions vp)"
    by (rule prove_cases [OF assms])
  note c = compare_None [OF p(4)]
  let ?a = "member source INNER" and ?b = "member output INNER" and ?t = "ly_token_offset before"
  have len: "length old = 14" "length new = 14" and tok: "tokens new old = Inr (new, old)" using tokens_length [OF p(1)] by auto
  note ib = inspect_inner_Inr [OF conjunct2 [OF conjunct2 [OF conjunct2 [OF inspect_package_Inr [OF p(2)]]]] len(1)]
  have norm: "take ?t ?a @ new @ slice ?a (?t + 14) (ly_script_bytes before) = take (ly_script_bytes before) ?b"
  proof -
    have "take ?t ?b @ slice ?b ?t (?t + 14) @ slice ?b (?t + 14) (ly_script_bytes before) = take (ly_script_bytes before) ?b"
      using ib(1,2) by (intro take_slice_slice) auto
    then show ?thesis using c(3,4,6) by (simp add: slice_def)
  qed
  have cmp: "compare_layouts output source new old after before = None"
    using c norm by (simp add: compare_layouts_def Let_def)
  have same: "slice ?a x y = slice ?b x y" if "?t + 14 \<le> x" for x y
  proof -
    have "drop x ?a = drop (x - (?t + 14)) (drop (?t + 14) ?a)" "drop x ?b = drop (x - (?t + 14)) (drop (?t + 14) ?b)"
      using that by simp_all
    then show ?thesis using c(4) by (simp add: slice_def)
  qed
  have "\<exists>lps. traverse (load_proof ?b ?a) (zip (ly_loads after) (ly_loads before)) = Inr lps"
  proof (rule traverse_ok)
    fix x assume "x \<in> set (zip (ly_loads after) (ly_loads before))"
    then have "fst x = snd x" "fst x \<in> set (ly_loads before)" using c(11) by (auto simp: set_zip)
    then show "\<exists>y. load_proof ?b ?a x = Inr y" using ib same [of "rv_offset (fst x)"] by (fastforce simp: load_proof_def)
  qed
  moreover have "\<exists>rps. traverse (region_proof sha ?b ?a) (ly_regions after) = Inr rps"
  proof (rule traverse_ok)
    fix x assume x: "x \<in> set (ly_regions after)"
    then obtain i where "i < length (ly_regions before)" "x = ly_regions before ! i" using c(10) by (auto simp: in_set_conv_nth)
    then have "region_proof sha ?a ?b x = Inr (vp_regions vp ! i)" using rps [unfolded traverse_Inr] by blast
    then have "\<exists>y. region_proof sha ?a ?b x = Inr y" by blast
    then show "\<exists>y. region_proof sha ?b ?a x = Inr y" by (auto simp: region_proof_def split: prod.splits if_splits)
  qed
  ultimately show ?thesis using p(2,3) tok cmp by (auto simp: prove_version_only_def Let_def)
qed

lemma alist_ext:
  "map fst xs = map fst ys \<Longrightarrow> distinct (map fst xs) \<Longrightarrow> (\<And>k. k \<in> set (map fst xs) \<Longrightarrow> map_of xs k = map_of ys k) \<Longrightarrow> xs = ys"
proof (induction xs arbitrary: ys)
  case (Cons x xs)
  then obtain y ys' where ys: "ys = y # ys'" "fst x = fst y" "map fst xs = map fst ys'" by (cases ys) auto
  have "snd x = snd y" using Cons.prems(3) [of "fst x"] ys by simp
  moreover have "xs = ys'"
  proof (rule Cons.IH [OF ys(3)])
    show "distinct (map fst xs)" using Cons.prems(2) by simp
    fix k assume k: "k \<in> set (map fst xs)"
    then have "k \<noteq> fst x" using Cons.prems(2) by (metis distinct.simps(2) list.map(2))
    then show "map_of xs k = map_of ys' k" using Cons.prems(3) [of k] k ys by simp
  qed
  ultimately show ?case using ys by (auto simp: prod_eq_iff)
qed simp

lemma update_present: "k \<in> set (map fst p) \<Longrightarrow> map fst (AList.update k v p) = map fst p"
  by (simp add: AList.update_keys)

lemma MEMBERS_distinct: "distinct MEMBERS"
  by code_simp

subsection \<open>Properties\<close>

text \<open>C13. \<open>prove_version_only\<close> accepts nothing but a change of version: both inner images are the same bytes around fourteen
  digits, the old ones in the source and the new ones in the output, inside the script; \<open>adas_upgrade.sh\<close> is identical; the two
  sidecar files are the ones that belong to version and image; and every load command selects the same
  non-empty range of the same bytes behind the script.\<close>

theorem prove_version_only_sound:
  assumes "prove_version_only sha md5 source output old new = Inr vp"
  shows "\<exists>pre post. length pre = vp_token_offset vp \<and> vp_token_offset vp + 14 \<le> vp_script_end vp
    \<and> member source INNER = pre @ old @ post \<and> member output INNER = pre @ new @ post
    \<and> member output (bytes_of ''adas_upgrade.sh'') = member source (bytes_of ''adas_upgrade.sh'')
    \<and> member output (bytes_of ''sysVer.txt'') = sysver new
    \<and> member output (bytes_of ''minieye_firmware.md5'') = md5_file md5 (member output INNER)
    \<and> (\<forall>(r, h) \<in> set (vp_loads vp). vp_script_end vp \<le> rv_offset r \<and> rv_offset r < rv_end r \<and> rv_end r \<le> length (member source INNER)
        \<and> slice (member output INNER) (rv_offset r) (rv_end r) = slice (member source INNER) (rv_offset r) (rv_end r))"
proof -
  obtain before after where p: "tokens old new = Inr (old, new)" "inspect_package sha md5 source old = Inr before"
    "inspect_package sha md5 output new = Inr after" "compare_layouts source output old new before after = None"
    "traverse (load_proof (member source INNER) (member output INNER)) (zip (ly_loads before) (ly_loads after)) = Inr (vp_loads vp)"
    "vp_token_offset vp = ly_token_offset before" "vp_script_end vp = ly_script_end before"
    by (rule prove_cases [OF assms])
  note c = compare_None [OF p(4)]
  let ?t = "ly_token_offset before"
  note ib = inspect_inner_Inr [OF conjunct2 [OF conjunct2 [OF conjunct2 [OF inspect_package_Inr [OF p(2)]]]], of]
  have len: "length old = 14" using tokens_length [OF p(1)] by simp
  have parts: "member source INNER = take ?t (member source INNER) @ old @ drop (?t + 14) (member source INNER)"
    "member output INNER = take ?t (member source INNER) @ new @ drop (?t + 14) (member source INNER)"
    using take_slice_drop [of ?t "?t + 14" "member source INNER"] take_slice_drop [of ?t "?t + 14" "member output INNER"] c by simp_all
  have loads: "vp_script_end vp \<le> rv_offset r \<and> rv_offset r < rv_end r \<and> rv_end r \<le> length (member source INNER)
      \<and> slice (member output INNER) (rv_offset r) (rv_end r) = slice (member source INNER) (rv_offset r) (rv_end r)"
    if rh: "(r, h) \<in> set (vp_loads vp)" for r h
  proof -
    obtain x where x: "x \<in> set (zip (ly_loads before) (ly_loads after))" "load_proof (member source INNER) (member output INNER) x = Inr (r, h)"
      by (rule traverse_in [OF p(5) rh])
    then have "r \<in> set (ly_loads before)" "snd x = r" using c(11) by (auto simp: load_proof_def set_zip split: if_splits)
    then show ?thesis using ib(2) [OF len] ib(4) [OF len] x(2) p(7) by (fastforce simp: load_proof_def split: if_splits)
  qed
  have t: "?t + 14 \<le> ly_script_end before" "ly_script_end before \<le> length (member source INNER)" using ib(1,3) [OF len] by auto
  show ?thesis
    using parts loads t inspect_package_Inr [OF p(3)] c(12) p(6,7)
    by (intro exI [of _ "take ?t (member source INNER)"] exI [of _ "drop (?t + 14) (member source INNER)"]) auto
qed

text \<open>C14. A reversion can be undone: when \<open>reversion_package\<close> returns a package, reverting that package to the old
  version returns too, and gives the source package back, entry for entry.\<close>

theorem reversion_reversible:
  assumes "reversion_package sha md5 source old new = Inr (output, vp)" "distinct (map fst source)"
  shows "\<exists>vp'. reversion_package sha md5 output new old = Inr (source, vp')"
proof -
  obtain ly where tok: "tokens old new = Inr (old, new)" and ly: "inspect_package sha md5 source old = Inr ly"
    and vproof: "prove_version_only sha md5 source output old new = Inr vp"
    and out: "output = AList.update (bytes_of ''minieye_firmware.md5'') (member output (bytes_of ''minieye_firmware.md5''))
         (AList.update (bytes_of ''sysVer.txt'') (sysver new) (AList.update INNER (member output INNER) source))"
  proof -
    have n: "bytes_of ''minieye_firmware.md5'' \<noteq> INNER" "bytes_of ''sysVer.txt'' \<noteq> INNER" by (simp_all add: INNER_def)
    have t: "tokens old new = Inr ab \<Longrightarrow> ab = (old, new)" for ab by (auto simp: tokens_def split: if_splits)
    show thesis using assms(1) n that
      by (auto simp: reversion_package_def Let_def member_def AList.update_conv' split: sum.splits prod.splits dest!: t)
  qed
  obtain before after where p: "inspect_package sha md5 source old = Inr before"
    "inspect_package sha md5 output new = Inr after" "compare_layouts source output old new before after = None"
    by (rule prove_cases [OF vproof])
  note c = compare_None [OF p(3)]
  let ?t = "ly_token_offset after"
  have inner: "take ?t (member output INNER) @ old @ drop (?t + 14) (member output INNER) = member source INNER"
    using take_slice_drop [of ?t "?t + 14" "member source INNER"] c by simp
  define undone where "undone = AList.update (bytes_of ''minieye_firmware.md5'') (md5_file md5 (member source INNER))
     (AList.update (bytes_of ''sysVer.txt'') (sysver old) (AList.update INNER (member source INNER) output))"
  have keys: "set (map fst source) = set MEMBERS" "set (map fst output) = set MEMBERS"
    using inspect_package_Inr [OF p(1)] inspect_package_Inr [OF p(2)] by (simp_all add: members_ok_def)
  have "undone = source"
  proof (rule sym, rule alist_ext)
    have "map fst output = map fst source" using keys(1) by (subst out) (simp add: update_present MEMBERS_def AList.update_keys)
    then show "map fst source = map fst undone" using keys by (simp add: undone_def update_present MEMBERS_def AList.update_keys)
    show "distinct (map fst source)" by (rule assms(2))
    fix k assume "k \<in> set (map fst source)"
    then have k: "k \<in> set MEMBERS" "map_of source k = Some (member source k)" "map_of output k = Some (member output k)"
      using keys by (auto simp: member_def weak_map_of_SomeI) (metis keys map_of_eq_None_iff not_None_eq option.sel set_map)+
    show "map_of source k = map_of undone k"
      using k c(12) inspect_package_Inr [OF p(1)]
      by (auto simp: undone_def AList.update_conv' MEMBERS_def)
  qed
  moreover obtain vp' where "prove_version_only sha md5 output source new old = Inr vp'" using prove_symmetric [OF vproof] by blast
  ultimately show ?thesis
    using tokens_length [OF tok] p(2) inner by (auto simp: reversion_package_def Let_def undone_def)
qed

subsection \<open>A package\<close>

definition OLD :: bytes where "OLD = bytes_of ''20240101000000''"
definition NEW :: bytes where "NEW = bytes_of ''20250202111111''"

definition demo_package :: package where
  "demo_package = [(INNER, demo_image), (bytes_of ''sysVer.txt'', sysver OLD),
     (bytes_of ''minieye_firmware.md5'', md5_file (\<lambda>_. []) demo_image), (bytes_of ''adas_upgrade.sh'', [])]"

definition demo_script_new :: bytes where
  "demo_script_new = bytes_of ''sysVer '' @ NEW @ drop 21 demo_script"

definition demo_image_new :: bytes where
  "demo_image_new = demo_script_new @ drop 120 demo_image"

lemma demo_new: "length demo_script_new = 120" "length demo_image_new = 133" "find_sub END_MARKER demo_image_new = Some 87"
  by (simp_all add: demo_script_new_def demo_image_new_def demo_length NEW_def) code_simp

text \<open>What the expressions find in the two scripts.\<close>

definition demo_matches :: "bytes \<Rightarrow> bool" where
  "demo_matches script \<longleftrightarrow> finditer SYSVER_RE script = [\<lparr>m_start = 0, m_end = 21, m_groups = []\<rparr>]
     \<and> finditer SECTION_RE script = [\<lparr>m_start = 22, m_end = 41, m_groups = [(1, bytes_of ''a'')]\<rparr>]
     \<and> finditer FATLOAD_RE script = [\<lparr>m_start = 42, m_end = 86, m_groups = [(2, bytes_of ''0x80''), (1, bytes_of ''0x2'')]\<rparr>]
     \<and> map m_start (finditer FATLOAD_WORD script) = [42]"

lemma demo_matches: "demo_matches demo_script" "demo_matches demo_script_new"
  unfolding demo_matches_def by (intro conjI; code_simp)+

definition demo_layout :: layout where
  "demo_layout = \<lparr>ly_script_end = 120, ly_script_bytes = 121, ly_newline = True, ly_token_offset = 7,
     ly_loads = [\<lparr>rv_section = bytes_of ''a'', rv_index = 0, rv_offset = 128, rv_size = 2, rv_end = 130,
       rv_command = bytes_of ''fatload mmc 0 0x1 $(SdUpgradeImage) 0x2 0x80'', rv_command_offset = 42, rv_sha = []\<rparr>],
     ly_regions = [(Head_padding, 121, 128), (Unknown_footer, 130, 133)]\<rparr>"

lemma demo_numbers: "number (bytes_of ''0x2'') = Some 2" "number (bytes_of ''0x80'') = Some 128"
  by code_simp+

lemma demo_inspect:
  assumes "find_sub END_MARKER inner = Some 87" "take 120 inner = script" "demo_matches script" "length inner = 133" "inner ! 86 = 10"
    "slice inner 120 121 = [10]" "slice inner 121 128 = replicate 7 255"
    "list_all (\<lambda>b. b = 9 \<or> b = 10 \<or> (32 \<le> b \<and> b \<le> 126)) script" "slice script 0 21 = bytes_of ''sysVer '' @ token"
    "slice script 42 86 = bytes_of ''fatload mmc 0 0x1 $(SdUpgradeImage) 0x2 0x80''" "script ! 41 = 10" "script ! 86 = 10"
  shows "inspect_inner (\<lambda>_. []) inner token = Inr demo_layout"
proof -
  have m: "87 + length END_MARKER = 120" by (simp add: END_MARKER_def)
  have s: "length script = 120" using assms(2,4) by auto
  have d: "finditer SYSVER_RE script = [\<lparr>m_start = 0, m_end = 21, m_groups = []\<rparr>]"
    "finditer SECTION_RE script = [\<lparr>m_start = 22, m_end = 41, m_groups = [(1, bytes_of ''a'')]\<rparr>]"
    "finditer FATLOAD_RE script = [\<lparr>m_start = 42, m_end = 86, m_groups = [(2, bytes_of ''0x80''), (1, bytes_of ''0x2'')]\<rparr>]"
    "map m_start (finditer FATLOAD_WORD script) = [42]" using assms(3) by (simp_all add: demo_matches_def)
  have low: "\<not> list_ex (\<lambda>b. 128 \<le> b) script" "\<not> list_ex (\<lambda>b. b \<noteq> 9 \<and> b \<noteq> 10 \<and> \<not> (32 \<le> b \<and> b \<le> 126)) script"
    using assms(8) by (auto simp: list_all_iff list_ex_iff word_le_nat_alt)
  have single: "single_line script \<lparr>m_start = 42, m_end = 86, m_groups = [(2, bytes_of ''0x80''), (1, bytes_of ''0x2'')]\<rparr>"
  proof -
    have "rev (take 42 script) = 10 # rev (take 41 script)" using assms(11) s take_Suc_conv_app_nth [of 41 script] by simp
    moreover have "drop 86 script = 10 # drop 87 script" using assms(12) s Cons_nth_drop_Suc [of 86 script] by simp
    moreover have "strip_by (\<lambda>b. b = 32 \<or> b = 9) (bytes_of ''fatload mmc 0 0x1 $(SdUpgradeImage) 0x2 0x80'') = bytes_of ''fatload mmc 0 0x1 $(SdUpgradeImage) 0x2 0x80''"
      "10 \<notin> set (bytes_of ''fatload mmc 0 0x1 $(SdUpgradeImage) 0x2 0x80'')" by code_simp+
    ultimately show ?thesis using assms(10) by (simp add: single_line_def m_text_def line_of_def Let_def)
  qed
  have g: "group 1 \<lparr>m_start = 42, m_end = 86, m_groups = [(2, bytes_of ''0x80''), (1, bytes_of ''0x2'')]\<rparr> = bytes_of ''0x2''"
    "group 2 \<lparr>m_start = 42, m_end = 86, m_groups = [(2, bytes_of ''0x80''), (1, bytes_of ''0x2'')]\<rparr> = bytes_of ''0x80''"
    "group 1 \<lparr>m_start = 22, m_end = 41, m_groups = [(1, bytes_of ''a'')]\<rparr> = bytes_of ''a''" by (simp_all add: group_def)
  have lay: "inspect_layout (\<lambda>_. []) inner script 120 7 True (finditer SECTION_RE script) (finditer FATLOAD_RE script) = Inr demo_layout"
    using s assms(4,7,10)
    by (simp add: inspect_layout_def inspect_loads_def inspect_section_def inspect_load_def d enumerate_eq_zip g demo_numbers m_text_def
        demo_layout_def Let_def list_ex_iff del: One_nat_def)
  show ?thesis
    using low single lay d assms(1,2,5,6,9) by (simp add: inspect_inner_def m Let_def m_text_def del: One_nat_def)
qed

definition demo_output :: package where
  "demo_output = [(INNER, demo_image_new), (bytes_of ''sysVer.txt'', sysver NEW),
     (bytes_of ''minieye_firmware.md5'', md5_file (\<lambda>_. []) demo_image_new), (bytes_of ''adas_upgrade.sh'', [])]"

lemma demo_old: "inspect_package (\<lambda>_. []) (\<lambda>_. []) demo_package OLD = Inr demo_layout"
proof -
  have "inspect_inner (\<lambda>_. []) demo_image OLD = Inr demo_layout"
    by (rule demo_inspect [OF demo_marker refl]) (simp add: demo_image_def demo_length demo_matches(1), simp add: demo_length, code_simp+)
  moreover have "members_ok demo_package" by code_simp
  ultimately show ?thesis by (simp add: inspect_package_def demo_package_def member_def INNER_def)
qed

lemma demo_new': "inspect_package (\<lambda>_. []) (\<lambda>_. []) demo_output NEW = Inr demo_layout"
proof -
  have "inspect_inner (\<lambda>_. []) demo_image_new NEW = Inr demo_layout"
    by (rule demo_inspect [OF demo_new(3) refl]) (simp add: demo_image_new_def demo_new demo_matches(2), simp add: demo_new, code_simp+)
  moreover have "members_ok demo_output" by code_simp
  ultimately show ?thesis by (simp add: inspect_package_def demo_output_def member_def INNER_def)
qed

lemma demo_proved: "\<exists>vp. prove_version_only (\<lambda>_. []) (\<lambda>_. []) demo_package demo_output OLD NEW = Inr vp"
proof -
  have t: "tokens OLD NEW = Inr (OLD, NEW)" by code_simp
  have c: "compare_layouts demo_package demo_output OLD NEW demo_layout demo_layout = None" by code_simp
  have "\<exists>lps. traverse (load_proof (member demo_package INNER) (member demo_output INNER)) (zip (ly_loads demo_layout) (ly_loads demo_layout)) = Inr lps"
    "\<exists>rps. traverse (region_proof (\<lambda>_. []) (member demo_package INNER) (member demo_output INNER)) (ly_regions demo_layout) = Inr rps"
  proof -
    have "case traverse (load_proof (member demo_package INNER) (member demo_output INNER)) (zip (ly_loads demo_layout) (ly_loads demo_layout)) of
        Inl _ \<Rightarrow> False | Inr _ \<Rightarrow> True" by code_simp
    then show "\<exists>lps. traverse (load_proof (member demo_package INNER) (member demo_output INNER)) (zip (ly_loads demo_layout) (ly_loads demo_layout)) = Inr lps"
      by (auto split: sum.splits)
    have "case traverse (region_proof (\<lambda>_. []) (member demo_package INNER) (member demo_output INNER)) (ly_regions demo_layout) of
        Inl _ \<Rightarrow> False | Inr _ \<Rightarrow> True" by code_simp
    then show "\<exists>rps. traverse (region_proof (\<lambda>_. []) (member demo_package INNER) (member demo_output INNER)) (ly_regions demo_layout) = Inr rps"
      by (auto split: sum.splits)
  qed
  then show ?thesis by (auto simp: prove_version_only_def t demo_old demo_new' c Let_def)
qed

lemma demo_reversion: "\<exists>vp. reversion_package (\<lambda>_. []) (\<lambda>_. []) demo_package OLD NEW = Inr (demo_output, vp)"
proof -
  have t: "tokens OLD NEW = Inr (OLD, NEW)" by code_simp
  have i: "take 7 demo_image @ NEW @ drop (7 + 14) demo_image = demo_image_new" by code_simp
  have o: "AList.update (bytes_of ''minieye_firmware.md5'') (md5_file (\<lambda>_. []) demo_image_new)
      (AList.update (bytes_of ''sysVer.txt'') (sysver NEW) (AList.update INNER demo_image_new demo_package)) = demo_output"
    by (simp add: demo_package_def demo_output_def INNER_def)
  have "member demo_package INNER = demo_image" "ly_token_offset demo_layout = 7" by (simp_all add: member_def demo_package_def demo_layout_def)
  then show ?thesis using demo_proved by (auto simp: reversion_package_def t demo_old Let_def i i [simplified] o)
qed

subsection \<open>Witnesses\<close>

theorem prove_version_only_sound_witness:
  "\<exists>pre post. member demo_package INNER = pre @ OLD @ post \<and> member demo_output INNER = pre @ NEW @ post"
  using demo_proved prove_version_only_sound [of "\<lambda>_. []" "\<lambda>_. []" demo_package demo_output OLD NEW] by blast

theorem reversion_reversible_witness:
  "\<exists>vp. reversion_package (\<lambda>_. []) (\<lambda>_. []) demo_output NEW OLD = Inr (demo_package, vp)"
proof -
  obtain vp where r: "reversion_package (\<lambda>_. []) (\<lambda>_. []) demo_package OLD NEW = Inr (demo_output, vp)" using demo_reversion by blast
  have "distinct (map fst demo_package)" by (simp add: demo_package_def INNER_def)
  then show ?thesis by (rule reversion_reversible [OF r])
qed

end

