(* ===== verification/Validate.thy ===== *)
theory Validate
  imports Image
begin

text \<open>
  The independent validator \<open>tools/fw/validate_firmware.py\<close>, and the contract file it reads: what \<open>main\<close> of
  \<open>tools/fw/package_contract.py\<close> writes for a package. SHA-256 and MD5 (hexadecimal texts) are parameters, and so is
  what the deep checks extract: \<open>cpio\<close> gives the file \<open>bootconfig/bin/cardv\<close> of the unpacked root file system, if there is one, and
  \<open>ubifs\<close> the ADAS binary of the customer image; their outer \<open>None\<close> is an exception. A package is the list of names
  and contents \<open>tarfile\<close> reads.

  Shown: the verdict \<open>VALID\<close> is given exactly when every check holds and the protected components were
  extracted and match (never without the deep checks); and a package passes every package-level check of
  its own contract when that contract is clean and its MD5 sidecar is right.
\<close>

subsection \<open>The contract file\<close>

record val_load =
  vl_row :: load_row
  vl_sha :: "bytes option"

record val_contract =
  vc_order :: "bytes list"
  vc_members :: "(bytes \<times> nat \<times> bytes) list"
  vc_sysver :: "nat list"
  vc_adas_sha :: bytes
  vc_script_end :: nat
  vc_script_sha :: bytes
  vc_loads :: "val_load list"
  vc_gaps :: "(nat \<times> nat) list"
  vc_tail_offset :: nat
  vc_tail_len :: nat
  vc_tail :: bytes
  vc_total :: nat
  vc_check :: bool

text \<open>\<open>decode("ascii", "replace")\<close> as code points.\<close>

definition ascii_text :: "bytes \<Rightarrow> nat list" where
  "ascii_text bs = map (\<lambda>b. if b < 128 then unat b else 65533) bs"

definition text_space :: "nat \<Rightarrow> bool" where
  "text_space n \<longleftrightarrow> n = 32 \<or> 9 \<le> n \<and> n \<le> 13 \<or> 28 \<le> n \<and> n \<le> 31"

definition first_word :: "nat list \<Rightarrow> nat list" where
  "first_word t = takeWhile (\<lambda>n. \<not> text_space n) (dropWhile text_space t)"

definition blob_of :: "(bytes \<times> bytes) list \<Rightarrow> bytes \<Rightarrow> bytes option" where
  "blob_of listing n = map_of (rev listing) n"

definition SYSVER_TXT :: bytes where "SYSVER_TXT = bytes_of ''sysVer.txt''"
definition MD5_TXT :: bytes where "MD5_TXT = bytes_of ''minieye_firmware.md5''"
definition ADAS_SH :: bytes where "ADAS_SH = bytes_of ''adas_upgrade.sh''"

definition val_load_of :: "(bytes \<Rightarrow> bytes) \<Rightarrow> bytes \<Rightarrow> load_row \<Rightarrow> val_load" where
  "val_load_of sha inner r =
     \<lparr>vl_row = r, vl_sha = (if ld_within r then Some (sha (slice inner (ld_offset r) (ld_end r))) else None)\<rparr>"

text \<open>\<open>main\<close> of \<open>package_contract.py\<close>: members parsed from the TAR bytes, the four files read by \<open>tarfile\<close>.\<close>

definition full_contract :: "(bytes \<Rightarrow> bytes) \<Rightarrow> tar_member list \<Rightarrow> (bytes \<times> bytes) list \<Rightarrow> string + contract \<times> val_contract" where
  "full_contract sha members listing =
     (case (blob_of listing SYSVER_TXT, blob_of listing MD5_TXT, blob_of listing ADAS_SH, blob_of listing INNER) of
        (Some sv, Some md5file, Some adas, Some inner) \<Rightarrow>
          if first_word (ascii_text md5file) = [] then Inl ''IndexError''
          else (case derive_contract inner of
              Inl e \<Rightarrow> Inl e
            | Inr c \<Rightarrow>
                if members = [] then Inl ''IndexError''
                else Inr (c,
                  \<lparr>vc_order = map tm_name members,
                   vc_members = map (\<lambda>m. (tm_name m, tm_size m, sha (tm_data m))) members,
                   vc_sysver = ascii_text sv, vc_adas_sha = sha adas,
                   vc_script_end = cn_script_end c, vc_script_sha = sha (take (cn_script_end c) inner),
                   vc_loads = map (val_load_of sha inner) (cn_loads c),
                   vc_gaps = map (\<lambda>g. (gp_from g, gp_to g)) (cn_gaps c),
                   vc_tail_offset = cn_tail_offset c, vc_tail_len = length (cn_tail c), vc_tail = cn_tail c,
                   vc_total = ac_total (cn_accounting c), vc_check = ac_check (cn_accounting c)\<rparr>))
      | _ \<Rightarrow> Inl ''KeyError'')"

subsection \<open>The checks\<close>

datatype check_name =
    Tar_readable | Member_set_order | Outer_member bytes | Inner_present | SysVer_text | Package_md5 | Adas_script
  | Script_marker | Script_hash | Payload_bounds bytes nat | Payload_hash bytes nat | Gap_fill nat nat | Tail_exact
  | Accounting_total | Protected_cardv | Protected_adas | Protected_deep

type_synonym check_row = "check_name \<times> bool"

definition member_row :: "(bytes \<Rightarrow> bytes) \<Rightarrow> (bytes \<times> bytes) list \<Rightarrow> bytes \<times> nat \<times> bytes \<Rightarrow> check_row" where
  "member_row sha listing e =
     (case e of (n, sz, h) \<Rightarrow>
        (Outer_member n, (case blob_of listing n of None \<Rightarrow> False | Some got \<Rightarrow> length got = sz \<and> sha got = h)))"

text \<open>A load without a hash in the contract is a \<open>KeyError\<close> when its range lies in the image.\<close>

definition payload_row :: "(bytes \<Rightarrow> bytes) \<Rightarrow> bytes \<Rightarrow> val_load \<Rightarrow> check_row option" where
  "payload_row sha inner l =
     (let r = vl_row l in
      if \<not> (ld_offset r \<le> ld_end r \<and> ld_end r \<le> length inner) then Some (Payload_bounds (ld_section r) (ld_index r), False)
      else map_option (\<lambda>h. (Payload_hash (ld_section r) (ld_index r), sha (slice inner (ld_offset r) (ld_end r)) = h)) (vl_sha l))"

definition gap_row :: "bytes \<Rightarrow> nat \<times> nat \<Rightarrow> check_row" where
  "gap_row inner g =
     (case g of (a, b) \<Rightarrow> (Gap_fill a b, slice inner a b = [] \<or> set (slice inner a b) = {255}))"

text \<open>\<open>inner.find(END_MARKER) + len(END_MARKER) == script_end\<close>, where a missing marker is found at \<open>-1\<close>.\<close>

definition marker_end :: "bytes \<Rightarrow> int" where
  "marker_end inner = (case find_sub END_MARKER inner of None \<Rightarrow> - 1 | Some i \<Rightarrow> int i) + int (length END_MARKER)"

definition package_rows :: "(bytes \<Rightarrow> bytes) \<Rightarrow> (bytes \<Rightarrow> bytes) \<Rightarrow> val_contract \<Rightarrow> (bytes \<times> bytes) list \<Rightarrow> bytes \<Rightarrow> check_row list option" where
  "package_rows sha md5 vc listing inner =
     (let blob = (\<lambda>n. case blob_of listing n of None \<Rightarrow> [] | Some b \<Rightarrow> b) in
      map_option (\<lambda>payloads.
          [(SysVer_text, ascii_text (blob SYSVER_TXT) = vc_sysver vc),
           (Package_md5, first_word (ascii_text (blob MD5_TXT)) = map unat (md5 inner)),
           (Adas_script, sha (blob ADAS_SH) = vc_adas_sha vc),
           (Script_marker, marker_end inner = int (vc_script_end vc)),
           (Script_hash, sha (take (vc_script_end vc) inner) = vc_script_sha vc)]
          @ payloads @ map (gap_row inner) (vc_gaps vc)
          @ [(Tail_exact, slice inner (vc_tail_offset vc) (vc_tail_offset vc + vc_tail_len vc) = vc_tail vc),
             (Accounting_total, length inner = vc_total vc \<and> vc_check vc)])
        (those (map (payload_row sha inner) (vc_loads vc))))"

text \<open>The deep checks: their rows, and whether they were completed.\<close>

definition section_payload :: "val_contract \<Rightarrow> bytes \<Rightarrow> bytes \<Rightarrow> bytes option" where
  "section_payload vc inner n =
     map_option (\<lambda>l. slice inner (ld_offset (vl_row l)) (ld_end (vl_row l))) (find (\<lambda>l. ld_section (vl_row l) = n) (vc_loads vc))"

definition deep_rows :: "(bytes \<Rightarrow> bytes) \<Rightarrow> (bytes \<Rightarrow> bytes option option) \<Rightarrow> (bytes \<Rightarrow> bytes option) \<Rightarrow> bytes \<times> bytes \<Rightarrow> val_contract \<Rightarrow> bytes \<Rightarrow> check_row list \<times> bool" where
  "deep_rows sha cpio ubifs pins vc inner =
     (case (section_payload vc inner (bytes_of ''rootfs.es''), section_payload vc inner (bytes_of ''customer.es'')) of
        (Some rootfs, Some cust) \<Rightarrow>
          (case cpio rootfs of
             None \<Rightarrow> ([(Protected_deep, False)], False)
           | Some cardv \<Rightarrow>
               (let row = (Protected_cardv, (case cardv of None \<Rightarrow> False | Some b \<Rightarrow> sha b = fst pins)) in
                case ubifs cust of
                  None \<Rightarrow> ([row, (Protected_deep, False)], False)
                | Some adas \<Rightarrow> ([row, (Protected_adas, sha adas = snd pins)], True)))
      | _ \<Rightarrow> ([(Protected_deep, False)], False))"

datatype fw_verdict = VALID | INVALID | INCOMPLETE_EVIDENCE

definition verdict_of :: "check_row list \<Rightarrow> bool \<Rightarrow> fw_verdict" where
  "verdict_of rows deep_done =
     (if \<not> list_all snd rows then INVALID else if \<not> deep_done then INCOMPLETE_EVIDENCE else VALID)"

definition exit_code :: "fw_verdict \<Rightarrow> nat" where
  "exit_code v = (if v = VALID then 0 else 1)"

text \<open>\<open>main\<close>; the outer \<open>None\<close> is the \<open>KeyError\<close> above, \<open>listing = None\<close> a TAR that cannot be read.\<close>

definition validate :: "(bytes \<Rightarrow> bytes) \<Rightarrow> (bytes \<Rightarrow> bytes) \<Rightarrow> (bytes \<Rightarrow> bytes option option) \<Rightarrow> (bytes \<Rightarrow> bytes option) \<Rightarrow> bytes \<times> bytes \<Rightarrow> bool
    \<Rightarrow> val_contract \<Rightarrow> (bytes \<times> bytes) list option \<Rightarrow> (check_row list \<times> fw_verdict) option" where
  "validate sha md5 cpio ubifs pins deep vc listing =
     (case listing of
        None \<Rightarrow> Some ([(Tar_readable, False)], INVALID)
      | Some ls \<Rightarrow>
          (let rows = (Member_set_order, map fst ls = vc_order vc) # map (member_row sha ls) (vc_members vc) in
           case blob_of ls INNER of
             None \<Rightarrow> Some (rows @ [(Inner_present, False)], INVALID)
           | Some inner \<Rightarrow>
               (case package_rows sha md5 vc ls inner of
                  None \<Rightarrow> None
                | Some prows \<Rightarrow>
                    (let (drows, done') = (if deep then deep_rows sha cpio ubifs pins vc inner else ([], False));
                         all_rows = rows @ prows @ drows
                     in Some (all_rows, verdict_of all_rows done')))))"

definition PROTECTED_EN :: "bytes \<times> bytes" where
  "PROTECTED_EN = (bytes_of ''344b4a3fdc1cfbb13e6d1ee8a45cd2c9c99b8d63d1f90e8c193a1cc89a288a8c'',
     bytes_of ''0dcc69828078e4e243b17ca9508d15ca6b47a3c2f6ec59d6c20bc5b5e9c94043'')"

definition PROTECTED_VI :: "bytes \<times> bytes" where
  "PROTECTED_VI = (bytes_of ''56db44d98c9af96ef38319e95374e505a128010e91ff773d2c35843d4be9bf23'',
     bytes_of ''997b71c27edcd49c2b0465333f53274e73ec1086023af972a39a22dfa95527d1'')"

definition protected_for_profile :: "string \<Rightarrow> (bytes \<times> bytes) option" where
  "protected_for_profile p = (if p = ''en'' then Some PROTECTED_EN else if p = ''vi'' then Some PROTECTED_VI else None)"

subsection \<open>Lemmas\<close>

lemma blob_of_in: "blob_of ls n = Some b \<Longrightarrow> (n, b) \<in> set ls"
  using map_of_SomeD by (fastforce simp: blob_of_def)

lemma blob_of_distinct: "distinct (map fst ls) \<Longrightarrow> (n, b) \<in> set ls \<Longrightarrow> blob_of ls n = Some b"
  by (simp add: blob_of_def rev_map flip: rev_map)

lemma verdict_VALID: "verdict_of rows d = VALID \<longleftrightarrow> list_all snd rows \<and> d"
  by (simp add: verdict_of_def)

lemma deep_done:
  "deep_rows sha cpio ubifs pins vc inner = (rows, d) \<Longrightarrow>
   list_all snd rows \<and> d \<longleftrightarrow> (\<exists>rootfs cust cardv adas. section_payload vc inner (bytes_of ''rootfs.es'') = Some rootfs
     \<and> section_payload vc inner (bytes_of ''customer.es'') = Some cust \<and> cpio rootfs = Some (Some cardv) \<and> ubifs cust = Some adas
     \<and> sha cardv = fst pins \<and> sha adas = snd pins)"
  by (auto simp: deep_rows_def Let_def split: option.splits prod.splits)

lemma those_all:
  "(\<exists>ys. those (map f xs) = Some ys \<and> list_all Q ys) \<longleftrightarrow> list_all (\<lambda>x. \<exists>y. f x = Some y \<and> Q y) xs"
proof (induction xs)
  case (Cons x xs)
  have "(\<exists>ys. those (map f (x # xs)) = Some ys \<and> list_all Q ys)
      \<longleftrightarrow> (\<exists>y. f x = Some y \<and> Q y) \<and> (\<exists>ys. those (map f xs) = Some ys \<and> list_all Q ys)"
    by (auto split: option.splits)
  with Cons show ?case by simp
qed simp

definition load_valid :: "(bytes \<Rightarrow> bytes) \<Rightarrow> bytes \<Rightarrow> val_load \<Rightarrow> bool" where
  "load_valid sha inner l \<longleftrightarrow> ld_offset (vl_row l) \<le> ld_end (vl_row l) \<and> ld_end (vl_row l) \<le> length inner
     \<and> vl_sha l = Some (sha (slice inner (ld_offset (vl_row l)) (ld_end (vl_row l))))"

lemma payload_row_ok: "(\<exists>y. payload_row sha inner l = Some y \<and> snd y) \<longleftrightarrow> load_valid sha inner l"
  by (cases "vl_sha l") (auto simp: payload_row_def Let_def load_valid_def)

definition blob_text :: "(bytes \<times> bytes) list \<Rightarrow> bytes \<Rightarrow> bytes" where
  "blob_text ls n = (case blob_of ls n of None \<Rightarrow> [] | Some b \<Rightarrow> b)"

definition package_valid :: "(bytes \<Rightarrow> bytes) \<Rightarrow> (bytes \<Rightarrow> bytes) \<Rightarrow> val_contract \<Rightarrow> (bytes \<times> bytes) list \<Rightarrow> bytes \<Rightarrow> bool" where
  "package_valid sha md5 vc ls inner \<longleftrightarrow>
     ascii_text (blob_text ls SYSVER_TXT) = vc_sysver vc
   \<and> first_word (ascii_text (blob_text ls MD5_TXT)) = map unat (md5 inner)
   \<and> sha (blob_text ls ADAS_SH) = vc_adas_sha vc
   \<and> marker_end inner = int (vc_script_end vc) \<and> sha (take (vc_script_end vc) inner) = vc_script_sha vc
   \<and> list_all (load_valid sha inner) (vc_loads vc)
   \<and> list_all (\<lambda>(a, b). slice inner a b = [] \<or> set (slice inner a b) = {255}) (vc_gaps vc)
   \<and> slice inner (vc_tail_offset vc) (vc_tail_offset vc + vc_tail_len vc) = vc_tail vc
   \<and> length inner = vc_total vc \<and> vc_check vc"

lemma package_rows_ok:
  "(\<exists>rows. package_rows sha md5 vc ls inner = Some rows \<and> list_all snd rows) \<longleftrightarrow> package_valid sha md5 vc ls inner"
proof -
  have "(\<exists>ys. those (map (payload_row sha inner) (vc_loads vc)) = Some ys \<and> list_all snd ys) \<longleftrightarrow> list_all (load_valid sha inner) (vc_loads vc)"
    unfolding those_all payload_row_ok ..
  moreover have "list_all snd (map (gap_row inner) (vc_gaps vc))
      \<longleftrightarrow> list_all (\<lambda>(a, b). slice inner a b = [] \<or> set (slice inner a b) = {255}) (vc_gaps vc)"
    by (auto simp: list_all_iff gap_row_def split: prod.splits)
  ultimately show ?thesis
    unfolding package_rows_def package_valid_def Let_def blob_text_def by auto
qed

definition outer_valid :: "(bytes \<Rightarrow> bytes) \<Rightarrow> val_contract \<Rightarrow> (bytes \<times> bytes) list \<Rightarrow> bool" where
  "outer_valid sha vc ls \<longleftrightarrow> map fst ls = vc_order vc
     \<and> list_all (\<lambda>(n, sz, h). \<exists>b. blob_of ls n = Some b \<and> length b = sz \<and> sha b = h) (vc_members vc)"

lemma outer_rows_ok:
  "list_all snd ((Member_set_order, map fst ls = vc_order vc) # map (member_row sha ls) (vc_members vc)) \<longleftrightarrow> outer_valid sha vc ls"
proof -
  have "snd (member_row sha ls e) \<longleftrightarrow> (case e of (n, sz, h) \<Rightarrow> \<exists>b. blob_of ls n = Some b \<and> length b = sz \<and> sha b = h)" for e
    by (cases e; cases "blob_of ls (fst e)") (auto simp: member_row_def)
  then show ?thesis by (simp add: outer_valid_def list.pred_map comp_def)
qed

definition deep_valid :: "(bytes \<Rightarrow> bytes) \<Rightarrow> (bytes \<Rightarrow> bytes option option) \<Rightarrow> (bytes \<Rightarrow> bytes option) \<Rightarrow> bytes \<times> bytes \<Rightarrow> val_contract \<Rightarrow> bytes \<Rightarrow> bool" where
  "deep_valid sha cpio ubifs pins vc inner \<longleftrightarrow>
     (\<exists>rootfs cust cardv adas. section_payload vc inner (bytes_of ''rootfs.es'') = Some rootfs
       \<and> section_payload vc inner (bytes_of ''customer.es'') = Some cust \<and> cpio rootfs = Some (Some cardv) \<and> ubifs cust = Some adas
       \<and> sha cardv = fst pins \<and> sha adas = snd pins)"

lemma gap_origin:
  "g \<in> set (inter_gaps inner rs) \<Longrightarrow> gp_bytes g = slice inner (gp_from g) (gp_to g) \<and> gp_ff g = (set (slice inner (gp_from g) (gp_to g)) = {255})"
  by (induction inner rs rule: inter_gaps.induct) (auto simp: make_gap_def split: if_splits)

lemma derived_marker:
  "derive_contract inner = Inr c \<Longrightarrow> marker_end inner = int (cn_script_end c)"
  by (auto simp: derive_contract_def marker_end_def Let_def split: option.splits if_splits)

lemma own_package_valid:
  assumes "full_contract sha members ls = Inr (c, vc)" "clean c" "blob_of ls INNER = Some inner"
    and "first_word (ascii_text (blob_text ls MD5_TXT)) = map unat (md5 inner)"
  shows "package_valid sha md5 vc ls inner"
proof -
  have d: "derive_contract inner = Inr c"
    and vc: "ascii_text (blob_text ls SYSVER_TXT) = vc_sysver vc" "sha (blob_text ls ADAS_SH) = vc_adas_sha vc"
      "vc_script_end vc = cn_script_end c" "vc_script_sha vc = sha (take (cn_script_end c) inner)"
      "vc_loads vc = map (val_load_of sha inner) (cn_loads c)" "vc_gaps vc = map (\<lambda>g. (gp_from g, gp_to g)) (cn_gaps c)"
      "vc_tail_offset vc = cn_tail_offset c" "vc_tail_len vc = length (cn_tail c)" "vc_tail vc = cn_tail c"
      "vc_total vc = ac_total (cn_accounting c)" "vc_check vc = ac_check (cn_accounting c)"
    using assms(1,3) by (auto simp: full_contract_def blob_text_def split: option.splits sum.splits if_splits)
  note f = clean_facts [OF d assms(2)]
  note g = derive_contract_Inr [OF d]
  have "list_all (load_valid sha inner) (vc_loads vc)"
    using assms(2) f(3,5) by (fastforce simp: vc list_all_iff load_valid_def val_load_of_def clean_def)
  moreover have "list_all (\<lambda>(a, b). slice inner a b = [] \<or> set (slice inner a b) = {255}) (vc_gaps vc)"
  proof (clarsimp simp: vc list_all_iff)
    fix x assume x: "x \<in> set (cn_gaps c)" "set (slice inner (gp_from x) (gp_to x)) \<noteq> {255}"
    have "gp_bytes x = slice inner (gp_from x) (gp_to x)" "gp_ff x = (set (slice inner (gp_from x) (gp_to x)) = {255})"
      using x(1) gap_origin [of x inner] by (auto simp: g(4) make_gap_def)
    moreover have "gp_ff x \<or> gp_bytes x = []" using assms(2) x(1) by (auto simp: clean_def list_all_iff)
    ultimately show "slice inner (gp_from x) (gp_to x) = []" using x(2) by simp
  qed
  moreover have "slice inner (vc_tail_offset vc) (vc_tail_offset vc + vc_tail_len vc) = vc_tail vc"
    by (simp add: vc g(6) slice_def)
  ultimately show ?thesis
    using assms(4) clean_accounts [OF d assms(2)] derived_marker [OF d]
    by (simp add: package_valid_def vc g(7) account_def Let_def)
qed

subsection \<open>Properties\<close>

text \<open>C16. The validator gives the verdict \<open>VALID\<close> (exit code 0) exactly when the TAR was read, every outer, package and layout
  check of the contract holds and both protected components were extracted with \<open>--deep\<close> and have the pinned hashes.
  In particular nothing unknown counts as passed: without the deep checks no package is \<open>VALID\<close>.\<close>

theorem validator_valid_iff:
  "(\<exists>rows. validate sha md5 cpio ubifs pins deep vc listing = Some (rows, VALID)) \<longleftrightarrow>
   deep \<and> (\<exists>ls inner. listing = Some ls \<and> outer_valid sha vc ls \<and> blob_of ls INNER = Some inner
     \<and> package_valid sha md5 vc ls inner \<and> deep_valid sha cpio ubifs pins vc inner)"
proof (cases listing)
  case (Some ls)
  show ?thesis
  proof (cases "blob_of ls INNER")
    case inner: (Some inner)
    obtain drows d where dd: "deep_rows sha cpio ubifs pins vc inner = (drows, d)" by (cases "deep_rows sha cpio ubifs pins vc inner")
    have "(\<exists>rows. validate sha md5 cpio ubifs pins deep vc listing = Some (rows, VALID))
        \<longleftrightarrow> deep \<and> outer_valid sha vc ls \<and> (\<exists>rows. package_rows sha md5 vc ls inner = Some rows \<and> list_all snd rows) \<and> (list_all snd drows \<and> d)"
      unfolding outer_rows_ok [symmetric]
      by (cases deep) (auto simp: validate_def Some inner dd Let_def verdict_VALID split: option.splits)
    then show ?thesis by (simp add: package_rows_ok deep_done [OF dd, folded deep_valid_def] Some inner)
  qed (simp add: validate_def Some Let_def)
qed (simp add: validate_def)

text \<open>Contract and validator agree: a package passes every package-level check against the contract derived from
  itself when that contract is clean and its MD5 sidecar lists the MD5 of the inner image. Without \<open>--deep\<close>
  the verdict is then \<open>INCOMPLETE_EVIDENCE\<close> with every row passed.\<close>

theorem own_contract_validates:
  assumes "list_all (\<lambda>m. tm_size m = length (tm_data m)) members" and "distinct (map tm_name members)"
    and "ls = map (\<lambda>m. (tm_name m, tm_data m)) members"
    and "full_contract sha members ls = Inr (c, vc)" "clean c"
    and "blob_of ls INNER = Some inner" "first_word (ascii_text (blob_text ls MD5_TXT)) = map unat (md5 inner)"
  shows "\<exists>rows. validate sha md5 cpio ubifs pins False vc (Some ls) = Some (rows, INCOMPLETE_EVIDENCE) \<and> list_all snd rows"
proof -
  have vc: "vc_order vc = map tm_name members" "vc_members vc = map (\<lambda>m. (tm_name m, tm_size m, sha (tm_data m))) members"
    using assms(4) by (auto simp: full_contract_def split: option.splits sum.splits if_splits)
  have "distinct (map fst ls)" using assms(2,3) by (simp add: comp_def)
  then have "outer_valid sha vc ls"
    using assms(1) blob_of_distinct [of ls] by (force simp: outer_valid_def vc assms(3) list_all_iff)
  moreover obtain prows where "package_rows sha md5 vc ls inner = Some prows" "list_all snd prows"
    using own_package_valid [OF assms(4-6), of md5] assms(7) package_rows_ok by blast
  ultimately show ?thesis
    using assms(6) unfolding outer_rows_ok [symmetric] by (simp add: validate_def Let_def verdict_of_def)
qed

definition demo_member :: "bytes \<Rightarrow> bytes \<Rightarrow> tar_member" where
  "demo_member n d = \<lparr>tm_order = 0, tm_name = n, tm_size = length d, tm_mode = 0, tm_uid = 0, tm_gid = 0, tm_mtime = 0,
     tm_typeflag = [], tm_magic = [], tm_uname = [], tm_gname = [], tm_header_offset = 0, tm_data_offset = 512, tm_header = [], tm_data = d\<rparr>"

theorem own_contract_validates_witness:
  "\<exists>ls vc rows. validate (\<lambda>_. []) (\<lambda>_. [65]) (\<lambda>_. None) (\<lambda>_. None) ([], []) False vc (Some ls) = Some (rows, INCOMPLETE_EVIDENCE)
     \<and> list_all snd rows \<and> (INNER, demo_image) \<in> set ls"
proof -
  define members where "members = [demo_member INNER demo_image, demo_member SYSVER_TXT [], demo_member MD5_TXT [65], demo_member ADAS_SH []]"
  define ls where "ls = map (\<lambda>m. (tm_name m, tm_data m)) members"
  have ls: "ls = [(INNER, demo_image), (SYSVER_TXT, []), (MD5_TXT, [65]), (ADAS_SH, [])]" by (simp add: ls_def members_def demo_member_def)
  have names: "distinct [INNER, SYSVER_TXT, MD5_TXT, ADAS_SH]" by code_simp
  have blobs: "blob_of ls INNER = Some demo_image" "blob_of ls SYSVER_TXT = Some []" "blob_of ls MD5_TXT = Some [65]" "blob_of ls ADAS_SH = Some []"
    using names by (auto simp: blob_of_def ls)
  obtain c where c: "derive_contract demo_image = Inr c" "clean c" using demo_contract by blast
  have w: "first_word (ascii_text [65]) = [65]" by (simp add: ascii_text_def first_word_def text_space_def)
  obtain vc where vc: "full_contract (\<lambda>_. []) members ls = Inr (c, vc)"
    using c(1) w by (simp add: full_contract_def blobs) (simp add: members_def)
  have "\<exists>rows. validate (\<lambda>_. []) (\<lambda>_. [65]) (\<lambda>_. None) (\<lambda>_. None) ([], []) False vc (Some ls) = Some (rows, INCOMPLETE_EVIDENCE) \<and> list_all snd rows"
  proof (rule own_contract_validates [OF _ _ ls_def vc c(2) blobs(1)])
    show "list_all (\<lambda>m. tm_size m = length (tm_data m)) members" by (simp add: members_def demo_member_def)
    show "distinct (map tm_name members)" using names by (simp add: members_def demo_member_def)
    show "first_word (ascii_text (blob_text ls MD5_TXT)) = map unat [65 :: byte]" by (simp add: blob_text_def blobs w)
  qed
  moreover have "(INNER, demo_image) \<in> set ls" by (simp add: ls)
  ultimately show ?thesis by blast
qed

end
