(* ===== verification/Ownership.thy ===== *)
theory Ownership
  imports PyValue
begin

text \<open>
  \<open>tools/fw/apply_tree_ownership.py\<close>: the owner and group of every file of an extracted tree, as the manifests
  record them. Manifests are the values \<open>json.loads\<close> returns (\<open>None\<close>: the file cannot be read or is no JSON). The
  extracted tree is seen through \<open>lstat\<close>, a function from the path components below the tree root (the root
  is the empty list) to the kind of node, \<open>None\<close> for an \<open>OSError\<close>; ownership is a function
  from such paths to uid and gid; \<open>can_chown\<close> says for which paths \<open>os.chown\<close> does not raise. \<open>os.chown\<close> is called
  without following symbolic links, so it changes exactly the path it is given.

  Shown: a rejected run changes no owner; an accepted run gives every recorded path its recorded (or inferred, or
  fallback) owner, touches nothing else, and every path it touches has the recorded type and
  only real directories above it.
\<close>

definition FALLBACK :: "int \<times> int" where "FALLBACK = (1001, 1001)"
definition VALID_TYPES :: "string list" where "VALID_TYPES = [''dir'', ''reg'', ''symlink'']"
definition ABSENT :: string where "ABSENT = ''(absent-in-image)''"
definition MAX_ID :: int where "MAX_ID = 4294967295"

subsection \<open>Fields\<close>

text \<open>\<open>check_image_path\<close>: the error, or \<open>None\<close> for a valid absolute path.\<close>

definition path_error :: "string \<Rightarrow> string option" where
  "path_error p =
     (if p = [] then Some ''path must be a non-empty string''
      else if list_ex (\<lambda>c. c = CHR 0x00 \<or> c = CHR 0x0A \<or> c = CHR 0x0D) p then Some ''control characters''
      else if list_ex (\<lambda>c. c = CHR 0x5C \<or> c = CHR '':'') p then Some ''backslash/colon forbidden''
      else if hd p \<noteq> CHR ''/'' then Some ''must be absolute''
      else if p \<noteq> ''/'' \<and> last p = CHR ''/'' then Some ''trailing slash''
      else if length p > 4096 then Some ''too long''
      else if p = ''/'' then None
      else if list_ex (\<lambda>part. part \<in> {[], ''.'', ''..''}) (tl (split_on (CHR ''/'') p)) then Some ''empty/dot traversal''
      else None)"

fun check_image_path :: "pyval \<Rightarrow> string option" where
  "check_image_path (PStr p) = path_error p"
| "check_image_path _ = Some ''path must be a non-empty string''"

fun check_id :: "pyval \<Rightarrow> bool" where
  "check_id (PInt v) \<longleftrightarrow> 0 \<le> v \<and> v \<le> MAX_ID"
| "check_id _ \<longleftrightarrow> False"

fun check_mode :: "pyval \<Rightarrow> bool" where
  "check_mode (PInt v) \<longleftrightarrow> 0 \<le> v \<and> v \<le> 4095"
| "check_mode _ \<longleftrightarrow> False"

fun the_int :: "pyval \<Rightarrow> int" where
  "the_int (PInt i) = i"
| "the_int _ = 0"

subsection \<open>The manifests\<close>

record entry =
  en_type :: string
  en_owner :: "(int \<times> int) option"

type_synonym entries = "(string \<times> entry) list"

definition stock_entry :: "pyval \<Rightarrow> entries \<Rightarrow> string + string \<times> entry" where
  "stock_entry v stock =
     (case v of
        PDict r \<Rightarrow>
          (case check_image_path (dget r ''path'') of
             Some e \<Rightarrow> Inl e
           | None \<Rightarrow>
               if the_str (dget r ''path'') \<in> set (map fst stock) then Inl ''duplicate stock path''
               else if \<not> str_in (dget r ''type'') VALID_TYPES then Inl ''bad type''
               else if \<not> check_mode (dget r ''mode'') then Inl ''bad mode''
               else if \<not> check_id (dget r ''uid'') \<or> \<not> check_id (dget r ''gid'') then Inl ''bad uid/gid''
               else Inr (the_str (dget r ''path''),
                      \<lparr>en_type = the_str (dget r ''type''), en_owner = Some (the_int (dget r ''uid''), the_int (dget r ''gid''))\<rparr>))
      | _ \<Rightarrow> Inl ''stock entry not an object'')"

fun load_entries :: "(pyval \<Rightarrow> entries \<Rightarrow> string + string \<times> entry) \<Rightarrow> pyval list \<Rightarrow> entries \<Rightarrow> string + entries" where
  "load_entries f [] acc = Inr acc"
| "load_entries f (v # vs) acc =
     (case f v acc of Inl e \<Rightarrow> Inl e | Inr e \<Rightarrow> load_entries f vs (acc @ [e]))"

definition load_stock_manifest :: "pyval option \<Rightarrow> string + entries" where
  "load_stock_manifest doc =
     (case doc of
        None \<Rightarrow> Inl ''cannot read stock manifest''
      | Some (PDict d) \<Rightarrow>
          (case dget d ''entries'' of PList es \<Rightarrow> load_entries stock_entry es [] | _ \<Rightarrow> Inl ''stock manifest needs entries list'')
      | Some _ \<Rightarrow> Inl ''stock manifest needs entries list'')"

definition added_entry :: "pyval \<Rightarrow> entries \<Rightarrow> string + string \<times> entry" where
  "added_entry v added =
     (case v of
        PDict r \<Rightarrow>
          (case check_image_path (dget r ''path'') of
             Some e \<Rightarrow> Inl e
           | None \<Rightarrow>
               if the_str (dget r ''path'') \<in> set (map fst added) then Inl ''duplicate mut added path''
               else if \<not> str_in (dget r ''type'') VALID_TYPES then Inl ''bad type''
               else if \<not> check_mode (dget r ''mode'') then Inl ''bad mode''
               else if has_key r ''uid'' \<noteq> has_key r ''gid'' then Inl ''uid/gid must pair''
               else if has_key r ''uid'' \<and> (\<not> check_id (dget r ''uid'') \<or> \<not> check_id (dget r ''gid'')) then Inl ''bad uid/gid''
               else Inr (the_str (dget r ''path''),
                      \<lparr>en_type = the_str (dget r ''type''),
                       en_owner = (if has_key r ''uid'' then Some (the_int (dget r ''uid''), the_int (dget r ''gid'')) else None)\<rparr>))
      | _ \<Rightarrow> Inl ''mut added not an object'')"

fun load_replaced :: "pydict \<Rightarrow> string list \<Rightarrow> string + string list" where
  "load_replaced [] acc = Inr acc"
| "load_replaced ((k, rec) # items) acc =
     (case check_image_path k of
        Some e \<Rightarrow> Inl e
      | None \<Rightarrow>
          (case rec of
             PDict r \<Rightarrow>
               if dget r ''old_sha256'' = PStr ABSENT then
                 if the_str k \<in> set acc then Inl ''duplicate mut replaced path'' else load_replaced items (acc @ [the_str k])
               else if \<not> is_str (dget r ''old_sha256'') then Inl ''bad old_sha256''
               else load_replaced items acc
           | _ \<Rightarrow> Inl ''bad record''))"

definition get_or :: "pydict \<Rightarrow> string \<Rightarrow> pyval \<Rightarrow> pyval" where
  "get_or d k v = (if has_key d k then dget d k else v)"

text \<open>The outer \<open>option\<close>: whether a mutation manifest was given at all.\<close>

definition load_mut_manifest :: "pyval option option \<Rightarrow> string + entries \<times> string list" where
  "load_mut_manifest doc =
     (case doc of
        None \<Rightarrow> Inr ([], [])
      | Some None \<Rightarrow> Inl ''cannot read mut manifest''
      | Some (Some (PDict d)) \<Rightarrow>
          (case (get_or d ''added'' (PList []), get_or d ''replaced'' (PDict [])) of
             (PList as, PDict rs) \<Rightarrow>
               (case load_entries added_entry as [] of
                  Inl e \<Rightarrow> Inl e
                | Inr added \<Rightarrow> (case load_replaced rs [] of Inl e \<Rightarrow> Inl e | Inr absent \<Rightarrow> Inr (added, absent)))
           | (PList _, _) \<Rightarrow> Inl ''mut replaced must be an object''
           | _ \<Rightarrow> Inl ''mut added must be a list'')
      | Some (Some _) \<Rightarrow> Inl ''mut manifest must be an object'')"

subsection \<open>The plan\<close>

definition parent_image_path :: "string \<Rightarrow> string" where
  "parent_image_path p =
     (if p = ''/'' then ''/''
      else let parent = take (length p - Suc (length (takeWhile (\<lambda>c. c \<noteq> CHR ''/'') (rev p)))) p in
        if parent = [] then ''/'' else parent)"

definition infer_absent_uid_gid :: "string \<Rightarrow> entries \<Rightarrow> string + int \<times> int" where
  "infer_absent_uid_gid img stock =
     (let parent = parent_image_path img;
          sibs = filter (\<lambda>(q, r). q \<noteq> img \<and> parent_image_path q = parent \<and> en_type r = ''reg'') stock
      in case sibs of
           (_, r) # _ \<Rightarrow>
             if list_all (\<lambda>(_, r'). en_owner r' = en_owner r) sibs then Inr (the (en_owner r)) else Inl ''ambiguous sibling uid/gid''
         | [] \<Rightarrow>
             (case map_of stock parent of
                Some r \<Rightarrow> Inr (the (en_owner r))
              | None \<Rightarrow> Inl ''no sibling or parent stock uid/gid to infer''))"

datatype node = Dir | Reg | Symlink | Other_node

fun expected_type_ok :: "node \<Rightarrow> string \<Rightarrow> bool" where
  "expected_type_ok n t \<longleftrightarrow> (n = Dir \<and> t = ''dir'') \<or> (n = Reg \<and> t = ''reg'') \<or> (n = Symlink \<and> t = ''symlink'')"

definition rel_parts :: "string \<Rightarrow> string list" where
  "rel_parts img = (if img = ''/'' then [] else split_on (CHR ''/'') (dropWhile (\<lambda>c. c = CHR ''/'') img))"

definition overlap_error :: "entries \<Rightarrow> entries \<Rightarrow> string list \<Rightarrow> string option" where
  "overlap_error stock added absent =
     (if list_ex (\<lambda>(p, _). p = ''/'' \<or> p \<in> set (map fst stock)) added then Some ''mut added collides with stock''
      else if list_ex (\<lambda>p. p = ''/'' \<or> p \<in> set (map fst stock) \<or> p \<in> set (map fst added)) absent
      then Some ''mut replaced-absent collides''
      else None)"

type_synonym target = "string \<times> string \<times> int \<times> int"

definition target_of :: "string \<times> entry \<Rightarrow> target" where
  "target_of pe = (fst pe, en_type (snd pe), case en_owner (snd pe) of None \<Rightarrow> FALLBACK | Some o' \<Rightarrow> o')"

fun infer_all :: "entries \<Rightarrow> string list \<Rightarrow> string + target list" where
  "infer_all stock [] = Inr []"
| "infer_all stock (p # ps) =
     (case infer_absent_uid_gid p stock of
        Inl e \<Rightarrow> Inl e
      | Inr o' \<Rightarrow> (case infer_all stock ps of Inl e \<Rightarrow> Inl e | Inr ts \<Rightarrow> Inr ((p, ''reg'', o') # ts)))"

definition sorted_entries :: "entries \<Rightarrow> entries" where
  "sorted_entries es = sort_key fst es"

definition targets :: "entries \<Rightarrow> entries \<Rightarrow> string list \<Rightarrow> string + target list" where
  "targets stock added absent =
     (case (case map_of stock ''/'' of
              None \<Rightarrow> Inr (''/'', ''dir'', FALLBACK)
            | Some r \<Rightarrow> if en_type r \<noteq> ''dir'' then Inl ''stock / must be dir'' else Inr (''/'', ''dir'', the (en_owner r))) of
        Inl e \<Rightarrow> Inl e
      | Inr slash \<Rightarrow>
          (case infer_all stock (sort absent) of
             Inl e \<Rightarrow> Inl e
           | Inr inferred \<Rightarrow>
               Inr (slash # map target_of (filter (\<lambda>(p, _). p \<noteq> ''/'') (sorted_entries stock))
                    @ map target_of (sorted_entries added) @ inferred)))"

text \<open>The checks of one target: every ancestor below the tree root is a directory, and the path itself has
  the expected type.\<close>

definition ancestors :: "string list \<Rightarrow> string list list" where
  "ancestors parts = map (\<lambda>k. take k parts) [1..<length parts]"

definition check_ancestor :: "(string list \<Rightarrow> node option) \<Rightarrow> string list \<Rightarrow> string option" where
  "check_ancestor lstat a =
     (case lstat a of
        None \<Rightarrow> Some ''missing ancestor''
      | Some Symlink \<Rightarrow> Some ''symlink ancestor''
      | Some Dir \<Rightarrow> None
      | Some _ \<Rightarrow> Some ''non-dir ancestor'')"

fun first_some :: "'a option list \<Rightarrow> 'a option" where
  "first_some [] = None"
| "first_some (None # es) = first_some es"
| "first_some (Some e # es) = Some e"

definition check_target :: "(string list \<Rightarrow> node option) \<Rightarrow> target \<Rightarrow> string option" where
  "check_target lstat t =
     (case t of (img, etype, _) \<Rightarrow>
        (case first_some (map (check_ancestor lstat) (ancestors (rel_parts img))) of
           Some e \<Rightarrow> Some e
         | None \<Rightarrow>
             (case lstat (rel_parts img) of
                None \<Rightarrow> Some ''missing tree path''
              | Some n \<Rightarrow>
                  if n = Symlink \<and> etype \<noteq> ''symlink'' then Some ''unexpected symlink''
                  else if \<not> expected_type_ok n etype then Some ''type mismatch''
                  else None)))"

type_synonym plan = "(string \<times> string list \<times> int \<times> int) list"

definition preflight :: "(string list \<Rightarrow> node option) \<Rightarrow> entries \<Rightarrow> entries \<times> string list \<Rightarrow> string + plan" where
  "preflight lstat stock mut =
     (case lstat [] of
        None \<Rightarrow> Inl ''tree missing''
      | Some Symlink \<Rightarrow> Inl ''tree root must not be a symlink''
      | Some Dir \<Rightarrow>
          (case overlap_error stock (fst mut) (snd mut) of
             Some e \<Rightarrow> Inl e
           | None \<Rightarrow>
               (case targets stock (fst mut) (snd mut) of
                  Inl e \<Rightarrow> Inl e
                | Inr ts \<Rightarrow>
                    (case first_some (map (check_target lstat) ts) of
                       Some e \<Rightarrow> Inl e
                     | None \<Rightarrow> Inr (map (\<lambda>(img, _, owner). (img, rel_parts img, owner)) ts))))
      | Some _ \<Rightarrow> Inl ''tree root must be a directory'')"

subsection \<open>Applying the plan\<close>

type_synonym owners = "string list \<Rightarrow> int \<times> int"

fun apply_plan :: "(string list \<Rightarrow> bool) \<Rightarrow> plan \<Rightarrow> owners \<Rightarrow> owners \<times> bool" where
  "apply_plan can_chown [] own = (own, True)"
| "apply_plan can_chown ((_, host, uid, gid) # pl) own =
     (if can_chown host then apply_plan can_chown pl (own(host := (uid, gid))) else (own, False))"

definition ownership_main :: "(string list \<Rightarrow> node option) \<Rightarrow> (string list \<Rightarrow> bool) \<Rightarrow> pyval option \<Rightarrow> pyval option option \<Rightarrow> owners \<Rightarrow> owners \<times> nat" where
  "ownership_main lstat can_chown stock_doc mut_doc own =
     (case load_stock_manifest stock_doc of
        Inl _ \<Rightarrow> (own, 1)
      | Inr stock \<Rightarrow>
          (case load_mut_manifest mut_doc of
             Inl _ \<Rightarrow> (own, 1)
           | Inr mut \<Rightarrow>
               (case preflight lstat stock mut of
                  Inl _ \<Rightarrow> (own, 1)
                | Inr plan \<Rightarrow> (let (own', ok) = apply_plan can_chown plan own in (own', if ok then 0 else 1)))))"

subsection \<open>Paths\<close>

definition valid_path :: "string \<Rightarrow> bool" where
  "valid_path p \<longleftrightarrow> path_error p = None"

lemma valid_path_cases:
  assumes "valid_path p" "p \<noteq> ''/''"
  obtains q where "p = CHR ''/'' # q" "q \<noteq> []" "hd q \<noteq> CHR ''/''" "rel_parts p = split_on (CHR ''/'') q"
proof -
  obtain c q where p: "p = c # q" using assms(1) by (cases p) (auto simp: valid_path_def path_error_def)
  have c: "c = CHR ''/''" and parts: "\<not> list_ex (\<lambda>part. part \<in> {[], ''.'', ''..''}) (tl (split_on (CHR ''/'') p))"
    using assms by (auto simp: valid_path_def path_error_def p split: if_splits)
  have q: "q \<noteq> []" using assms(2) by (auto simp: p c)
  have "hd q \<noteq> CHR ''/''" using parts q by (cases q) (auto simp: p c)
  then show thesis using that [OF p [unfolded c] q] assms(2) q by (cases q) (auto simp: rel_parts_def p c)
qed

lemma rel_parts_Nil: "valid_path p \<Longrightarrow> rel_parts p = [] \<longleftrightarrow> p = ''/''"
  by (metis rel_parts_def split_on_ne)

lemma rel_parts_inj:
  assumes "valid_path p" "valid_path q" "rel_parts p = rel_parts q"
  shows "p = q"
proof (cases "p = ''/'' \<or> q = ''/''")
  case True
  then show ?thesis using assms rel_parts_Nil by metis
next
  case False
  obtain a where a: "p = CHR ''/'' # a" "rel_parts p = split_on (CHR ''/'') a" using valid_path_cases [of p] assms False by metis
  obtain b where b: "q = CHR ''/'' # b" "rel_parts q = split_on (CHR ''/'') b" using valid_path_cases [of q] assms False by metis
  have "a = b" using a b assms(3) unsplit_split_on by metis
  then show ?thesis using a b by simp
qed

subsection \<open>Loaded manifests\<close>

lemma check_image_path_None: "check_image_path v = None \<Longrightarrow> valid_path (the_str v)"
  by (cases v) (auto simp: valid_path_def)

definition entries_ok :: "entries \<Rightarrow> bool" where
  "entries_ok es \<longleftrightarrow> distinct (map fst es) \<and> list_all (\<lambda>(p, r). valid_path p \<and> en_type r \<in> set VALID_TYPES) es"

lemma entries_ok_snoc:
  "entries_ok (es @ [(p, r)]) \<longleftrightarrow> entries_ok es \<and> p \<notin> set (map fst es) \<and> valid_path p \<and> en_type r \<in> set VALID_TYPES"
  by (auto simp: entries_ok_def simp del: set_map)

lemma load_entries_inv:
  assumes "load_entries f vs acc = Inr es" "P acc" "\<And>v acc e. f v acc = Inr e \<Longrightarrow> P acc \<Longrightarrow> P (acc @ [e])"
  shows "P es"
  using assms(1,2) by (induction vs arbitrary: acc) (auto split: sum.splits intro: assms(3))

definition owned :: "entries \<Rightarrow> bool" where
  "owned es \<longleftrightarrow> list_all (\<lambda>(_, r). en_owner r \<noteq> None) es"

lemma stock_entry_ok:
  assumes "stock_entry v acc = Inr e" "entries_ok acc \<and> owned acc"
  shows "entries_ok (acc @ [e]) \<and> owned (acc @ [e])"
  using assms check_image_path_None
  by (auto simp: stock_entry_def entries_ok_snoc owned_def str_in_iff split: pyval.splits option.splits if_splits simp del: set_map)

lemma added_entry_ok:
  assumes "added_entry v acc = Inr e" "entries_ok acc"
  shows "entries_ok (acc @ [e])"
  using assms check_image_path_None
  by (auto simp: added_entry_def entries_ok_snoc str_in_iff split: pyval.splits option.splits if_splits simp del: set_map)

lemma entries_ok_Nil: "entries_ok []" "owned []"
  by (simp_all add: entries_ok_def owned_def)

lemma load_stock_ok:
  assumes "load_stock_manifest doc = Inr stock"
  shows "entries_ok stock" "(p, r) \<in> set stock \<Longrightarrow> \<exists>o'. en_owner r = Some o'"
proof -
  obtain vs where "load_entries stock_entry vs [] = Inr stock"
    using assms by (auto simp: load_stock_manifest_def split: option.splits pyval.splits)
  then have "entries_ok stock \<and> owned stock"
    by (rule load_entries_inv) (simp_all add: entries_ok_Nil stock_entry_ok)
  then show "entries_ok stock" "(p, r) \<in> set stock \<Longrightarrow> \<exists>o'. en_owner r = Some o'" by (auto simp: list_all_iff owned_def)
qed

lemma load_replaced_ok:
  "load_replaced items acc = Inr ps \<Longrightarrow> distinct acc \<and> list_all valid_path acc \<Longrightarrow> distinct ps \<and> list_all valid_path ps"
  by (induction items acc rule: load_replaced.induct)
    (auto dest: check_image_path_None split: option.splits pyval.splits if_splits)

lemma load_mut_ok:
  assumes "load_mut_manifest doc = Inr (added, absent)"
  shows "entries_ok added \<and> distinct absent \<and> list_all valid_path absent"
proof (cases doc)
  case (Some d)
  then obtain as rs where "load_entries added_entry as [] = Inr added" "load_replaced rs [] = Inr absent"
    using assms by (auto simp: load_mut_manifest_def split: option.splits pyval.splits sum.splits prod.splits)
  moreover have "entries_ok added" by (rule load_entries_inv [OF calculation(1)]) (simp_all add: entries_ok_Nil added_entry_ok)
  ultimately show ?thesis using load_replaced_ok [of rs "[]" absent] by simp
qed (use assms in \<open>auto simp: load_mut_manifest_def entries_ok_def\<close>)

subsection \<open>Plans\<close>

lemma first_some_None: "first_some xs = None \<longleftrightarrow> (\<forall>x \<in> set xs. x = None)"
  by (induction xs rule: first_some.induct) auto

lemma apply_plan_frame:
  "apply_plan can pl own = (own', ok) \<Longrightarrow> h \<notin> set (map (fst \<circ> snd) pl) \<Longrightarrow> own' h = own h"
  by (induction can pl own rule: apply_plan.induct) (auto split: if_splits)

lemma apply_plan_sets:
  "apply_plan can pl own = (own', True) \<Longrightarrow> distinct (map (fst \<circ> snd) pl) \<Longrightarrow> (i, h, o') \<in> set pl \<Longrightarrow> own' h = o'"
proof (induction can pl own rule: apply_plan.induct)
  case (2 can j host uid gid pl own)
  then have rest: "apply_plan can pl (own(host := (uid, gid))) = (own', True)" by (auto split: if_splits)
  show ?case
  proof (cases "(i, h, o') \<in> set pl")
    case True
    have "can host" using 2 by (auto split: if_splits)
    moreover have "distinct (map (fst \<circ> snd) pl)" using 2(3) by (simp add: comp_def)
    ultimately show ?thesis using 2(1) [OF _ rest _ True] by blast
  next
    case False
    then have "h = host" "o' = (uid, gid)" using 2 by auto
    then show ?thesis using apply_plan_frame [OF rest, of host] 2 by simp
  qed
qed simp

lemma infer_all_Inr:
  "infer_all stock ps = Inr ts \<Longrightarrow> map fst ts = ps \<and> (\<forall>t \<in> set ts. infer_absent_uid_gid (fst t) stock = Inr (snd (snd t)) \<and> fst (snd t) = ''reg'')"
  by (induction ps arbitrary: ts) (auto split: sum.splits)

subsection \<open>What the preflight establishes\<close>

lemma preflight_Inr:
  assumes "preflight lstat stock mut = Inr plan"
  obtains ts where "lstat [] = Some Dir" "overlap_error stock (fst mut) (snd mut) = None" "targets stock (fst mut) (snd mut) = Inr ts"
    "\<And>t. t \<in> set ts \<Longrightarrow> check_target lstat t = None" "plan = map (\<lambda>(img, _, o'). (img, rel_parts img, o')) ts"
  using assms that
  by (auto simp: preflight_def first_some_None split: option.splits node.splits sum.splits)

definition root_target :: "entries \<Rightarrow> int \<times> int" where
  "root_target stock = (case map_of stock ''/'' of None \<Rightarrow> FALLBACK | Some r \<Rightarrow> the (en_owner r))"

lemma targets_Inr:
  assumes "targets stock added absent = Inr ts" "distinct (map fst stock)"
  obtains inferred where "infer_all stock (sort absent) = Inr inferred"
    "ts = (''/'', ''dir'', root_target stock) # map target_of (filter (\<lambda>(p, _). p \<noteq> ''/'') (sorted_entries stock)) @ map target_of (sorted_entries added) @ inferred"
    "\<forall>r. (''/'', r) \<in> set stock \<longrightarrow> en_type r = ''dir'' \<and> root_target stock = the (en_owner r)"
proof -
  have "map_of stock ''/'' = Some r" if "(''/'', r) \<in> set stock" for r using that assms(2) by simp
  then show thesis using assms(1) that
    by (auto simp: targets_def root_target_def split: option.splits sum.splits if_splits)
qed

lemma check_ancestor_None: "check_ancestor lstat a = None \<longleftrightarrow> lstat a = Some Dir"
  by (auto simp: check_ancestor_def split: option.split node.split)

lemma overlap_sets:
  "(if \<exists>p \<in> A. p = x \<or> p \<in> S then Some e else if \<exists>p \<in> C. p = x \<or> p \<in> S \<or> p \<in> A then Some e' else None) = None
   \<longleftrightarrow> x \<notin> A \<and> x \<notin> C \<and> A \<inter> S = {} \<and> C \<inter> S = {} \<and> C \<inter> A = {}"
  by auto

lemma three_apart: "A \<subseteq> S \<Longrightarrow> B \<inter> S = {} \<Longrightarrow> C \<inter> S = {} \<Longrightarrow> C \<inter> B = {} \<Longrightarrow> A \<inter> (B \<union> C) = {} \<and> B \<inter> C = {}"
  by auto

lemma insert_minus_union: "insert x ((S - {x}) \<union> T) = insert x (S \<union> T)"
  by auto

lemma overlap_None:
  "overlap_error stock added absent = None \<longleftrightarrow> ''/'' \<notin> fst ` set added \<and> ''/'' \<notin> set absent \<and> fst ` set added \<inter> fst ` set stock = {}
     \<and> set absent \<inter> fst ` set stock = {} \<and> set absent \<inter> fst ` set added = {}"
proof -
  have "list_ex (\<lambda>(p, _). p = ''/'' \<or> p \<in> set (map fst stock)) added \<longleftrightarrow> (\<exists>p \<in> fst ` set added. p = ''/'' \<or> p \<in> fst ` set stock)"
    by (simp add: list_ex_iff split_def)
  moreover have "list_ex (\<lambda>p. p = ''/'' \<or> p \<in> set (map fst stock) \<or> p \<in> set (map fst added)) absent
      \<longleftrightarrow> (\<exists>p \<in> set absent. p = ''/'' \<or> p \<in> fst ` set stock \<or> p \<in> fst ` set added)"
    by (simp add: list_ex_iff)
  ultimately show ?thesis unfolding overlap_error_def by (simp only: overlap_sets)
qed

lemma check_target_None:
  assumes "check_target lstat (img, etype, o') = None"
  shows "\<exists>n. lstat (rel_parts img) = Some n \<and> expected_type_ok n etype"
    and "0 < k \<Longrightarrow> k < length (rel_parts img) \<Longrightarrow> lstat (take k (rel_parts img)) = Some Dir"
proof -
  show "\<exists>n. lstat (rel_parts img) = Some n \<and> expected_type_ok n etype"
    using assms by (auto simp: check_target_def split: option.splits if_splits)
  assume k: "0 < k" "k < length (rel_parts img)"
  have "\<forall>a \<in> set (ancestors (rel_parts img)). check_ancestor lstat a = None"
    using assms by (auto simp: check_target_def first_some_None split: option.splits)
  moreover have "take k (rel_parts img) \<in> set (ancestors (rel_parts img))" using k by (auto simp: ancestors_def)
  ultimately show "lstat (take k (rel_parts img)) = Some Dir" using check_ancestor_None by blast
qed

text \<open>The paths of a plan are valid and pairwise different, and so are the places they name.\<close>

lemma target_names:
  assumes "entries_ok stock" "entries_ok added" "distinct absent" "list_all valid_path absent"
    "overlap_error stock added absent = None" "targets stock added absent = Inr ts"
  shows "distinct (map fst ts)" "set (map fst ts) = insert ''/'' (fst ` set stock \<union> fst ` set added \<union> set absent)"
    "distinct (map (rel_parts \<circ> fst) ts)"
proof -
  have d: "distinct (map fst stock)" "distinct (map fst added)" using assms(1,2) by (auto simp: entries_ok_def)
  obtain inf where i: "infer_all stock (sort absent) = Inr inf"
    "ts = (''/'', ''dir'', root_target stock) # map target_of (filter (\<lambda>(p, _). p \<noteq> ''/'') (sorted_entries stock)) @ map target_of (sorted_entries added) @ inf"
    by (rule targets_Inr [OF assms(6) d(1)])
  have tf: "fst \<circ> target_of = fst" by (auto simp: target_of_def)
  have names: "map fst ts = ''/'' # map fst (filter (\<lambda>(p, _). p \<noteq> ''/'') (sorted_entries stock)) @ map fst (sorted_entries added) @ sort absent"
    using infer_all_Inr [OF i(1)] by (simp add: i(2) tf)
  have s: "set (sorted_entries es) = set es" "distinct (map fst es) \<Longrightarrow> distinct (map fst (sorted_entries es))" for es
    by (simp_all add: sorted_entries_def distinct_map)
  define A where "A = map fst (filter (\<lambda>(p, _). p \<noteq> ''/'') (sorted_entries stock))"
  have A: "distinct A" unfolding A_def by (rule distinct_map_filter [OF s(2) [OF d(1)]])
  have A': "set A = fst ` set stock - {''/''}" unfolding A_def by (force simp: s(1))
  note names = names [folded A_def]
  have o: "''/'' \<notin> fst ` set added" "''/'' \<notin> set absent" "fst ` set added \<inter> fst ` set stock = {}"
     "set absent \<inter> fst ` set stock = {}" "set absent \<inter> fst ` set added = {}" using assms(5) by (simp_all add: overlap_None)
  have "set A \<subseteq> fst ` set stock" unfolding A' by (rule Diff_subset)
  from three_apart [OF this o(3,4,5)]
  have "set A \<inter> (fst ` set added \<union> set absent) = {}" "fst ` set added \<inter> set absent = {}" by simp_all
  moreover have "''/'' \<notin> set A" by (simp add: A')
  ultimately show dist: "distinct (map fst ts)"
    unfolding names using A s(2) [OF d(2)] assms(3) o(1,2) by (simp add: s(1))
  show set': "set (map fst ts) = insert ''/'' (fst ` set stock \<union> fst ` set added \<union> set absent)"
    unfolding names by (simp add: s(1) A' insert_minus_union Un_assoc)
  have "valid_path ''/''" by (simp add: valid_path_def path_error_def)
  then have "valid_path p" if "p \<in> set (map fst ts)" for p
    using that assms(1,2,4) unfolding set' by (auto simp: entries_ok_def list_all_iff)
  then have "inj_on rel_parts (set (map fst ts))" by (intro inj_onI) (simp add: rel_parts_inj)
  then show "distinct (map (rel_parts \<circ> fst) ts)" using dist by (simp add: distinct_map comp_inj_on)
qed

lemma main_accepted:
  assumes "ownership_main lstat can stock_doc mut_doc own = (own', 0)"
  obtains stock added absent plan where "load_stock_manifest stock_doc = Inr stock" "load_mut_manifest mut_doc = Inr (added, absent)"
    "preflight lstat stock (added, absent) = Inr plan" "apply_plan can plan own = (own', True)"
  using assms that by (auto simp: ownership_main_def Let_def split: sum.splits prod.splits if_splits)

lemma apply_plan_all: "(\<And>h. can h) \<Longrightarrow> snd (apply_plan can pl own)"
  by (induction can pl own rule: apply_plan.induct) auto

text \<open>The place of a path in a plan, with its owner, type and ancestors.\<close>

definition placed :: "(string list \<Rightarrow> node option) \<Rightarrow> owners \<Rightarrow> string \<Rightarrow> string \<Rightarrow> int \<times> int \<Rightarrow> bool" where
  "placed lstat own p t o' \<longleftrightarrow> own (rel_parts p) = o' \<and> (\<exists>n. lstat (rel_parts p) = Some n \<and> expected_type_ok n t)
     \<and> (\<forall>k. 0 < k \<and> k < length (rel_parts p) \<longrightarrow> lstat (take k (rel_parts p)) = Some Dir)"

lemma placed_target:
  assumes "apply_plan can (map (\<lambda>(img, _, o'). (img, rel_parts img, o')) ts) own = (own', True)" "distinct (map (rel_parts \<circ> fst) ts)"
    "(p, t, o') \<in> set ts" "check_target lstat (p, t, o') = None"
  shows "placed lstat own' p t o'"
proof -
  have "(p, rel_parts p, o') \<in> set (map (\<lambda>(img, _, o'). (img, rel_parts img, o')) ts)" using assms(3) by force
  moreover have "map (fst \<circ> snd) (map (\<lambda>(img, _, o'). (img, rel_parts img, o')) ts) = map (rel_parts \<circ> fst) ts" by auto
  ultimately have "own' (rel_parts p) = o'" using apply_plan_sets [OF assms(1), of p "rel_parts p" o'] assms(2) by argo
  then show ?thesis using check_target_None [OF assms(4)] by (simp add: placed_def)
qed

subsection \<open>Properties\<close>

text \<open>Fail closed: when the tool exits with an error and no \<open>os.chown\<close> call fails, not a single owner was changed.\<close>

theorem rejected_changes_nothing:
  assumes "ownership_main lstat can stock_doc mut_doc own = (own', rc)" "rc \<noteq> 0" "\<And>h. can h"
  shows "own' = own"
proof (cases "load_stock_manifest stock_doc")
  case (Inr stock)
  show ?thesis
  proof (cases "load_mut_manifest mut_doc")
    case mut: (Inr mut)
    show ?thesis
    proof (cases "preflight lstat stock mut")
      case plan: (Inr plan)
      have "snd (apply_plan can plan own)" by (rule apply_plan_all) (rule assms(3))
      then show ?thesis using assms(1,2) by (auto simp: ownership_main_def Inr mut plan split: prod.splits if_splits)
    qed (use assms in \<open>simp add: ownership_main_def Inr mut\<close>)
  qed (use assms in \<open>simp add: ownership_main_def Inr\<close>)
qed (use assms in \<open>simp add: ownership_main_def\<close>)

theorem rejected_changes_nothing_witness:
  "ownership_main (\<lambda>_. Some Dir) (\<lambda>_. True) None None (\<lambda>_. (0, 0)) = (\<lambda>_. (0, 0), 1)"
proof -
  have e: "ownership_main (\<lambda>_. Some Dir) (\<lambda>_. True) None None (\<lambda>_. (0, 0)) = (\<lambda>_. (0, 0), 1)"
    by (simp add: ownership_main_def load_stock_manifest_def)
  from rejected_changes_nothing [OF this] show ?thesis using e by simp
qed

text \<open>C17. An accepted run leaves exactly the recorded ownership: every stock path its recorded owner, every added path its
  recorded owner or the fallback, every path missing from the image the inferred owner, the tree root the owner recorded for
  it or the fallback; each of these paths has the recorded type and lies below real directories
  only; and no other path changes its owner.\<close>

theorem accepted_owners:
  assumes "ownership_main lstat can stock_doc mut_doc own = (own', 0)"
  shows "\<exists>stock added absent. load_stock_manifest stock_doc = Inr stock \<and> load_mut_manifest mut_doc = Inr (added, absent)
    \<and> (\<forall>(p, r) \<in> set stock. placed lstat own' p (en_type r) (the (en_owner r)))
    \<and> (\<forall>(p, r) \<in> set added. placed lstat own' p (en_type r) (case en_owner r of None \<Rightarrow> FALLBACK | Some o' \<Rightarrow> o'))
    \<and> (\<forall>p \<in> set absent. \<exists>o'. infer_absent_uid_gid p stock = Inr o' \<and> placed lstat own' p ''reg'' o')
    \<and> placed lstat own' ''/'' ''dir'' (root_target stock)
    \<and> (\<forall>h. h \<notin> rel_parts ` insert ''/'' (fst ` set stock \<union> fst ` set added \<union> set absent) \<longrightarrow> own' h = own h)"
proof -
  obtain stock added absent plan where m: "load_stock_manifest stock_doc = Inr stock" "load_mut_manifest mut_doc = Inr (added, absent)"
    "preflight lstat stock (added, absent) = Inr plan" "apply_plan can plan own = (own', True)" by (rule main_accepted [OF assms])
  obtain ts where p: "overlap_error stock added absent = None" "targets stock added absent = Inr ts"
    "\<And>t. t \<in> set ts \<Longrightarrow> check_target lstat t = None" "plan = map (\<lambda>(img, _, o'). (img, rel_parts img, o')) ts"
    by (rule preflight_Inr [OF m(3)]) simp
  note st = load_stock_ok [OF m(1)]
  have ok: "entries_ok added" "distinct absent" "list_all valid_path absent" using load_mut_ok [OF m(2)] by auto
  note names = target_names [OF st(1) ok p(1,2)]
  have d: "distinct (map fst stock)" using st(1) by (simp add: entries_ok_def)
  obtain inf where i: "infer_all stock (sort absent) = Inr inf"
    "ts = (''/'', ''dir'', root_target stock) # map target_of (filter (\<lambda>(p, _). p \<noteq> ''/'') (sorted_entries stock)) @ map target_of (sorted_entries added) @ inf"
    "\<forall>r. (''/'', r) \<in> set stock \<longrightarrow> en_type r = ''dir'' \<and> root_target stock = the (en_owner r)"
    by (rule targets_Inr [OF p(2) d])
  have placed: "placed lstat own' q t o'" if "(q, t, o') \<in> set ts" for q t o'
    using placed_target [OF m(4) [unfolded p(4)] names(3) that] p(3) that by blast
  have s: "set (sorted_entries es) = set es" for es by (simp add: sorted_entries_def)
  have root: "placed lstat own' ''/'' ''dir'' (root_target stock)" by (rule placed) (simp add: i(2))
  have stock: "placed lstat own' q (en_type r) (the (en_owner r))" if "(q, r) \<in> set stock" for q r
  proof (cases "q = ''/''")
    case True
    then show ?thesis using root i(3) that by auto
  next
    case False
    then have "target_of (q, r) \<in> set ts" using that by (auto simp: i(2) s)
    then show ?thesis using st(2) [OF that] by (auto simp: target_of_def intro: placed)
  qed
  have added: "placed lstat own' q (en_type r) (case en_owner r of None \<Rightarrow> FALLBACK | Some o' \<Rightarrow> o')" if "(q, r) \<in> set added" for q r
  proof (rule placed)
    have "target_of (q, r) \<in> set ts" using that by (auto simp: i(2) s)
    then show "(q, en_type r, case en_owner r of None \<Rightarrow> FALLBACK | Some o' \<Rightarrow> o') \<in> set ts" by (simp add: target_of_def)
  qed
  have absent: "\<exists>o'. infer_absent_uid_gid q stock = Inr o' \<and> placed lstat own' q ''reg'' o'" if "q \<in> set absent" for q
  proof -
    have "q \<in> set (map fst inf)" using infer_all_Inr [OF i(1)] that by simp
    then obtain t o' where t: "(q, t, o') \<in> set inf" by auto
    then have "infer_absent_uid_gid q stock = Inr o'" "t = ''reg''" using infer_all_Inr [OF i(1)] by auto
    then show ?thesis using t placed [of q t o'] by (auto simp: i(2))
  qed
  have "own' h = own h" if h: "h \<notin> rel_parts ` insert ''/'' (fst ` set stock \<union> fst ` set added \<union> set absent)" for h
  proof (rule apply_plan_frame [OF m(4)])
    show "h \<notin> set (map (fst \<circ> snd) plan)" using h unfolding names(2) [symmetric] by (force simp: p(4))
  qed
  then show ?thesis using m(1,2) stock added absent root by blast
qed

definition demo_stock :: pyval where
  "demo_stock = PDict [(PStr ''entries'', PList [PDict [(PStr ''path'', PStr ''/a''), (PStr ''type'', PStr ''reg''),
     (PStr ''mode'', PInt 420), (PStr ''uid'', PInt 7), (PStr ''gid'', PInt 8)]])]"

definition demo_lstat :: "string list \<Rightarrow> node option" where
  "demo_lstat p = (if p = [] then Some Dir else if p = [''a''] then Some Reg else None)"

theorem accepted_owners_witness:
  "fst (ownership_main demo_lstat (\<lambda>_. True) (Some demo_stock) None (\<lambda>_. (0, 0))) [''a''] = (7, 8)"
proof -
  let ?r = "ownership_main demo_lstat (\<lambda>_. True) (Some demo_stock) None (\<lambda>_. (0, 0))"
  have "snd ?r = 0" by code_simp
  then have r: "?r = (fst ?r, 0)" by (metis prod.collapse)
  have l: "load_stock_manifest (Some demo_stock) = Inr [(''/a'', \<lparr>en_type = ''reg'', en_owner = Some (7, 8)\<rparr>)]" by code_simp
  have "placed demo_lstat (fst ?r) ''/a'' ''reg'' (7, 8)" using accepted_owners [OF r] l by auto
  moreover have "rel_parts ''/a'' = [''a'']" by code_simp
  ultimately show ?thesis by (simp add: placed_def)
qed

end
