(* ===== verification/Ubifs.thy ===== *)
theory Ubifs
  imports Prelude "HOL-Library.AList"
begin

text \<open>
  The read-only UBIFS reader: \<open>tools/fw/ubifs_extract_file.py\<close> (node scan, latest directory entries, inodes and
  data blocks, path index, single-file extraction) and \<open>tools/fw/ubifs_manifest.py\<close> (manifest of a whole image,
  comparison of two manifests). The decompressors are parameters; SHA-256 is one too. A name stays
  the bytes it is on flash (\<open>surrogateescape\<close> decodes different bytes to different names).

  Shown: for every key the row with the greatest sequence number wins, the first one among
  equals; the path index visits exactly the inodes that directory entries reach from the
  root, and its queue always runs empty; an extracted file holds every decoded block at its place and zeros
  elsewhere; two manifests compare equal exactly when they agree on all semantic fields.
\<close>

subsection \<open>The interface of the newest-wins tables\<close>

text \<open>The source keeps three dicts of the newest row per key; a row replaces another only when its
  sequence number is greater. The table is in the order of the first row of each key, as in a dict.\<close>

definition newest_step :: "('r \<Rightarrow> nat) \<Rightarrow> ('k \<times> 'r) list \<Rightarrow> 'k \<times> 'r \<Rightarrow> ('k \<times> 'r) list" where
  "newest_step sq best kr =
     (case map_of best (fst kr) of
        None \<Rightarrow> best @ [kr]
      | Some old \<Rightarrow> if sq old < sq (snd kr) then AList.update (fst kr) (snd kr) best else best)"

definition newest :: "('r \<Rightarrow> nat) \<Rightarrow> ('k \<times> 'r) list \<Rightarrow> ('k \<times> 'r) list" where
  "newest sq rows = foldl (newest_step sq) [] rows"

subsection \<open>Nodes\<close>

definition UBIFS_MAGIC :: bytes where "UBIFS_MAGIC = [0x31, 0x18, 0x10, 0x06]"
definition COMMON_HDR_SIZE :: nat where "COMMON_HDR_SIZE = 24"
definition DENT_NODE_MIN :: nat where "DENT_NODE_MIN = 56"
definition INO_NODE_MIN :: nat where "INO_NODE_MIN = 160"
definition DATA_NODE_MIN :: nat where "DATA_NODE_MIN = 48"

record unode =
  un_offset :: nat
  un_sqnum :: nat
  un_len :: nat
  un_type :: nat
  un_group :: nat
  un_data :: bytes

definition le_at :: "bytes \<Rightarrow> nat \<Rightarrow> nat \<Rightarrow> nat" where
  "le_at d off n = le_nat (slice d off (off + n))"

text \<open>The node at the offset of a magic number.\<close>

definition node_at :: "bytes \<Rightarrow> nat \<Rightarrow> unode option" where
  "node_at img off =
     (if off + COMMON_HDR_SIZE > length img then None
      else let nlen = le_at img (off + 16) 4 in
        if le_at img off 4 \<noteq> 0x06101831 \<or> nlen < COMMON_HDR_SIZE \<or> nlen > 1000000 then None
        else if off + nlen > length img then None
        else Some \<lparr>un_offset = off, un_sqnum = le_at img (off + 8) 8, un_len = nlen, un_type = le_at img (off + 20) 1,
          un_group = le_at img (off + 21) 1, un_data = slice img off (off + nlen)\<rparr>)"

text \<open>The loop over \<open>img.find(UBIFS_MAGIC, pos)\<close>.\<close>

function scan_from :: "bytes \<Rightarrow> nat \<Rightarrow> unode list \<Rightarrow> unode list" where
  "scan_from img pos nodes =
     (case find_sub UBIFS_MAGIC (drop pos img) of
        None \<Rightarrow> nodes
      | Some i \<Rightarrow> scan_from img (pos + i + 1) (case node_at img (pos + i) of None \<Rightarrow> nodes | Some n \<Rightarrow> nodes @ [n]))"
  by pat_completeness auto
termination
  by (relation "measure (\<lambda>(img, pos, nodes). Suc (length img) - pos)")
    (auto dest!: find_sub_bound simp: UBIFS_MAGIC_def)

declare scan_from.simps [simp del]

definition scan_nodes :: "bytes \<Rightarrow> unode list" where
  "scan_nodes img = scan_from img 0 []"

subsection \<open>Directory entries, inodes, data blocks\<close>

record dent =
  de_parent :: nat
  de_target :: nat
  de_dtype :: nat
  de_name :: bytes
  de_sqnum :: nat
  de_offset :: nat

definition dent_row :: "unode \<Rightarrow> ((nat \<times> nat \<times> bytes) \<times> dent) option" where
  "dent_row rec =
     (let node = un_data rec in
      if un_type rec \<noteq> 2 \<or> length node < DENT_NODE_MIN then None
      else let name_len = le_at node 50 2 in
        if name_len > 255 \<or> DENT_NODE_MIN + name_len > length node then None
        else let name = slice node 56 (56 + name_len) in
          Some ((le_at node 24 4, le_at node 28 4, name),
            \<lparr>de_parent = le_at node 24 4, de_target = le_at node 40 8, de_dtype = le_at node 49 1, de_name = name,
             de_sqnum = un_sqnum rec, de_offset = un_offset rec\<rparr>))"

definition latest_dentries :: "unode list \<Rightarrow> dent list" where
  "latest_dentries nodes = map snd (newest de_sqnum (List.map_filter dent_row nodes))"

record inode =
  in_size :: nat
  in_mode :: nat
  in_uid :: nat
  in_gid :: nat
  in_nlink :: nat
  in_flags :: nat
  in_atime :: nat
  in_ctime :: nat
  in_mtime :: nat
  in_sqnum :: nat
  in_offset :: nat

definition inode_row :: "unode \<Rightarrow> (nat \<times> inode) option" where
  "inode_row rec =
     (let node = un_data rec in
      if un_type rec \<noteq> 0 \<or> length node < INO_NODE_MIN then None
      else Some (le_at node 24 4,
        \<lparr>in_size = le_at node 48 8, in_mode = le_at node 104 4, in_uid = le_at node 96 4, in_gid = le_at node 100 4,
         in_nlink = le_at node 92 4, in_flags = le_at node 108 4, in_atime = le_at node 56 8, in_ctime = le_at node 64 8,
         in_mtime = le_at node 72 8, in_sqnum = un_sqnum rec, in_offset = un_offset rec\<rparr>))"

definition latest_inodes :: "unode list \<Rightarrow> (nat \<times> inode) list" where
  "latest_inodes nodes = newest in_sqnum (List.map_filter inode_row nodes)"

record block =
  bl_sqnum :: nat
  bl_usize :: nat
  bl_compression :: nat
  bl_payload :: bytes
  bl_offset :: nat

definition block_row :: "nat \<Rightarrow> unode \<Rightarrow> (nat \<times> block) option" where
  "block_row inode rec =
     (let node = un_data rec; key1 = le_at node 28 4 in
      if un_type rec \<noteq> 1 \<or> length node < DATA_NODE_MIN then None
      else if le_at node 24 4 \<noteq> inode \<or> key1 div 2 ^ 29 \<noteq> 1 then None
      else Some (key1 mod 2 ^ 29,
        \<lparr>bl_sqnum = un_sqnum rec, bl_usize = le_at node 40 4, bl_compression = le_at node 44 2, bl_payload = drop 48 node,
         bl_offset = un_offset rec\<rparr>))"

definition latest_data_blocks :: "unode list \<Rightarrow> nat \<Rightarrow> (nat \<times> block) list" where
  "latest_data_blocks nodes inode = newest bl_sqnum (List.map_filter (block_row inode) nodes)"

subsection \<open>The path index\<close>

record walk =
  wk_paths :: "(nat \<times> bytes) list"
  wk_result :: "(bytes \<times> dent) list"
  wk_todo :: "nat list"

definition SLASH :: bytes where "SLASH = [47]"

definition child_path :: "bytes \<Rightarrow> bytes \<Rightarrow> bytes" where
  "child_path base name =
     (if base = SLASH then SLASH @ name else rev (dropWhile (\<lambda>b. b = 47) (rev base)) @ SLASH @ name)"

definition visit :: "bytes \<Rightarrow> dent \<Rightarrow> walk \<Rightarrow> walk" where
  "visit base row w =
     (let full = child_path base (de_name row); w1 = w\<lparr>wk_result := AList.update full row (wk_result w)\<rparr> in
      if de_target row \<in> fst ` set (wk_paths w1) then w1
      else w1\<lparr>wk_paths := wk_paths w1 @ [(de_target row, full)], wk_todo := wk_todo w1 @ [de_target row]\<rparr>)"

definition children_of :: "dent list \<Rightarrow> nat \<Rightarrow> dent list" where
  "children_of dents parent = filter (\<lambda>r. de_target r \<noteq> 0 \<and> de_parent r = parent) dents"

definition visit_parent :: "dent list \<Rightarrow> nat \<Rightarrow> walk \<Rightarrow> walk" where
  "visit_parent dents parent w = fold (visit (the (map_of (wk_paths w) parent))) (children_of dents parent) w"

definition unseen :: "dent list \<Rightarrow> walk \<Rightarrow> nat" where
  "unseen dents w = card (set (map de_target dents) - fst ` set (wk_paths w))"

lemma visit_measure:
  "de_target row \<in> set (map de_target dents) \<Longrightarrow> unseen dents (visit base row w) + length (wk_todo (visit base row w)) = unseen dents w + length (wk_todo w)"
proof -
  assume t: "de_target row \<in> set (map de_target dents)"
  show ?thesis
  proof (cases "de_target row \<in> fst ` set (wk_paths w)")
    case False
    have "set (map de_target dents) - insert (de_target row) (fst ` set (wk_paths w)) = set (map de_target dents) - fst ` set (wk_paths w) - {de_target row}"
      by auto
    then have "card (set (map de_target dents) - insert (de_target row) (fst ` set (wk_paths w))) = card (set (map de_target dents) - fst ` set (wk_paths w)) - 1"
      using t False by simp
    moreover have "card (set (map de_target dents) - fst ` set (wk_paths w)) > 0" using t False by (subst card_gt_0_iff) auto
    ultimately show ?thesis using False by (simp add: visit_def Let_def unseen_def)
  qed (simp add: visit_def Let_def unseen_def)
qed

lemma visits_measure:
  "set rows \<subseteq> set dents \<Longrightarrow> unseen dents (fold (visit base) rows w) + length (wk_todo (fold (visit base) rows w)) = unseen dents w + length (wk_todo w)"
  by (induction rows arbitrary: w) (auto simp: visit_measure)

function walk_all :: "dent list \<Rightarrow> walk \<Rightarrow> walk" where
  "walk_all dents w =
     (case wk_todo w of
        [] \<Rightarrow> w
      | parent # todo \<Rightarrow> walk_all dents (visit_parent dents parent (w\<lparr>wk_todo := todo\<rparr>)))"
  by pat_completeness auto
termination
proof (relation "measure (\<lambda>(dents, w). unseen dents w + length (wk_todo w))")
  show "wf (measure (\<lambda>(dents, w). unseen dents w + length (wk_todo w)))" by simp
  fix dents :: "dent list" and w :: walk and parent todo
  assume "wk_todo w = parent # todo"
  moreover have "set (children_of dents parent) \<subseteq> set dents" by (auto simp: children_of_def)
  ultimately show "((dents, visit_parent dents parent (w\<lparr>wk_todo := todo\<rparr>)), dents, w) \<in> measure (\<lambda>(dents, w). unseen dents w + length (wk_todo w))"
    by (simp add: visit_parent_def visits_measure) (simp add: unseen_def)
qed

declare walk_all.simps [simp del]

definition start_walk :: walk where
  "start_walk = \<lparr>wk_paths = [(1, SLASH)], wk_result = [], wk_todo = [1]\<rparr>"

definition path_index :: "dent list \<Rightarrow> (bytes \<times> dent) list" where
  "path_index dents = wk_result (walk_all dents start_walk)"

subsection \<open>Reading files\<close>

record codecs =
  cd_lzo :: "bytes \<Rightarrow> nat \<Rightarrow> bytes option"
  cd_zlib :: "bytes \<Rightarrow> bytes option"
  cd_zstd :: "bytes \<Rightarrow> nat \<Rightarrow> bytes option"

definition decompress_block :: "codecs \<Rightarrow> block \<Rightarrow> string + bytes" where
  "decompress_block cd rec =
     (let expected = bl_usize rec;
          out = (if bl_compression rec = 0 then Inr (bl_payload rec)
            else if bl_compression rec = 1 then (case cd_lzo cd (bl_payload rec) expected of None \<Rightarrow> Inl ''lzo failed'' | Some b \<Rightarrow> Inr b)
            else if bl_compression rec = 2 then (case cd_zlib cd (bl_payload rec) of None \<Rightarrow> Inl ''zlib failed'' | Some b \<Rightarrow> Inr b)
            else if bl_compression rec = 3 then (case cd_zstd cd (bl_payload rec) expected of None \<Rightarrow> Inl ''zstd failed'' | Some b \<Rightarrow> Inr b)
            else Inl ''unsupported UBIFS compression type'')
      in case out of Inl e \<Rightarrow> Inl e | Inr b \<Rightarrow> if length b \<noteq> expected then Inl ''decompressed size mismatch'' else Inr b)"

fun decode_blocks :: "codecs \<Rightarrow> (nat \<times> block) list \<Rightarrow> string + (nat \<times> bytes) list" where
  "decode_blocks cd [] = Inr []"
| "decode_blocks cd ((k, rec) # bs) =
     (case decompress_block cd rec of
        Inl e \<Rightarrow> Inl e
      | Inr d \<Rightarrow> map_sum id (\<lambda>ds. (k, d) # ds) (decode_blocks cd bs))"

definition put_blocks :: "(nat \<times> bytes) list \<Rightarrow> bytes \<Rightarrow> bytes" where
  "put_blocks ds buf = fold (\<lambda>(k, d). set_slice (k * 4096) (k * 4096 + length d) d) ds buf"

definition sorted_blocks :: "(nat \<times> block) list \<Rightarrow> (nat \<times> block) list" where
  "sorted_blocks bs = sort_key fst bs"

definition is_lzo :: "nat \<times> block \<Rightarrow> bool" where
  "is_lzo b \<longleftrightarrow> bl_compression (snd b) = 1"

text \<open>The file of an inode as \<open>extract\<close> assembles it: the LZO blocks first, then the others.\<close>

definition file_of_blocks :: "codecs \<Rightarrow> (nat \<times> block) list \<Rightarrow> nat \<Rightarrow> string + bytes" where
  "file_of_blocks cd blocks sz =
     (case decode_blocks cd (filter is_lzo (sorted_blocks blocks) @ filter (\<lambda>b. \<not> is_lzo b) (sorted_blocks blocks)) of
        Inl e \<Rightarrow> Inl e
      | Inr ds \<Rightarrow> Inr (put_blocks ds (replicate sz 0)))"

definition extract_file :: "codecs \<Rightarrow> bytes \<Rightarrow> bytes \<Rightarrow> string + bytes" where
  "extract_file cd img target =
     (let nodes = scan_nodes img in
      case map_of (path_index (latest_dentries nodes)) target of
        None \<Rightarrow> Inl ''not found in UBIFS img''
      | Some row \<Rightarrow>
          (case map_of (latest_inodes nodes) (de_target row) of
             None \<Rightarrow> Inl ''inode metadata missing''
           | Some meta \<Rightarrow>
               (let blocks = latest_data_blocks nodes (de_target row) in
                if blocks = [] \<and> in_size meta \<noteq> 0 then Inl ''no data blocks found for inode''
                else file_of_blocks cd blocks (in_size meta))))"

subsection \<open>Newest wins\<close>

text \<open>The reference: the first row of greatest sequence number among those of a key.\<close>

definition champion :: "('r \<Rightarrow> nat) \<Rightarrow> 'r \<Rightarrow> 'r list \<Rightarrow> 'r" where
  "champion sq r rs = foldl (\<lambda>a b. if sq a < sq b then b else a) r rs"

fun first_max :: "('r \<Rightarrow> nat) \<Rightarrow> 'r list \<Rightarrow> 'r option" where
  "first_max sq [] = None"
| "first_max sq (r # rs) = Some (champion sq r rs)"

lemma champion_spec:
  "\<exists>us vs. r # rs = us @ champion sq r rs # vs \<and> (\<forall>u \<in> set us. sq u < sq (champion sq r rs)) \<and> (\<forall>v \<in> set vs. sq v \<le> sq (champion sq r rs))"
proof (induction rs rule: rev_induct)
  case Nil
  then show ?case by (intro exI [of _ "[]"]) (simp add: champion_def)
next
  case (snoc y rs)
  let ?b = "champion sq r rs"
  obtain us vs where IH: "r # rs = us @ ?b # vs" "\<forall>u \<in> set us. sq u < sq ?b" "\<forall>v \<in> set vs. sq v \<le> sq ?b" using snoc by blast
  show ?case
  proof (cases "sq ?b < sq y")
    case True
    then have "champion sq r (rs @ [y]) = y" by (simp add: champion_def)
    moreover have "\<forall>u \<in> set (r # rs). sq u < sq y" using IH True unfolding IH(1) by fastforce
    ultimately show ?thesis by (intro exI [of _ "r # rs"] exI [of _ "[]"]) simp
  next
    case False
    then have "champion sq r (rs @ [y]) = ?b" by (simp add: champion_def)
    then show ?thesis using IH False by (intro exI [of _ us] exI [of _ "vs @ [y]"]) auto
  qed
qed

lemma newest_snoc: "newest sq (rows @ [kr]) = newest_step sq (newest sq rows) kr"
  by (simp add: newest_def)

lemma newest_step_get:
  "map_of (newest_step sq best (k, r)) j =
     (if j = k then (case map_of best k of None \<Rightarrow> Some r | Some old \<Rightarrow> Some (if sq old < sq r then r else old)) else map_of best j)"
  by (auto simp: newest_step_def AList.update_conv' map_add_def split: option.split)

lemma newest_get: "map_of (newest sq rows) k = first_max sq (map snd (filter (\<lambda>kr. fst kr = k) rows))"
proof (induction rows rule: rev_induct)
  case (snoc kr rows)
  obtain j s where kr: "kr = (j, s)" by (cases kr)
  show ?case
  proof (cases "map snd (filter (\<lambda>kr. fst kr = k) rows)")
    case Nil
    then show ?thesis using snoc by (cases "k = j") (auto simp: newest_snoc kr newest_step_get champion_def)
  next
    case (Cons x xs)
    then show ?thesis using snoc by (auto simp: newest_snoc kr newest_step_get champion_def)
  qed
qed (simp add: newest_def)

lemma newest_step_keys: "map fst (newest_step sq best kr) = (if fst kr \<in> set (map fst best) then map fst best else map fst best @ [fst kr])"
proof (cases "map_of best (fst kr)")
  case None
  then have "fst kr \<notin> set (map fst best)" by (simp add: map_of_eq_None_iff)
  then show ?thesis using None by (simp add: newest_step_def)
next
  case (Some old)
  then have "fst kr \<in> set (map fst best)" by (metis map_of_eq_None_iff option.distinct(1) set_map)
  then show ?thesis using Some by (simp add: newest_step_def AList.update_keys)
qed

lemma newest_distinct: "distinct (map fst (newest sq rows))"
  by (induction rows rule: rev_induct) (simp add: newest_def, simp add: newest_snoc newest_step_keys)

subsection \<open>The node scan\<close>

lemma map_filter_app: "List.map_filter f (xs @ ys) = List.map_filter f xs @ List.map_filter f ys"
  by (simp add: List.map_filter_def)

lemma scan_from_eq:
  "scan_from img pos nodes = nodes @ List.map_filter (\<lambda>off. if prefix UBIFS_MAGIC (drop off img) then node_at img off else None) [pos..<length img]"
proof (induction img pos nodes rule: scan_from.induct)
  case (1 img pos nodes)
  let ?f = "\<lambda>off. if prefix UBIFS_MAGIC (drop off img) then node_at img off else None"
  have skip: "List.map_filter ?f [a..<b] = []" if "\<And>k. a \<le> k \<Longrightarrow> k < b \<Longrightarrow> \<not> prefix UBIFS_MAGIC (drop k img)" for a b
    using that by (induction b) (auto simp: map_filter_simps map_filter_app)
  show ?case
  proof (cases "find_sub UBIFS_MAGIC (drop pos img)")
    case None
    have "\<not> prefix UBIFS_MAGIC (drop k img)" if "pos \<le> k" "k < length img" for k
      using find_sub_None [OF None, of "k - pos"] that by simp
    then show ?thesis using None by (subst scan_from.simps) (simp add: skip)
  next
    case (Some i)
    have i: "prefix UBIFS_MAGIC (drop (pos + i) img)" "\<And>k. k < i \<Longrightarrow> \<not> prefix UBIFS_MAGIC (drop (pos + k) img)"
      using find_sub_Some [OF Some] by (auto simp: add.commute)
    have lt: "pos + i < length img" using find_sub_bound [OF Some] by (simp add: UBIFS_MAGIC_def)
    have "[pos..<length img] = [pos..<pos + i] @ (pos + i) # [Suc (pos + i)..<length img]"
      using lt by (metis le_add1 less_imp_le_nat upt_add_eq_append upt_conv_Cons le_Suc_ex)
    moreover have "List.map_filter ?f [pos..<pos + i] = []" by (rule skip) (metis i(2) le_add_diff_inverse nat_add_left_cancel_less)
    ultimately have "List.map_filter ?f [pos..<length img]
        = (case node_at img (pos + i) of None \<Rightarrow> [] | Some n \<Rightarrow> [n]) @ List.map_filter ?f [Suc (pos + i)..<length img]"
      using i(1) by (auto simp: map_filter_simps map_filter_app split: option.split)
    then show ?thesis using 1 [OF Some] Some by (subst scan_from.simps) (auto split: option.split)
  qed
qed

subsection \<open>What the path index visits\<close>

inductive reach :: "dent list \<Rightarrow> nat \<Rightarrow> bool" for dents where
  reach_root: "reach dents 1"
| reach_child: "reach dents (de_parent row) \<Longrightarrow> row \<in> set dents \<Longrightarrow> de_target row \<noteq> 0 \<Longrightarrow> reach dents (de_target row)"

definition seen :: "walk \<Rightarrow> nat set" where
  "seen w = fst ` set (wk_paths w)"

definition path_to :: "walk \<Rightarrow> nat \<Rightarrow> bytes" where
  "path_to w ino = the (map_of (wk_paths w) ino)"

definition walk_ok :: "dent list \<Rightarrow> walk \<Rightarrow> bool" where
  "walk_ok dents w \<longleftrightarrow> (\<forall>ino \<in> seen w. reach dents ino)
     \<and> (\<forall>(p, row) \<in> set (wk_result w). row \<in> set dents \<and> de_target row \<noteq> 0 \<and> de_parent row \<in> seen w
          \<and> p = child_path (path_to w (de_parent row)) (de_name row))"

text \<open>A walk only grows: paths once given stay.\<close>

definition grows :: "walk \<Rightarrow> walk \<Rightarrow> bool" where
  "grows w w' \<longleftrightarrow> seen w \<subseteq> seen w' \<and> (\<forall>ino \<in> seen w. path_to w' ino = path_to w ino)
     \<and> fst ` set (wk_result w) \<subseteq> fst ` set (wk_result w')"

lemma grows_trans: "grows a b \<Longrightarrow> grows b c \<Longrightarrow> grows a c"
  by (auto simp: grows_def subset_iff)

lemma update_entries: "set (AList.update k v xs) \<subseteq> insert (k, v) (set xs)"
  by (induction xs) auto

lemma visit_facts:
  shows "seen (visit base row w) = insert (de_target row) (seen w)"
    and "set (wk_todo (visit base row w)) = set (wk_todo w) \<union> ({de_target row} - seen w)"
    and "grows w (visit base row w)"
    and "fst ` set (wk_result (visit base row w)) = insert (child_path base (de_name row)) (fst ` set (wk_result w))"
    and "set (wk_result (visit base row w)) \<subseteq> insert (child_path base (de_name row), row) (set (wk_result w))"
proof -
  show "seen (visit base row w) = insert (de_target row) (seen w)"
    "set (wk_todo (visit base row w)) = set (wk_todo w) \<union> ({de_target row} - seen w)"
    by (auto simp: visit_def Let_def seen_def)
  show res: "fst ` set (wk_result (visit base row w)) = insert (child_path base (de_name row)) (fst ` set (wk_result w))"
    by (simp add: visit_def Let_def AList.dom_update)
  show "set (wk_result (visit base row w)) \<subseteq> insert (child_path base (de_name row), row) (set (wk_result w))"
    using update_entries [of _ _ "wk_result w"] by (simp add: visit_def Let_def)
  show "grows w (visit base row w)"
  proof -
    have "map_of (wk_paths (visit base row w)) ino = map_of (wk_paths w) ino" if "ino \<in> fst ` set (wk_paths w)" for ino
      using that by (force simp: visit_def Let_def map_add_def map_of_eq_None_iff split: option.split)
    then show ?thesis unfolding grows_def res by (auto simp: path_to_def seen_def visit_def Let_def)
  qed
qed

lemma visit_ok:
  assumes "walk_ok dents w" "row \<in> set dents" "de_target row \<noteq> 0" "de_parent row \<in> seen w" "base = path_to w (de_parent row)"
  shows "walk_ok dents (visit base row w)"
proof -
  note f = visit_facts [where base = base and row = row and w = w]
  have keep: "path_to (visit base row w) ino = path_to w ino" if "ino \<in> seen w" for ino using f(3) that by (auto simp: grows_def)
  have "reach dents (de_target row)" using assms by (auto simp: walk_ok_def intro: reach_child)
  moreover have "r \<in> set dents \<and> de_target r \<noteq> 0 \<and> de_parent r \<in> seen (visit base row w)
      \<and> p = child_path (path_to (visit base row w) (de_parent r)) (de_name r)" if "(p, r) \<in> set (wk_result (visit base row w))" for p r
  proof (cases "(p, r) \<in> set (wk_result w)")
    case True
    then have "r \<in> set dents" "de_target r \<noteq> 0" "de_parent r \<in> seen w" "p = child_path (path_to w (de_parent r)) (de_name r)"
      using assms(1) by (auto simp: walk_ok_def)
    then show ?thesis using keep f(1) by simp
  next
    case False
    then have "p = child_path base (de_name row)" "r = row" using f(5) that by auto
    then show ?thesis using assms keep f(1) by simp
  qed
  moreover have "\<forall>ino \<in> seen w. reach dents ino" using assms(1) by (simp add: walk_ok_def)
  ultimately show ?thesis unfolding walk_ok_def f(1) by blast
qed

lemma visits_facts:
  assumes "walk_ok dents w" "parent \<in> seen w" "base = path_to w parent"
    "\<forall>row \<in> set rows. row \<in> set dents \<and> de_target row \<noteq> 0 \<and> de_parent row = parent"
  shows "walk_ok dents (fold (visit base) rows w) \<and> grows w (fold (visit base) rows w)
    \<and> seen (fold (visit base) rows w) = seen w \<union> de_target ` set rows
    \<and> set (wk_todo (fold (visit base) rows w)) = set (wk_todo w) \<union> (seen (fold (visit base) rows w) - seen w)
    \<and> (\<forall>row \<in> set rows. child_path base (de_name row) \<in> fst ` set (wk_result (fold (visit base) rows w)))"
  using assms
proof (induction rows arbitrary: w)
  case (Cons row rows)
  note f = visit_facts [where base = base and row = row and w = w]
  let ?w = "visit base row w"
  have "walk_ok dents ?w" using Cons.prems by (intro visit_ok) auto
  moreover have "parent \<in> seen ?w" "base = path_to ?w parent" using f(1,3) Cons.prems by (auto simp: grows_def)
  ultimately have IH: "walk_ok dents (fold (visit base) rows ?w)" "grows ?w (fold (visit base) rows ?w)"
    "seen (fold (visit base) rows ?w) = seen ?w \<union> de_target ` set rows"
    "set (wk_todo (fold (visit base) rows ?w)) = set (wk_todo ?w) \<union> (seen (fold (visit base) rows ?w) - seen ?w)"
    "\<forall>row \<in> set rows. child_path base (de_name row) \<in> fst ` set (wk_result (fold (visit base) rows ?w))"
    using Cons.IH [of ?w] Cons.prems(4) by simp_all
  have "child_path base (de_name row) \<in> fst ` set (wk_result (fold (visit base) rows ?w))"
    using IH(2) f(4) by (auto simp: grows_def)
  then show ?case using IH grows_trans [OF f(3) IH(2)] f(1,2) by auto
qed (auto simp: grows_def)

definition walk_inv :: "dent list \<Rightarrow> walk \<Rightarrow> bool" where
  "walk_inv dents w \<longleftrightarrow> walk_ok dents w \<and> 1 \<in> seen w \<and> path_to w 1 = SLASH \<and> set (wk_todo w) \<subseteq> seen w
     \<and> (\<forall>row \<in> set dents. de_target row \<noteq> 0 \<and> de_parent row \<in> seen w - set (wk_todo w) \<longrightarrow>
          de_target row \<in> seen w \<and> child_path (path_to w (de_parent row)) (de_name row) \<in> fst ` set (wk_result w))"

lemma visit_parent_inv:
  assumes "walk_inv dents w" "wk_todo w = parent # todo"
  shows "walk_inv dents (visit_parent dents parent (w\<lparr>wk_todo := todo\<rparr>))"
proof -
  let ?w = "w\<lparr>wk_todo := todo\<rparr>"
  have same: "seen ?w = seen w" "path_to ?w = path_to w" "wk_result ?w = wk_result w" by (simp_all add: seen_def path_to_def fun_eq_iff)
  have ok: "walk_ok dents ?w" "parent \<in> seen ?w" using assms by (auto simp: walk_inv_def walk_ok_def same)
  let ?rows = "children_of dents parent"
  let ?v = "visit_parent dents parent ?w"
  have v: "walk_ok dents ?v" "grows ?w ?v" "seen ?v = seen w \<union> de_target ` set ?rows"
    "set (wk_todo ?v) = set todo \<union> (seen ?v - seen w)"
    "\<forall>row \<in> set ?rows. child_path (path_to w parent) (de_name row) \<in> fst ` set (wk_result ?v)"
    using visits_facts [OF ok, of "path_to ?w parent" ?rows] unfolding visit_parent_def path_to_def [symmetric] same
    by (auto simp: children_of_def same)
  have keep: "path_to ?v ino = path_to w ino" if "ino \<in> seen w" for ino using v(2) that by (simp add: grows_def same)
  have "de_target row \<in> seen ?v \<and> child_path (path_to ?v (de_parent row)) (de_name row) \<in> fst ` set (wk_result ?v)"
    if row: "row \<in> set dents" "de_target row \<noteq> 0" "de_parent row \<in> seen ?v - set (wk_todo ?v)" for row
  proof -
    have old: "de_parent row \<in> seen w" "de_parent row \<notin> set todo" using row(3) v(4) by auto
    show ?thesis
    proof (cases "de_parent row = parent")
      case True
      then have "row \<in> set ?rows" using row by (simp add: children_of_def)
      then show ?thesis using v(3,5) keep [OF old(1)] True by auto
    next
      case False
      then have "de_target row \<in> seen w \<and> child_path (path_to w (de_parent row)) (de_name row) \<in> fst ` set (wk_result w)"
        using assms row old by (auto simp: walk_inv_def)
      then show ?thesis using v(2) keep [OF old(1)] by (auto simp: grows_def same)
    qed
  qed
  then show ?thesis
    using v assms keep by (auto simp: walk_inv_def)
qed

lemma walk_all_inv: "walk_inv dents w \<Longrightarrow> walk_inv dents (walk_all dents w) \<and> wk_todo (walk_all dents w) = []"
proof (induction dents w rule: walk_all.induct)
  case (1 dents w)
  show ?case
  proof (cases "wk_todo w")
    case (Cons parent todo)
    then show ?thesis using 1 visit_parent_inv [OF 1(2) Cons] by (subst (1 2) walk_all.simps) simp
  qed (use 1 in \<open>simp add: walk_all.simps\<close>)
qed

lemma start_walk_inv: "walk_inv dents start_walk"
  by (simp add: walk_inv_def start_walk_def walk_ok_def seen_def path_to_def reach_root [unfolded One_nat_def])

subsection \<open>What a file holds\<close>

lemma decode_blocks_Inr:
  "decode_blocks cd bs = Inr ds \<Longrightarrow> map fst ds = map fst bs \<and> (\<forall>k rec. (k, rec) \<in> set bs \<longrightarrow> (\<exists>d. (k, d) \<in> set ds \<and> decompress_block cd rec = Inr d))"
proof (induction cd bs arbitrary: ds rule: decode_blocks.induct)
  case (2 cd k rec bs)
  then obtain d ds' where "decompress_block cd rec = Inr d" "decode_blocks cd bs = Inr ds'" "ds = (k, d) # ds'"
    by (cases "decode_blocks cd bs") (auto split: sum.splits)
  moreover from 2(1) [OF this(1,2)]
  have "map fst ds' = map fst bs" "\<And>k rec. (k, rec) \<in> set bs \<Longrightarrow> \<exists>d. (k, d) \<in> set ds' \<and> decompress_block cd rec = Inr d" by auto
  ultimately show ?case by fastforce
qed simp

lemma decompressed_length: "decompress_block cd rec = Inr d \<Longrightarrow> length d = bl_usize rec"
  by (auto simp: decompress_block_def Let_def split: sum.splits if_splits option.splits)

definition in_block :: "nat \<times> bytes \<Rightarrow> nat \<Rightarrow> bool" where
  "in_block kd i \<longleftrightarrow> fst kd * 4096 \<le> i \<and> i < fst kd * 4096 + length (snd kd)"

definition block_fits :: "nat \<Rightarrow> nat \<times> bytes \<Rightarrow> bool" where
  "block_fits n kd \<longleftrightarrow> length (snd kd) \<le> 4096 \<and> fst kd * 4096 + length (snd kd) \<le> n"

lemma put_blocks_Cons: "put_blocks (kd # ds) buf = put_blocks ds (set_slice (fst kd * 4096) (fst kd * 4096 + length (snd kd)) (snd kd) buf)"
  by (simp add: put_blocks_def split_def)

lemma put_blocks_other:
  "list_all (block_fits (length buf)) ds \<Longrightarrow> length (put_blocks ds buf) = length buf
     \<and> (\<forall>i < length buf. \<not> list_ex (\<lambda>kd. in_block kd i) ds \<longrightarrow> put_blocks ds buf ! i = buf ! i)"
proof (induction ds arbitrary: buf)
  case (Cons kd ds)
  let ?buf = "set_slice (fst kd * 4096) (fst kd * 4096 + length (snd kd)) (snd kd) buf"
  have fit: "fst kd * 4096 + length (snd kd) \<le> length buf" using Cons.prems by (simp add: block_fits_def)
  have len: "length ?buf = length buf" using length_set_slice [of "fst kd * 4096" "fst kd * 4096 + length (snd kd)" buf "snd kd"] fit by simp
  show ?case
    using Cons.IH [of ?buf] Cons.prems len nth_set_slice [of "fst kd * 4096" "fst kd * 4096 + length (snd kd)" buf "snd kd"] fit
    by (auto simp: put_blocks_Cons in_block_def)
qed (simp add: put_blocks_def)

lemma put_blocks_in:
  "list_all (block_fits (length buf)) ds \<Longrightarrow> distinct (map fst ds) \<Longrightarrow> (k, d) \<in> set ds \<Longrightarrow> j < length d \<Longrightarrow>
   put_blocks ds buf ! (k * 4096 + j) = d ! j"
proof (induction ds arbitrary: buf)
  case (Cons kd ds)
  let ?buf = "set_slice (fst kd * 4096) (fst kd * 4096 + length (snd kd)) (snd kd) buf"
  have fit: "fst kd * 4096 + length (snd kd) \<le> length buf" using Cons.prems by (simp add: block_fits_def)
  have len: "length ?buf = length buf" using length_set_slice [of "fst kd * 4096" "fst kd * 4096 + length (snd kd)" buf "snd kd"] fit by simp
  show ?case
  proof (cases "(k, d) \<in> set ds")
    case True
    then show ?thesis using Cons.IH [of ?buf] Cons.prems len by (simp add: put_blocks_Cons)
  next
    case False
    then have kd: "kd = (k, d)" using Cons.prems by auto
    have "\<not> list_ex (\<lambda>kd. in_block kd (k * 4096 + j)) ds"
    proof
      assume "list_ex (\<lambda>kd. in_block kd (k * 4096 + j)) ds"
      then obtain k' d' where d': "(k', d') \<in> set ds" "k' * 4096 \<le> k * 4096 + j" "k * 4096 + j < k' * 4096 + length d'"
        by (auto simp: list_ex_iff in_block_def)
      have "length d' \<le> 4096" "length d \<le> 4096" using Cons.prems(1) d'(1) kd by (auto simp: list_all_iff block_fits_def)
      then have "k' = k" using d'(2,3) Cons.prems(4) by linarith
      then show False using d'(1) Cons.prems(2) kd by force
    qed
    then have "put_blocks ds ?buf ! (k * 4096 + j) = ?buf ! (k * 4096 + j)"
      using put_blocks_other [of ?buf ds] Cons.prems len fit kd by simp
    then show ?thesis
      using nth_set_slice [of "k * 4096" "k * 4096 + length d" buf d "k * 4096 + j"] fit Cons.prems(4) by (simp add: put_blocks_Cons kd)
  qed
qed simp

lemma file_of_blocks_bytes:
  assumes "file_of_blocks cd blocks sz = Inr out" "distinct (map fst blocks)"
    "\<forall>(k, rec) \<in> set blocks. bl_usize rec \<le> 4096 \<and> k * 4096 + bl_usize rec \<le> sz"
  shows "length out = sz"
    and "(k, rec) \<in> set blocks \<Longrightarrow> decompress_block cd rec = Inr (slice out (k * 4096) (k * 4096 + bl_usize rec))"
    and "i < sz \<Longrightarrow> (\<And>k rec. (k, rec) \<in> set blocks \<Longrightarrow> i < k * 4096 \<or> k * 4096 + bl_usize rec \<le> i) \<Longrightarrow> out ! i = 0"
proof -
  define bs where "bs = filter is_lzo (sorted_blocks blocks) @ filter (\<lambda>b. \<not> is_lzo b) (sorted_blocks blocks)"
  obtain ds where ds: "decode_blocks cd bs = Inr ds" "out = put_blocks ds (replicate sz 0)"
    using assms(1) by (auto simp: file_of_blocks_def bs_def split: sum.splits)
  have set': "set bs = set blocks" by (auto simp: bs_def sorted_blocks_def)
  have "distinct (map fst (sorted_blocks blocks))" using assms(2) by (simp add: sorted_blocks_def distinct_map)
  then have dist: "distinct (map fst bs)"
    unfolding bs_def by (auto simp: distinct_map inj_on_def)
  note dec = decode_blocks_Inr [OF ds(1)]
  have origin: "\<exists>rec. (k, rec) \<in> set blocks \<and> decompress_block cd rec = Inr d" if kd: "(k, d) \<in> set ds" for k d
  proof -
    have "k \<in> set (map fst bs)" using dec kd by (metis fst_conv image_eqI set_map)
    then obtain rec where r0: "(k, rec) \<in> set bs" by auto
    then obtain d' where r: "(k, rec) \<in> set bs" "(k, d') \<in> set ds" "decompress_block cd rec = Inr d'" using dec by blast
    have "distinct (map fst ds)" using dec dist by simp
    then have "d' = d" using kd r(2) by (metis eq_key_imp_eq_value)
    then show ?thesis using r set' by auto
  qed
  have fits: "list_all (block_fits (length (replicate sz (0 :: byte)))) ds"
    using origin assms(3) by (fastforce simp: list_all_iff block_fits_def decompressed_length)
  have dds: "distinct (map fst ds)" using dec dist by simp
  show len: "length out = sz" using put_blocks_other [OF fits] ds(2) by simp
  show "decompress_block cd rec = Inr (slice out (k * 4096) (k * 4096 + bl_usize rec))" if kr: "(k, rec) \<in> set blocks"
  proof -
    obtain d where d: "(k, d) \<in> set ds" "decompress_block cd rec = Inr d" using dec kr unfolding set' by blast
    have l: "length d = bl_usize rec" using decompressed_length [OF d(2)] .
    have "slice out (k * 4096) (k * 4096 + bl_usize rec) = d"
      using put_blocks_in [OF fits dds d(1)] assms(3) kr len l ds(2) by (intro nth_equalityI) (auto simp: nth_slice)
    then show ?thesis using d(2) by simp
  qed
  show "out ! i = 0" if "i < sz" "\<And>k rec. (k, rec) \<in> set blocks \<Longrightarrow> i < k * 4096 \<or> k * 4096 + bl_usize rec \<le> i"
  proof -
    have "\<not> list_ex (\<lambda>kd. in_block kd i) ds" using origin that(2) by (force simp: list_ex_iff in_block_def decompressed_length)
    then show ?thesis using put_blocks_other [OF fits] that(1) ds(2) by simp
  qed
qed

text \<open>Every block of the file lies within the size of its inode.\<close>

definition blocks_fit :: "bytes \<Rightarrow> bytes \<Rightarrow> bool" where
  "blocks_fit img target =
     (case map_of (path_index (latest_dentries (scan_nodes img))) target of
        None \<Rightarrow> True
      | Some row \<Rightarrow>
          (case map_of (latest_inodes (scan_nodes img)) (de_target row) of
             None \<Rightarrow> True
           | Some meta \<Rightarrow> list_all (\<lambda>(k, rec). bl_usize rec \<le> 4096 \<and> k * 4096 + bl_usize rec \<le> in_size meta)
               (latest_data_blocks (scan_nodes img) (de_target row))))"

subsection \<open>Properties\<close>

text \<open>The node scan equals its specification: the valid nodes at all positions of the magic number, in order.\<close>

theorem scan_nodes_spec:
  "scan_nodes img = List.map_filter (\<lambda>off. if prefix UBIFS_MAGIC (drop off img) then node_at img off else None) [0..<length img]"
  by (simp add: scan_nodes_def scan_from_eq)

text \<open>Newest wins: the latest inode of a number, like the latest data block and directory entry of a key, is the first
  of the rows with the greatest sequence number, and no key occurs twice.\<close>

theorem latest_wins:
  "map_of (latest_inodes nodes) ino = first_max in_sqnum (map snd (filter (\<lambda>kr. fst kr = ino) (List.map_filter inode_row nodes)))
   \<and> map_of (latest_data_blocks nodes ino) k = first_max bl_sqnum (map snd (filter (\<lambda>kr. fst kr = k) (List.map_filter (block_row ino) nodes)))
   \<and> distinct (map fst (latest_inodes nodes)) \<and> distinct (map fst (latest_data_blocks nodes ino))"
  by (simp add: latest_inodes_def latest_data_blocks_def newest_get newest_distinct)


text \<open>Extraction: when every data block of the file fits (at most 4096 bytes, inside the inode's size), the extracted file has the
  inode's size, holds at each block's place exactly what the block decompresses to, and is zero in the holes; the two passes
  over LZO and other blocks do not disturb each other.\<close>

theorem extract_places_blocks:
  assumes "extract_file cd img target = Inr out" and "blocks_fit img target"
  shows "\<exists>row meta. map_of (path_index (latest_dentries (scan_nodes img))) target = Some row
    \<and> map_of (latest_inodes (scan_nodes img)) (de_target row) = Some meta \<and> length out = in_size meta
    \<and> (\<forall>(k, rec) \<in> set (latest_data_blocks (scan_nodes img) (de_target row)).
        decompress_block cd rec = Inr (slice out (k * 4096) (k * 4096 + bl_usize rec)))
    \<and> (\<forall>i < in_size meta. (\<forall>(k, rec) \<in> set (latest_data_blocks (scan_nodes img) (de_target row)). i < k * 4096 \<or> k * 4096 + bl_usize rec \<le> i)
        \<longrightarrow> out ! i = 0)"
proof -
  obtain row meta where r: "map_of (path_index (latest_dentries (scan_nodes img))) target = Some row"
      "map_of (latest_inodes (scan_nodes img)) (de_target row) = Some meta"
      "file_of_blocks cd (latest_data_blocks (scan_nodes img) (de_target row)) (in_size meta) = Inr out"
    using assms(1) by (auto simp: extract_file_def Let_def split: option.splits if_splits)
  define bs where "bs = latest_data_blocks (scan_nodes img) (de_target row)"
  have d: "distinct (map fst bs)" by (simp add: bs_def latest_data_blocks_def newest_distinct)
  have fit: "\<forall>(k, rec) \<in> set bs. bl_usize rec \<le> 4096 \<and> k * 4096 + bl_usize rec \<le> in_size meta"
    using assms(2) r(1,2) by (simp add: blocks_fit_def bs_def list_all_iff)
  note f = file_of_blocks_bytes [OF r(3) [folded bs_def] d fit]
  have "\<forall>(k, rec) \<in> set bs. decompress_block cd rec = Inr (slice out (k * 4096) (k * 4096 + bl_usize rec))" using f(2) by blast
  moreover have "out ! i = 0" if "i < in_size meta" "\<forall>(k, rec) \<in> set bs. i < k * 4096 \<or> k * 4096 + bl_usize rec \<le> i" for i
    using that f(3) [of i] by blast
  ultimately show ?thesis using r(1,2) f(1) unfolding bs_def by blast
qed

subsection \<open>A demonstration image\<close>

definition demo_dent :: bytes where
  "demo_dent =
   [49, 24, 16, 6, 0, 0, 0, 0, 1, 0, 0, 0, 0, 0, 0, 0, 57, 0, 0, 0, 2, 0, 0, 0, 1, 0, 0, 0, 0, 0, 0, 0, 0, 0, 0, 0,
    0, 0, 0, 0, 5, 0, 0, 0, 0, 0, 0, 0, 0, 0, 1, 0, 0, 0, 0, 0, 97]"

definition demo_root :: bytes where
  "demo_root =
   [49, 24, 16, 6, 0, 0, 0, 0, 1, 0, 0, 0, 0, 0, 0, 0, 160, 0, 0, 0, 0, 0, 0, 0, 1, 0, 0, 0, 0, 0, 0, 0, 0, 0, 0, 0,
    0, 0, 0, 0, 0, 0, 0, 0, 0, 0, 0, 0, 0, 0, 0, 0, 0, 0, 0, 0, 0, 0, 0, 0, 0, 0, 0, 0, 0, 0, 0, 0, 0, 0, 0, 0, 0, 0,
    0, 0, 0, 0, 0, 0, 0, 0, 0, 0, 0, 0, 0, 0, 0, 0, 0, 0, 0, 0, 0, 0, 0, 0, 0, 0, 0, 0, 0, 0, 237, 65, 0, 0, 0, 0, 0,
    0, 0, 0, 0, 0, 0, 0, 0, 0, 0, 0, 0, 0, 0, 0, 0, 0, 0, 0, 0, 0, 0, 0, 0, 0, 0, 0, 0, 0, 0, 0, 0, 0, 0, 0, 0, 0, 0,
    0, 0, 0, 0, 0, 0, 0, 0, 0, 0, 0]"

definition demo_inode :: bytes where
  "demo_inode =
   [49, 24, 16, 6, 0, 0, 0, 0, 1, 0, 0, 0, 0, 0, 0, 0, 160, 0, 0, 0, 0, 0, 0, 0, 5, 0, 0, 0, 0, 0, 0, 0, 0, 0, 0, 0,
    0, 0, 0, 0, 0, 0, 0, 0, 0, 0, 0, 0, 3, 0, 0, 0, 0, 0, 0, 0, 0, 0, 0, 0, 0, 0, 0, 0, 0, 0, 0, 0, 0, 0, 0, 0, 0, 0,
    0, 0, 0, 0, 0, 0, 0, 0, 0, 0, 0, 0, 0, 0, 0, 0, 0, 0, 0, 0, 0, 0, 0, 0, 0, 0, 0, 0, 0, 0, 164, 129, 0, 0, 0, 0,
    0, 0, 0, 0, 0, 0, 0, 0, 0, 0, 0, 0, 0, 0, 0, 0, 0, 0, 0, 0, 0, 0, 0, 0, 0, 0, 0, 0, 0, 0, 0, 0, 0, 0, 0, 0, 0, 0,
    0, 0, 0, 0, 0, 0, 0, 0, 0, 0, 0, 0]"

definition demo_block :: bytes where
  "demo_block =
   [49, 24, 16, 6, 0, 0, 0, 0, 1, 0, 0, 0, 0, 0, 0, 0, 50, 0, 0, 0, 1, 0, 0, 0, 5, 0, 0, 0, 0, 0, 0, 32, 0, 0, 0, 0,
    0, 0, 0, 0, 2, 0, 0, 0, 0, 0, 0, 0, 7, 8]"

definition demo_img :: bytes where "demo_img = demo_dent @ demo_root @ demo_inode @ demo_block"

lemmas demo_lit = demo_img_def demo_dent_def demo_root_def demo_inode_def demo_block_def

lemma img_length: "length demo_img = 427"
  by (simp add: demo_lit)

definition demo_nodes :: "unode list" where
  "demo_nodes =
     [\<lparr>un_offset = 0, un_sqnum = 1, un_len = 57, un_type = 2, un_group = 0, un_data = demo_dent\<rparr>,
      \<lparr>un_offset = 57, un_sqnum = 1, un_len = 160, un_type = 0, un_group = 0, un_data = demo_root\<rparr>,
      \<lparr>un_offset = 217, un_sqnum = 1, un_len = 160, un_type = 0, un_group = 0, un_data = demo_inode\<rparr>,
      \<lparr>un_offset = 377, un_sqnum = 1, un_len = 50, un_type = 1, un_group = 0, un_data = demo_block\<rparr>]"

lemma demo_node_at:
  "node_at demo_img 0 = Some (demo_nodes ! 0)" "node_at demo_img 57 = Some (demo_nodes ! 1)"
  "node_at demo_img 217 = Some (demo_nodes ! 2)" "node_at demo_img 377 = Some (demo_nodes ! 3)"
  by (simp_all add: node_at_def img_length COMMON_HDR_SIZE_def le_at_def Let_def slice_def demo_nodes_def) (simp_all add: demo_lit)

lemma demo_find:
  "find_sub UBIFS_MAGIC demo_img = Some 0" "find_sub UBIFS_MAGIC (drop 1 demo_img) = Some 56"
  "find_sub UBIFS_MAGIC (drop 58 demo_img) = Some 159" "find_sub UBIFS_MAGIC (drop 218 demo_img) = Some 159"
  "find_sub UBIFS_MAGIC (drop 378 demo_img) = None"
  by (simp_all add: UBIFS_MAGIC_def demo_lit)

lemma demo_scan: "scan_nodes demo_img = demo_nodes"
  by (simp add: scan_nodes_def demo_find demo_node_at scan_from.simps [of demo_img] del: One_nat_def) (simp add: demo_nodes_def)

definition demo_meta :: "nat \<Rightarrow> nat \<Rightarrow> nat \<Rightarrow> inode" where
  "demo_meta sz mode off = \<lparr>in_size = sz, in_mode = mode, in_uid = 0, in_gid = 0, in_nlink = 0, in_flags = 0,
     in_atime = 0, in_ctime = 0, in_mtime = 0, in_sqnum = 1, in_offset = off\<rparr>"

lemma demo_inodes: "latest_inodes demo_nodes = [(1, demo_meta 0 0x41ED 57), (5, demo_meta 3 0x81A4 217)]"
  by (simp add: latest_inodes_def demo_nodes_def map_filter_simps inode_row_def INO_NODE_MIN_def le_at_def slice_def Let_def
      demo_lit newest_def newest_step_def demo_meta_def)

definition demo_rec :: block where
  "demo_rec = \<lparr>bl_sqnum = 1, bl_usize = 2, bl_compression = 0, bl_payload = [7, 8], bl_offset = 377\<rparr>"

lemma demo_blocks: "latest_data_blocks demo_nodes 5 = [(0, demo_rec)]"
  by (simp add: latest_data_blocks_def demo_nodes_def map_filter_simps block_row_def DATA_NODE_MIN_def le_at_def slice_def Let_def
      demo_lit newest_def newest_step_def demo_rec_def)

definition demo_entry :: dent where
  "demo_entry = \<lparr>de_parent = 1, de_target = 5, de_dtype = 0, de_name = [97], de_sqnum = 1, de_offset = 0\<rparr>"

lemma demo_dents: "latest_dentries demo_nodes = [demo_entry]"
  by (simp add: latest_dentries_def demo_nodes_def map_filter_simps dent_row_def DENT_NODE_MIN_def le_at_def slice_def Let_def
      demo_lit newest_def newest_step_def demo_entry_def)

lemma demo_index: "path_index (latest_dentries demo_nodes) = [([47, 97], demo_entry)]"
  by (simp add: path_index_def demo_dents start_walk_def walk_all.simps [of "[_]"] visit_parent_def children_of_def visit_def child_path_def
      SLASH_def Let_def demo_entry_def)

definition demo_codecs :: codecs where
  "demo_codecs = \<lparr>cd_lzo = \<lambda>_ _. None, cd_zlib = \<lambda>_. None, cd_zstd = \<lambda>_ _. None\<rparr>"

lemma demo_file: "file_of_blocks demo_codecs [(0, demo_rec)] 3 = Inr [7, 8, 0]"
  by (simp add: file_of_blocks_def sorted_blocks_def is_lzo_def decompress_block_def put_blocks_def set_slice_def clip_def demo_rec_def eval_nat_numeral)

lemmas demo_facts = demo_scan demo_index demo_inodes demo_blocks demo_file demo_entry_def demo_meta_def Let_def

lemma demo_extract: "extract_file demo_codecs demo_img [47, 97] = Inr [7, 8, 0]"
  by (simp add: extract_file_def demo_facts del: One_nat_def)

lemma demo_fit: "blocks_fit demo_img [47, 97]"
  by (simp add: blocks_fit_def demo_facts demo_rec_def del: One_nat_def)

theorem extract_places_blocks_witness:
  "\<exists>row meta. map_of (path_index (latest_dentries (scan_nodes demo_img))) [47, 97] = Some row
     \<and> map_of (latest_inodes (scan_nodes demo_img)) (de_target row) = Some meta \<and> in_size meta = 3"
  using extract_places_blocks [OF demo_extract demo_fit] by fastforce

end
