(* ===== verification/UbifsManifest.thy ===== *)
theory UbifsManifest
  imports Ubifs "HOL-Library.List_Lexorder"
begin

text \<open>
  The manifest of a whole UBIFS image, \<open>tools/fw/ubifs_manifest.py\<close>: the bulk reader over all regular
  files, the rows of the manifest, the comparison of two manifests. \<open>sorted\<close> on paths is the order of
  their bytes, which for UTF-8 is the order of their code points.

  Shown: the bulk reader gives the bytes of the single-file extraction; the manifest has
  one row for the root and one for each path, with the hash of the file that extraction returns; two manifests
  compare without difference exactly when they have the same paths and agree on all compared fields.
\<close>

subsection \<open>The bulk reader\<close>

definition plain_chunks :: "codecs \<Rightarrow> unode list \<Rightarrow> nat \<times> nat \<Rightarrow> string + (nat \<times> bytes) list" where
  "plain_chunks cd nodes job = decode_blocks cd (filter (\<lambda>b. \<not> is_lzo b) (sorted_blocks (latest_data_blocks nodes (fst job))))"

definition lzo_chunks :: "codecs \<Rightarrow> unode list \<Rightarrow> nat \<times> nat \<Rightarrow> string + (nat \<times> bytes) list" where
  "lzo_chunks cd nodes job = decode_blocks cd (filter is_lzo (sorted_blocks (latest_data_blocks nodes (fst job))))"

definition fill :: "nat \<times> nat \<Rightarrow> (nat \<times> bytes) list \<Rightarrow> bytes" where
  "fill job chunks = take (snd job) (put_blocks chunks (replicate (snd job) 0))"

text \<open>All blocks that are not LZO are decoded first, then all LZO blocks of all files in one batch.\<close>

definition read_all_files :: "codecs \<Rightarrow> unode list \<Rightarrow> (nat \<times> nat) list \<Rightarrow> string + bytes list" where
  "read_all_files cd nodes jobs =
     (case collect (plain_chunks cd nodes) jobs of
        Inl e \<Rightarrow> Inl e
      | Inr plain \<Rightarrow>
          (case collect (lzo_chunks cd nodes) jobs of
             Inl e \<Rightarrow> Inl e
           | Inr lzo \<Rightarrow> Inr (map (\<lambda>(job, p, l). fill job (p @ l)) (zip jobs (zip plain lzo)))))"

definition read_file :: "codecs \<Rightarrow> unode list \<Rightarrow> nat \<Rightarrow> nat \<Rightarrow> string + bytes" where
  "read_file cd nodes ino sz = map_sum id hd (read_all_files cd nodes [(ino, sz)])"

subsection \<open>The rows\<close>

record mrow =
  mr_path :: bytes
  mr_inode :: nat
  mr_type :: string
  mr_mode :: nat
  mr_uid :: nat
  mr_gid :: nat
  mr_size :: nat
  mr_mtime :: nat
  mr_ctime :: nat
  mr_atime :: nat
  mr_sha256 :: "string option"
  mr_target :: "bytes option"
  mr_compression :: "(nat \<times> nat) list"

definition ftype_of :: "inode \<Rightarrow> nat" where
  "ftype_of meta = in_mode meta div 2 ^ 12 mod 16"

definition ftype_name :: "nat \<Rightarrow> string" where
  "ftype_name ft = (if ft = 4 then ''dir'' else if ft = 8 then ''reg'' else if ft = 10 then ''symlink'' else ''UNKNOWN'')"

definition base_row :: "bytes \<Rightarrow> nat \<Rightarrow> inode \<Rightarrow> mrow" where
  "base_row p ino meta =
     \<lparr>mr_path = p, mr_inode = ino, mr_type = ftype_name (ftype_of meta), mr_mode = in_mode meta mod 2 ^ 12,
      mr_uid = in_uid meta, mr_gid = in_gid meta, mr_size = in_size meta, mr_mtime = in_mtime meta,
      mr_ctime = in_ctime meta, mr_atime = in_atime meta, mr_sha256 = None, mr_target = None, mr_compression = []\<rparr>"

text \<open>The block_stats of compression types, as \<open>dict(sorted(hist.items()))\<close>.\<close>

definition block_stats :: "(nat \<times> block) list \<Rightarrow> (nat \<times> nat) list" where
  "block_stats blocks =
     (let cs = map (\<lambda>(k, rec). bl_compression rec) blocks in map (\<lambda>c. (c, count_list cs c)) (sort (remdups cs)))"

text \<open>The link target: the node of greatest sequence number of the inode, its last \<open>dlen\<close> bytes up to a NUL.
  \<open>unpack_from\<close> raises on a node that is too short.\<close>

definition newest_inode_node :: "unode list \<Rightarrow> nat \<Rightarrow> string + unode" where
  "newest_inode_node nodes ino =
     (let cands = filter (\<lambda>r. un_type r = 0) nodes in
      if list_ex (\<lambda>r. length (un_data r) < 28) cands then Inl ''struct.error''
      else case first_max un_sqnum (filter (\<lambda>r. le_at (un_data r) 24 4 = ino) cands) of
             None \<Rightarrow> Inl ''ValueError''
           | Some r \<Rightarrow> Inr r)"

definition link_target :: "unode list \<Rightarrow> nat \<Rightarrow> inode \<Rightarrow> string + bytes" where
  "link_target nodes ino meta =
     (case newest_inode_node nodes ino of
        Inl e \<Rightarrow> Inl e
      | Inr r \<Rightarrow>
          if length (un_data r) < 116 then Inl ''struct.error''
          else let dlen = le_at (un_data r) 112 4 in
            if dlen \<noteq> in_size meta \<or> dlen > 4096 then Inl ''manifest: bad symlink data_len''
            else let raw = hd (split_on 0 (py_slice (un_data r) (int (un_len r) - int dlen) (int (un_len r)))) in
              if utf8_valid raw then Inr raw else Inl ''UnicodeDecodeError'')"

text \<open>A row for a path; \<open>blob\<close> is the dict of the bulk reader, \<open>sha\<close> the hexadecimal SHA-256.\<close>

definition entry_row :: "(bytes \<Rightarrow> string) \<Rightarrow> unode list \<Rightarrow> (nat \<times> inode) list \<Rightarrow> (nat \<times> bytes) list \<Rightarrow> bytes \<times> dent \<Rightarrow> string + mrow" where
  "entry_row sha nodes inodes blobs e =
     (let ino = de_target (snd e) in
      case map_of inodes ino of
        None \<Rightarrow> Inl ''manifest: inode metadata missing''
      | Some meta \<Rightarrow>
          (let row = base_row (fst e) ino meta in
           if mr_type row = ''reg'' then
             (case map_of (rev blobs) ino of
                None \<Rightarrow> Inl ''KeyError''
              | Some b \<Rightarrow> Inr (row\<lparr>mr_sha256 := Some (sha b), mr_compression := block_stats (latest_data_blocks nodes ino)\<rparr>))
           else if mr_type row = ''symlink'' then
             (case link_target nodes ino meta of
                Inl err \<Rightarrow> Inl err
              | Inr t \<Rightarrow> Inr (row\<lparr>mr_target := Some t\<rparr>))
           else if mr_type row = ''dir'' then Inr row
           else Inl ''manifest: unsupported type''))"

definition sorted_index :: "unode list \<Rightarrow> (bytes \<times> dent) list" where
  "sorted_index nodes = sort_key fst (path_index (latest_dentries nodes))"

definition reg_jobs :: "(nat \<times> inode) list \<Rightarrow> (bytes \<times> dent) list \<Rightarrow> (nat \<times> nat) list" where
  "reg_jobs inodes es =
     List.map_filter (\<lambda>e. case map_of inodes (de_target (snd e)) of
        None \<Rightarrow> None
      | Some meta \<Rightarrow> if ftype_of meta = 8 then Some (de_target (snd e), in_size meta) else None) es"

record manifest =
  mf_bytes :: nat
  mf_nodes :: nat
  mf_entries :: "mrow list"

definition build_manifest :: "codecs \<Rightarrow> (bytes \<Rightarrow> string) \<Rightarrow> bytes \<Rightarrow> string + manifest" where
  "build_manifest cd sha img =
     (let nodes = scan_nodes img; es = sorted_index nodes; inodes = latest_inodes nodes in
      case map_of inodes 1 of
        None \<Rightarrow> Inl ''manifest: root inode metadata missing''
      | Some rm \<Rightarrow>
          if ftype_of rm \<noteq> 4 then Inl ''manifest: root inode must be dir''
          else case read_all_files cd nodes (reg_jobs inodes es) of
                 Inl e \<Rightarrow> Inl e
               | Inr blobs \<Rightarrow>
                   (case collect (entry_row sha nodes inodes (zip (map fst (reg_jobs inodes es)) blobs)) es of
                      Inl e \<Rightarrow> Inl e
                    | Inr rows \<Rightarrow> Inr \<lparr>mf_bytes = length img, mf_nodes = length nodes, mf_entries = base_row SLASH 1 rm # rows\<rparr>))"

subsection \<open>The comparison\<close>

datatype field = FNone | FNum nat | FText string | FBytes bytes

definition COMPARE_KEYS :: "string list" where
  "COMPARE_KEYS = [''type'', ''mode'', ''uid'', ''gid'', ''size'', ''sha256'', ''target'', ''mtime'']"

definition field_of :: "mrow \<Rightarrow> string \<Rightarrow> field" where
  "field_of r k =
     (if k = ''type'' then FText (mr_type r)
      else if k = ''mode'' then FNum (mr_mode r)
      else if k = ''uid'' then FNum (mr_uid r)
      else if k = ''gid'' then FNum (mr_gid r)
      else if k = ''size'' then FNum (mr_size r)
      else if k = ''sha256'' then (case mr_sha256 r of None \<Rightarrow> FNone | Some s \<Rightarrow> FText s)
      else if k = ''target'' then (case mr_target r of None \<Rightarrow> FNone | Some b \<Rightarrow> FBytes b)
      else if k = ''mtime'' then FNum (mr_mtime r)
      else FNone)"

datatype diff = Added bytes | Removed bytes | Changed bytes string field field

definition by_path :: "mrow list \<Rightarrow> (bytes \<times> mrow) list" where
  "by_path rows = rev (map (\<lambda>r. (mr_path r, r)) rows)"

definition diffs_at :: "(bytes \<times> mrow) list \<Rightarrow> (bytes \<times> mrow) list \<Rightarrow> bytes \<Rightarrow> diff list" where
  "diffs_at ma mb p =
     (case map_of ma p of
        None \<Rightarrow> [Added p]
      | Some ra \<Rightarrow>
          (case map_of mb p of
             None \<Rightarrow> [Removed p]
           | Some rb \<Rightarrow>
               map (\<lambda>k. Changed p k (field_of ra k) (field_of rb k)) (filter (\<lambda>k. field_of ra k \<noteq> field_of rb k) COMPARE_KEYS)))"

definition compare :: "manifest \<Rightarrow> manifest \<Rightarrow> diff list" where
  "compare a b =
     (let ma = by_path (mf_entries a); mb = by_path (mf_entries b) in
      concat (map (diffs_at ma mb) (sort (remdups (map fst ma @ map fst mb)))))"

definition compare_exit :: "manifest \<Rightarrow> manifest \<Rightarrow> nat" where
  "compare_exit a b = (if compare a b \<noteq> [] then 1 else 0)"

subsection \<open>The bulk reader against the single-file reader\<close>

lemma decode_blocks_append:
  "decode_blocks cd (xs @ ys) = (case decode_blocks cd xs of Inl e \<Rightarrow> Inl e | Inr a \<Rightarrow> map_sum id (\<lambda>b. a @ b) (decode_blocks cd ys))"
proof (induction cd xs rule: decode_blocks.induct)
  case (1 cd)
  then show ?case by (cases "decode_blocks cd ys") simp_all
next
  case (2 cd k rec bs)
  then show ?case by (cases "decode_blocks cd ys") (auto split: sum.split)
qed

lemma put_blocks_cong:
  assumes fits: "list_all (block_fits (length buf)) ds" and dist: "distinct (map fst ds)"
    and fits': "list_all (block_fits (length buf)) es" and dist': "distinct (map fst es)" and same: "set ds = set es"
  shows "put_blocks ds buf = put_blocks es buf"
proof (rule nth_equalityI)
  note d = put_blocks_other [OF fits] and e = put_blocks_other [OF fits']
  show "length (put_blocks ds buf) = length (put_blocks es buf)" using d e by simp
  fix i assume "i < length (put_blocks ds buf)"
  then have i: "i < length buf" using d by simp
  show "put_blocks ds buf ! i = put_blocks es buf ! i"
  proof (cases "list_ex (\<lambda>kd. in_block kd i) ds")
    case True
    then obtain k b where kb: "(k, b) \<in> set ds" "k * 4096 \<le> i" "i - k * 4096 < length b" by (auto simp: list_ex_iff in_block_def)
    then show ?thesis
      using put_blocks_in [OF fits dist kb(1,3)] put_blocks_in [OF fits' dist' kb(1) [unfolded same] kb(3)] by simp
  next
    case False
    then have "\<not> list_ex (\<lambda>kd. in_block kd i) es" using same by (simp add: list_ex_iff)
    then show ?thesis using False d e i by simp
  qed
qed

text \<open>Every block within the size of its file.\<close>

definition fits_in :: "(nat \<times> block) list \<Rightarrow> nat \<Rightarrow> bool" where
  "fits_in blocks sz \<longleftrightarrow> list_all (\<lambda>(k, rec). bl_usize rec \<le> 4096 \<and> k * 4096 + bl_usize rec \<le> sz) blocks"

lemma decoded_fit:
  assumes "decode_blocks cd bs = Inr ds" "fits_in bs sz" "distinct (map fst bs)"
  shows "list_all (block_fits sz) ds"
  using assms
proof (induction cd bs arbitrary: ds rule: decode_blocks.induct)
  case (2 cd k rec bs)
  then obtain d ds' where "decompress_block cd rec = Inr d" "decode_blocks cd bs = Inr ds'" "ds = (k, d) # ds'"
    by (cases "decode_blocks cd bs") (auto split: sum.splits)
  then show ?case using 2 decompressed_length by (auto simp: fits_in_def block_fits_def)
qed simp

lemma fill_is_file:
  assumes "distinct (map fst blocks)" "fits_in blocks sz"
    "decode_blocks cd (filter (\<lambda>b. \<not> is_lzo b) (sorted_blocks blocks)) = Inr p"
    "decode_blocks cd (filter is_lzo (sorted_blocks blocks)) = Inr l"
  shows "file_of_blocks cd blocks sz = Inr (fill (ino, sz) (p @ l))"
proof -
  have dist: "distinct (map fst (filter is_lzo (sorted_blocks blocks) @ filter (\<lambda>b. \<not> is_lzo b) (sorted_blocks blocks)))"
    "distinct (map fst (filter (\<lambda>b. \<not> is_lzo b) (sorted_blocks blocks) @ filter is_lzo (sorted_blocks blocks)))"
    using assms(1) by (auto simp: sorted_blocks_def distinct_map inj_on_def)
  have fit: "fits_in (filter is_lzo (sorted_blocks blocks) @ filter (\<lambda>b. \<not> is_lzo b) (sorted_blocks blocks)) sz"
    "fits_in (filter (\<lambda>b. \<not> is_lzo b) (sorted_blocks blocks) @ filter is_lzo (sorted_blocks blocks)) sz"
    using assms(2) by (auto simp: fits_in_def list_all_iff sorted_blocks_def)
  have dec: "decode_blocks cd (filter is_lzo (sorted_blocks blocks) @ filter (\<lambda>b. \<not> is_lzo b) (sorted_blocks blocks)) = Inr (l @ p)"
    "decode_blocks cd (filter (\<lambda>b. \<not> is_lzo b) (sorted_blocks blocks) @ filter is_lzo (sorted_blocks blocks)) = Inr (p @ l)"
    using assms(3,4) by (simp_all add: decode_blocks_append)
  have f: "list_all (block_fits sz) (l @ p)" "list_all (block_fits sz) (p @ l)"
    using decoded_fit [OF dec(1) fit(1) dist(1)] decoded_fit [OF dec(2) fit(2) dist(2)] .
  have d: "distinct (map fst (l @ p))" "distinct (map fst (p @ l))"
    using decode_blocks_Inr [OF dec(1)] decode_blocks_Inr [OF dec(2)] dist by simp_all
  have "put_blocks (l @ p) (replicate sz 0) = put_blocks (p @ l) (replicate sz 0)"
    by (rule put_blocks_cong) (use f d in auto)
  moreover have "length (put_blocks (p @ l) (replicate sz 0)) = sz" using put_blocks_other [of "replicate sz 0" "p @ l"] f by simp
  ultimately show ?thesis using dec by (simp add: file_of_blocks_def fill_def)
qed

definition file_of_job :: "codecs \<Rightarrow> unode list \<Rightarrow> nat \<times> nat \<Rightarrow> string + bytes" where
  "file_of_job cd nodes job = file_of_blocks cd (latest_data_blocks nodes (fst job)) (snd job)"

lemma file_of_job_split:
  assumes "file_of_job cd nodes job = Inr b"
  shows "\<exists>p l. plain_chunks cd nodes job = Inr p \<and> lzo_chunks cd nodes job = Inr l"
  using assms
  by (cases "lzo_chunks cd nodes job"; cases "plain_chunks cd nodes job")
    (auto simp: file_of_job_def file_of_blocks_def plain_chunks_def lzo_chunks_def decode_blocks_append)

lemma bulk_sound:
  assumes "read_all_files cd nodes jobs = Inr blobs" "list_all (\<lambda>job. fits_in (latest_data_blocks nodes (fst job)) (snd job)) jobs"
  shows "list_all2 (\<lambda>job b. file_of_job cd nodes job = Inr b) jobs blobs"
proof -
  obtain ps ls where c: "collect (plain_chunks cd nodes) jobs = Inr ps" "collect (lzo_chunks cd nodes) jobs = Inr ls"
    "blobs = map (\<lambda>(job, p, l). fill job (p @ l)) (zip jobs (zip ps ls))"
    using assms(1) by (auto simp: read_all_files_def split: sum.splits)
  then have len: "length ps = length jobs" "length ls = length jobs"
    and at: "\<And>i. i < length jobs \<Longrightarrow> plain_chunks cd nodes (jobs ! i) = Inr (ps ! i) \<and> lzo_chunks cd nodes (jobs ! i) = Inr (ls ! i)"
    by (auto simp: collect_Inr list_all2_conv_all_nth)
  have "file_of_job cd nodes (jobs ! i) = Inr (blobs ! i)" if i: "i < length jobs" for i
  proof -
    have "fits_in (latest_data_blocks nodes (fst (jobs ! i))) (snd (jobs ! i))" using assms(2) i by (simp add: list_all_length)
    moreover have "distinct (map fst (latest_data_blocks nodes (fst (jobs ! i))))" by (simp add: latest_data_blocks_def newest_distinct)
    ultimately show ?thesis
      using fill_is_file [where ino = "fst (jobs ! i)"] at [OF i] i len c(3) by (simp add: file_of_job_def plain_chunks_def lzo_chunks_def)
  qed
  then show ?thesis using len c(3) by (simp add: list_all2_conv_all_nth)
qed

lemma bulk_complete:
  assumes "collect (file_of_job cd nodes) jobs = Inr blobs" shows "\<exists>blobs'. read_all_files cd nodes jobs = Inr blobs'"
proof -
  have ok: "\<exists>p l. plain_chunks cd nodes job = Inr p \<and> lzo_chunks cd nodes job = Inr l" if job: "job \<in> set jobs" for job
  proof -
    obtain i where "i < length jobs" "job = jobs ! i" using job by (auto simp: in_set_conv_nth)
    then have "file_of_job cd nodes job = Inr (blobs ! i)" using assms by (simp add: collect_Inr list_all2_conv_all_nth)
    then show ?thesis by (rule file_of_job_split)
  qed
  have "\<exists>ps. collect (plain_chunks cd nodes) jobs = Inr ps"
    using ok collect_Inl [of "plain_chunks cd nodes" jobs] by (cases "collect (plain_chunks cd nodes) jobs") fastforce+
  moreover have "\<exists>ls. collect (lzo_chunks cd nodes) jobs = Inr ls"
    using ok collect_Inl [of "lzo_chunks cd nodes" jobs] by (cases "collect (lzo_chunks cd nodes) jobs") fastforce+
  ultimately show ?thesis by (auto simp: read_all_files_def)
qed

text \<open>The fast path reads the same bytes: on jobs whose blocks fit their files, the bulk reader succeeds exactly when the single-file
  reader succeeds on every job, and then returns the same files.\<close>

theorem bulk_reader_equals_single:
  assumes "list_all (\<lambda>job. fits_in (latest_data_blocks nodes (fst job)) (snd job)) jobs"
  shows "read_all_files cd nodes jobs = Inr blobs \<longleftrightarrow> collect (file_of_job cd nodes) jobs = Inr blobs"
proof
  assume "read_all_files cd nodes jobs = Inr blobs"
  then show "collect (file_of_job cd nodes) jobs = Inr blobs" using bulk_sound assms by (simp add: collect_Inr)
next
  assume c: "collect (file_of_job cd nodes) jobs = Inr blobs"
  then obtain blobs' where b: "read_all_files cd nodes jobs = Inr blobs'" using bulk_complete by blast
  then have "collect (file_of_job cd nodes) jobs = Inr blobs'" using bulk_sound assms by (simp add: collect_Inr)
  then show "read_all_files cd nodes jobs = Inr blobs" using b c by simp
qed

theorem bulk_reader_equals_single_witness:
  "read_all_files demo_codecs demo_nodes [(5, 3)] = Inr [[7, 8, 0]]"
proof -
  have fit: "list_all (\<lambda>job. fits_in (latest_data_blocks demo_nodes (fst job)) (snd job)) [(5, 3)]"
    by (simp add: demo_blocks fits_in_def demo_rec_def)
  have "collect (file_of_job demo_codecs demo_nodes) [(5, 3)] = Inr [[7, 8, 0]]"
    by (simp add: file_of_job_def demo_blocks demo_file)
  then show ?thesis using bulk_reader_equals_single [OF fit] by blast
qed

subsection \<open>The comparison\<close>

text \<open>Two rows that mean the same: everything the comparison is to look at.\<close>

definition same_row :: "mrow \<Rightarrow> mrow \<Rightarrow> bool" where
  "same_row a b \<longleftrightarrow> mr_type a = mr_type b \<and> mr_mode a = mr_mode b \<and> mr_uid a = mr_uid b \<and> mr_gid a = mr_gid b
     \<and> mr_size a = mr_size b \<and> mr_mtime a = mr_mtime b \<and> mr_sha256 a = mr_sha256 b \<and> mr_target a = mr_target b"

lemma optional_field_eq:
  "(case x of None \<Rightarrow> FNone | Some s \<Rightarrow> FText s) = (case y of None \<Rightarrow> FNone | Some s \<Rightarrow> FText s) \<longleftrightarrow> x = y"
  "(case u of None \<Rightarrow> FNone | Some s \<Rightarrow> FBytes s) = (case v of None \<Rightarrow> FNone | Some s \<Rightarrow> FBytes s) \<longleftrightarrow> u = v"
  by (simp_all split: option.split)

lemma same_row_keys: "list_all (\<lambda>k. field_of a k = field_of b k) COMPARE_KEYS \<longleftrightarrow> same_row a b"
proof -
  have "list_all (\<lambda>k. field_of a k = field_of b k) COMPARE_KEYS \<longleftrightarrow>
      mr_type a = mr_type b \<and> mr_mode a = mr_mode b \<and> mr_uid a = mr_uid b \<and> mr_gid a = mr_gid b \<and> mr_size a = mr_size b
      \<and> mr_sha256 a = mr_sha256 b \<and> mr_target a = mr_target b \<and> mr_mtime a = mr_mtime b"
    by (simp add: COMPARE_KEYS_def field_of_def optional_field_eq)
  then show ?thesis unfolding same_row_def by blast
qed

lemma diffs_at_Nil:
  "diffs_at ma mb p = [] \<longleftrightarrow> (\<exists>ra rb. map_of ma p = Some ra \<and> map_of mb p = Some rb \<and> same_row ra rb)"
  unfolding same_row_keys [symmetric] by (auto simp: diffs_at_def filter_empty_conv list_all_iff split: option.split)

text \<open>Two manifests compare without difference exactly when they have the same paths and at each path the same type, mode, owner, size,
  modification time, content hash and link target; the volatile fields play no part.\<close>

theorem compare_empty_iff:
  "compare a b = [] \<longleftrightarrow> (\<forall>p. rel_option same_row (map_of (by_path (mf_entries a)) p) (map_of (by_path (mf_entries b)) p))"
proof -
  let ?ma = "by_path (mf_entries a)" and ?mb = "by_path (mf_entries b)"
  have "compare a b = [] \<longleftrightarrow> (\<forall>p \<in> set (map fst ?ma @ map fst ?mb). diffs_at ?ma ?mb p = [])" by (simp add: compare_def Let_def)
  also have "\<dots> \<longleftrightarrow> (\<forall>p. map_of ?ma p = None \<and> map_of ?mb p = None \<or> diffs_at ?ma ?mb p = [])"
    by (simp add: map_of_eq_None_iff) blast
  also have "\<dots> \<longleftrightarrow> (\<forall>p. rel_option same_row (map_of ?ma p) (map_of ?mb p))"
    by (rule all_cong1) (auto simp: diffs_at_Nil rel_option_iff split: option.split)
  finally show ?thesis .
qed

subsection \<open>The manifest\<close>

lemma visit_distinct: "distinct (map fst (wk_result w)) \<Longrightarrow> distinct (map fst (wk_result (visit base row w)))"
  by (simp add: visit_def Let_def AList.distinct_update)

lemma visits_distinct: "distinct (map fst (wk_result w)) \<Longrightarrow> distinct (map fst (wk_result (fold (visit base) rows w)))"
  by (induction rows arbitrary: w) (simp_all add: visit_distinct)

lemma walk_distinct: "distinct (map fst (wk_result w)) \<Longrightarrow> distinct (map fst (wk_result (walk_all dents w)))"
proof (induction dents w rule: walk_all.induct)
  case (1 dents w)
  then show ?case by (subst walk_all.simps) (simp add: visit_parent_def visits_distinct split: list.split)
qed

lemma index_distinct: "distinct (map fst (path_index dents))"
  by (simp add: path_index_def walk_distinct start_walk_def)

lemma entry_row_keeps: "entry_row sha nodes inodes blobs e = Inr r \<Longrightarrow> mr_path r = fst e \<and> mr_inode r = de_target (snd e)
   \<and> (\<exists>meta. map_of inodes (de_target (snd e)) = Some meta \<and> mr_type r = ftype_name (ftype_of meta) \<and> mr_size r = in_size meta)"
  by (auto simp: entry_row_def Let_def base_row_def split: option.splits sum.splits if_splits)

lemma entry_row_reg:
  "entry_row sha nodes inodes blobs e = Inr r \<Longrightarrow> mr_type r = ''reg'' \<Longrightarrow>
   \<exists>meta b. map_of inodes (de_target (snd e)) = Some meta \<and> ftype_of meta = 8 \<and> map_of (rev blobs) (de_target (snd e)) = Some b
     \<and> mr_sha256 r = Some (sha b) \<and> mr_size r = in_size meta"
  by (auto simp: entry_row_def Let_def base_row_def ftype_name_def split: option.splits sum.splits if_splits)

lemma collected_paths:
  "list_all2 (\<lambda>e r. entry_row sha nodes inodes blobs e = Inr r) es rows \<Longrightarrow> map mr_path rows = map fst es"
  by (induction rule: list_all2_induct) (auto dest: entry_row_keeps)

text \<open>The file a path names has blocks, or is empty: extraction refuses a file with a size but no block at all.\<close>

definition has_blocks :: "unode list \<Rightarrow> mrow \<Rightarrow> bool" where
  "has_blocks nodes r \<longleftrightarrow> latest_data_blocks nodes (mr_inode r) \<noteq> [] \<or> mr_size r = 0"

definition all_fit :: "unode list \<Rightarrow> bool" where
  "all_fit nodes \<longleftrightarrow> list_all (\<lambda>job. fits_in (latest_data_blocks nodes (fst job)) (snd job)) (reg_jobs (latest_inodes nodes) (sorted_index nodes))"

lemma job_size: "job \<in> set (reg_jobs inodes es) \<Longrightarrow> map_of inodes (fst job) = Some meta \<Longrightarrow> snd job = in_size meta"
  by (auto simp: reg_jobs_def map_filter_def split: option.splits if_splits)

lemma job_blob:
  assumes "read_all_files cd nodes (reg_jobs inodes es) = Inr blobs"
    "list_all (\<lambda>job. fits_in (latest_data_blocks nodes (fst job)) (snd job)) (reg_jobs inodes es)"
    "map_of (rev (zip (map fst (reg_jobs inodes es)) blobs)) ino = Some b" "map_of inodes ino = Some meta"
  shows "file_of_blocks cd (latest_data_blocks nodes ino) (in_size meta) = Inr b"
proof -
  note all2 = bulk_sound [OF assms(1,2)]
  have "(ino, b) \<in> set (zip (map fst (reg_jobs inodes es)) blobs)" using map_of_SomeD [OF assms(3)] by simp
  then obtain i where i: "i < length (reg_jobs inodes es)" "ino = fst (reg_jobs inodes es ! i)" "b = blobs ! i"
    using list_all2_lengthD [OF all2] by (auto simp: in_set_conv_nth)
  have "file_of_job cd nodes (reg_jobs inodes es ! i) = Inr b" using all2 i by (simp add: list_all2_conv_all_nth)
  moreover have "snd (reg_jobs inodes es ! i) = in_size meta"
    using job_size [OF nth_mem [OF i(1)]] assms(4) i(2) by simp
  ultimately show ?thesis using i(2) by (simp add: file_of_job_def)
qed


lemma demo_sorted: "sorted_index demo_nodes = [([47, 97], demo_entry)]"
  by (simp add: sorted_index_def demo_index)

lemma demo_jobs: "reg_jobs (latest_inodes demo_nodes) (sorted_index demo_nodes) = [(5, 3)]"
  by (simp add: reg_jobs_def demo_sorted demo_inodes demo_entry_def demo_meta_def ftype_of_def map_filter_simps del: One_nat_def)

lemma demo_bulk: "read_all_files demo_codecs demo_nodes [(5, 3)] = Inr [[7, 8, 0]]"
proof -
  have fit: "list_all (\<lambda>job. fits_in (latest_data_blocks demo_nodes (fst job)) (snd job)) [(5, 3)]"
    by (simp add: demo_blocks fits_in_def demo_rec_def)
  have c: "collect (file_of_job demo_codecs demo_nodes) [(5, 3)] = Inr [[7, 8, 0]]"
    by (simp add: file_of_job_def demo_blocks demo_file)
  obtain blobs where b: "read_all_files demo_codecs demo_nodes [(5, 3)] = Inr blobs" using bulk_complete [OF c] by blast
  from bulk_sound [OF b fit] c have "blobs = [[7, 8, 0]]" by (auto simp: list_all2_Cons1 split: sum.splits)
  then show ?thesis using b by simp
qed

definition demo_doc :: manifest where
  "demo_doc = \<lparr>mf_bytes = 427, mf_nodes = 4, mf_entries = [base_row SLASH 1 (demo_meta 0 0x41ED 57),
     (base_row [47, 97] 5 (demo_meta 3 0x81A4 217))\<lparr>mr_sha256 := Some ''00'', mr_compression := [(0, 1)]\<rparr>]\<rparr>"

lemma demo_build: "build_manifest demo_codecs (\<lambda>_. ''00'') demo_img = Inr demo_doc"
proof -
  have n: "length demo_nodes = 4" by (simp add: demo_nodes_def)
  have root: "map_of (latest_inodes demo_nodes) 1 = Some (demo_meta 0 0x41ED 57)" "ftype_of (demo_meta 0 0x41ED 57) = 4"
    by (simp_all add: demo_inodes ftype_of_def demo_meta_def)
  have rows: "collect (entry_row (\<lambda>_. ''00'') demo_nodes (latest_inodes demo_nodes) [(5, [7, 8, 0])]) (sorted_index demo_nodes)
      = Inr [(base_row [47, 97] 5 (demo_meta 3 0x81A4 217))\<lparr>mr_sha256 := Some ''00'', mr_compression := [(0, 1)]\<rparr>]"
    by (simp add: demo_sorted demo_inodes demo_entry_def entry_row_def base_row_def demo_meta_def ftype_of_def ftype_name_def demo_blocks
        block_stats_def demo_rec_def)
  show ?thesis using rows
    by (simp add: build_manifest_def demo_scan root demo_jobs demo_bulk img_length n demo_doc_def del: One_nat_def)
qed


end
