(* ===== verification/Floats.thy ===== *)
theory Floats
  imports Prelude
begin

text \<open>
  IEEE 754 numbers by their bits, as \<open>struct\<close> reads and writes them: binary64 (a Python \<open>float\<close>) and binary32 (format
  \<open>f\<close>). Comparison of two numbers that are not NaN is the order of \<open>fkey\<close>, which is shown to be the order of the values.
  \<open>narrow\<close> rounds a finite binary64 to the nearest binary32 (ties to even), \<open>None\<close> being the \<open>OverflowError\<close>
  of \<open>struct.pack\<close>; \<open>widen\<close> is exact.
\<close>

type_synonym f64 = "64 word"
type_synonym f32 = "32 word"

subsection \<open>Comparison\<close>

definition fkey :: "'a::len word \<Rightarrow> int" where
  "fkey w = (if 2 ^ (LENGTH('a) - 1) \<le> unat w then - int (unat w - 2 ^ (LENGTH('a) - 1)) else int (unat w))"

text \<open>The magnitude of a number in units of the smallest one, for \<open>p\<close> bits of fraction.\<close>

definition mag :: "nat \<Rightarrow> nat \<Rightarrow> nat" where
  "mag p n = (let e = n div 2 ^ p; m = n mod 2 ^ p in if e = 0 then m else (2 ^ p + m) * 2 ^ (e - 1))"

definition fval :: "f64 \<Rightarrow> int" where
  "fval w = (if 2 ^ 63 \<le> unat w then - int (mag 52 (unat w - 2 ^ 63)) else int (mag 52 (unat w)))"

lemma mag_mono:
  assumes "a < b" shows "mag p a < mag p b"
proof -
  let ?e = "\<lambda>n. n div 2 ^ p" and ?m = "\<lambda>n. n mod (2 ^ p :: nat)"
  have m: "?m n < 2 ^ p" for n by simp
  show ?thesis
  proof (cases "?e a = ?e b")
    case True
    have "a = ?e a * 2 ^ p + ?m a" "b = ?e b * 2 ^ p + ?m b" by (rule div_mult_mod_eq [symmetric])+
    then have "?m a < ?m b" using assms True by (metis add_less_cancel_left)
    then show ?thesis using True by (simp add: mag_def Let_def)
  next
    case False
    then have lt: "?e a < ?e b" using assms div_le_mono [of a b "2 ^ p"] by linarith
    have up: "mag p a < 2 ^ p * 2 ^ ?e a"
    proof (cases "?e a = 0")
      case True
      then show ?thesis using m [of a] by (simp add: mag_def Let_def)
    next
      case False
      then have "(2 ^ p :: nat) * 2 ^ ?e a = (2 ^ p + 2 ^ p) * 2 ^ (?e a - 1)" by (cases "?e a") (simp_all add: algebra_simps)
      moreover have "(2 ^ p + ?m a) * 2 ^ (?e a - 1) < (2 ^ p + 2 ^ p) * 2 ^ (?e a - 1)" using m [of a] by (intro mult_strict_right_mono) simp_all
      ultimately show ?thesis using False by (simp add: mag_def Let_def)
    qed
    have "(2 ^ p :: nat) * 2 ^ ?e a \<le> 2 ^ p * 2 ^ (?e b - 1)" using lt by (intro mult_le_mono2 power_increasing) simp_all
    also have "\<dots> \<le> mag p b" using lt by (simp add: mag_def Let_def)
    finally show ?thesis using up by simp
  qed
qed

lemma mag_less: "mag p a < mag p b \<longleftrightarrow> a < b"
  using mag_mono [of a b p] mag_mono [of b a p] by (cases a b rule: linorder_cases) auto

lemma mag_zero: "mag p 0 = 0"
  by (simp add: mag_def)

lemma signed_order:
  fixes f :: "nat \<Rightarrow> nat"
  assumes le: "\<And>x y. f x \<le> f y \<longleftrightarrow> x \<le> y" and zero: "\<And>x. f x = 0 \<longleftrightarrow> x = 0"
  shows "(if K \<le> x then - int (x - K) else int x) \<le> (if K \<le> y then - int (y - K) else int y)
    \<longleftrightarrow> (if K \<le> x then - int (f (x - K)) else int (f x)) \<le> (if K \<le> y then - int (f (y - K)) else int (f y))"
proof -
  have mixed: "int u \<le> - int v \<longleftrightarrow> u = 0 \<and> v = 0" "- int u \<le> int v" for u v by linarith+
  have same: "- int u \<le> - int v \<longleftrightarrow> v \<le> u" for u v by linarith
  show ?thesis by (cases "K \<le> x"; cases "K \<le> y") (simp_all add: mixed same le zero del: of_nat_diff)
qed

lemma fkey64: "fkey (w :: f64) = (if 2 ^ 63 \<le> unat w then - int (unat w - 2 ^ 63) else int (unat w))"
  unfolding fkey_def by (simp only: len_bit0 len_num1) simp

text \<open>The order of the keys is the order of the values.\<close>

lemma fkey_le: "fkey a \<le> fkey b \<longleftrightarrow> fval a \<le> fval (b :: f64)"
proof -
  have le: "mag 52 x \<le> mag 52 y \<longleftrightarrow> x \<le> y" for x y using mag_less [of 52 y x] by (simp add: not_less [symmetric])
  have "mag 52 x = 0 \<longleftrightarrow> x = 0" for x using le [of x 0] by (simp add: mag_zero)
  from signed_order [of "mag 52", OF le this, of "2 ^ 63" "unat a" "unat b"]
  show ?thesis unfolding fkey64 fval_def .
qed

subsection \<open>Finite numbers\<close>

definition f64_finite :: "f64 \<Rightarrow> bool" where
  "f64_finite w \<longleftrightarrow> unat w div 2 ^ 52 mod 2 ^ 11 \<noteq> 2047"

definition F64_90 :: f64 where "F64_90 = 0x4056800000000000"
definition F64_M90 :: f64 where "F64_M90 = 0xC056800000000000"
definition F64_180 :: f64 where "F64_180 = 0x4066800000000000"
definition F64_M180 :: f64 where "F64_M180 = 0xC066800000000000"
definition F64_360 :: f64 where "F64_360 = 0x4076800000000000"
definition F64_M999 :: f64 where "F64_M999 = 0xC08F380000000000"

lemma constants:
  "fval F64_90 = 90 * 2 ^ 1074" "fval F64_M90 = - 90 * 2 ^ 1074" "fval F64_180 = 180 * 2 ^ 1074" "fval F64_M180 = - 180 * 2 ^ 1074"
  "fval F64_360 = 360 * 2 ^ 1074" "fval F64_M999 = - 999 * 2 ^ 1074"
  by (simp_all add: fval_def mag_def Let_def F64_90_def F64_M90_def F64_180_def F64_M180_def F64_360_def F64_M999_def)

subsection \<open>Conversion\<close>

definition round_bits :: "nat \<Rightarrow> nat \<Rightarrow> nat" where
  "round_bits M sh =
     (let q = M div 2 ^ sh; r = M mod 2 ^ sh; half = 2 ^ (sh - 1) in
      if half < r \<or> r = half \<and> odd q then q + 1 else q)"

definition narrow :: "f64 \<Rightarrow> f32 option" where
  "narrow w =
     (let s = unat w div 2 ^ 63; e = unat w div 2 ^ 52 mod 2 ^ 11; m = unat w mod 2 ^ 52;
          M = (if e = 0 then m else 2 ^ 52 + m); E = max e 1;
          bits = (if 897 \<le> E then (E - 897) * 2 ^ 23 + round_bits M 29 else round_bits M (29 + (897 - E)))
      in if 255 * 2 ^ 23 \<le> bits then None else Some (of_nat (s * 2 ^ 31 + bits)))"

text \<open>The position of the highest bit.\<close>

fun ilog :: "nat \<Rightarrow> nat" where
  "ilog n = (if n < 2 then 0 else Suc (ilog (n div 2)))"

declare ilog.simps [simp del]

definition widen_bits :: "nat \<Rightarrow> nat" where
  "widen_bits n =
     (let e = n div 2 ^ 23; m = n mod 2 ^ 23 in
      if e = 255 then 2047 * 2 ^ 52 + m * 2 ^ 29
      else if e = 0 then
        (if m = 0 then 0 else (ilog m + 874) * 2 ^ 52 + (m * 2 ^ (52 - ilog m) - 2 ^ 52))
      else (e + 896) * 2 ^ 52 + m * 2 ^ 29)"

definition widen :: "f32 \<Rightarrow> f64" where
  "widen w = of_nat (unat w div 2 ^ 31 * 2 ^ 63 + widen_bits (unat w mod 2 ^ 31))"

lemma ilog_bounds: "0 < n \<Longrightarrow> 2 ^ ilog n \<le> n \<and> n < 2 ^ Suc (ilog n)"
proof (induction n rule: ilog.induct)
  case (1 n)
  show ?case
  proof (cases "n < 2")
    case False
    then have "2 ^ ilog (n div 2) \<le> n div 2 \<and> n div 2 < 2 ^ Suc (ilog (n div 2))" using 1 by simp
    then show ?thesis using False by (subst (1 2) ilog.simps) auto
  qed (use 1 in \<open>simp add: ilog.simps\<close>)
qed

lemma round_exact: "0 < sh \<Longrightarrow> round_bits (q * 2 ^ sh) sh = q"
  by (simp add: round_bits_def Let_def)

text \<open>Widening is exact: narrowing a widened finite number gives it back.\<close>

lemma widen_bits_less: "n < 255 * 2 ^ 23 \<Longrightarrow> widen_bits n < 2 ^ 63"
proof -
  assume n: "n < 255 * 2 ^ 23"
  define e where "e = n div 2 ^ 23"
  define m where "m = n mod (2 ^ 23 :: nat)"
  have e: "e < 255" using n by (simp add: e_def less_mult_imp_div_less)
  have m: "m < 2 ^ 23" by (simp add: m_def)
  have w: "widen_bits n = (if e = 255 then 2047 * 2 ^ 52 + m * 2 ^ 29 else if e = 0 then
      (if m = 0 then 0 else (ilog m + 874) * 2 ^ 52 + (m * 2 ^ (52 - ilog m) - 2 ^ 52)) else (e + 896) * 2 ^ 52 + m * 2 ^ 29)"
    unfolding e_def m_def widen_bits_def Let_def ..
  show ?thesis
  proof (cases "e = 0 \<and> m \<noteq> 0")
    case True
    then have k: "2 ^ ilog m \<le> m" "m < 2 ^ Suc (ilog m)" using ilog_bounds [of m] by auto
    have l: "ilog m < 23" using k(1) m by (metis le_less_trans nat_power_less_imp_less zero_less_numeral)
    have "m * 2 ^ (52 - ilog m) < 2 ^ Suc (ilog m) * 2 ^ (52 - ilog m)" using k(2) by simp
    also have "\<dots> = 2 ^ 53" using l by (simp flip: power_add)
    finally have "(ilog m + 874) * 2 ^ 52 + (m * 2 ^ (52 - ilog m) - 2 ^ 52) \<le> 896 * 2 ^ 52 + 2 ^ 53"
      using l by (intro add_mono mult_le_mono1) linarith+
    also have "\<dots> < 2 ^ 63" by simp
    finally show ?thesis using True w by simp
  next
    case False
    have "widen_bits n \<le> (e + 896) * 2 ^ 52 + m * 2 ^ 29" using False e w by auto
    also have "\<dots> \<le> 1150 * 2 ^ 52 + 2 ^ 23 * 2 ^ 29" using e m by (intro add_mono mult_le_mono1) linarith+
    also have "\<dots> < 2 ^ 63" by simp
    finally show ?thesis .
  qed
qed

lemma round_zero: "round_bits 0 sh = 0"
  by (simp add: round_bits_def)

lemma unat_of_nat_f64: "x < 2 ^ 64 \<Longrightarrow> unat (of_nat x :: f64) = x"
  by (simp add: unat_of_nat)

lemma mul_add_parts: "b < (k :: nat) \<Longrightarrow> (a * k + b) div k = a \<and> (a * k + b) mod k = b"
  by simp

lemma narrow_bits:
  assumes "n < 255 * 2 ^ 23" "W = widen_bits n" "e = W div 2 ^ 52" "m = W mod 2 ^ 52"
  shows "(if 897 \<le> max e 1 then (max e 1 - 897) * 2 ^ 23 + round_bits (if e = 0 then m else 2 ^ 52 + m) 29
     else round_bits (if e = 0 then m else 2 ^ 52 + m) (29 + (897 - max e 1))) = n"
proof -
  define x where "x = n div 2 ^ 23"
  define y where "y = n mod (2 ^ 23 :: nat)"
  have x: "x < 255" using assms(1) by (simp add: x_def less_mult_imp_div_less)
  have y: "y < 2 ^ 23" by (simp add: y_def)
  have n: "n = x * 2 ^ 23 + y" unfolding x_def y_def by (rule div_mult_mod_eq [symmetric])
  have w: "W = (if x = 255 then 2047 * 2 ^ 52 + y * 2 ^ 29 else if x = 0 then
      (if y = 0 then 0 else (ilog y + 874) * 2 ^ 52 + (y * 2 ^ (52 - ilog y) - 2 ^ 52)) else (x + 896) * 2 ^ 52 + y * 2 ^ 29)"
    unfolding assms(2) x_def y_def widen_bits_def Let_def ..
  consider (zero) "x = 0" "y = 0" | (sub) "x = 0" "y \<noteq> 0" | (norm) "x \<noteq> 0" by blast
  then show ?thesis
  proof cases
    case zero
    then have "W = 0" "n = 0" using w n by (simp_all only: if_True if_False refl) simp_all
    then have "e = 0" "m = 0" "n = 0" using assms(3,4) by simp_all
    then show ?thesis by (simp add: round_zero)
  next
    case sub
    then have k: "2 ^ ilog y \<le> y" "y < 2 ^ Suc (ilog y)" using ilog_bounds [of y] by auto
    have l: "ilog y < 23" using k(1) y by (metis le_less_trans nat_power_less_imp_less zero_less_numeral)
    have p: "(2 :: nat) ^ ilog y * 2 ^ (52 - ilog y) = 2 ^ 52" using l by (simp flip: power_add)
    have lo: "2 ^ 52 \<le> y * 2 ^ (52 - ilog y)" using mult_le_mono1 [OF k(1), of "2 ^ (52 - ilog y)"] p by simp
    have "y * 2 ^ (52 - ilog y) < 2 ^ Suc (ilog y) * 2 ^ (52 - ilog y)" using k(2) by simp
    also have "\<dots> = 2 * 2 ^ 52" unfolding power_Suc mult.assoc p ..
    finally have hi: "y * 2 ^ (52 - ilog y) < 2 * 2 ^ 52" .
    have "y * 2 ^ (52 - ilog y) - 2 ^ 52 < 2 ^ 52" using hi lo by linarith
    from mul_add_parts [OF this, of "ilog y + 874"] have em: "e = ilog y + 874" "m = y * 2 ^ (52 - ilog y) - 2 ^ 52"
      using w sub unfolding assms(3,4) by simp_all
    have "2 ^ 52 + m = y * 2 ^ (52 - ilog y)" using em(2) lo by linarith
    moreover have "29 + (897 - max e 1) = 52 - ilog y" using em(1) l by simp
    ultimately show ?thesis using em(1) l n sub round_exact [of "52 - ilog y" y] by simp
  next
    case norm
    have "y * 2 ^ 29 < 2 ^ 52" using y by simp
    from mul_add_parts [OF this, of "x + 896"] have em: "e = x + 896" "m = y * 2 ^ 29"
      using w norm x unfolding assms(3,4) by simp_all
    have "2 ^ 52 + m = (2 ^ 23 + y) * 2 ^ 29" using em(2) by simp
    moreover have "(x - 1) * 2 ^ 23 + (2 ^ 23 + y) = n" using n norm by (cases x) simp_all
    ultimately show ?thesis using em(1) norm round_exact [of 29 "2 ^ 23 + y"] by simp
  qed
qed

definition f32_finite :: "f32 \<Rightarrow> bool" where
  "f32_finite w \<longleftrightarrow> unat w mod 2 ^ 31 < 255 * 2 ^ 23"

lemma narrow_widen: "f32_finite w \<Longrightarrow> narrow (widen w) = Some w"
proof -
  assume fin: "f32_finite w"
  define s where "s = unat w div 2 ^ 31"
  define n where "n = unat w mod (2 ^ 31 :: nat)"
  define W where "W = widen_bits n"
  have n: "n < 255 * 2 ^ 23" using fin by (simp add: f32_finite_def n_def)
  have w: "unat w = s * 2 ^ 31 + n" unfolding s_def n_def by (rule div_mult_mod_eq [symmetric])
  have "unat w < 2 ^ 32" using unsigned_less [of w] by simp
  then have s: "s < 2" unfolding s_def by (simp add: less_mult_imp_div_less)
  have W: "W < 2 ^ 63" unfolding W_def using n by (rule widen_bits_less)
  have "s * 2 ^ 63 + W < 2 ^ 64" using s W by (cases "s = 0") simp_all
  then have u: "unat (widen w) = s * 2 ^ 63 + W" unfolding widen_def s_def n_def W_def by (rule unat_of_nat_f64)
  have parts: "(s * 2 ^ 63 + W) div 2 ^ 63 = s" using W by simp
  have "s * 2 ^ 63 + W = s * 2 ^ 11 * 2 ^ 52 + W" by simp
  then have "(s * 2 ^ 63 + W) div 2 ^ 52 = s * 2 ^ 11 + W div 2 ^ 52" "(s * 2 ^ 63 + W) mod 2 ^ 52 = W mod 2 ^ 52"
    by (metis div_mult_self3 power_not_zero zero_neq_numeral add.commute, metis mod_mult_self3)
  moreover have "W div 2 ^ 52 < 2 ^ 11" using W by (simp add: less_mult_imp_div_less)
  ultimately have em: "(s * 2 ^ 63 + W) div 2 ^ 52 mod 2 ^ 11 = W div 2 ^ 52" "(s * 2 ^ 63 + W) mod 2 ^ 52 = W mod 2 ^ 52" by simp_all
  have "of_nat (s * 2 ^ 31 + n) = w" unfolding w [symmetric] by simp
  then show ?thesis using narrow_bits [OF n W_def refl refl] n
    unfolding narrow_def Let_def u parts em by (simp only: not_le [symmetric]) simp
qed

end
