(* ===== verification/SignDb.thy ===== *)
theory SignDb
  imports Floats "HOL-Library.Product_Lexorder" "HOL-Library.List_Lexorder"
begin

text \<open>
  The sign database \<open>C2MSDB01\<close>: the writer \<open>fw/warner/tools/build_signs_bin.py\<close> (\<open>enc\<close>, \<open>write_signs\<close>), the validator
  \<open>fw/warner/tools/inspect_signs_bin.py\<close> (\<open>string\<close>, \<open>inspect\<close>) and the deployment filter \<open>fw/d4/prepare_database.py\<close>
  (\<open>text_field\<close>, \<open>prepare\<close>). Texts are their UTF-8 bytes (valid UTF-8: \<open>str\<close> values without lone surrogates), numbers are
  the bits of binary64; SHA-256 (hexadecimal) is a parameter. Every rejection is a \<open>ValueError\<close>,
  \<open>UnicodeError\<close> or \<open>struct.error\<close>, which both \<open>main\<close> functions report the same way.

  Shown: what the writer writes the validator reads back, sorted; the deployed file holds exactly the
  directional R.420 and R.421 records of the source in their order, each unchanged but for heading 360, which
  becomes 0; preparing the deployed file again changes nothing.
\<close>

subsection \<open>Records\<close>

definition DB_MAGIC :: bytes where "DB_MAGIC = bytes_of ''C2MSDB01''"
definition MAX_RECORDS_DB :: nat where "MAX_RECORDS_DB = 40000"

record sign_rec =
  sr_lat :: f64
  sr_lon :: f64
  sr_heading :: f32
  sr_type :: bytes
  sr_label :: bytes

definition unpack_rec :: "bytes \<Rightarrow> sign_rec" where
  "unpack_rec raw =
     \<lparr>sr_lat = of_nat (le_nat (slice raw 0 8)), sr_lon = of_nat (le_nat (slice raw 8 16)),
      sr_heading = of_nat (le_nat (slice raw 16 20)), sr_type = slice raw 20 36, sr_label = slice raw 36 100\<rparr>"

definition pack_rec :: "sign_rec \<Rightarrow> bytes" where
  "pack_rec r = le_bytes 8 (unat (sr_lat r)) @ le_bytes 8 (unat (sr_lon r)) @ le_bytes 4 (unat (sr_heading r)) @ sr_type r @ sr_label r"

definition fle :: "f64 \<Rightarrow> f64 \<Rightarrow> bool" where "fle a b \<longleftrightarrow> fkey a \<le> fkey b"
definition feq :: "f64 \<Rightarrow> f64 \<Rightarrow> bool" where "feq a b \<longleftrightarrow> fkey a = fkey b"

definition control :: "byte \<Rightarrow> bool" where
  "control b \<longleftrightarrow> b < 32 \<or> b = 127"

text \<open>The checks on position and heading that the three programs share.\<close>

definition position_error :: "f64 \<Rightarrow> f64 \<Rightarrow> string option" where
  "position_error lat lon =
     (if \<not> (fle F64_M90 lat \<and> fle lat F64_90) \<or> \<not> (fle F64_M180 lon \<and> fle lon F64_180) then Some ''coordinates outside range'' else None)"

definition heading_error :: "f64 \<Rightarrow> string option" where
  "heading_error h =
     (if \<not> feq h F64_M999 \<and> \<not> (fle 0 h \<and> fle h F64_360) then Some ''invalid heading'' else None)"

definition number_error :: "f64 \<Rightarrow> f64 \<Rightarrow> f64 \<Rightarrow> string option" where
  "number_error lat lon h =
     (if \<not> (f64_finite lat \<and> f64_finite lon \<and> f64_finite h) then Some ''nonfinite number''
      else case position_error lat lon of Some e \<Rightarrow> Some e | None \<Rightarrow> heading_error h)"

definition zero_360 :: "f64 \<Rightarrow> f64" where
  "zero_360 h = (if feq h F64_360 then 0 else h)"

subsection \<open>The writer\<close>

text \<open>\<open>decode("utf-8", "ignore")\<close> of a cut text drops the incomplete character at its end.\<close>

function utf8_trim :: "bytes \<Rightarrow> bytes" where
  "utf8_trim bs = (if utf8_valid bs then bs else utf8_trim (butlast bs))"
  by pat_completeness auto
termination
proof (relation "measure length")
  fix bs :: bytes
  assume "\<not> utf8_valid bs"
  then have "bs \<noteq> []" by auto
  then show "(butlast bs, bs) \<in> measure length" by simp
qed simp

declare utf8_trim.simps [simp del]

definition enc :: "bytes \<Rightarrow> nat \<Rightarrow> string + bytes" where
  "enc s n =
     (if list_ex control s then Inl ''invalid database string''
      else (let b = utf8_trim (take (n - 1) s) in Inr (b @ replicate (n - length b) 0)))"

type_synonym sign_row = "f64 \<times> f64 \<times> f64 \<times> bytes \<times> bytes"

definition checked_row :: "sign_row \<Rightarrow> string + sign_row" where
  "checked_row row =
     (case row of (lat, lon, h, typ, label) \<Rightarrow>
        (case number_error lat lon h of
           Some e \<Rightarrow> Inl e
         | None \<Rightarrow> if typ = [] then Inl ''empty sign type'' else Inr (lat, lon, zero_360 h, typ, label)))"

definition row_key :: "sign_row \<Rightarrow> int \<times> int \<times> int \<times> bytes \<times> bytes" where
  "row_key row = (case row of (lat, lon, h, typ, label) \<Rightarrow> (fkey lat, fkey lon, fkey h, typ, label))"

definition pack_row :: "sign_row \<Rightarrow> string + bytes" where
  "pack_row row =
     (case row of (lat, lon, h, typ, label) \<Rightarrow>
        (case enc typ 16 of
           Inl e \<Rightarrow> Inl e
         | Inr t \<Rightarrow>
             (case enc label 64 of
                Inl e \<Rightarrow> Inl e
              | Inr l \<Rightarrow>
                  (case narrow h of
                     None \<Rightarrow> Inl ''OverflowError''
                   | Some h32 \<Rightarrow> Inr (pack_rec \<lparr>sr_lat = lat, sr_lon = lon, sr_heading = h32, sr_type = t, sr_label = l\<rparr>)))))"

text \<open>The bytes that replace the output file; on an error the temporary file is removed and the output stays.\<close>

definition write_signs :: "sign_row list \<Rightarrow> string + bytes" where
  "write_signs signs =
     (case collect checked_row signs of
        Inl e \<Rightarrow> Inl e
      | Inr rows \<Rightarrow>
          if \<not> (0 < length rows \<and> length rows \<le> MAX_RECORDS_DB) then Inl ''database count outside deployment bound''
          else map_sum id (\<lambda>recs. DB_MAGIC @ le_bytes 4 (length rows) @ concat recs) (collect pack_row (sort_key row_key rows)))"

subsection \<open>The validator\<close>

definition SIGN_TYPES :: "bytes set" where
  "SIGN_TYPES = bytes_of ` {''R.420'', ''R.421'', ''P.127'', ''P.125'', ''P.130'', ''P.131a''}"

definition REVIEWED_SPEEDS :: "nat set" where
  "REVIEWED_SPEEDS = {5, 10, 15, 20, 25, 30, 35, 40, 45, 50, 60, 70, 80, 90, 100, 110, 120}"

definition db_string :: "bytes \<Rightarrow> string + bytes" where
  "db_string raw =
     (if 0 \<notin> set raw then Inl ''missing string termination''
      else (let v = takeWhile (\<lambda>b. b \<noteq> 0) raw in
        if \<not> utf8_valid v then Inl ''UnicodeDecodeError''
        else if list_ex control v then Inl ''control character in DB text''
        else Inr v))"

text \<open>The fixed words of a speed-limit label, and the number between them.\<close>

definition SPEED_PREFIX :: bytes where
  "SPEED_PREFIX = [66, 105, 225, 187, 131, 110, 32, 104, 225, 186, 161, 110, 32, 99, 104, 225, 186, 191, 32, 116, 225, 187, 145, 99, 32,
     196, 145, 225, 187, 153, 32, 116, 225, 187, 145, 105, 32, 196, 145, 97, 32]"

definition SPEED_SUFFIX :: bytes where "SPEED_SUFFIX = bytes_of '' km/h''"

definition digit_byte :: "byte \<Rightarrow> bool" where "digit_byte b \<longleftrightarrow> 48 \<le> b \<and> b \<le> 57"

definition speed_of :: "bytes \<Rightarrow> nat option" where
  "speed_of label =
     (let n = length label - length SPEED_SUFFIX; ds = drop (length SPEED_PREFIX) (take n label) in
      if prefix SPEED_PREFIX label \<and> length SPEED_PREFIX + length SPEED_SUFFIX < length label \<and> drop n label = SPEED_SUFFIX
        \<and> list_all digit_byte ds
      then Some (foldl (\<lambda>v b. 10 * v + (unat b - 48)) 0 ds) else None)"

datatype exclusion = Unknown_heading | Unreviewed_speed

record seen_row =
  se_row :: sign_row
  se_directional :: bool
  se_speed :: "nat option"
  se_excluded :: "exclusion option"

definition inspect_row :: "bytes \<Rightarrow> string + seen_row" where
  "inspect_row raw =
     (let r = unpack_rec raw; h = widen (sr_heading r) in
      case number_error (sr_lat r) (sr_lon r) h of
        Some e \<Rightarrow> Inl e
      | None \<Rightarrow>
          (case db_string (sr_type r) of
             Inl e \<Rightarrow> Inl e
           | Inr kind \<Rightarrow>
               (case db_string (sr_label r) of
                  Inl e \<Rightarrow> Inl e
                | Inr label \<Rightarrow>
                    if kind \<notin> SIGN_TYPES then Inl ''unreviewed type in DB''
                    else (let h' = zero_360 h; speed = speed_of label; limit = (kind = bytes_of ''P.127'') in
                      if limit \<and> speed = None then Inl ''ambiguous speed-limit label''
                      else (let sp = (if limit then speed else None); unknown = feq h' F64_M999 in
                        Inr \<lparr>se_row = (sr_lat r, sr_lon r, h', kind, label), se_directional = (\<not> unknown), se_speed = sp,
                          se_excluded = (if unknown then Some Unknown_heading
                            else case sp of None \<Rightarrow> None | Some v \<Rightarrow> if v \<notin> REVIEWED_SPEEDS then Some Unreviewed_speed else None)\<rparr>)))))"

text \<open>\<open>collections.Counter\<close>: counts in the order of first occurrence.\<close>

definition tally :: "'a list \<Rightarrow> ('a \<times> nat) list" where
  "tally xs = map (\<lambda>x. (x, count_list xs x)) (rev (remdups (rev xs)))"

definition raw_records :: "nat \<Rightarrow> bytes \<Rightarrow> bytes list" where
  "raw_records n data = map (\<lambda>i. slice data (12 + 100 * i) (112 + 100 * i)) [0..<n]"

record db_report =
  db_sha :: string
  db_bytes :: nat
  db_count :: nat
  db_types :: "(bytes \<times> nat) list"
  db_headings :: "((bytes \<times> bool) \<times> nat) list"
  db_speeds :: "(nat \<times> nat) list"
  db_candidates :: nat
  db_exclusions :: "(exclusion \<times> nat) list"

definition kind_of :: "sign_row \<Rightarrow> bytes" where "kind_of row = fst (snd (snd (snd row)))"

definition eligible_rows :: "seen_row list \<Rightarrow> sign_row list" where
  "eligible_rows seen = map se_row (filter (\<lambda>s. se_excluded s = None) seen)"

definition inspect_db :: "(bytes \<Rightarrow> string) \<Rightarrow> bytes \<Rightarrow> string + sign_row list \<times> sign_row list \<times> db_report" where
  "inspect_db sha data =
     (if length data < 12 \<or> take 8 data \<noteq> DB_MAGIC then Inl ''invalid magic/header''
      else let n = le_nat (slice data 8 12) in
        if \<not> (0 < n \<and> n \<le> MAX_RECORDS_DB) \<or> length data \<noteq> 12 + n * 100 then Inl ''invalid count/length''
        else map_sum id (\<lambda>seen. (map se_row seen, eligible_rows seen,
               \<lparr>db_sha = sha data, db_bytes = length data, db_count = n,
                db_types = tally (map (\<lambda>s. kind_of (se_row s)) seen),
                db_headings = tally (map (\<lambda>s. (kind_of (se_row s), se_directional s)) seen),
                db_speeds = tally (List.map_filter se_speed seen),
                db_candidates = length (eligible_rows seen),
                db_exclusions = tally (List.map_filter se_excluded seen)\<rparr>))
             (collect inspect_row (raw_records n data)))"

subsection \<open>The deployment filter\<close>

definition text_field :: "bytes \<Rightarrow> string + bytes" where
  "text_field value =
     (let v = takeWhile (\<lambda>b. b \<noteq> 0) value; padding = drop (Suc (length v)) value in
      if 0 \<notin> set value \<or> list_ex (\<lambda>b. b \<noteq> 0) padding then Inl ''noncanonical string field''
      else if \<not> utf8_valid v then Inl ''UnicodeDecodeError''
      else if list_ex control v then Inl ''control character in database string''
      else Inr v)"

text \<open>What happens to one source record: its type, whether its direction is unknown, and the bytes that are kept.\<close>

definition prepare_record :: "bytes \<Rightarrow> string + bytes \<times> bool \<times> bytes option" where
  "prepare_record raw =
     (let r = unpack_rec raw; h = widen (sr_heading r) in
      case text_field (sr_type r) of
        Inl e \<Rightarrow> Inl e
      | Inr typ \<Rightarrow>
          (case text_field (sr_label r) of
             Inl e \<Rightarrow> Inl e
           | Inr label \<Rightarrow>
               if typ = [] \<or> \<not> (f64_finite (sr_lat r) \<and> f64_finite (sr_lon r) \<and> f64_finite h) then Inl ''invalid coordinate/heading/type''
               else (case position_error (sr_lat r) (sr_lon r) of
                   Some e \<Rightarrow> Inl e
                 | None \<Rightarrow>
                     (case heading_error h of
                        Some e \<Rightarrow> Inl e
                      | None \<Rightarrow>
                          if feq h F64_M999 then Inr (typ, True, None)
                          else if typ \<noteq> bytes_of ''R.420'' \<and> typ \<noteq> bytes_of ''R.421'' then Inr (typ, False, None)
                          else Inr (typ, False, Some (if feq h F64_360 then pack_rec (r\<lparr>sr_heading := 0\<rparr>) else raw))))))"

record prep_report =
  pr_sha :: string
  pr_records :: nat
  pr_types :: "(bytes \<times> nat) list"
  pr_unknown :: nat
  pr_kept :: nat
  pr_kept_types :: "(bytes \<times> nat) list"
  pr_bytes :: nat
  pr_out_sha :: string

definition hex_pin :: "string \<Rightarrow> bool" where
  "hex_pin s \<longleftrightarrow> length s = 64 \<and> list_all is_hex s"

definition sorted_tally :: "bytes list \<Rightarrow> (bytes \<times> nat) list" where
  "sorted_tally xs = map (\<lambda>x. (x, count_list xs x)) (sort (remdups xs))"

definition kept_of :: "(bytes \<times> bool \<times> bytes option) list \<Rightarrow> (bytes \<times> bytes) list" where
  "kept_of rows = List.map_filter (\<lambda>r. map_option (\<lambda>b. (fst r, b)) (snd (snd r))) rows"

definition prepare_db :: "(bytes \<Rightarrow> string) \<Rightarrow> bytes \<Rightarrow> string \<Rightarrow> string + bytes \<times> prep_report" where
  "prepare_db sha data pin =
     (if \<not> hex_pin pin then Inl ''mandatory SHA256 pin must be 64 hex digits''
      else if sha data \<noteq> lower pin then Inl ''private database SHA256 mismatch''
      else if length data < 12 \<or> take 8 data \<noteq> DB_MAGIC then Inl ''invalid database header''
      else let n = le_nat (slice data 8 12) in
        if \<not> (1 \<le> n \<and> n \<le> MAX_RECORDS_DB) \<or> length data \<noteq> 12 + n * 100 then Inl ''invalid count or exact file size''
        else case collect prepare_record (raw_records n data) of
               Inl e \<Rightarrow> Inl e
             | Inr rows \<Rightarrow>
                 (let kept = kept_of rows;
                      out = DB_MAGIC @ le_bytes 4 (length kept) @ concat (map snd kept) in
                  if kept = [] then Inl ''no eligible directional area records''
                  else Inr (out,
                    \<lparr>pr_sha = sha data, pr_records = n, pr_types = sorted_tally (map fst rows),
                     pr_unknown = length (filter (\<lambda>r. fst (snd r)) rows), pr_kept = length kept,
                     pr_kept_types = sorted_tally (map fst kept), pr_bytes = length out, pr_out_sha = sha out\<rparr>)))"

text \<open>\<open>main\<close>: the source (\<open>None\<close> when it is no regular file or a symbolic link), the pin, and whether output or report
  already exist or are the same path; the result is the exit status with the two files that are created.\<close>

definition prepare_main :: "(bytes \<Rightarrow> string) \<Rightarrow> bytes option \<Rightarrow> string \<Rightarrow> bool \<Rightarrow> bool \<Rightarrow> nat \<times> bytes option \<times> prep_report option" where
  "prepare_main sha source pin exists_out alias =
     (case source of
        None \<Rightarrow> (1, None, None)
      | Some data \<Rightarrow>
          if 12 + MAX_RECORDS_DB * 100 < length data \<or> exists_out \<or> alias then (1, None, None)
          else case prepare_db sha data pin of
                 Inl e \<Rightarrow> (1, None, None)
               | Inr (out, rep) \<Rightarrow> (0, Some out, Some rep))"

subsection \<open>Packing and unpacking\<close>

lemma pack_unpack:
  assumes "length raw = 100" shows "pack_rec (unpack_rec raw) = raw"
proof -
  have b: "le_nat bs < 2 ^ 64" if "length bs = 8" for bs using le_nat_bound [of bs] that by simp
  have c: "le_nat bs < 2 ^ 32" if "length bs = 4" for bs using le_nat_bound [of bs] that by simp
  have "unat (of_nat (le_nat bs) :: f64) = le_nat bs" if "length bs = 8" for bs using b [OF that] by (simp add: unat_of_nat)
  moreover have "unat (of_nat (le_nat bs) :: f32) = le_nat bs" if "length bs = 4" for bs using c [OF that] by (simp add: unat_of_nat)
  moreover have "le_bytes 8 (le_nat bs) = bs" if "length bs = 8" for bs using le_bytes_le_nat [of bs] that by simp
  moreover have "le_bytes 4 (le_nat bs) = bs" if "length bs = 4" for bs using le_bytes_le_nat [of bs] that by simp
  moreover have "raw = slice raw 0 8 @ slice raw 8 16 @ slice raw 16 20 @ slice raw 20 36 @ slice raw 36 100"
  proof -
    have cut: "drop a raw = slice raw a b @ drop b raw" if "a \<le> b" for a b
      using that append_take_drop_id [of "b - a" "drop a raw"] by (simp add: slice_def)
    show ?thesis using cut [of 0 8] cut [of 8 16] cut [of 16 20] cut [of 20 36] cut [of 36 100] assms by simp
  qed
  ultimately show ?thesis using assms by (simp add: pack_rec_def unpack_rec_def)
qed

lemma unpack_pack:
  assumes "length (sr_type r) = 16" "length (sr_label r) = 64" shows "unpack_rec (pack_rec r) = r"
proof -
  let ?a = "le_bytes 8 (unat (sr_lat r))" and ?b = "le_bytes 8 (unat (sr_lon r))" and ?c = "le_bytes 4 (unat (sr_heading r))"
  have s: "take 8 (pack_rec r) = ?a" "slice (pack_rec r) 8 16 = ?b" "slice (pack_rec r) 16 20 = ?c"
    "slice (pack_rec r) 20 36 = sr_type r" "slice (pack_rec r) 36 100 = sr_label r"
    using assms by (simp_all add: pack_rec_def slice_def)
  have "unat (sr_lat r) < 256 ^ 8" "unat (sr_lon r) < 256 ^ 8" "unat (sr_heading r) < 256 ^ 4"
    using unsigned_less [of "sr_lat r"] unsigned_less [of "sr_lon r"] unsigned_less [of "sr_heading r"] by simp_all
  then show ?thesis by (simp add: unpack_rec_def s le_nat_le_bytes)
qed

lemma length_pack: "length (pack_rec r) = 20 + length (sr_type r) + length (sr_label r)"
  by (simp add: pack_rec_def)

lemma raw_records_concat:
  assumes "list_all (\<lambda>r. length r = 100) rs" "length h = 12"
  shows "raw_records (length rs) (h @ concat rs) = rs"
proof (rule nth_equalityI)
  fix i assume "i < length (raw_records (length rs) (h @ concat rs))"
  then have i: "i < length rs" by (simp add: raw_records_def)
  have len: "length (concat rs') = 100 * length rs'" if "list_all (\<lambda>r. length r = 100) rs'" for rs' :: "bytes list"
    using that by (induction rs') simp_all
  have "rs = take i rs @ rs ! i # drop (Suc i) rs" using i by (rule id_take_nth_drop)
  then have "h @ concat rs = (h @ concat (take i rs)) @ rs ! i @ concat (drop (Suc i) rs)"
    by (metis append.assoc concat.simps(2) concat_append)
  moreover have "length (h @ concat (take i rs)) = 12 + 100 * i"
    using len [of "take i rs"] assms i by (simp add: list_all_length)
  moreover have "length (rs ! i) = 100" using assms(1) i by (simp add: list_all_length)
  ultimately have "slice (h @ concat rs) (12 + 100 * i) (112 + 100 * i) = rs ! i"
    using slice_mid [of "h @ concat (take i rs)" "rs ! i" "concat (drop (Suc i) rs)"] by (simp add: add.commute)
  then show "raw_records (length rs) (h @ concat rs) ! i = rs ! i" using i by (simp add: raw_records_def)
qed (simp add: raw_records_def)

lemma db_header:
  "n \<le> MAX_RECORDS_DB \<Longrightarrow> length (DB_MAGIC @ le_bytes 4 n) = 12 \<and> take 8 (DB_MAGIC @ le_bytes 4 n @ xs) = DB_MAGIC
     \<and> le_nat (slice (DB_MAGIC @ le_bytes 4 n @ xs) 8 12) = n"
proof -
  assume n: "n \<le> MAX_RECORDS_DB"
  have l: "length DB_MAGIC = 8" by (simp add: DB_MAGIC_def)
  moreover have "slice (DB_MAGIC @ le_bytes 4 n @ xs) 8 12 = le_bytes 4 n"
    using slice_mid [of DB_MAGIC "le_bytes 4 n" xs] l by simp
  ultimately show ?thesis using n by (simp add: le_nat_le_bytes MAX_RECORDS_DB_def)
qed

subsection \<open>What the writer writes\<close>

text \<open>A row whose strings fit, whose type is reviewed and whose heading a binary32 represents.\<close>

definition clean_row :: "sign_row \<Rightarrow> bool" where
  "clean_row row \<longleftrightarrow>
     (case row of (lat, lon, h, kd, label) \<Rightarrow>
        kd \<in> SIGN_TYPES \<and> utf8_valid label \<and> length label \<le> 63
        \<and> (kd = bytes_of ''P.127'' \<longrightarrow> speed_of label \<noteq> None)
        \<and> (case narrow h of None \<Rightarrow> False | Some x \<Rightarrow> widen x = h))"

lemma sign_type_text:
  "t \<in> SIGN_TYPES \<Longrightarrow> utf8_valid t \<and> length t \<le> 15 \<and> t \<noteq> [] \<and> \<not> list_ex control t"
  unfolding SIGN_TYPES_def by (auto simp: bytes_of_def control_def)

lemma enc_fits:
  "utf8_valid s \<Longrightarrow> length s < n \<Longrightarrow> enc s n = (if list_ex control s then Inl ''invalid database string'' else Inr (s @ replicate (n - length s) 0))"
  by (simp add: enc_def utf8_trim.simps [of s])

lemma db_string_padded:
  "\<not> list_ex control s \<Longrightarrow> utf8_valid s \<Longrightarrow> 0 < k \<Longrightarrow> db_string (s @ replicate k 0) = Inr s"
proof -
  assume a: "\<not> list_ex control s" "utf8_valid s" "0 < k"
  have "\<forall>b \<in> set s. b \<noteq> 0" using a(1) by (auto simp: list_ex_iff control_def)
  then have "takeWhile (\<lambda>b. b \<noteq> 0) (s @ replicate k 0) = s" using a(3) by (cases k) (simp_all add: takeWhile_append)
  then show ?thesis using a by (simp add: db_string_def Let_def)
qed

lemma zero_360_again: "zero_360 (zero_360 h) = zero_360 h"
  by (simp add: zero_360_def feq_def fkey64 F64_360_def)

lemma zero_number_error: "number_error lat lon h = None \<Longrightarrow> number_error lat lon (zero_360 h) = None"
  by (auto simp: number_error_def zero_360_def heading_error_def fle_def feq_def fkey64 F64_360_def F64_M999_def f64_finite_def
      split: if_splits option.splits)

lemma widen_zero: "narrow 0 = Some 0" "widen 0 = 0"
proof -
  show w: "widen 0 = 0" by (simp add: widen_def widen_bits_def)
  show "narrow 0 = Some 0" using narrow_widen [of 0] by (simp add: w f32_finite_def)
qed

lemma zero_narrow: "narrow h = Some x \<Longrightarrow> widen x = h \<Longrightarrow> \<exists>y. narrow (zero_360 h) = Some y \<and> widen y = zero_360 h"
  using widen_zero by (auto simp: zero_360_def)

lemma checked_row_facts:
  assumes "checked_row r = Inr row" "clean_row r"
  shows "number_error (fst row) (fst (snd row)) (fst (snd (snd row))) = None \<and> zero_360 (fst (snd (snd row))) = fst (snd (snd row)) \<and> clean_row row"
proof -
  obtain lat lon h kd lab where r: "r = (lat, lon, h, kd, lab)" by (cases r)
  obtain x where "narrow h = Some x" "widen x = h" using assms(2) by (auto simp: clean_row_def r split: option.splits)
  then obtain y where y: "narrow (zero_360 h) = Some y" "widen y = zero_360 h" using zero_narrow by blast
  have row: "row = (lat, lon, zero_360 h, kd, lab)" "number_error lat lon h = None"
    using assms(1) by (auto simp: checked_row_def r split: option.splits if_splits)
  then show ?thesis using assms(2) y by (simp add: zero_number_error zero_360_again clean_row_def r)
qed

lemma packed_row_inspected:
  assumes "number_error lat lon h = None" "zero_360 h = h" "clean_row (lat, lon, h, kd, label)" "pack_row (lat, lon, h, kd, label) = Inr raw"
  shows "length raw = 100 \<and> (\<exists>s. inspect_row raw = Inr s \<and> se_row s = (lat, lon, h, kd, label))"
proof -
  obtain x where x: "narrow h = Some x" "widen x = h" using assms(3) by (auto simp: clean_row_def split: option.splits)
  have kd: "kd \<in> SIGN_TYPES" and label: "utf8_valid label" "length label \<le> 63" using assms(3) by (auto simp: clean_row_def)
  note t = sign_type_text [OF kd]
  have e: "enc kd 16 = Inr (kd @ replicate (16 - length kd) 0)" using t by (simp add: enc_fits)
  have ctl: "\<not> list_ex control label"
  proof
    assume "list_ex control label"
    then have "enc label 64 = Inl ''invalid database string''" using label by (simp add: enc_fits)
    then show False using assms(4) e by (simp add: pack_row_def)
  qed
  then have e': "enc label 64 = Inr (label @ replicate (64 - length label) 0)" using label by (simp add: enc_fits)
  let ?r = "\<lparr>sr_lat = lat, sr_lon = lon, sr_heading = x, sr_type = kd @ replicate (16 - length kd) 0, sr_label = label @ replicate (64 - length label) 0\<rparr>"
  have raw: "raw = pack_rec ?r" using assms(4) e e' x(1) by (simp add: pack_row_def)
  have len: "length (sr_type ?r) = 16" "length (sr_label ?r) = 64" using t kd label by simp_all
  have u: "unpack_rec raw = ?r" unfolding raw by (rule unpack_pack [OF len])
  have s: "db_string (sr_type ?r) = Inr kd" "db_string (sr_label ?r) = Inr label"
    using t kd label ctl by (simp_all add: db_string_padded)
  have "kd = bytes_of ''P.127'' \<Longrightarrow> speed_of label \<noteq> None" using assms(3) by (simp add: clean_row_def)
  then have "\<exists>s. inspect_row raw = Inr s \<and> se_row s = (lat, lon, h, kd, label)"
    using s x(2) kd assms(1,2) by (simp add: inspect_row_def u Let_def)
  then show ?thesis using len raw by (simp add: length_pack)
qed

subsection \<open>Properties of the writer\<close>

definition normal_row :: "sign_row \<Rightarrow> sign_row" where
  "normal_row row = (case row of (lat, lon, h, kd, label) \<Rightarrow> (lat, lon, zero_360 h, kd, label))"

lemma checked_normal: "checked_row r = Inr row \<Longrightarrow> row = normal_row r"
  by (auto simp: checked_row_def normal_row_def split: option.splits if_splits prod.splits)

lemma checked_rows_normal: "collect checked_row signs = Inr rows \<Longrightarrow> rows = map normal_row signs"
  unfolding collect_Inr by (induction rule: list_all2_induct) (simp_all add: checked_normal)

lemma inspect_packed:
  assumes "list_all2 (\<lambda>row raw. pack_row row = Inr raw) rows recs"
    "\<forall>row \<in> set rows. \<exists>r. checked_row r = Inr row \<and> clean_row r"
  shows "list_all (\<lambda>r. length r = 100) recs \<and> (\<exists>seen. collect inspect_row recs = Inr seen \<and> map se_row seen = rows)"
  using assms
proof (induction rule: list_all2_induct)
  case (Cons row rows raw recs)
  obtain lat lon h kd label where row: "row = (lat, lon, h, kd, label)" by (cases row)
  obtain r where "checked_row r = Inr row" "clean_row r" using Cons.prems by auto
  from checked_row_facts [OF this] Cons.hyps(1) packed_row_inspected [of lat lon h kd label raw]
  obtain s where "length raw = 100" "inspect_row raw = Inr s" "se_row s = row" by (auto simp: row)
  moreover obtain seen where "list_all (\<lambda>r. length r = 100) recs" "collect inspect_row recs = Inr seen" "map se_row seen = rows"
    using Cons.IH Cons.prems by auto
  ultimately show ?case by simp
qed simp

text \<open>C20. What the writer writes the validator reads: for rows of reviewed types whose texts fit and whose headings a binary32
  represents, the validator accepts the written file and reads exactly the given rows, sorted, with heading 360 as 0.\<close>

theorem written_db_inspected:
  assumes "write_signs signs = Inr data" and "list_all clean_row signs"
  shows "\<exists>elig rep. inspect_db sha data = Inr (sort_key row_key (map normal_row signs), elig, rep) \<and> db_count rep = length signs"
proof -
  obtain rows recs where c: "collect checked_row signs = Inr rows" "0 < length rows" "length rows \<le> MAX_RECORDS_DB"
    "collect pack_row (sort_key row_key rows) = Inr recs" "data = DB_MAGIC @ le_bytes 4 (length rows) @ concat recs"
    using assms(1) by (cases "collect checked_row signs"; cases "collect pack_row (sort_key row_key (projr (collect checked_row signs)))")
      (auto simp: write_signs_def split: if_splits sum.splits)
  have rows: "rows = map normal_row signs" using c(1) by (rule checked_rows_normal)
  have "\<forall>row \<in> set rows. \<exists>r. checked_row r = Inr row \<and> clean_row r"
    using c(1) assms(2) unfolding collect_Inr by (induction rule: list_all2_induct) (auto simp del: split_paired_Ex)
  then have "\<forall>row \<in> set (sort_key row_key rows). \<exists>r. checked_row r = Inr row \<and> clean_row r" by simp
  from inspect_packed [OF c(4) [unfolded collect_Inr] this]
  obtain seen where i: "list_all (\<lambda>r. length r = 100) recs" "collect inspect_row recs = Inr seen" "map se_row seen = sort_key row_key rows"
    by blast
  have n: "length recs = length rows" using c(4) by (simp add: collect_Inr list_all2_lengthD [symmetric])
  note h = db_header [OF c(3)]
  have raws: "raw_records (length rows) data = recs" using raw_records_concat [OF i(1), of "DB_MAGIC @ le_bytes 4 (length rows)"] h n c(5) by simp
  have "length (concat recs) = 100 * length recs" using i(1) by (induction recs) simp_all
  then have "length data = 12 + length rows * 100" using c(5) h n by simp
  moreover have "take 8 data = DB_MAGIC" "le_nat (slice data 8 12) = length rows" using c(5) h [of "concat recs"] by simp_all
  ultimately show ?thesis using c(2,3) raws i(2,3) rows by (simp add: inspect_db_def Let_def)
qed

subsection \<open>Properties of the filter\<close>

text \<open>The specification of the deployed subset, on the raw records.\<close>

definition deployable :: "bytes \<Rightarrow> bool" where
  "deployable raw \<longleftrightarrow> takeWhile (\<lambda>b. b \<noteq> 0) (slice raw 20 36) \<in> {bytes_of ''R.420'', bytes_of ''R.421''}
     \<and> \<not> feq (widen (sr_heading (unpack_rec raw))) F64_M999"

definition deployed :: "bytes \<Rightarrow> bytes" where
  "deployed raw = (if feq (widen (sr_heading (unpack_rec raw))) F64_360 then take 16 raw @ [0, 0, 0, 0] @ drop 20 raw else raw)"

lemma text_field_Inr: "text_field v = Inr t \<Longrightarrow> t = takeWhile (\<lambda>b. b \<noteq> 0) v"
  by (auto simp: text_field_def Let_def split: if_splits)

lemma repack_360:
  assumes "length raw = 100" shows "pack_rec ((unpack_rec raw)\<lparr>sr_heading := 0\<rparr>) = take 16 raw @ [0, 0, 0, 0] @ drop 20 raw"
proof -
  have p: "pack_rec (unpack_rec raw) = raw" using assms by (rule pack_unpack)
  let ?u = "unpack_rec raw"
  have "take 16 (pack_rec ?u) = le_bytes 8 (unat (sr_lat ?u)) @ le_bytes 8 (unat (sr_lon ?u))"
    "drop 20 (pack_rec ?u) = sr_type ?u @ sr_label ?u" by (simp_all add: pack_rec_def)
  moreover have "le_bytes 4 0 = [0, 0, 0, 0]"
  proof -
    have "(4 :: nat) = Suc (Suc (Suc (Suc 0)))" by simp
    then show ?thesis by (simp only: le_bytes.simps) simp
  qed
  ultimately show ?thesis unfolding p by (simp add: pack_rec_def)
qed

lemma prepare_record_kept:
  assumes "prepare_record raw = Inr (t, u, k)" "length raw = 100"
  shows "k = (if deployable raw then Some (deployed raw) else None)"
proof -
  let ?r = "unpack_rec raw"
  have t: "t = takeWhile (\<lambda>b. b \<noteq> 0) (slice raw 20 36)"
    using assms(1) text_field_Inr [of "sr_type ?r"]
    by (auto simp: prepare_record_def Let_def unpack_rec_def split: sum.splits option.splits if_splits)
  have "k = (if feq (widen (sr_heading ?r)) F64_M999 \<or> t \<noteq> bytes_of ''R.420'' \<and> t \<noteq> bytes_of ''R.421'' then None
      else Some (if feq (widen (sr_heading ?r)) F64_360 then pack_rec (?r\<lparr>sr_heading := 0\<rparr>) else raw))"
    using assms(1) by (auto simp: prepare_record_def Let_def split: sum.splits option.splits if_splits)
  then show ?thesis unfolding repack_360 [OF assms(2)] deployable_def deployed_def t by auto
qed

lemma prepare_record_again:
  assumes "prepare_record raw = Inr (t, u, Some b)" "length raw = 100"
  shows "prepare_record b = Inr (t, False, Some b) \<and> length b = 100"
proof (cases "feq (widen (sr_heading (unpack_rec raw))) F64_360")
  case False
  then have "b = raw" "u = False" using assms(1) by (auto simp: prepare_record_def Let_def split: sum.splits option.splits if_splits)
  then show ?thesis using assms by simp
next
  case True
  let ?r = "(unpack_rec raw)\<lparr>sr_heading := 0\<rparr>"
  have b: "b = pack_rec ?r" using assms(1) True by (auto simp: prepare_record_def Let_def split: sum.splits option.splits if_splits)
  have len: "length (sr_type ?r) = 16" "length (sr_label ?r) = 64" using assms(2) by (simp_all add: unpack_rec_def)
  have u: "unpack_rec b = ?r" unfolding b by (rule unpack_pack [OF len])
  have zero: "heading_error 0 = None" "\<not> feq 0 F64_M999" "\<not> feq 0 F64_360" "f64_finite 0"
    by (simp_all add: heading_error_def feq_def fle_def fkey64 F64_M999_def F64_360_def f64_finite_def)
  have "prepare_record b = Inr (t, False, Some b)"
    unfolding prepare_record_def [of b] u using assms(1) zero
    by (auto simp: prepare_record_def [of raw] Let_def widen_zero split: sum.splits option.splits if_splits)
  then show ?thesis using len unfolding b by (simp add: length_pack)
qed

lemma kept_records:
  assumes "list_all2 (\<lambda>raw row. prepare_record raw = Inr row) raws rows" "list_all (\<lambda>r. length r = 100) raws"
  shows "map snd (kept_of rows) = map deployed (filter deployable raws)"
  using assms
proof (induction rule: list_all2_induct)
  case (Cons raw raws row rows)
  obtain t u k where row: "row = (t, u, k)" by (cases row)
  then have "k = (if deployable raw then Some (deployed raw) else None)" using Cons prepare_record_kept [of raw t u k] by simp
  then show ?case using Cons row by (simp add: kept_of_def map_filter_simps)
qed (simp add: kept_of_def map_filter_simps)

lemma kept_again:
  assumes "list_all2 (\<lambda>raw row. prepare_record raw = Inr row) raws rows" "list_all (\<lambda>r. length r = 100) raws"
  shows "list_all (\<lambda>(t, b). prepare_record b = Inr (t, False, Some b) \<and> length b = 100)
    (kept_of rows)"
  using assms
proof (induction rule: list_all2_induct)
  case (Cons raw raws row rows)
  obtain t u k where row: "row = (t, u, k)" by (cases row)
  then show ?case using Cons prepare_record_again [of raw t u] by (cases k) (auto simp: kept_of_def map_filter_simps)
qed (simp add: kept_of_def map_filter_simps)

lemma raw_records_length: "length data = 12 + n * 100 \<Longrightarrow> list_all (\<lambda>r. length r = 100) (raw_records n data)"
  by (auto simp: raw_records_def list_all_iff)

lemma prepare_db_cases:
  assumes "prepare_db sha data pin = Inr (out, rep)"
  obtains n rows where "n = le_nat (slice data 8 12)" "length data = 12 + n * 100" "n \<le> MAX_RECORDS_DB" "hex_pin pin" "sha data = lower pin"
    "list_all2 (\<lambda>raw row. prepare_record raw = Inr row) (raw_records n data) rows"
    "kept_of rows \<noteq> []"
    "out = DB_MAGIC @ le_bytes 4 (length (kept_of rows))
       @ concat (map snd (kept_of rows))"
    "pr_kept rep = length (kept_of rows)"
proof -
  let ?n = "le_nat (slice data 8 12)"
  have ok: "hex_pin pin" "sha data = lower pin" "?n \<le> MAX_RECORDS_DB" "length data = 12 + ?n * 100"
    using assms by (simp_all add: prepare_db_def Let_def split: if_splits)
  obtain rows where c: "collect prepare_record (raw_records ?n data) = Inr rows"
    using assms by (simp add: prepare_db_def Let_def split: if_splits sum.splits)
  have "kept_of rows \<noteq> []" "out = DB_MAGIC @ le_bytes 4 (length (kept_of rows)) @ concat (map snd (kept_of rows))"
    "pr_kept rep = length (kept_of rows)"
    using assms c by (auto simp: prepare_db_def Let_def split: if_splits)
  with ok c show thesis using that [of ?n rows] by (simp add: collect_Inr)
qed

text \<open>C21. The deployed file: after the pin is confirmed, it holds exactly the directional R.420 and R.421 records of the source, in their
  order, each unchanged except that heading 360 is stored as 0.\<close>

theorem prepared_subset:
  assumes "prepare_db sha data pin = Inr (out, rep)"
  shows "sha data = lower pin \<and> hex_pin pin
    \<and> (let kept = map deployed (filter deployable (raw_records (le_nat (slice data 8 12)) data)) in
        kept \<noteq> [] \<and> out = DB_MAGIC @ le_bytes 4 (length kept) @ concat kept \<and> pr_kept rep = length kept)"
proof -
  obtain n rows where p: "n = le_nat (slice data 8 12)" "length data = 12 + n * 100" "hex_pin pin" "sha data = lower pin"
    "list_all2 (\<lambda>raw row. prepare_record raw = Inr row) (raw_records n data) rows"
    "kept_of rows \<noteq> []"
    "out = DB_MAGIC @ le_bytes 4 (length (kept_of rows))
       @ concat (map snd (kept_of rows))"
    "pr_kept rep = length (kept_of rows)"
    using assms by (rule prepare_db_cases)
  note k = kept_records [OF p(5) raw_records_length [OF p(2)]]
  then have "map deployed (filter deployable (raw_records n data)) \<noteq> []" using p(6) by (metis map_is_Nil_conv)
  moreover have "length (kept_of rows) = length (map deployed (filter deployable (raw_records n data)))"
    using arg_cong [OF k, of length] by simp
  ultimately show ?thesis using p(1,3,4,7,8) k by (simp add: Let_def)
qed

lemma deployed_rows:
  "list_all (\<lambda>(t, b). prepare_record b = Inr (t, False, Some b) \<and> length b = 100) kept \<Longrightarrow>
   collect prepare_record (map snd kept) = Inr (map (\<lambda>(t, b). (t, False, Some b)) kept)
   \<and> kept_of (map (\<lambda>(t, b). (t, False, Some b)) kept) = kept
   \<and> list_all (\<lambda>r. length r = 100) (map snd kept)"
  by (induction kept) (auto simp: kept_of_def map_filter_simps)

text \<open>Preparing is idempotent: the deployed file, pinned by its own hash, is accepted and deployed unchanged.\<close>

theorem prepare_idempotent:
  assumes "prepare_db sha data pin = Inr (out, rep)" and "hex_pin (sha out)" and "lower (sha out) = sha out"
  shows "\<exists>rep'. prepare_db sha out (sha out) = Inr (out, rep')"
proof -
  obtain n rows where p: "length data = 12 + n * 100" "n \<le> MAX_RECORDS_DB"
    "list_all2 (\<lambda>raw row. prepare_record raw = Inr row) (raw_records n data) rows"
    "kept_of rows \<noteq> []"
    "out = DB_MAGIC @ le_bytes 4 (length (kept_of rows))
       @ concat (map snd (kept_of rows))"
    using assms(1) by (rule prepare_db_cases)
  define kept where "kept = kept_of rows"
  have k: "list_all (\<lambda>(t, b). prepare_record b = Inr (t, False, Some b) \<and> length b = 100) kept"
    unfolding kept_def using kept_again [OF p(3) raw_records_length [OF p(1)]] .
  note d = deployed_rows [OF k]
  have "length kept = length (filter deployable (raw_records n data))"
    using arg_cong [OF kept_records [OF p(3) raw_records_length [OF p(1)]], of length] by (simp add: kept_def)
  then have le: "length kept \<le> MAX_RECORDS_DB" using p(2) length_filter_le [of deployable "raw_records n data"] by (simp add: raw_records_def)
  note h = db_header [OF le]
  have out: "out = DB_MAGIC @ le_bytes 4 (length kept) @ concat (map snd kept)" using p(5) by (simp add: kept_def)
  have raws: "raw_records (length kept) out = map snd kept"
    using raw_records_concat [of "map snd kept" "DB_MAGIC @ le_bytes 4 (length kept)"] d h by (simp add: out)
  have "length (concat (map snd kept)) = 100 * length kept" using k by (induction kept) auto
  then have "length out = 12 + length kept * 100" using h by (simp add: out)
  moreover have "take 8 out = DB_MAGIC" "le_nat (slice out 8 12) = length kept" using h [of "concat (map snd kept)"] by (simp_all add: out)
  moreover have "kept \<noteq> []" using p(4) by (simp add: kept_def)
  ultimately show ?thesis using assms(2,3) le raws d unfolding prepare_db_def Let_def by (simp add: out [symmetric] Suc_le_eq)
qed

subsection \<open>Witnesses\<close>

definition demo_sign :: sign_row where
  "demo_sign = (F64_90, 0, F64_360, bytes_of ''R.420'', bytes_of ''area'')"

definition demo_sign_rec :: "f32 \<Rightarrow> sign_rec" where
  "demo_sign_rec h = \<lparr>sr_lat = F64_90, sr_lon = 0, sr_heading = h, sr_type = bytes_of ''R.420'' @ replicate 11 0,
     sr_label = bytes_of ''area'' @ replicate 60 0\<rparr>"

lemma demo_sign_unpack: "unpack_rec (pack_rec (demo_sign_rec h)) = demo_sign_rec h" "length (pack_rec (demo_sign_rec h)) = 100"
  by (rule unpack_pack) (simp_all add: demo_sign_rec_def length_pack)

lemma demo_number: "number_error F64_90 0 F64_360 = None"
  by (simp add: number_error_def position_error_def heading_error_def fle_def feq_def fkey64 f64_finite_def F64_90_def F64_M90_def
      F64_180_def F64_M180_def F64_360_def F64_M999_def)

lemma demo_texts:
  "enc (bytes_of ''R.420'') 16 = Inr (bytes_of ''R.420'' @ replicate 11 0)"
  "enc (bytes_of ''area'') 64 = Inr (bytes_of ''area'' @ replicate 60 0)"
  "text_field (bytes_of ''R.420'' @ replicate 11 0) = Inr (bytes_of ''R.420'')"
  "text_field (bytes_of ''area'' @ replicate 60 0) = Inr (bytes_of ''area'')"
  by (simp_all add: enc_fits bytes_of_def control_def text_field_def Let_def list_ex_iff)

lemma demo_written: "write_signs [demo_sign] = Inr (DB_MAGIC @ le_bytes 4 1 @ pack_rec (demo_sign_rec 0))"
  by (simp add: write_signs_def demo_sign_def checked_row_def demo_number zero_360_def feq_def pack_row_def demo_texts widen_zero
      demo_sign_rec_def MAX_RECORDS_DB_def)

theorem written_db_inspected_witness:
  "\<exists>elig rep. inspect_db (\<lambda>_. ''00'') (DB_MAGIC @ le_bytes 4 1 @ pack_rec (demo_sign_rec 0)) = Inr ([normal_row demo_sign], elig, rep)"
proof -
  have "narrow F64_360 = Some 0x43B40000" "widen 0x43B40000 = F64_360"
    by (simp_all add: narrow_def Let_def round_bits_def widen_def widen_bits_def F64_360_def)
  then have "list_all clean_row [demo_sign]"
    by (simp add: clean_row_def demo_sign_def SIGN_TYPES_def) (simp add: bytes_of_def)
  from written_db_inspected [OF demo_written this, of "\<lambda>_. ''00''"] show ?thesis by auto
qed

definition demo_sha :: "bytes \<Rightarrow> string" where
  "demo_sha d = replicate 64 (CHR ''0'')"

definition demo_data :: bytes where
  "demo_data = (DB_MAGIC @ le_bytes 4 1) @ concat [pack_rec (demo_sign_rec 0x43B40000)]"

definition demo_out :: bytes where
  "demo_out = DB_MAGIC @ le_bytes 4 1 @ pack_rec (demo_sign_rec 0)"

lemma demo_prepared: "\<exists>rep. prepare_db demo_sha demo_data (demo_sha []) = Inr (demo_out, rep)"
proof -
  have w: "widen 0x43B40000 = F64_360" by (simp add: widen_def widen_bits_def F64_360_def)
  have f: "heading_error F64_360 = None" "position_error F64_90 0 = None" "f64_finite F64_360" "f64_finite F64_90" "f64_finite 0"
    "\<not> feq F64_360 F64_M999" "feq F64_360 F64_360"
    using demo_number by (simp_all add: number_error_def feq_def fkey64 F64_360_def F64_M999_def split: if_splits option.splits)
  have r: "prepare_record (pack_rec (demo_sign_rec 0x43B40000)) = Inr (bytes_of ''R.420'', False, Some (pack_rec (demo_sign_rec 0)))"
    by (simp add: prepare_record_def demo_sign_unpack) (simp add: demo_sign_rec_def Let_def demo_texts w f)
  have raws: "raw_records 1 demo_data = [pack_rec (demo_sign_rec 0x43B40000)]"
    using raw_records_concat [of "[pack_rec (demo_sign_rec 0x43B40000)]" "DB_MAGIC @ le_bytes 4 1"] db_header [of 1]
    by (simp add: demo_data_def demo_sign_unpack MAX_RECORDS_DB_def)
  have h: "length demo_data = 112" "take 8 demo_data = DB_MAGIC" "le_nat (slice demo_data 8 12) = 1"
    using db_header [of 1 "pack_rec (demo_sign_rec 0x43B40000)"] by (simp_all add: demo_data_def demo_sign_unpack MAX_RECORDS_DB_def)
  have s: "hex_pin (demo_sha [])" "demo_sha demo_data = lower (demo_sha [])"
    by (simp_all add: hex_pin_def demo_sha_def is_hex_def is_digit_def lower_def code_def list_all_iff)
  show ?thesis
    using raws r s by (simp add: prepare_db_def h kept_of_def map_filter_simps demo_out_def MAX_RECORDS_DB_def Let_def del: One_nat_def) simp
qed

theorem prepared_subset_witness:
  "map deployed (filter deployable (raw_records (le_nat (slice demo_data 8 12)) demo_data)) \<noteq> []"
  using prepared_subset demo_prepared by (metis (no_types, lifting))

theorem prepare_idempotent_witness:
  "\<exists>rep. prepare_db demo_sha demo_out (demo_sha demo_out) = Inr (demo_out, rep)"
proof -
  have "hex_pin (demo_sha demo_out)" "lower (demo_sha demo_out) = demo_sha demo_out"
    by (simp_all add: hex_pin_def demo_sha_def is_hex_def is_digit_def lower_def code_def list_all_iff)
  then show ?thesis using demo_prepared prepare_idempotent by blast
qed

end
