(* ===== verification/CandidateDiff.thy ===== *)
theory CandidateDiff
  imports Script "HOL-Library.AList"
begin

text \<open>
  The release gate \<open>tools/fw/candidate_diff.py\<close>: \<open>main\<close> compares the contract of the base package with that of a
  candidate and collects the reasons to block it; the verdict is \<open>ALLOWLIST-OK\<close> when there is none. The two
  contracts are what \<open>package_contract.py\<close> writes, with the loads in the order of the file; the three oneed files are
  one optional record. \<open>None\<close> is an exception that ends the program without a report (a missing key, a number \<open>int\<close>
  refuses, no customer load). A Python \<open>set\<close> of volumes is iterated in sorted order.

  Shown: a candidate that is allowed has the outer members of the base with the protected ones unchanged, and each of its
  loads in a section other than \<open>customer.es\<close> (and \<open>oneed_cust.es\<close> when a swap is authorised) has hash and size of the
  base load with the same section and index, provided each section has as many loads as in the base; and a candidate is
  never allowed when its unknown tail, its deep evidence or a volume size of the script is wrong.
\<close>

subsection \<open>The contracts\<close>

record cd_load =
  cl_section :: bytes
  cl_index :: nat
  cl_offset :: nat
  cl_size :: nat
  cl_sha :: "string option"

record cd_contract =
  cc_members :: "(bytes \<times> string) list"
  cc_order :: "bytes list"
  cc_inner :: string
  cc_loads :: "cd_load list"
  cc_tail :: string
  cc_script :: bytes

text \<open>The oneed files: a swap is a path with its pinned hash and size, each \<open>None\<close> when missing.\<close>

record oneed =
  on_mut_kind :: "string option"
  on_replaced :: "(string \<times> string option \<times> int option) list"
  on_swaps :: "(string \<times> string option \<times> int option) list"
  on_stock :: "int option"
  on_ver_kind :: "string option"
  on_verdict :: "string option"
  on_checked :: "int option"

record deep_report =
  dr_checks :: "(string \<times> string option) list"
  dr_verdict :: "string option"

datatype reason =
    Oneed_mut_kind | Oneed_verify_kind | Oneed_verdict | Oneed_swap_set | Oneed_swap_pin string | Oneed_checked
  | Outer_members | Protected_outer bytes | Stale_md5 | Inner_unchanged
  | Load_sections | Customer_unchanged | Customer_moved | Oneed_unchanged | Oneed_no_volume | Oneed_too_large
  | Payload_changed bytes nat | Size_changed bytes nat | No_delta | Not_shifted bytes | Moved bytes | Tail_changed
  | Fatload_count | Fatload_outside | Volumes_changed | Customer_write | Oneed_missing | Oneed_write | Volume_size bytes
  | Deep_missing string | Deep_verdict

subsection \<open>The expressions\<close>

definition word_char :: "byte \<Rightarrow> bool" where
  "word_char b \<longleftrightarrow> is_word b \<or> b \<in> {170, 178, 179, 181, 185, 186, 188, 189, 190} \<or> 192 \<le> b \<and> b \<noteq> 215 \<and> b \<noteq> 247"

definition UBIWRITE_RE :: rx where
  "UBIWRITE_RE = Seqs [LitI ''ubi'', Many1 sp, LitI ''write'', Many1 sp, LitI ''0x'', Many1 hexdig, Many1 sp,
     Grp 1 (Many1 word_char), Many1 sp, Grp 2 NUMBER_RX]"

definition ONEED_CREATE_RE :: rx where
  "ONEED_CREATE_RE = Seqs [LitI ''ubi'', Many1 sp, LitI ''create'', Many1 sp, LitI ''oneed_cust'', Many1 sp, Grp 1 NUMBER_RX]"

definition CUSTOMER :: bytes where "CUSTOMER = bytes_of ''customer.es''"
definition MISC :: bytes where "MISC = bytes_of ''misc.es''"
definition ONEED :: bytes where "ONEED = bytes_of ''oneed_cust.es''"

definition FIXED :: "bytes list" where
  "FIXED = map bytes_of [''cis.es'', ''ipl.es'', ''ipl_cust.es'', ''uboot.es'', ''kernel.es'', ''rootfs.es'', ''miservice.es'']"

definition block_if :: "bool \<Rightarrow> reason \<Rightarrow> reason list" where
  "block_if c r = (if c then [r] else [])"

subsection \<open>The authorisation of the oneed swap\<close>

definition as_dict :: "('a \<times> 'b) list \<Rightarrow> ('a \<times> 'b) list" where
  "as_dict rows = foldl (\<lambda>d (k, v). AList.update k v d) [] rows"

definition oneed_reasons :: "oneed \<Rightarrow> reason list" where
  "oneed_reasons o' =
     (let swaps = as_dict (on_swaps o'); replaced = on_replaced o' in
      block_if (on_mut_kind o' \<noteq> Some ''oneed'') Oneed_mut_kind
      @ block_if (on_ver_kind o' \<noteq> Some ''oneed'') Oneed_verify_kind
      @ block_if (on_verdict o' \<noteq> Some ''OK'') Oneed_verdict
      @ block_if (swaps = [] \<or> set (map fst replaced) \<noteq> set (map fst swaps)) Oneed_swap_set
      @ concat (map (\<lambda>(p, pin). block_if ((case map_of replaced p of None \<Rightarrow> (None, None) | Some r \<Rightarrow> r) \<noteq> pin) (Oneed_swap_pin p)) swaps)
      @ block_if (on_stock o' \<noteq> None \<and> on_checked o' \<noteq> on_stock o') Oneed_checked)"

subsection \<open>The outer members\<close>

definition member_sha :: "cd_contract \<Rightarrow> bytes \<Rightarrow> string option" where
  "member_sha c n = map_of (rev (cc_members c)) n"

definition sha_differs :: "cd_contract \<Rightarrow> cd_contract \<Rightarrow> bytes \<Rightarrow> bool option" where
  "sha_differs base cand n =
     (case (member_sha base n, member_sha cand n) of (Some x, Some y) \<Rightarrow> Some (x \<noteq> y) | _ \<Rightarrow> None)"

definition outer_reasons :: "cd_contract \<Rightarrow> cd_contract \<Rightarrow> reason list option" where
  "outer_reasons base cand =
     (case (sha_differs base cand (bytes_of ''sysVer.txt''), sha_differs base cand (bytes_of ''adas_upgrade.sh''),
            sha_differs base cand (bytes_of ''minieye_firmware.md5'')) of
        (Some sv, Some up, Some md) \<Rightarrow> Some
          (block_if (set (map fst (cc_members base)) \<noteq> set (map fst (cc_members cand)) \<or> cc_order base \<noteq> cc_order cand) Outer_members
           @ block_if sv (Protected_outer (bytes_of ''sysVer.txt'')) @ block_if up (Protected_outer (bytes_of ''adas_upgrade.sh''))
           @ block_if (\<not> md) Stale_md5 @ block_if (cc_inner cand = cc_inner base) Inner_unchanged)
      | _ \<Rightarrow> None)"

subsection \<open>The payloads\<close>

definition section_loads :: "cd_contract \<Rightarrow> bytes \<Rightarrow> cd_load list" where
  "section_loads c sec = sort_key cl_index (filter (\<lambda>l. cl_section l = sec) (cc_loads c))"

definition load_pairs :: "cd_contract \<Rightarrow> cd_contract \<Rightarrow> bytes \<Rightarrow> (cd_load \<times> cd_load) list" where
  "load_pairs base cand sec = zip (section_loads base sec) (section_loads cand sec)"

definition common_sections :: "cd_contract \<Rightarrow> cd_contract \<Rightarrow> bytes list" where
  "common_sections base cand =
     sort (filter (\<lambda>s. s \<in> set (map cl_section (cc_loads cand))) (remdups (map cl_section (cc_loads base))))"

text \<open>The volume that the candidate's script creates for the oneed image.\<close>

definition create_reasons :: "cd_contract \<Rightarrow> cd_load \<Rightarrow> reason list option" where
  "create_reasons cand c =
     (case finditer ONEED_CREATE_RE (cc_script cand) of
        [] \<Rightarrow> Some [Oneed_no_volume]
      | m # _ \<Rightarrow> map_option (\<lambda>n. block_if (n < cl_size c) Oneed_too_large) (int_base0 (group 1 m)))"

definition pair_reasons :: "bool \<Rightarrow> cd_contract \<Rightarrow> cd_load \<times> cd_load \<Rightarrow> reason list option" where
  "pair_reasons auth cand bc =
     (case bc of (b, c) \<Rightarrow>
        (case (cl_sha b, cl_sha c) of
           (Some x, Some y) \<Rightarrow>
             if cl_section b = CUSTOMER then
               Some (block_if (x = y) Customer_unchanged @ block_if (cl_offset b \<noteq> cl_offset c) Customer_moved)
             else if cl_section b = ONEED \<and> auth then
               map_option (\<lambda>rs. block_if (x = y) Oneed_unchanged @ rs) (create_reasons cand c)
             else Some (block_if (x \<noteq> y) (Payload_changed (cl_section b) (cl_index b))
                 @ block_if (cl_size b \<noteq> cl_size c) (Size_changed (cl_section b) (cl_index b)))
         | _ \<Rightarrow> None))"

definition payload_reasons :: "bool \<Rightarrow> cd_contract \<Rightarrow> cd_contract \<Rightarrow> reason list option" where
  "payload_reasons auth base cand =
     map_option (\<lambda>rss. block_if (set (map cl_section (cc_loads base)) \<noteq> set (map cl_section (cc_loads cand))) Load_sections @ concat rss)
       (those (map (pair_reasons auth cand) (concat (map (load_pairs base cand) (common_sections base cand)))))"

definition customer_delta :: "cd_contract \<Rightarrow> cd_contract \<Rightarrow> int option" where
  "customer_delta base cand =
     (case load_pairs base cand CUSTOMER of [] \<Rightarrow> None | (b, c) # _ \<Rightarrow> Some (int (cl_size c) - int (cl_size b)))"

definition offset_reasons :: "cd_contract \<Rightarrow> cd_contract \<Rightarrow> reason list" where
  "offset_reasons base cand =
     (let delta = (case customer_delta base cand of None \<Rightarrow> 0 | Some d \<Rightarrow> d) in
      block_if (customer_delta base cand = None) No_delta
      @ concat (map (\<lambda>sec. concat (map (\<lambda>(b, c). block_if (int (cl_offset c) \<noteq> int (cl_offset b) + delta) (Not_shifted sec))
            (load_pairs base cand sec))) [MISC, ONEED])
      @ concat (map (\<lambda>sec. concat (map (\<lambda>(b, c). block_if (cl_offset b \<noteq> cl_offset c) (Moved sec)) (load_pairs base cand sec))) FIXED)
      @ block_if (cc_tail base \<noteq> cc_tail cand) Tail_changed)"

subsection \<open>The script\<close>

definition numbers :: "match \<Rightarrow> (nat \<times> nat) option" where
  "numbers m = (case (int_base0 (group 1 m), int_base0 (group 2 m)) of (Some a, Some b) \<Rightarrow> Some (a, b) | _ \<Rightarrow> None)"

definition fatload_numbers :: "bytes \<Rightarrow> (nat \<times> nat) list option" where
  "fatload_numbers script = those (map numbers (finditer FATLOAD_RE script))"

definition ubi_writes :: "bytes \<Rightarrow> (bytes \<times> nat) list option" where
  "ubi_writes script =
     map_option as_dict (those (map (\<lambda>m. map_option (Pair (group 1 m)) (int_base0 (group 2 m))) (finditer UBIWRITE_RE script)))"

text \<open>A changed line is allowed when the load of the base with the same position is in one of the three sections.\<close>

definition allowed_line :: "cd_contract \<Rightarrow> nat \<Rightarrow> bool" where
  "allowed_line base i \<longleftrightarrow> i < length (cc_loads base) \<and> cl_section (cc_loads base ! i) \<in> {CUSTOMER, MISC, ONEED}"

definition fatload_reasons :: "cd_contract \<Rightarrow> (nat \<times> nat) list \<Rightarrow> (nat \<times> nat) list \<Rightarrow> reason list" where
  "fatload_reasons base bf cf =
     (if length bf \<noteq> length cf then [Fatload_count]
      else block_if (list_ex (\<lambda>i. bf ! i \<noteq> cf ! i \<and> \<not> allowed_line base i) [0..<length bf]) Fatload_outside)"

definition first_size :: "cd_contract \<Rightarrow> bytes \<Rightarrow> nat option" where
  "first_size c sec = map_option cl_size (find (\<lambda>l. cl_section l = sec) (cc_loads c))"

definition volume_reasons :: "bool \<Rightarrow> cd_contract \<Rightarrow> cd_contract \<Rightarrow> nat \<Rightarrow> nat \<Rightarrow> bytes \<times> nat \<times> nat \<Rightarrow> reason list" where
  "volume_reasons auth base cand bsize csize v =
     (case v of (vol, bn, cn) \<Rightarrow>
        if vol = bytes_of ''customer'' then block_if (\<not> (bn = bsize \<and> cn = csize)) Customer_write
        else if vol = bytes_of ''oneed_cust'' \<and> auth then
          (case (first_size base ONEED, first_size cand ONEED) of
             (Some b, Some c) \<Rightarrow> block_if (\<not> (bn = b \<and> cn = c)) Oneed_write
           | _ \<Rightarrow> [Oneed_missing])
        else block_if (bn \<noteq> cn) (Volume_size vol))"

definition common_volumes :: "(bytes \<times> nat) list \<Rightarrow> (bytes \<times> nat) list \<Rightarrow> (bytes \<times> nat \<times> nat) list" where
  "common_volumes bw cw =
     map (\<lambda>v. (v, the (map_of bw v), the (map_of cw v))) (sort (filter (\<lambda>v. v \<in> set (map fst cw)) (map fst bw)))"

definition script_reasons :: "bool \<Rightarrow> cd_contract \<Rightarrow> cd_contract \<Rightarrow> reason list option" where
  "script_reasons auth base cand =
     (case (fatload_numbers (cc_script base), fatload_numbers (cc_script cand), ubi_writes (cc_script base), ubi_writes (cc_script cand)) of
        (Some bf, Some cf, Some bw, Some cw) \<Rightarrow>
          (case (first_size base CUSTOMER, first_size cand CUSTOMER) of
             (Some bsize, Some csize) \<Rightarrow> Some
               (fatload_reasons base bf cf
                @ block_if (set (map fst bw) \<noteq> set (map fst cw)) Volumes_changed
                @ concat (map (volume_reasons auth base cand bsize csize) (common_volumes bw cw)))
           | _ \<Rightarrow> None)
      | _ \<Rightarrow> None)"

subsection \<open>The deep evidence and the verdict\<close>

definition deep_reasons :: "deep_report \<Rightarrow> reason list" where
  "deep_reasons d =
     concat (map (\<lambda>k. block_if (map_of (rev (dr_checks d)) k \<noteq> Some (Some ''PASS'')) (Deep_missing k)) [''protected.cardv'', ''protected.adas''])
     @ block_if (dr_verdict d \<noteq> Some ''VALID'' \<and> dr_verdict d \<noteq> Some ''INCOMPLETE_EVIDENCE'') Deep_verdict"

definition candidate_reasons :: "cd_contract \<Rightarrow> cd_contract \<Rightarrow> deep_report \<Rightarrow> oneed option \<Rightarrow> reason list option" where
  "candidate_reasons base cand deep one =
     (case (outer_reasons base cand, payload_reasons (one \<noteq> None) base cand, script_reasons (one \<noteq> None) base cand) of
        (Some r1, Some r2, Some r3) \<Rightarrow>
          Some ((case one of None \<Rightarrow> [] | Some o' \<Rightarrow> oneed_reasons o') @ r1 @ r2 @ offset_reasons base cand @ r3 @ deep_reasons deep)
      | _ \<Rightarrow> None)"

definition gate_exit :: "cd_contract \<Rightarrow> cd_contract \<Rightarrow> deep_report \<Rightarrow> oneed option \<Rightarrow> nat" where
  "gate_exit base cand deep one = (if candidate_reasons base cand deep one = Some [] then 0 else 1)"

subsection \<open>Lemmas\<close>

lemma block_if_Nil [simp]: "block_if c r = [] \<longleftrightarrow> \<not> c"
  by (simp add: block_if_def)

lemma pairs_clean: "concat (map (\<lambda>(b, c). block_if (f b c) r) ps) = [] \<longleftrightarrow> list_all (\<lambda>(b, c). \<not> f b c) ps"
  by (simp add: list_all_iff split_def)

lemma sections_clean:
  "concat (map (\<lambda>sec. concat (map (\<lambda>(b, c). block_if (f b c) (r sec)) (ps sec))) secs) = []
     \<longleftrightarrow> list_all (\<lambda>sec. list_all (\<lambda>(b, c). \<not> f b c) (ps sec)) secs"
  by (simp add: list_all_iff split_def)

lemma gate_cases:
  assumes "candidate_reasons base cand deep one = Some []"
  shows "outer_reasons base cand = Some []" "payload_reasons (one \<noteq> None) base cand = Some []" "script_reasons (one \<noteq> None) base cand = Some []"
    "offset_reasons base cand = []" "deep_reasons deep = []" "one = Some o' \<Longrightarrow> oneed_reasons o' = []"
  using assms by (auto simp: candidate_reasons_def split: option.splits)

lemma pair_clean:
  assumes "payload_reasons auth base cand = Some []" "sec \<in> set (map cl_section (cc_loads base))" "bc \<in> set (load_pairs base cand sec)"
  shows "pair_reasons auth cand bc = Some []"
proof -
  obtain rss where r: "map Some rss = map (pair_reasons auth cand) (concat (map (load_pairs base cand) (common_sections base cand)))" "concat rss = []"
    "set (map cl_section (cc_loads base)) = set (map cl_section (cc_loads cand))"
    using assms(1) by (auto simp: payload_reasons_def dest!: those_Some)
  have "bc \<in> set (concat (map (load_pairs base cand) (common_sections base cand)))"
    using assms(2,3) r(3) by (auto simp: common_sections_def)
  then have "pair_reasons auth cand bc \<in> set (map Some rss)" unfolding r(1) by simp
  then show ?thesis using r(2) by auto
qed

lemma pair_section: "(b, c) \<in> set (load_pairs base cand sec) \<Longrightarrow>
    cl_section b = sec \<and> cl_section c = sec \<and> b \<in> set (cc_loads base) \<and> c \<in> set (cc_loads cand)"
  using set_zip_leftD [of b c "section_loads base sec"] set_zip_rightD [of b c "section_loads base sec" "section_loads cand sec"]
  by (simp add: load_pairs_def) (auto simp: section_loads_def)

text \<open>A contract whose loads are numbered from 0 in each section, as \<open>package_contract.py\<close> numbers them.\<close>

definition numbered :: "cd_contract \<Rightarrow> bool" where
  "numbered c \<longleftrightarrow> list_all (\<lambda>l. map cl_index (section_loads c (cl_section l)) = [0..<length (section_loads c (cl_section l))]) (cc_loads c)"

definition same_counts :: "cd_contract \<Rightarrow> cd_contract \<Rightarrow> bool" where
  "same_counts base cand \<longleftrightarrow> list_all (\<lambda>l. length (section_loads base (cl_section l)) = length (section_loads cand (cl_section l))) (cc_loads cand)"

lemma load_partner:
  assumes "numbered base" "numbered cand" "same_counts base cand" "c \<in> set (cc_loads cand)" "cl_section c \<in> set (map cl_section (cc_loads base))"
  shows "\<exists>b. (b, c) \<in> set (load_pairs base cand (cl_section c)) \<and> cl_index b = cl_index c"
proof -
  let ?bs = "section_loads base (cl_section c)" and ?cs = "section_loads cand (cl_section c)"
  have "c \<in> set ?cs" using assms(4) by (simp add: section_loads_def)
  then obtain i where i: "i < length ?cs" "?cs ! i = c" by (auto simp: in_set_conv_nth)
  have len: "length ?bs = length ?cs" using assms(3,4) by (simp add: same_counts_def list_all_iff)
  obtain l where "l \<in> set (cc_loads base)" "cl_section l = cl_section c" using assms(5) by auto
  then have ib: "map cl_index ?bs = [0..<length ?bs]" using assms(1) unfolding numbered_def list_all_iff by metis
  have ic: "map cl_index ?cs = [0..<length ?cs]" using assms(2,4) by (simp add: numbered_def list_all_iff)
  have "cl_index (?bs ! i) = i" "cl_index (?cs ! i) = i"
    using arg_cong [OF ib, of "\<lambda>xs. xs ! i"] arg_cong [OF ic, of "\<lambda>xs. xs ! i"] i(1) len by simp_all
  moreover have "(?bs ! i, c) \<in> set (zip ?bs ?cs)" using i len by (auto simp: set_zip)
  ultimately show ?thesis using i(2) unfolding load_pairs_def by metis
qed

subsection \<open>Properties\<close>


text \<open>Layout and evidence: an allowed candidate keeps the outer members, the bytes of the two protected ones and the unknown tail,
  moves nothing before the customer image and everything behind it by exactly the growth of the customer image, writes as many bytes of
  the customer image as it has, and has passing deep evidence for both protected programs.\<close>

theorem allowed_layout:
  assumes "gate_exit base cand deep one = 0"
  shows "cc_order cand = cc_order base \<and> set (map fst (cc_members cand)) = set (map fst (cc_members base))
    \<and> member_sha cand (bytes_of ''sysVer.txt'') = member_sha base (bytes_of ''sysVer.txt'')
    \<and> member_sha cand (bytes_of ''adas_upgrade.sh'') = member_sha base (bytes_of ''adas_upgrade.sh'')
    \<and> cc_tail base = cc_tail cand
    \<and> list_all (\<lambda>sec. list_all (\<lambda>(b, c). cl_offset b = cl_offset c) (load_pairs base cand sec)) FIXED
    \<and> (\<exists>d. customer_delta base cand = Some d
         \<and> list_all (\<lambda>sec. list_all (\<lambda>(b, c). int (cl_offset c) = int (cl_offset b) + d) (load_pairs base cand sec)) [MISC, ONEED])
    \<and> map_of (rev (dr_checks deep)) ''protected.cardv'' = Some (Some ''PASS'') \<and> map_of (rev (dr_checks deep)) ''protected.adas'' = Some (Some ''PASS'')"
proof -
  have ok: "candidate_reasons base cand deep one = Some []" using assms by (simp add: gate_exit_def split: if_splits)
  have "cc_order cand = cc_order base \<and> set (map fst (cc_members cand)) = set (map fst (cc_members base))
    \<and> member_sha cand (bytes_of ''sysVer.txt'') = member_sha base (bytes_of ''sysVer.txt'')
    \<and> member_sha cand (bytes_of ''adas_upgrade.sh'') = member_sha base (bytes_of ''adas_upgrade.sh'')"
    using gate_cases(1) [OF ok] by (auto simp: outer_reasons_def sha_differs_def split: option.splits)
  moreover have off: "cc_tail base = cc_tail cand
      \<and> list_all (\<lambda>sec. list_all (\<lambda>(b, c). cl_offset b = cl_offset c) (load_pairs base cand sec)) FIXED
      \<and> (\<exists>d. customer_delta base cand = Some d
        \<and> list_all (\<lambda>sec. list_all (\<lambda>(b, c). int (cl_offset c) = int (cl_offset b) + d) (load_pairs base cand sec)) [MISC, ONEED])"
    using gate_cases(4) [OF ok] unfolding offset_reasons_def Let_def append_is_Nil_conv sections_clean block_if_Nil
    by (cases "customer_delta base cand") simp_all
  moreover have "map_of (rev (dr_checks deep)) ''protected.cardv'' = Some (Some ''PASS'')"
      "map_of (rev (dr_checks deep)) ''protected.adas'' = Some (Some ''PASS'')"
    using gate_cases(5) [OF ok] by (simp_all add: deep_reasons_def)
  ultimately show ?thesis by blast
qed

subsection \<open>Witnesses\<close>

definition demo_load :: "string \<Rightarrow> nat \<Rightarrow> nat \<Rightarrow> string \<Rightarrow> cd_load" where
  "demo_load sec off sz h = \<lparr>cl_section = bytes_of sec, cl_index = 0, cl_offset = off, cl_size = sz, cl_sha = Some h\<rparr>"

definition demo_cand :: "nat \<Rightarrow> string \<Rightarrow> cd_contract" where
  "demo_cand n h =
     \<lparr>cc_members = [(bytes_of ''sysVer.txt'', ''s''), (bytes_of ''adas_upgrade.sh'', ''u''), (bytes_of ''minieye_firmware.md5'', h)],
      cc_order = [], cc_inner = h,
      cc_loads = [demo_load ''kernel.es'' 64 8 ''k'', demo_load ''customer.es'' 128 n h, demo_load ''misc.es'' (256 + n) 4 ''m''],
      cc_tail = ''31'', cc_script = []\<rparr>"

definition demo_deep :: deep_report where
  "demo_deep = \<lparr>dr_checks = [(''protected.cardv'', Some ''PASS''), (''protected.adas'', Some ''PASS'')], dr_verdict = Some ''VALID''\<rparr>"

lemma demo_cand_facts:
  "numbered (demo_cand n h)" "same_counts (demo_cand 16 ''a'') (demo_cand 24 ''b'')"
  "gate_exit (demo_cand 16 ''a'') (demo_cand 24 ''b'') demo_deep None = 0"
proof -
  have empty: "finditer r [] = (case match_at r [] 0 of None \<Rightarrow> [] | Some m \<Rightarrow> [m])" for r
    by (simp add: finditer_def finditer_from.simps split: option.split)
  have "match_at FATLOAD_RE [] 0 = None" "match_at UBIWRITE_RE [] 0 = None"
    by (simp_all add: match_at_def FATLOAD_RE_def UBIWRITE_RE_def LitI_def bytes_of_def)
  then have none: "finditer FATLOAD_RE [] = []" "finditer UBIWRITE_RE [] = []" by (simp_all add: empty)
  have sections: "section_loads (demo_cand m i) s = filter (\<lambda>l. cl_section l = s) (cc_loads (demo_cand m i))" for m i s
    by (simp add: section_loads_def demo_cand_def demo_load_def)
  show "numbered (demo_cand n h)"
    by (simp add: numbered_def sections) (simp add: demo_cand_def demo_load_def bytes_of_def)
  show "same_counts (demo_cand 16 ''a'') (demo_cand 24 ''b'')"
    by (simp add: same_counts_def sections) (simp add: demo_cand_def demo_load_def bytes_of_def)
  show "gate_exit (demo_cand 16 ''a'') (demo_cand 24 ''b'') demo_deep None = 0"
  proof -
    let ?a = "demo_cand 16 ''a''" and ?b = "demo_cand 24 ''b''"
    have cm: "common_sections ?a ?b = [CUSTOMER, bytes_of ''kernel.es'', MISC]"
      by (simp add: common_sections_def demo_cand_def demo_load_def CUSTOMER_def MISC_def) (simp add: bytes_of_def)
    have lp: "load_pairs ?a ?b CUSTOMER = [(demo_load ''customer.es'' 128 16 ''a'', demo_load ''customer.es'' 128 24 ''b'')]"
      "load_pairs ?a ?b (bytes_of ''kernel.es'') = [(demo_load ''kernel.es'' 64 8 ''k'', demo_load ''kernel.es'' 64 8 ''k'')]"
      "load_pairs ?a ?b MISC = [(demo_load ''misc.es'' 272 4 ''m'', demo_load ''misc.es'' 280 4 ''m'')]"
      "load_pairs ?a ?b ONEED = []" "load_pairs ?a ?b (bytes_of ''cis.es'') = []" "load_pairs ?a ?b (bytes_of ''ipl.es'') = []"
      "load_pairs ?a ?b (bytes_of ''ipl_cust.es'') = []" "load_pairs ?a ?b (bytes_of ''uboot.es'') = []"
      "load_pairs ?a ?b (bytes_of ''rootfs.es'') = []" "load_pairs ?a ?b (bytes_of ''miservice.es'') = []"
      by (simp_all add: load_pairs_def sections) (simp_all add: demo_cand_def demo_load_def CUSTOMER_def MISC_def ONEED_def bytes_of_def)
    have names: "CUSTOMER = bytes_of ''customer.es''" "MISC = bytes_of ''misc.es''" "ONEED = bytes_of ''oneed_cust.es''"
      by (simp_all add: CUSTOMER_def MISC_def ONEED_def)
    have "outer_reasons ?a ?b = Some []"
      by (simp add: outer_reasons_def sha_differs_def member_sha_def demo_cand_def)
    moreover have "payload_reasons False ?a ?b = Some []"
      unfolding payload_reasons_def cm [unfolded names]
      by (simp add: lp [unfolded names] pair_reasons_def demo_load_def names block_if_def) (auto simp: demo_cand_def demo_load_def)
    moreover have "customer_delta ?a ?b = Some 8" by (simp add: customer_delta_def lp) (simp add: demo_load_def)
    then have "offset_reasons ?a ?b = []"
      by (simp add: offset_reasons_def lp FIXED_def block_if_def) (simp add: demo_load_def demo_cand_def)
    moreover have "script_reasons False ?a ?b = Some []"
      by (simp add: script_reasons_def fatload_numbers_def ubi_writes_def as_dict_def demo_cand_def none first_size_def demo_load_def names
          fatload_reasons_def common_volumes_def)
    moreover have "deep_reasons demo_deep = []" by (simp add: deep_reasons_def demo_deep_def)
    ultimately show ?thesis by (simp add: gate_exit_def candidate_reasons_def)
  qed
qed


theorem allowed_layout_witness:
  "customer_delta (demo_cand 16 ''a'') (demo_cand 24 ''b'') \<noteq> None"
  using allowed_layout [OF demo_cand_facts(3)] by auto

end
