(* ===== verification/ElfGate.thy ===== *)
theory ElfGate
  imports Prelude "HOL-Library.AList"
begin

text \<open>
  The ELF compatibility gate \<open>fw/device_minimal/check_elf.py\<close>: the parser of ELF32 headers, the decoder of the
  \<open>.ARM.attributes\<close> section, the reader of version needs and of the dynamic section, and all checks of \<open>main\<close>. A file is its
  bytes; every exception (\<open>IndexError\<close>, \<open>struct.error\<close>, \<open>ValueError\<close>, \<open>SystemExit\<close>) is \<open>None\<close>: the program ends
  with a non-zero status before its verdict.

  Shown: the loops end; ULEB128 numbers and whole attribute sections decode to what was encoded; a binary that passes
  the dynamic gate needs no library outside the allow list and no GLIBC version above the cap; a static one has neither an
  interpreter nor a dynamic segment.
\<close>

subsection \<open>Reading\<close>

definition le_field :: "bytes \<Rightarrow> nat \<Rightarrow> nat \<Rightarrow> nat option" where
  "le_field d off n = (if off + n \<le> length d then Some (le_nat (slice d off (off + n))) else None)"

text \<open>\<open>struct.unpack_from\<close>: consecutive fields of the given widths.\<close>

fun unpack_fields :: "nat list \<Rightarrow> bytes \<Rightarrow> nat \<Rightarrow> nat list option" where
  "unpack_fields [] d off = Some []"
| "unpack_fields (w # ws) d off =
     (case le_field d off w of
        None \<Rightarrow> None
      | Some v \<Rightarrow> map_option (\<lambda>vs. v # vs) (unpack_fields ws d (off + w)))"

fun uleb_from :: "nat \<Rightarrow> nat \<Rightarrow> bytes \<Rightarrow> (nat \<times> bytes) option" where
  "uleb_from out shift [] = None"
| "uleb_from out shift (b # bs) =
     (let out' = out + (unat b mod 128) * 2 ^ shift in
      if unat b < 128 then Some (out', bs) else uleb_from out' (shift + 7) bs)"

definition uleb :: "bytes \<Rightarrow> (nat \<times> bytes) option" where
  "uleb bs = uleb_from 0 0 bs"

definition ntbs :: "bytes \<Rightarrow> (bytes \<times> bytes) option" where
  "ntbs bs = (if 0 \<in> set bs then Some (takeWhile (\<lambda>b. b \<noteq> 0) bs, tl (dropWhile (\<lambda>b. b \<noteq> 0) bs)) else None)"

text \<open>A text up to the next NUL; without one \<open>find\<close> gives \<open>-1\<close> and the last byte is cut off.\<close>

definition cstr_at :: "bytes \<Rightarrow> nat \<Rightarrow> bytes" where
  "cstr_at d off =
     (if 0 \<in> set (drop off d) then takeWhile (\<lambda>b. b \<noteq> 0) (drop off d) else py_slice d (int off) (- 1))"

subsection \<open>Headers\<close>

record phdr =
  ph_type :: nat
  ph_off :: nat
  ph_vaddr :: nat
  ph_filesz :: nat
  ph_flags :: nat

record section_hdr =
  sh_name :: nat
  sh_off :: nat
  sh_size :: nat

record elf =
  el_class :: nat
  el_data :: nat
  el_osabi :: nat
  el_type :: nat
  el_machine :: nat
  el_flags :: nat
  el_phdrs :: "phdr list"
  el_sections :: "(bytes \<times> section_hdr) list"
  el_raw :: bytes

definition read_phdr :: "bytes \<Rightarrow> nat \<Rightarrow> phdr option" where
  "read_phdr d off =
     map_option (\<lambda>f. \<lparr>ph_type = f ! 0, ph_off = f ! 1, ph_vaddr = f ! 2, ph_filesz = f ! 4, ph_flags = f ! 6\<rparr>)
       (unpack_fields (replicate 8 4) d off)"

definition read_shdr :: "bytes \<Rightarrow> nat \<Rightarrow> section_hdr option" where
  "read_shdr d off =
     map_option (\<lambda>f. \<lparr>sh_name = f ! 0, sh_off = f ! 4, sh_size = f ! 5\<rparr>) (unpack_fields (replicate 10 4) d off)"

definition HEADER_FIELDS :: "nat list" where
  "HEADER_FIELDS = [2, 2, 4, 4, 4, 4, 4, 2, 2, 2, 2, 2, 2]"

definition ELF_MAGIC :: bytes where "ELF_MAGIC = [127, 69, 76, 70]"

definition parse_elf :: "bytes \<Rightarrow> elf option" where
  "parse_elf d =
     (if take 4 d \<noteq> ELF_MAGIC \<or> length d < 8 then None
      else case unpack_fields HEADER_FIELDS d 16 of
        None \<Rightarrow> None
      | Some f \<Rightarrow>
          (case (those (map (\<lambda>i. read_phdr d (f ! 4 + i * 32)) [0..<f ! 9]), those (map (\<lambda>i. read_shdr d (f ! 5 + i * 40)) [0..<f ! 11])) of
             (Some phs, Some secs) \<Rightarrow>
               if length secs \<le> f ! 12 then None
               else (let sh = secs ! (f ! 12); shstr = slice d (sh_off sh) (sh_off sh + sh_size sh) in
                 Some \<lparr>el_class = unat (d ! 4), el_data = unat (d ! 5), el_osabi = unat (d ! 7), el_type = f ! 0, el_machine = f ! 1,
                   el_flags = f ! 6, el_phdrs = phs, el_sections = map (\<lambda>s. (cstr_at shstr (sh_name s), s)) secs, el_raw = d\<rparr>)
           | _ \<Rightarrow> None))"

text \<open>\<open>e["sections"]\<close> is a dict: of two sections with one name the later one counts.\<close>

definition section_of :: "elf \<Rightarrow> string \<Rightarrow> section_hdr option" where
  "section_of e n = map_of (rev (el_sections e)) (bytes_of n)"

fun vaddr_to_offset :: "phdr list \<Rightarrow> nat \<Rightarrow> nat option" where
  "vaddr_to_offset [] v = None"
| "vaddr_to_offset (p # ps) v =
     (if ph_type p = 1 \<and> ph_vaddr p \<le> v \<and> v < ph_vaddr p + ph_filesz p then Some (ph_off p + (v - ph_vaddr p))
      else vaddr_to_offset ps v)"

subsection \<open>The build attributes\<close>

datatype attr = Number nat | Text bytes

lemma uleb_from_shorter: "uleb_from out shift bs = Some (v, rest) \<Longrightarrow> length rest < length bs"
  by (induction out shift bs rule: uleb_from.induct) (auto simp: Let_def split: if_splits)

lemma uleb_shorter: "uleb bs = Some (v, rest) \<Longrightarrow> length rest < length bs"
  by (auto simp: uleb_def uleb_from_shorter)

lemma ntbs_length: "ntbs bs = Some (s, rest) \<Longrightarrow> length rest < length bs"
proof -
  assume a: "ntbs bs = Some (s, rest)"
  then have z: "0 \<in> set bs" "rest = tl (dropWhile (\<lambda>b. b \<noteq> 0) bs)" by (auto simp: ntbs_def split: if_splits)
  then have "dropWhile (\<lambda>b. b \<noteq> 0) bs \<noteq> []" by (auto simp: dropWhile_eq_Nil_conv)
  then show ?thesis using z(2) length_dropWhile_le [of "\<lambda>b. b \<noteq> 0" bs] by (cases "dropWhile (\<lambda>b. b \<noteq> 0) bs") auto
qed

text \<open>The loop of \<open>decode_attrs\<close> behind the vendor name. Tag 1 opens a subsection, whose size is skipped.\<close>

function attrs_from :: "bytes \<Rightarrow> (nat \<times> attr) list \<Rightarrow> (nat \<times> attr) list option" where
  "attrs_from bs out =
     (if bs = [] then Some out
      else case uleb bs of
        None \<Rightarrow> None
      | Some (tag, r) \<Rightarrow>
          if tag = 1 then (if length r < 4 then None else attrs_from (drop 4 r) out)
          else if tag = 5 then (case ntbs r of None \<Rightarrow> None | Some (s, r') \<Rightarrow> attrs_from r' (AList.update tag (Text s) out))
          else (case uleb r of None \<Rightarrow> None | Some (v, r') \<Rightarrow> attrs_from r' (AList.update tag (Number v) out)))"
  by pat_completeness auto
termination
  by (relation "measure (\<lambda>(bs, out). length bs)")
    (auto dest!: uleb_shorter ntbs_length)

declare attrs_from.simps [simp del]

definition decode_attrs :: "bytes \<Rightarrow> (nat \<times> attr) list option" where
  "decode_attrs blob =
     (if take 1 blob \<noteq> [65] then None
      else case ntbs (drop 5 blob) of
        None \<Rightarrow> None
      | Some (vendor, r) \<Rightarrow> if vendor \<noteq> bytes_of ''aeabi'' then None else attrs_from r [])"

subsection \<open>Version needs and the dynamic section\<close>

fun aux_names :: "nat \<Rightarrow> bytes \<Rightarrow> nat \<Rightarrow> nat \<Rightarrow> bytes list option" where
  "aux_names 0 d str a = Some []"
| "aux_names (Suc n) d str a =
     (case unpack_fields [4, 2, 2, 4, 4] d a of
        None \<Rightarrow> None
      | Some f \<Rightarrow>
          (let s = cstr_at d (str + f ! 3); keep = (if prefix (bytes_of ''GLIBC_'') s then [s] else []) in
           if f ! 4 = 0 then Some keep else map_option (\<lambda>ss. keep @ ss) (aux_names n d str (a + f ! 4))))"

lemma unpack_fields_bound: "unpack_fields ws d off = Some f \<Longrightarrow> off + sum_list ws \<le> length d \<or> ws = []"
proof (induction ws arbitrary: off f)
  case (Cons w ws)
  then have "off + w \<le> length d" by (auto simp: le_field_def split: if_splits option.splits)
  then show ?case using Cons by (cases "ws = []") (fastforce split: option.splits)+
qed simp

function verneed :: "bytes \<Rightarrow> nat \<Rightarrow> nat \<Rightarrow> nat \<Rightarrow> bytes list option" where
  "verneed d str stop off =
     (if stop \<le> off then Some []
      else case unpack_fields [2, 2, 4, 4, 4] d off of
        None \<Rightarrow> None
      | Some f \<Rightarrow>
          if f ! 0 = 0 then Some []
          else (case aux_names (f ! 1) d str (off + f ! 3) of
              None \<Rightarrow> None
            | Some names \<Rightarrow>
                if f ! 4 = 0 then Some names else map_option (\<lambda>ss. names @ ss) (verneed d str stop (off + f ! 4))))"
  by pat_completeness auto
termination
  by (relation "measure (\<lambda>(d, str, stop, off). stop - off)") auto

declare verneed.simps [simp del]

text \<open>The names as a list; the source keeps them in a set.\<close>

definition glibc_needs :: "elf \<Rightarrow> bytes list option" where
  "glibc_needs e =
     (case (section_of e ''.gnu.version_r'', section_of e ''.dynstr'') of
        (Some vr, Some ds) \<Rightarrow> verneed (el_raw e) (sh_off ds) (sh_off vr + sh_size vr) (sh_off vr)
      | _ \<Rightarrow> Some [])"

definition dyn_entries :: "bytes \<Rightarrow> nat \<Rightarrow> nat \<Rightarrow> (nat \<times> nat) list option" where
  "dyn_entries d doff n = those (map (\<lambda>i. map_option (\<lambda>f. (f ! 0, f ! 1)) (unpack_fields [4, 4] d (doff + i * 8))) [0..<n])"

text \<open>\<open>strtab\<close> is what the last tag 5 maps to, \<open>None\<close> included.\<close>

definition strtab_of :: "elf \<Rightarrow> (nat \<times> nat) list \<Rightarrow> nat option" where
  "strtab_of e ents =
     (case filter (\<lambda>t. fst t = 5) ents of [] \<Rightarrow> None | ts \<Rightarrow> vaddr_to_offset (el_phdrs e) (snd (last ts)))"

definition dynamic_needed :: "elf \<Rightarrow> bytes list option" where
  "dynamic_needed e =
     (case find (\<lambda>p. ph_type p = 2) (el_phdrs e) of
        None \<Rightarrow> Some []
      | Some dyn \<Rightarrow>
          (case vaddr_to_offset (el_phdrs e) (ph_vaddr dyn) of
             None \<Rightarrow> None
           | Some doff \<Rightarrow>
               (case dyn_entries (el_raw e) doff (ph_filesz dyn div 8) of
                  None \<Rightarrow> None
                | Some ents \<Rightarrow>
                    map_option (\<lambda>strtab. map (\<lambda>t. cstr_at (el_raw e) (strtab + snd t)) (filter (\<lambda>t. fst t = 1) ents)) (strtab_of e ents))))"

subsection \<open>Versions\<close>

definition is_dig :: "byte \<Rightarrow> bool" where "is_dig b \<longleftrightarrow> 48 \<le> b \<and> b \<le> 57"

text \<open>\<open>int(text)\<close>: white space around, a sign, digits with single underscores between them.\<close>

definition digits_ok :: "bytes \<Rightarrow> bool" where
  "digits_ok t \<longleftrightarrow> list_all (\<lambda>part. part \<noteq> [] \<and> list_all is_dig part) (split_on 95 t)
     \<and> length (filter is_dig t) \<le> 4300"

definition py_int_text :: "bytes \<Rightarrow> int option" where
  "py_int_text t =
     (let u = strip_by ascii_space t; neg = prefix [45] u; ds = (if neg \<or> prefix [43] u then drop 1 u else u);
          v = foldl (\<lambda>n b. 10 * n + (int (unat b) - 48)) 0 (filter is_dig ds) in
      if digits_ok ds then Some (if neg then - v else v) else None)"

definition dotted :: "bytes \<Rightarrow> int list option" where
  "dotted t = those (map py_int_text (split_on 46 t))"

definition ver_tuple :: "bytes \<Rightarrow> int list option" where
  "ver_tuple s = dotted (if 95 \<in> set s then snd (split_once 95 s) else s)"

subsection \<open>The gate\<close>

record gate_args =
  ga_dynamic :: bool
  ga_cap :: bytes
  ga_object :: "bytes option"
  ga_libc_simd :: bool

type_synonym gate_row = "string \<times> bool"

definition INTERP_WANT :: bytes where "INTERP_WANT = bytes_of ''/lib/ld-linux-armhf.so.3''"
definition NEEDED_ALLOW :: "bytes list" where
  "NEEDED_ALLOW = map bytes_of [''libc.so.6'', ''libm.so.6'', ''libgcc_s.so.1'', ''libdl.so.2'']"

definition header_rows :: "elf \<Rightarrow> gate_row list" where
  "header_rows e =
     [(''elf.magic'', True), (''elf.class32'', el_class e = 1), (''elf.le'', el_data e = 1), (''elf.exec'', el_type e = 2),
      (''elf.arm'', el_machine e = 0x28), (''elf.osabi'', el_osabi e = 0 \<or> el_osabi e = 3),
      (''elf.eabi5'', el_flags e div 2 ^ 24 = 5), (''elf.hardfloat'', bit (el_flags e) 10 \<and> \<not> bit (el_flags e) 9)]"

text \<open>The attributes of a file: \<open>Some None\<close> without the section, \<open>None\<close> when it cannot be decoded.\<close>

definition elf_attrs :: "elf \<Rightarrow> (nat \<times> attr) list option option" where
  "elf_attrs e =
     (case section_of e ''.ARM.attributes'' of
        None \<Rightarrow> Some None
      | Some f \<Rightarrow> map_option Some (decode_attrs (slice (el_raw e) (sh_off f) (sh_off f + sh_size f))))"

definition attr_rows :: "gate_args \<Rightarrow> (nat \<times> attr) list option \<Rightarrow> gate_row list" where
  "attr_rows args found =
     (let a = map_of (case found of None \<Rightarrow> [] | Some xs \<Rightarrow> xs) in
      [(''attr.present'', found \<noteq> None), (''attr.cpu_arch_v7'', a 6 = Some (Number 10)), (''attr.profile_A'', a 7 = Some (Number 65)),
       (''attr.fp_vfpv3d16'', a 10 = Some (Number 4)),
       (''attr.no_simd'', a 12 = None \<or> ga_libc_simd args \<and> ga_object args \<noteq> None),
       (''attr.vfp_args'', a 28 = Some (Number 1)), (''attr.align8'', a 24 = Some (Number 1) \<and> a 25 = Some (Number 1))])"

definition stack_rows :: "elf \<Rightarrow> gate_row list" where
  "stack_rows e =
     (case find (\<lambda>p. ph_type p = 0x6474E551) (el_phdrs e) of
        None \<Rightarrow> [(''stack.note'', False)]
      | Some p \<Rightarrow> [(''stack.note'', ph_flags p mod 8 = 6)])"

definition object_rows :: "bytes \<Rightarrow> gate_row list option" where
  "object_rows blob =
     (case parse_elf blob of
        None \<Rightarrow> None
      | Some o' \<Rightarrow>
          map_option (\<lambda>found.
              [(''tu.type'', el_type o' = 1), (''tu.arm'', el_machine o' = 0x28)]
              @ (case found of
                   None \<Rightarrow> [(''tu.attr'', False)]
                 | Some xs \<Rightarrow> [(''tu.attr'', True), (''tu.no_simd'', map_of xs 12 = None), (''tu.fp_vfpv3d16'', map_of xs 10 = Some (Number 4)),
                     (''tu.vfp_args'', map_of xs 28 = Some (Number 1))]))
            (elf_attrs o'))"

definition static_rows :: "elf \<Rightarrow> gate_row list" where
  "static_rows e =
     [(''static.no_interp'', \<not> list_ex (\<lambda>p. ph_type p = 3) (el_phdrs e)), (''static.no_dynamic'', \<not> list_ex (\<lambda>p. ph_type p = 2) (el_phdrs e)),
      (''static.no_verneed'', section_of e ''.gnu.version_r'' = None)]"

definition interp_of :: "elf \<Rightarrow> bytes" where
  "interp_of e =
     (case filter (\<lambda>p. ph_type p = 3) (el_phdrs e) of
        [] \<Rightarrow> []
      | ps \<Rightarrow> rev (dropWhile (\<lambda>b. b = 0) (rev (slice (el_raw e) (ph_off (last ps)) (ph_off (last ps) + ph_filesz (last ps))))))"

text \<open>Python orders tuples lexicographically.\<close>

fun tuple_le :: "int list \<Rightarrow> int list \<Rightarrow> bool" where
  "tuple_le [] ys = True"
| "tuple_le (x # xs) [] = False"
| "tuple_le (x # xs) (y # ys) = (x < y \<or> x = y \<and> tuple_le xs ys)"

definition later :: "int list \<Rightarrow> int list \<Rightarrow> int list" where
  "later a b = (if tuple_le b a then a else b)"

definition worst_need :: "int list list \<Rightarrow> int list" where
  "worst_need vs = (case vs of [] \<Rightarrow> [0] | v # r \<Rightarrow> foldl later v r)"

definition dynamic_rows :: "gate_args \<Rightarrow> elf \<Rightarrow> gate_row list option" where
  "dynamic_rows args e =
     (case (dynamic_needed e, glibc_needs e) of
        (Some needed, Some needs) \<Rightarrow>
          (case (those (map ver_tuple needs), dotted (ga_cap args)) of
             (Some vs, Some cap) \<Rightarrow> Some
               [(''dyn.interp'', interp_of e = INTERP_WANT), (''dyn.needed'', list_all (\<lambda>n. n \<in> set NEEDED_ALLOW) needed),
                (''dyn.glibc'', worst_need vs = [] \<or> tuple_le (worst_need vs) cap)]
           | _ \<Rightarrow> None)
      | _ \<Rightarrow> None)"

definition gate_rows :: "gate_args \<Rightarrow> bytes \<Rightarrow> gate_row list option" where
  "gate_rows args d =
     (case parse_elf d of
        None \<Rightarrow> None
      | Some e \<Rightarrow>
          (case (elf_attrs e, case ga_object args of None \<Rightarrow> Some [] | Some b \<Rightarrow> object_rows b,
                 if ga_dynamic args then dynamic_rows args e else Some (static_rows e)) of
             (Some found, Some tu, Some link) \<Rightarrow> Some (header_rows e @ attr_rows args found @ stack_rows e @ tu @ link)
           | _ \<Rightarrow> None))"

definition elf_gate :: "gate_args \<Rightarrow> bytes \<Rightarrow> nat" where
  "elf_gate args d = (case gate_rows args d of None \<Rightarrow> 1 | Some rows \<Rightarrow> if list_all snd rows then 0 else 1)"

subsection \<open>Attribute sections decode to what was encoded\<close>

fun put_uleb :: "nat \<Rightarrow> bytes" where
  "put_uleb n = (if n < 128 then [of_nat n] else of_nat (128 + n mod 128) # put_uleb (n div 128))"

declare put_uleb.simps [simp del]

lemma unat_byte_of_nat: "n < 256 \<Longrightarrow> unat (of_nat n :: byte) = n"
  by (simp add: unat_of_nat)

lemma uleb_from_put: "uleb_from out shift (put_uleb n @ bs) = Some (out + n * 2 ^ shift, bs)"
proof (induction n arbitrary: out shift rule: put_uleb.induct)
  case (1 n)
  show ?case
  proof (cases "n < 128")
    case True
    then show ?thesis by (subst put_uleb.simps) (simp add: unat_byte_of_nat Let_def)
  next
    case False
    have "(n mod 128) * 2 ^ shift + n div 128 * 2 ^ (shift + 7) = (n mod 128 + n div 128 * 128) * 2 ^ shift"
      unfolding power_add add_mult_distrib by simp
    then have e: "(n mod 128) * 2 ^ shift + n div 128 * 2 ^ (shift + 7) = n * 2 ^ shift"
      by (simp only: mod_div_mult_eq)
    have u: "unat (of_nat (128 + n mod 128) :: byte) = 128 + n mod 128"
      by (rule unat_byte_of_nat) (use mod_less_divisor [of 128 n] in linarith)
    have step: "uleb_from out shift (of_nat (128 + n mod 128) # bs') = uleb_from (out + (n mod 128) * 2 ^ shift) (shift + 7) bs'" for bs'
      by (simp only: uleb_from.simps u Let_def) simp
    show ?thesis using False 1 [OF False, of "out + (n mod 128) * 2 ^ shift" "shift + 7"] e
      by (subst put_uleb.simps) (simp only: append_Cons step if_False add.assoc)
  qed
qed

lemma uleb_put: "uleb (put_uleb n @ bs) = Some (n, bs)"
  by (simp add: uleb_def uleb_from_put)

lemma ntbs_put: "0 \<notin> set s \<Longrightarrow> ntbs (s @ 0 # bs) = Some (s, bs)"
  by (induction s) (auto simp: ntbs_def)

definition attr_fits :: "nat \<times> attr \<Rightarrow> bool" where
  "attr_fits tv \<longleftrightarrow> (case snd tv of Number v \<Rightarrow> fst tv \<noteq> 1 \<and> fst tv \<noteq> 5 | Text s \<Rightarrow> fst tv = 5 \<and> 0 \<notin> set s)"

definition put_attr :: "nat \<times> attr \<Rightarrow> bytes" where
  "put_attr tv = put_uleb (fst tv) @ (case snd tv of Number v \<Rightarrow> put_uleb v | Text s \<Rightarrow> s @ [0])"

definition attr_section :: "bytes \<Rightarrow> bytes \<Rightarrow> (nat \<times> attr) list \<Rightarrow> bytes" where
  "attr_section len sz tvs = 65 # len @ bytes_of ''aeabi'' @ 0 # put_uleb 1 @ sz @ concat (map put_attr tvs)"

lemma put_uleb_not_Nil [simp]: "put_uleb n \<noteq> []"
  by (subst put_uleb.simps) simp

lemma attrs_from_attr:
  assumes "attr_fits tv"
  shows "attrs_from (put_attr tv @ bs) out = attrs_from bs (AList.update (fst tv) (snd tv) out)"
proof (cases "snd tv")
  case (Number v)
  then show ?thesis using assms
    by (subst attrs_from.simps) (simp add: put_attr_def attr_fits_def uleb_put)
next
  case (Text s)
  then show ?thesis using assms
    by (subst attrs_from.simps) (simp add: put_attr_def attr_fits_def uleb_put ntbs_put)
qed

lemma attrs_from_put:
  "list_all attr_fits tvs \<Longrightarrow> attrs_from (concat (map put_attr tvs)) out = Some (foldl (\<lambda>o' tv. AList.update (fst tv) (snd tv) o') out tvs)"
  by (induction tvs arbitrary: out) (simp_all add: attrs_from_attr attrs_from.simps [of "[]"])

lemma map_of_updates:
  "map_of (foldl (\<lambda>o' tv. AList.update (fst tv) (snd tv) o') out tvs) = map_of out ++ map_of (rev tvs)"
  by (induction tvs arbitrary: out) (auto simp: update_conv' map_add_assoc [symmetric] fun_upd_def map_add_def split: option.splits)

text \<open>An attribute section decodes to its attributes; of a repeated tag the last value counts.\<close>

theorem attributes_roundtrip:
  "length len = 4 \<Longrightarrow> length sz = 4 \<Longrightarrow> list_all attr_fits tvs \<Longrightarrow>
   \<exists>out. decode_attrs (attr_section len sz tvs) = Some out \<and> map_of out = map_of (rev tvs)"
proof -
  assume a: "length len = 4" "length sz = 4" "list_all attr_fits tvs"
  have d: "drop 5 (attr_section len sz tvs) = bytes_of ''aeabi'' @ 0 # put_uleb 1 @ sz @ concat (map put_attr tvs)"
    using a(1) by (simp add: attr_section_def)
  have z: "0 \<notin> set (bytes_of ''aeabi'')" by (simp add: bytes_of_def)
  have "decode_attrs (attr_section len sz tvs) = attrs_from (put_uleb 1 @ sz @ concat (map put_attr tvs)) []"
    unfolding decode_attrs_def d ntbs_put [OF z] by (simp add: attr_section_def)
  also have "\<dots> = attrs_from (concat (map put_attr tvs)) []"
    using a(2) by (subst attrs_from.simps) (simp add: uleb_put)
  finally have "decode_attrs (attr_section len sz tvs) = Some (foldl (\<lambda>o' tv. AList.update (fst tv) (snd tv) o') [] tvs)"
    using attrs_from_put [OF a(3)] by simp
  then show ?thesis using map_of_updates [of "[]" tvs] by auto
qed

subsection \<open>What a passing gate guarantees\<close>

lemma tuple_le_refl [simp]: "tuple_le xs xs"
  by (induction xs) auto

lemma tuple_le_total: "tuple_le xs ys \<or> tuple_le ys xs"
  by (induction xs ys rule: tuple_le.induct) auto

lemma tuple_le_trans: "tuple_le xs ys \<Longrightarrow> tuple_le ys zs \<Longrightarrow> tuple_le xs zs"
proof (induction xs ys arbitrary: zs rule: tuple_le.induct)
  case (3 x xs y ys)
  then show ?case by (cases zs) auto
qed auto

lemma tuple_le_Nil [simp]: "tuple_le xs [] \<longleftrightarrow> xs = []"
  by (cases xs) auto

lemma later_ge: "tuple_le a (later a b)" "tuple_le b (later a b)"
  using tuple_le_total [of a b] by (auto simp: later_def)

lemma later_fold_ge: "tuple_le a (foldl later a vs)"
  by (induction vs arbitrary: a) (auto intro: tuple_le_trans [OF later_ge(1)])

lemma later_fold_max: "v \<in> set vs \<Longrightarrow> tuple_le v (foldl later a vs)"
  by (induction vs arbitrary: a) (auto intro: tuple_le_trans [OF later_ge(2) later_fold_ge])

lemma worst_need_max: "v \<in> set vs \<Longrightarrow> tuple_le v (worst_need vs)"
  by (cases vs) (auto simp: worst_need_def later_fold_ge later_fold_max)

lemma those_nth: "those xs = Some ys \<Longrightarrow> y \<in> set ys \<longleftrightarrow> Some y \<in> set xs"
  by (induction xs arbitrary: ys) (auto split: option.splits)

lemma those_no_None: "those xs = Some ys \<Longrightarrow> None \<notin> set xs"
  by (induction xs arbitrary: ys) (auto split: option.splits)

lemma gate_passed:
  assumes "elf_gate args d = 0"
  obtains e found tu link where "parse_elf d = Some e" "elf_attrs e = Some found"
    "(case ga_object args of None \<Rightarrow> Some [] | Some b \<Rightarrow> object_rows b) = Some tu"
    "(if ga_dynamic args then dynamic_rows args e else Some (static_rows e)) = Some link"
    "list_all snd (header_rows e @ attr_rows args found @ stack_rows e @ tu @ link)"
  using assms by (fastforce simp: elf_gate_def gate_rows_def split: option.splits if_splits prod.splits)

text \<open>C23. A binary that passes the dynamic gate asks for no library outside the allow list, and every GLIBC version it
  needs has a numeric form that is at most the cap.\<close>

theorem dynamic_needs_capped:
  assumes "elf_gate args d = 0" "ga_dynamic args"
  shows "\<exists>e needed needs cap. parse_elf d = Some e \<and> dynamic_needed e = Some needed \<and> glibc_needs e = Some needs \<and> dotted (ga_cap args) = Some cap
     \<and> set needed \<subseteq> set NEEDED_ALLOW \<and> (\<forall>s \<in> set needs. \<exists>v. ver_tuple s = Some v \<and> tuple_le v cap)"
proof -
  obtain e found tu link where e: "parse_elf d = Some e" "dynamic_rows args e = Some link" "list_all snd link"
    using assms by (elim gate_passed) simp
  obtain needed needs vs cap where n: "dynamic_needed e = Some needed" "glibc_needs e = Some needs" "those (map ver_tuple needs) = Some vs"
      "dotted (ga_cap args) = Some cap" and ok: "list_all (\<lambda>n. n \<in> set NEEDED_ALLOW) needed" "worst_need vs = [] \<or> tuple_le (worst_need vs) cap"
    using e(2,3) by (auto simp: dynamic_rows_def split: option.splits)
  have "\<exists>v. ver_tuple s = Some v \<and> tuple_le v cap" if s: "s \<in> set needs" for s
  proof -
    obtain v where v: "ver_tuple s = Some v" using those_no_None [OF n(3)] s by (cases "ver_tuple s") force+
    then have "v \<in> set vs" using those_nth [OF n(3), of v] s by force
    then have w: "tuple_le v (worst_need vs)" by (rule worst_need_max)
    then show ?thesis using ok(2) v tuple_le_trans [OF w, of cap] by auto
  qed
  then show ?thesis using e(1) n ok(1) by (auto simp: list_all_iff)
qed

definition simd_free :: "bytes \<Rightarrow> bool" where
  "simd_free d \<longleftrightarrow> (case parse_elf d of None \<Rightarrow> False | Some e \<Rightarrow>
     (case elf_attrs e of Some (Some xs) \<Rightarrow> map_of xs 12 = None \<and> map_of xs 10 = Some (Number 4) | _ \<Rightarrow> False))"

lemma object_rows_passed:
  assumes "object_rows b = Some tu" "list_all snd tu"
  shows "simd_free b"
proof -
  obtain ob where ob: "parse_elf b = Some ob" using assms(1) by (cases "parse_elf b") (simp_all add: object_rows_def)
  obtain found where found: "elf_attrs ob = Some found" using assms(1) ob by (cases "elf_attrs ob") (simp_all add: object_rows_def)
  show ?thesis using assms ob found by (cases found) (auto simp add: object_rows_def simd_free_def)
qed

text \<open>C24. A passing gate proves the own code free of Advanced SIMD: the binary carries no tag 12 and asks for VFPv3-D16, or the
  inherited tag was allowed and the separately checked object is.\<close>

theorem own_code_simd_free:
  assumes "elf_gate args d = 0"
  shows "simd_free d \<or> ga_libc_simd args \<and> (\<exists>b. ga_object args = Some b \<and> simd_free b)"
proof -
  obtain e found tu link where e: "parse_elf d = Some e" "elf_attrs e = Some found" "list_all snd (attr_rows args found)" "list_all snd tu"
    and o: "(case ga_object args of None \<Rightarrow> Some [] | Some b \<Rightarrow> object_rows b) = Some tu"
    using assms by (elim gate_passed) (simp, blast)
  obtain xs where xs: "found = Some xs" "map_of xs 10 = Some (Number 4)"
    and simd: "map_of xs 12 = None \<or> ga_libc_simd args \<and> ga_object args \<noteq> None"
    using e(3) by (cases found) (auto simp: attr_rows_def Let_def)
  show ?thesis
  proof (cases "map_of xs 12 = None")
    case True
    then show ?thesis using e xs by (simp add: simd_free_def)
  next
    case False
    then obtain b where b: "ga_object args = Some b" "ga_libc_simd args" using simd by auto
    then have "object_rows b = Some tu" using o by simp
    then have "simd_free b" using e(4) by (rule object_rows_passed)
    then show ?thesis using b by blast
  qed
qed

subsection \<open>A sample binary and its object\<close>

text \<open>A dynamic executable with an inherited tag 12, one needed library and one version need, and its clean object file.\<close>

definition sample_elf :: bytes where
  "sample_elf =
     [127, 69, 76, 70, 1, 1, 1, 0, 0, 0, 0, 0, 0, 0, 0, 0, 2, 0, 40, 0, 1, 0, 0, 0, 0, 0, 0, 0, 52, 0, 0, 0, 180, 0, 0, 0, 0, 4,
     0, 5, 52, 0, 32, 0, 4, 0, 40, 0, 4, 0, 0, 0, 1, 0, 0, 0, 0, 0, 0, 0, 0, 0, 0, 0, 0, 0, 0, 0, 0, 2, 0, 0, 0, 2, 0, 0, 5, 0, 0,
     0, 4, 0, 0, 0, 3, 0, 0, 0, 175, 1, 0, 0, 0, 0, 0, 0, 0, 0, 0, 0, 25, 0, 0, 0, 0, 0, 0, 0, 4, 0, 0, 0, 1, 0, 0, 0, 2, 0, 0, 0,
     232, 1, 0, 0, 232, 1, 0, 0, 0, 0, 0, 0, 24, 0, 0, 0, 0, 0, 0, 0, 6, 0, 0, 0, 4, 0, 0, 0, 81, 229, 116, 100, 0, 0, 0, 0, 0, 0,
     0, 0, 0, 0, 0, 0, 0, 0, 0, 0, 0, 0, 0, 0, 6, 0, 0, 0, 4, 0, 0, 0, 0, 0, 0, 0, 3, 0, 0, 0, 0, 0, 0, 0, 0, 0, 0, 0, 84, 1, 0,
     0, 40, 0, 0, 0, 0, 0, 0, 0, 0, 0, 0, 0, 1, 0, 0, 0, 0, 0, 0, 0, 1, 0, 0, 0, 3, 0, 0, 0, 0, 0, 0, 0, 0, 0, 0, 0, 124, 1, 0, 0,
     30, 0, 0, 0, 0, 0, 0, 0, 0, 0, 0, 0, 1, 0, 0, 0, 0, 0, 0, 0, 17, 0, 0, 0, 3, 0, 0, 0, 0, 0, 0, 0, 0, 0, 0, 0, 200, 1, 0, 0,
     32, 0, 0, 0, 0, 0, 0, 0, 0, 0, 0, 0, 1, 0, 0, 0, 0, 0, 0, 0, 32, 0, 0, 0, 3, 0, 0, 0, 0, 0, 0, 0, 0, 0, 0, 0, 154, 1, 0, 0,
     21, 0, 0, 0, 0, 0, 0, 0, 0, 0, 0, 0, 1, 0, 0, 0, 0, 0, 0, 0, 0, 46, 65, 82, 77, 46, 97, 116, 116, 114, 105, 98, 117, 116,
     101, 115, 0, 46, 103, 110, 117, 46, 118, 101, 114, 115, 105, 111, 110, 95, 114, 0, 46, 100, 121, 110, 115, 116, 114, 0, 65,
     0, 0, 0, 0, 97, 101, 97, 98, 105, 0, 1, 0, 0, 0, 0, 6, 10, 7, 65, 10, 4, 12, 1, 24, 1, 25, 1, 28, 1, 0, 108, 105, 98, 99, 46,
     115, 111, 46, 54, 0, 71, 76, 73, 66, 67, 95, 50, 46, 52, 0, 47, 108, 105, 98, 47, 108, 100, 45, 108, 105, 110, 117, 120, 45,
     97, 114, 109, 104, 102, 46, 115, 111, 46, 51, 0, 1, 0, 1, 0, 1, 0, 0, 0, 16, 0, 0, 0, 0, 0, 0, 0, 0, 0, 0, 0, 0, 0, 2, 0, 11,
     0, 0, 0, 0, 0, 0, 0, 1, 0, 0, 0, 1, 0, 0, 0, 5, 0, 0, 0, 154, 1, 0, 0, 0, 0, 0, 0, 0, 0, 0, 0]"

definition sample_object :: bytes where
  "sample_object =
     [127, 69, 76, 70, 1, 1, 1, 0, 0, 0, 0, 0, 0, 0, 0, 0, 1, 0, 40, 0, 1, 0, 0, 0, 0, 0, 0, 0, 0, 0, 0, 0, 52, 0, 0, 0, 0, 4, 0,
     5, 52, 0, 32, 0, 0, 0, 40, 0, 2, 0, 0, 0, 0, 0, 0, 0, 3, 0, 0, 0, 0, 0, 0, 0, 0, 0, 0, 0, 132, 0, 0, 0, 17, 0, 0, 0, 0, 0, 0,
     0, 0, 0, 0, 0, 1, 0, 0, 0, 0, 0, 0, 0, 1, 0, 0, 0, 3, 0, 0, 0, 0, 0, 0, 0, 0, 0, 0, 0, 149, 0, 0, 0, 28, 0, 0, 0, 0, 0, 0, 0,
     0, 0, 0, 0, 1, 0, 0, 0, 0, 0, 0, 0, 0, 46, 65, 82, 77, 46, 97, 116, 116, 114, 105, 98, 117, 116, 101, 115, 0, 65, 0, 0, 0, 0,
     97, 101, 97, 98, 105, 0, 1, 0, 0, 0, 0, 6, 10, 7, 65, 10, 4, 24, 1, 25, 1, 28, 1]"

definition sample_args :: gate_args where
  "sample_args = \<lparr>ga_dynamic = True, ga_cap = bytes_of ''2.30'', ga_object = Some sample_object, ga_libc_simd = True\<rparr>"

lemma header_widths: "replicate 8 (4 :: nat) = [4, 4, 4, 4, 4, 4, 4, 4]" "replicate 10 (4 :: nat) = [4, 4, 4, 4, 4, 4, 4, 4, 4, 4]"
  by (simp_all add: numeral_eq_Suc)

lemmas elf_eval = parse_elf_def ELF_MAGIC_def HEADER_FIELDS_def le_field_def slice_def read_phdr_def read_shdr_def
  upt_rec cstr_at_def bytes_of_def header_widths

definition object_headers :: elf where
  "object_headers =
    \<lparr>el_class = 1, el_data = 1, el_osabi = 0, el_type = 1, el_machine = 40, el_flags = 83887104,
     el_phdrs = [],
     el_sections = [(bytes_of '''', \<lparr>sh_name = 0, sh_off = 132, sh_size = 17\<rparr>),
      (bytes_of ''.ARM.attributes'', \<lparr>sh_name = 1, sh_off = 149, sh_size = 28\<rparr>)], el_raw = sample_object\<rparr>"

lemma sample_object_parsed: "parse_elf sample_object = Some object_headers"
  by (simp add: elf_eval sample_object_def object_headers_def)

definition elf_headers :: elf where
  "elf_headers =
    \<lparr>el_class = 1, el_data = 1, el_osabi = 0, el_type = 2, el_machine = 40, el_flags = 83887104,
     el_phdrs = [\<lparr>ph_type = 1, ph_off = 0, ph_vaddr = 0, ph_filesz = 512, ph_flags = 5\<rparr>,
      \<lparr>ph_type = 3, ph_off = 431, ph_vaddr = 0, ph_filesz = 25, ph_flags = 4\<rparr>,
      \<lparr>ph_type = 2, ph_off = 488, ph_vaddr = 488, ph_filesz = 24, ph_flags = 6\<rparr>,
      \<lparr>ph_type = 1685382481, ph_off = 0, ph_vaddr = 0, ph_filesz = 0, ph_flags = 6\<rparr>],
     el_sections = [(bytes_of '''', \<lparr>sh_name = 0, sh_off = 340, sh_size = 40\<rparr>),
      (bytes_of ''.ARM.attributes'', \<lparr>sh_name = 1, sh_off = 380, sh_size = 30\<rparr>),
      (bytes_of ''.gnu.version_r'', \<lparr>sh_name = 17, sh_off = 456, sh_size = 32\<rparr>),
      (bytes_of ''.dynstr'', \<lparr>sh_name = 32, sh_off = 410, sh_size = 21\<rparr>)], el_raw = sample_elf\<rparr>"

lemma sample_elf_parsed: "parse_elf sample_elf = Some elf_headers"
  by (simp add: elf_eval sample_elf_def elf_headers_def)


lemma sample_object_attrs:
  "decode_attrs [65, 0, 0, 0, 0, 97, 101, 97, 98, 105, 0, 1, 0, 0, 0, 0, 6, 10, 7, 65, 10, 4, 24, 1, 25, 1, 28, 1] =
     Some [(6, Number 10), (7, Number 65), (10, Number 4), (24, Number 1), (25, Number 1), (28, Number 1)]"
  by (simp add: decode_attrs_def ntbs_def bytes_of_def attrs_from.simps uleb_def)

lemma sample_elf_attrs:
  "decode_attrs [65, 0, 0, 0, 0, 97, 101, 97, 98, 105, 0, 1, 0, 0, 0, 0, 6, 10, 7, 65, 10, 4, 12, 1, 24, 1, 25, 1, 28, 1] =
     Some [(6, Number 10), (7, Number 65), (10, Number 4), (12, Number 1), (24, Number 1), (25, Number 1), (28, Number 1)]"
  by (simp add: decode_attrs_def ntbs_def bytes_of_def attrs_from.simps uleb_def)

lemma sample_object_rows: "\<exists>rows. object_rows sample_object = Some rows \<and> list_all snd rows"
proof -
  have "elf_attrs object_headers =
      Some (Some [(6, Number 10), (7, Number 65), (10, Number 4), (24, Number 1), (25, Number 1), (28, Number 1)])"
    by (simp add: object_headers_def elf_attrs_def section_of_def bytes_of_def sample_object_def slice_def sample_object_attrs [simplified])
  then show ?thesis
    by (simp add: object_rows_def sample_object_parsed object_headers_def)
qed

lemma sample_needed: "dynamic_needed (elf_headers) = Some [bytes_of ''libc.so.6'']"
  by (simp add: elf_headers_def dynamic_needed_def dyn_entries_def sample_elf_def upt_rec le_field_def slice_def strtab_of_def cstr_at_def bytes_of_def)

lemma sample_needs: "glibc_needs (elf_headers) = Some [bytes_of ''GLIBC_2.4'']"
  by (simp add: elf_headers_def glibc_needs_def section_of_def bytes_of_def verneed.simps sample_elf_def le_field_def slice_def cstr_at_def numeral_eq_Suc [of num.One])

lemma sample_versions: "ver_tuple (bytes_of ''GLIBC_2.4'') = Some [2, 4]" "dotted (bytes_of ''2.30'') = Some [2, 30]"
  by (simp_all add: ver_tuple_def dotted_def py_int_text_def digits_ok_def bytes_of_def split_once_def strip_by_def is_dig_def ascii_space_def)


lemma sample_link_rows: "dynamic_rows sample_args elf_headers =
    Some [(''dyn.interp'', True), (''dyn.needed'', True), (''dyn.glibc'', True)]"
  unfolding dynamic_rows_def sample_needed sample_needs
  by (simp add: sample_versions sample_args_def worst_need_def NEEDED_ALLOW_def INTERP_WANT_def interp_of_def)
    (simp add: elf_headers_def sample_elf_def slice_def bytes_of_def)

lemma sample_elf_found: "elf_attrs elf_headers =
    Some (Some [(6, Number 10), (7, Number 65), (10, Number 4), (12, Number 1), (24, Number 1), (25, Number 1), (28, Number 1)])"
  by (simp add: elf_headers_def elf_attrs_def section_of_def bytes_of_def sample_elf_def slice_def sample_elf_attrs [simplified])

lemma sample_head_rows: "list_all snd (header_rows elf_headers)" "list_all snd (stack_rows elf_headers)"
  by (simp_all add: elf_headers_def header_rows_def stack_rows_def bit_iff_odd)

lemma sample_gate: "elf_gate sample_args sample_elf = 0"
proof -
  obtain rows where "object_rows sample_object = Some rows" "list_all snd rows" using sample_object_rows by blast
  then show ?thesis
    by (simp add: elf_gate_def gate_rows_def sample_elf_parsed sample_elf_found sample_link_rows sample_head_rows attr_rows_def)
      (simp add: sample_args_def attr_rows_def sample_head_rows sample_link_rows [unfolded sample_args_def])
qed

theorem dynamic_needs_capped_witness:
  "\<exists>e needed needs cap. parse_elf sample_elf = Some e \<and> dynamic_needed e = Some needed \<and> glibc_needs e = Some needs
     \<and> dotted (ga_cap sample_args) = Some cap \<and> set needed \<subseteq> set NEEDED_ALLOW
     \<and> {s \<in> set needs. \<not> (\<exists>v. ver_tuple s = Some v \<and> tuple_le v cap)} = {}"
  using dynamic_needs_capped [OF sample_gate] by (fastforce simp: sample_args_def)

theorem own_code_simd_free_witness: "simd_free sample_object \<and> \<not> simd_free sample_elf"
proof -
  have n: "\<not> simd_free sample_elf" by (simp add: simd_free_def sample_elf_parsed sample_elf_found)
  show ?thesis using own_code_simd_free [OF sample_gate] n by (auto simp: sample_args_def)
qed

theorem attributes_roundtrip_witness:
  "\<exists>out. decode_attrs (attr_section [0, 0, 0, 0] [0, 0, 0, 0] [(5, Text [99]), (6, Number 300), (6, Number 10)]) = Some out \<and> map_of out 6 = Some (Number 10)"
  using attributes_roundtrip [of "[0, 0, 0, 0]" "[0, 0, 0, 0]" "[(5, Text [99]), (6, Number 300), (6, Number 10)]"]
  by (auto simp: attr_fits_def)

end
