(* ===== verification/InstallGates.thy ===== *)
theory InstallGates
  imports SignDb Base64
begin

text \<open>
  The input gates of \<open>tools/fw/mutate_customer.py\<close>: \<open>check_d4_database\<close>, \<open>check_debug_nss\<close>, \<open>check_debug_owner_key\<close>,
  \<open>check_wav\<close>, the checks of shell scripts and ARM executables, and the part of \<open>main\<close> that gathers the services to install.
  SHA-256 (hexadecimal) is a parameter. An input path is what the program sees of it: whether it is reached through a
  symbolic link, whether it is there, its bytes.

  Shown: the database gate accepts exactly the databases the deployment filter of \<open>SignDb\<close> leaves unchanged and whose
  labels hold no C1 control character; the owner key gate accepts exactly one line per 32-byte key; every gathered
  service was checked, under a fixed name.
\<close>

subsection \<open>The sign database\<close>

definition D4_MAX_BYTES :: nat where "D4_MAX_BYTES = 12 + 40000 * 100"
definition D4_MAX_OUTPUT_BYTES :: nat where "D4_MAX_OUTPUT_BYTES = 1300000"

text \<open>A character of category \<open>Cc\<close> in valid UTF-8: an ASCII control byte, or C2 followed by 80 to 9F.\<close>

fun c1_control :: "bytes \<Rightarrow> bool" where
  "c1_control (a # b # r) \<longleftrightarrow> a = 0xC2 \<and> 0x80 \<le> b \<and> b \<le> 0x9F \<or> c1_control (b # r)"
| "c1_control _ \<longleftrightarrow> False"

definition gate_text :: "bytes \<Rightarrow> string + bytes" where
  "gate_text raw =
     (let v = takeWhile (\<lambda>b. b \<noteq> 0) raw; padding = drop (Suc (length v)) raw in
      if 0 \<notin> set raw \<or> list_ex (\<lambda>b. b \<noteq> 0) padding then Inl ''noncanonical D4 database string''
      else if \<not> utf8_valid v then Inl ''invalid D4 database UTF-8''
      else if list_ex control v \<or> c1_control v then Inl ''control character in D4 database string''
      else Inr v)"

definition gate_record :: "bytes \<Rightarrow> string + unit" where
  "gate_record raw =
     (let r = unpack_rec raw; h = widen (sr_heading r) in
      if \<not> (f64_finite (sr_lat r) \<and> f64_finite (sr_lon r) \<and> f64_finite h) then Inl ''nonfinite D4 database number''
      else case position_error (sr_lat r) (sr_lon r) of
        Some e \<Rightarrow> Inl e
      | None \<Rightarrow>
          if \<not> (fle 0 h \<and> fkey h < fkey F64_360) then Inl ''D4 database requires known heading in [0, 360)''
          else (case gate_text (sr_type r) of
              Inl e \<Rightarrow> Inl e
            | Inr kind \<Rightarrow>
                if kind \<noteq> bytes_of ''R.420'' \<and> kind \<noteq> bytes_of ''R.421'' then Inl ''D4 database permits only R.420/R.421''
                else map_sum id (\<lambda>_. ()) (gate_text (sr_label r))))"

definition check_d4_database :: "(bytes \<Rightarrow> string) \<Rightarrow> bytes \<Rightarrow> string \<Rightarrow> string + nat \<times> string" where
  "check_d4_database sha data pin =
     (if \<not> hex_pin pin then Inl ''D4 database needs an exact 64-hex SHA256 pin''
      else if sha data \<noteq> lower pin then Inl ''D4 database SHA256 mismatch''
      else if length data < 12 \<or> D4_MAX_BYTES < length data \<or> take 8 data \<noteq> DB_MAGIC then Inl ''invalid D4 database header/size''
      else let n = le_nat (slice data 8 12) in
        if \<not> (1 \<le> n \<and> n \<le> 40000) \<or> length data \<noteq> 12 + n * 100 then Inl ''invalid D4 database count/length''
        else map_sum id (\<lambda>_. (n, sha data)) (collect gate_record (raw_records n data)))"

subsection \<open>The debug owner key and the stock module\<close>

definition DEBUG_NSS_SHA256 :: string where
  "DEBUG_NSS_SHA256 = ''381a2aa8348259f1722aa09a90c4345a4460a94350d60b1df6782b3dc23ebffd''"
definition DEBUG_NSS_BYTES :: nat where "DEBUG_NSS_BYTES = 361400"
definition DEBUG_OWNER_COMMENT :: string where "DEBUG_OWNER_COMMENT = ''c2m-debug-owner''"
definition DEBUG_OWNER_MAX_BYTES :: nat where "DEBUG_OWNER_MAX_BYTES = 1024"

definition ELF32_LE :: bytes where "ELF32_LE = [127, 69, 76, 70, 1, 1]"

definition check_debug_nss :: "(bytes \<Rightarrow> string) \<Rightarrow> bytes \<Rightarrow> string + string \<times> nat" where
  "check_debug_nss sha data =
     (if length data \<noteq> DEBUG_NSS_BYTES \<or> sha data \<noteq> DEBUG_NSS_SHA256 then Inl ''debug stock NSS module pin mismatch''
      else if take 6 data \<noteq> ELF32_LE \<or> le_nat (slice data 16 18) \<noteq> 3 \<or> le_nat (slice data 18 20) \<noteq> 40
      then Inl ''debug stock NSS must be ELF32 little-endian ARM ET_DYN''
      else Inr (sha data, length data))"

definition b64_char :: "byte \<Rightarrow> bool" where
  "b64_char b \<longleftrightarrow> dec6 b \<noteq> None"

text \<open>\<open>[A-Za-z0-9+/]+={0,2}\<close>\<close>

definition b64_shape :: "bytes \<Rightarrow> bool" where
  "b64_shape t \<longleftrightarrow> (let n = length (takeWhile (\<lambda>b. b = PAD) (rev t)) in
     n \<le> 2 \<and> n < length t \<and> list_all b64_char (take (length t - n) t))"

definition key_blob_error :: "bytes \<Rightarrow> string option" where
  "key_blob_error blob =
     (if length blob \<noteq> 51 then Some ''truncated debug owner key blob''
      else if be_nat (slice blob 0 4) \<noteq> 11 \<or> slice blob 4 15 \<noteq> bytes_of ''ssh-ed25519'' \<or> be_nat (slice blob 15 19) \<noteq> 32
        \<or> length (drop 19 blob) \<noteq> 32
      then Some ''invalid debug owner key blob'' else None)"

definition key_line_error :: "bytes \<Rightarrow> string option" where
  "key_line_error body =
     (case split_on 32 body of
        [keytype, b64, comment] \<Rightarrow>
          if keytype = [] \<or> b64 = [] \<or> comment = [] then Some ''debug owner key must be one OpenSSH line without options''
          else if keytype \<noteq> bytes_of ''ssh-ed25519'' then Some ''debug owner key must be ssh-ed25519''
          else if comment \<noteq> bytes_of DEBUG_OWNER_COMMENT then Some ''invalid debug owner key comment''
          else if contains (bytes_of ''PRIVATE'') body \<or> contains (bytes_of ''BEGIN'') body then Some ''private key material rejected''
          else if \<not> b64_shape b64 then Some ''noncanonical debug owner key base64''
          else (case b64decode b64 of
              None \<Rightarrow> Some ''noncanonical debug owner key base64''
            | Some blob \<Rightarrow>
                if b64encode blob \<noteq> b64 then Some ''noncanonical debug owner key base64'' else key_blob_error blob)
      | _ \<Rightarrow> Some ''debug owner key must be one OpenSSH line without options'')"

definition check_debug_owner_key :: "(bytes \<Rightarrow> string) \<Rightarrow> bytes \<Rightarrow> string \<Rightarrow> string + string" where
  "check_debug_owner_key sha data pin =
     (if \<not> hex_pin pin then Inl ''Debug owner key needs an exact 64-hex SHA256 pin''
      else if sha data \<noteq> lower pin then Inl ''Debug owner key SHA256 mismatch''
      else if length data = 0 \<or> DEBUG_OWNER_MAX_BYTES < length data then Inl ''invalid debug owner key length''
      else if 13 \<in> set data then Inl ''invalid debug owner key line ending''
      else if last data \<noteq> 10 \<or> count_list data 10 \<noteq> 1 then Inl ''debug owner key must be exactly one line''
      else if list_ex (\<lambda>b. 128 \<le> b) data then Inl ''debug owner key must be ASCII''
      else if list_ex (\<lambda>b. (b < 32 \<or> b = 127) \<and> b \<noteq> 10) data then Inl ''control character in debug owner key''
      else case key_line_error (butlast data) of Some e \<Rightarrow> Inl e | None \<Rightarrow> Inr (sha data))"

subsection \<open>Sounds, scripts and executables\<close>

definition check_wav :: "bytes \<Rightarrow> string option" where
  "check_wav data =
     (if \<not> (44 < length data \<and> take 4 data = bytes_of ''RIFF'' \<and> slice data 8 12 = bytes_of ''WAVE'') then Some ''not RIFF/WAVE''
      else if (le_nat (slice data 20 22), le_nat (slice data 22 24), le_nat (slice data 24 28), le_nat (slice data 34 36)) \<noteq> (1, 1, 24000, 16)
      then Some ''want PCM16/mono/24kHz''
      else if 2 ^ 20 < length data then Some ''over 1MB'' else None)"

definition SHEBANG :: bytes where "SHEBANG = bytes_of ''#!/bin/sh'' @ [10]"

definition shell_ok :: "bytes \<Rightarrow> bool" where
  "shell_ok data \<longleftrightarrow> 13 \<notin> set data \<and> prefix SHEBANG data"

definition arm_elf_ok :: "bytes \<Rightarrow> bool" where
  "arm_elf_ok data \<longleftrightarrow> \<not> length data < 52 \<and> take 6 data = ELF32_LE \<and> le_nat (slice data 18 20) = 40"

subsection \<open>Gathering the services\<close>

datatype source = Linked | Missing | Unreadable | Regular bytes
datatype services = Dir_linked | No_dir | Listing "(string \<times> source) list"

type_synonym assets = "(string \<times> bytes) list"

record install_args =
  ia_tsr_patch :: bool
  ia_tsr_experiment :: bool
  ia_d5 :: bool
  ia_d3 :: "services option"
  ia_d4 :: "services option"
  ia_d4_db :: "source option"
  ia_d4_pin :: "string option"
  ia_debug :: "services option"
  ia_key :: "source option"
  ia_key_pin :: "string option"
  ia_bootvoice :: "services option"

definition D3_NAMES :: "string list" where
  "D3_NAMES = [''boot.sh'', ''connectivity_probe.sh'', ''c2m-web'', ''c2m-wifi'', ''wpa_supplicant'']"
definition D4_NAMES :: "string list" where "D4_NAMES = [''c2m-signs'', ''d4_boot.sh'']"
definition DEBUG_NAMES :: "string list" where
  "DEBUG_NAMES = [''c2m-debug'', ''dropbear'', ''dropbearkey'', ''debug_boot.sh'', ''libnss_files.so.2'']"
definition BOOTVOICE_NAMES :: "string list" where
  "BOOTVOICE_NAMES = [''c2m-light'', ''boot_voice.sh'', ''Boot_Greeting.wav'', ''Light_Dark_TurnOn.wav'', ''Light_Bright_TurnOff.wav'']"

definition DEBUG_MAX_SUPERVISOR :: nat where "DEBUG_MAX_SUPERVISOR = 256 * 1024"
definition DEBUG_MAX_DROPBEAR :: nat where "DEBUG_MAX_DROPBEAR = 2 * 1024 * 1024"
definition DEBUG_MAX_SHELL :: nat where "DEBUG_MAX_SHELL = 64 * 1024"
definition BOOTVOICE_MAX_ELF :: nat where "BOOTVOICE_MAX_ELF = 256 * 1024"
definition BOOTVOICE_MAX_SHELL :: nat where "BOOTVOICE_MAX_SHELL = 64 * 1024"

definition source_of :: "services \<Rightarrow> string \<Rightarrow> source" where
  "source_of dir name =
     (case dir of
        Dir_linked \<Rightarrow> Linked
      | No_dir \<Rightarrow> Missing
      | Listing fs \<Rightarrow> (case map_of fs name of None \<Rightarrow> Missing | Some s \<Rightarrow> s))"

fun read_source :: "source \<Rightarrow> string + bytes" where
  "read_source (Regular data) = Inr data"
| "read_source Unreadable = Inl ''cannot read''"
| "read_source _ = Inl ''missing/nonregular''"

definition listing_error :: "services \<Rightarrow> string list \<Rightarrow> string option" where
  "listing_error dir names =
     (case dir of
        Listing fs \<Rightarrow> if set (map fst fs) \<noteq> set names then Some ''services must contain exactly the listed names'' else None
      | _ \<Rightarrow> Some ''services must be a nonsymlink directory'')"

definition read_service :: "services \<Rightarrow> (string \<Rightarrow> bytes \<Rightarrow> string option) \<Rightarrow> string \<Rightarrow> string + string \<times> bytes" where
  "read_service dir err name =
     (case read_source (source_of dir name) of
        Inl e \<Rightarrow> Inl e
      | Inr data \<Rightarrow> (case err name data of Some e \<Rightarrow> Inl e | None \<Rightarrow> Inr (name, data)))"

definition service_error :: "string \<Rightarrow> bytes \<Rightarrow> string option" where
  "service_error name data =
     (if suffix ''.sh'' name then (if shell_ok data then None else Some ''shell must be LF'')
      else if arm_elf_ok data then None else Some ''service must be ELF32 little-endian ARM'')"

definition debug_error :: "(bytes \<Rightarrow> string) \<Rightarrow> string \<Rightarrow> bytes \<Rightarrow> string option" where
  "debug_error sha name data =
     (if length data = 0 then Some ''empty debug service''
      else if name = ''libnss_files.so.2'' then (case check_debug_nss sha data of Inl e \<Rightarrow> Some e | Inr _ \<Rightarrow> None)
      else if suffix ''.sh'' name then
        (if DEBUG_MAX_SHELL < length data then Some ''debug shell exceeds size bound''
         else if shell_ok data then None else Some ''debug shell must be LF'')
      else if (if name = ''c2m-debug'' then DEBUG_MAX_SUPERVISOR else DEBUG_MAX_DROPBEAR) < length data then Some ''debug service exceeds size bound''
      else if arm_elf_ok data then None else Some ''debug service must be ELF32 little-endian ARM'')"

definition bootvoice_error :: "string \<Rightarrow> bytes \<Rightarrow> string option" where
  "bootvoice_error name data =
     (if suffix ''.wav'' name then check_wav data
      else if suffix ''.sh'' name then
        (if \<not> (1 \<le> length data \<and> length data \<le> BOOTVOICE_MAX_SHELL) then Some ''boot voice shell size out of bounds''
         else if shell_ok data then None else Some ''boot voice shell must be LF'')
      else if \<not> (1 \<le> length data \<and> length data \<le> BOOTVOICE_MAX_ELF) then Some ''boot voice helper size out of bounds''
      else if arm_elf_ok data then None else Some ''boot voice helper must be ELF32 little-endian ARM'')"

text \<open>The services of a directory that must hold exactly the given names.\<close>

definition read_services :: "services \<Rightarrow> (string \<Rightarrow> bytes \<Rightarrow> string option) \<Rightarrow> string list \<Rightarrow> string + assets" where
  "read_services dir err names =
     (case listing_error dir names of Some e \<Rightarrow> Inl e | None \<Rightarrow> collect (read_service dir err) names)"

definition checked_tsr :: "install_args \<Rightarrow> bool" where
  "checked_tsr a \<longleftrightarrow> ia_d3 a \<noteq> None \<and> ia_tsr_experiment a"

definition gather_d4 :: "(bytes \<Rightarrow> string) \<Rightarrow> install_args \<Rightarrow> string + assets \<times> (nat \<times> string) option" where
  "gather_d4 sha a =
     (case (ia_d4 a, ia_d4_db a, ia_d4_pin a) of
        (None, None, None) \<Rightarrow> Inr ([], None)
      | (Some dir, Some db, Some pin) \<Rightarrow>
          if \<not> checked_tsr a then Inl ''D4 requires D3 and checked TSR''
          else if \<not> hex_pin pin then Inl ''D4 database needs an exact 64-hex SHA256 pin''
          else (case read_services dir service_error D4_NAMES of
              Inl e \<Rightarrow> Inl e
            | Inr svc \<Rightarrow>
                (case read_source db of
                   Inl e \<Rightarrow> Inl e
                 | Inr data \<Rightarrow>
                     if D4_MAX_BYTES < length data then Inl ''D4 database exceeds size bound''
                     else (case check_d4_database sha data pin of
                         Inl e \<Rightarrow> Inl e
                       | Inr r \<Rightarrow>
                           if D4_MAX_OUTPUT_BYTES < length data then Inl ''D4 database exceeds private subset output bound''
                           else Inr (svc @ [(''signs-d4.bin'', data)], Some r))))
      | _ \<Rightarrow> Inl ''D4 requires its three arguments together'')"

definition gather_d3 :: "install_args \<Rightarrow> string + assets" where
  "gather_d3 a =
     (case ia_d3 a of
        None \<Rightarrow> Inr []
      | Some dir \<Rightarrow>
          if \<not> ia_tsr_experiment a then Inl ''D3 requires checked TSR'' else collect (read_service dir service_error) D3_NAMES)"

definition gather_debug :: "(bytes \<Rightarrow> string) \<Rightarrow> install_args \<Rightarrow> string + assets \<times> string option" where
  "gather_debug sha a =
     (case (ia_debug a, ia_key a, ia_key_pin a) of
        (None, None, None) \<Rightarrow> Inr ([], None)
      | (Some dir, Some key, Some pin) \<Rightarrow>
          if \<not> checked_tsr a then Inl ''Debug requires D3 and checked TSR''
          else if \<not> hex_pin pin then Inl ''Debug owner key needs an exact 64-hex SHA256 pin''
          else (case read_services dir (debug_error sha) DEBUG_NAMES of
              Inl e \<Rightarrow> Inl e
            | Inr svc \<Rightarrow>
                (case read_source key of
                   Inl e \<Rightarrow> Inl e
                 | Inr data \<Rightarrow>
                     (case check_debug_owner_key sha data pin of
                        Inl e \<Rightarrow> Inl e
                      | Inr d \<Rightarrow> Inr (svc @ [(''debug_owner.pub'', data)], Some d))))
      | _ \<Rightarrow> Inl ''Debug requires its three arguments together'')"

definition gather_bootvoice :: "install_args \<Rightarrow> string + assets" where
  "gather_bootvoice a =
     (case ia_bootvoice a of
        None \<Rightarrow> Inr []
      | Some dir \<Rightarrow>
          if \<not> checked_tsr a then Inl ''Boot voice requires D3 and checked TSR'' else read_services dir bootvoice_error BOOTVOICE_NAMES)"

record gathered =
  gt_d4 :: assets
  gt_db :: "(nat \<times> string) option"
  gt_d3 :: assets
  gt_debug :: assets
  gt_owner :: "string option"
  gt_bootvoice :: assets

definition gather :: "(bytes \<Rightarrow> string) \<Rightarrow> install_args \<Rightarrow> string + gathered" where
  "gather sha a =
     (if ia_tsr_patch a \<and> ia_tsr_experiment a then Inl ''not allowed with''
      else if ia_d5 a \<and> ia_d4 a = None then Inl ''D5 health requires the complete D4 services/database''
      else case gather_d4 sha a of
        Inl e \<Rightarrow> Inl e
      | Inr (d4, db) \<Rightarrow>
          (case gather_d3 a of
             Inl e \<Rightarrow> Inl e
           | Inr d3 \<Rightarrow>
               (case gather_debug sha a of
                  Inl e \<Rightarrow> Inl e
                | Inr (debug, owner) \<Rightarrow>
                    (case gather_bootvoice a of
                       Inl e \<Rightarrow> Inl e
                     | Inr bv \<Rightarrow> Inr \<lparr>gt_d4 = d4, gt_db = db, gt_d3 = d3, gt_debug = debug, gt_owner = owner, gt_bootvoice = bv\<rparr>))))"

subsection \<open>What was gathered\<close>

text \<open>The check a service has passed, by its name.\<close>

definition service_checked :: "(bytes \<Rightarrow> string) \<Rightarrow> string \<Rightarrow> bytes \<Rightarrow> bool" where
  "service_checked sha name data \<longleftrightarrow>
     (if name = ''signs-d4.bin'' then \<exists>pin r. check_d4_database sha data pin = Inr r
      else if name = ''debug_owner.pub'' then \<exists>pin d. check_debug_owner_key sha data pin = Inr d
      else if name = ''libnss_files.so.2'' then sha data = DEBUG_NSS_SHA256
      else if suffix ''.wav'' name then check_wav data = None
      else if suffix ''.sh'' name then shell_ok data
      else arm_elf_ok data)"

lemma read_service_Inr: "read_service dir err n = Inr x \<longleftrightarrow> fst x = n \<and> read_source (source_of dir n) = Inr (snd x) \<and> err n (snd x) = None"
  by (cases x) (auto simp: read_service_def split: sum.splits option.splits)

lemma collected_services:
  assumes "collect (read_service dir err) names = Inr as"
    and "\<And>n d. n \<in> set names \<Longrightarrow> err n d = None \<Longrightarrow> service_checked sha n d"
  shows "map fst as = names \<and> list_all (\<lambda>(n, d). service_checked sha n d) as"
proof -
  have "list_all2 (\<lambda>n x. read_service dir err n = Inr x) names as" using assms(1) by (simp add: collect_Inr)
  then show ?thesis using assms(2)
    by (induction rule: list_all2_induct) (auto simp: read_service_Inr)
qed

lemma read_services_Inr: "read_services dir err names = Inr as \<Longrightarrow> collect (read_service dir err) names = Inr as"
  by (auto simp: read_services_def split: option.splits)

lemma suffix_eval: "suffix xs ys \<longleftrightarrow> length xs \<le> length ys \<and> drop (length ys - length xs) ys = xs"
  by (auto simp: suffix_def) (metis append_take_drop_id)

lemma name_suffixes:
  "list_all (\<lambda>n. n \<notin> {''signs-d4.bin'', ''debug_owner.pub''} \<and> (suffix ''.wav'' n \<longrightarrow> n \<in> set BOOTVOICE_NAMES))
     (D3_NAMES @ D4_NAMES @ DEBUG_NAMES @ BOOTVOICE_NAMES)"
  "list_all (\<lambda>n. n \<noteq> ''libnss_files.so.2'') (D3_NAMES @ D4_NAMES @ BOOTVOICE_NAMES)"
  "list_all (\<lambda>n. n \<notin> set BOOTVOICE_NAMES) (D3_NAMES @ D4_NAMES @ DEBUG_NAMES)"
  "\<not> suffix ''.wav'' ''libnss_files.so.2''"
  by (simp_all add: D3_NAMES_def D4_NAMES_def DEBUG_NAMES_def BOOTVOICE_NAMES_def suffix_eval)

lemma service_errors:
  "n \<in> set (D3_NAMES @ D4_NAMES) \<Longrightarrow> service_error n d = None \<Longrightarrow> service_checked sha n d"
  "n \<in> set DEBUG_NAMES \<Longrightarrow> debug_error sha n d = None \<Longrightarrow> service_checked sha n d"
  "n \<in> set BOOTVOICE_NAMES \<Longrightarrow> bootvoice_error n d = None \<Longrightarrow> service_checked sha n d"
proof -
  assume "n \<in> set (D3_NAMES @ D4_NAMES)" "service_error n d = None"
  then have "n \<notin> {''signs-d4.bin'', ''debug_owner.pub'', ''libnss_files.so.2''}" "\<not> suffix ''.wav'' n"
    using name_suffixes(1-3) unfolding list_all_iff by auto
  with \<open>service_error n d = None\<close> show "service_checked sha n d"
    by (simp add: service_error_def service_checked_def split: if_splits)
next
  assume "n \<in> set DEBUG_NAMES" and e: "debug_error sha n d = None"
  then have n: "n \<notin> {''signs-d4.bin'', ''debug_owner.pub''}" "\<not> suffix ''.wav'' n"
    using name_suffixes(1,3) unfolding list_all_iff by auto
  show "service_checked sha n d"
  proof (cases "n = ''libnss_files.so.2''")
    case True
    then show ?thesis using e by (simp add: debug_error_def check_debug_nss_def service_checked_def split: if_splits)
  next
    case False
    then show ?thesis using e n by (simp add: debug_error_def service_checked_def split: if_splits)
  qed
next
  assume "n \<in> set BOOTVOICE_NAMES" and e: "bootvoice_error n d = None"
  then have "n \<notin> {''signs-d4.bin'', ''debug_owner.pub'', ''libnss_files.so.2''}"
    using name_suffixes(1,2) unfolding list_all_iff by auto
  then show "service_checked sha n d" using e by (simp add: bootvoice_error_def service_checked_def split: if_splits)
qed

lemma pinned_checked:
  "check_d4_database sha data pin = Inr r \<Longrightarrow> service_checked sha ''signs-d4.bin'' data"
  "check_debug_owner_key sha data pin = Inr d \<Longrightarrow> service_checked sha ''debug_owner.pub'' data"
  unfolding service_checked_def by (simp del: split_paired_Ex, blast)+

definition checked_names :: "(bytes \<Rightarrow> string) \<Rightarrow> string list \<Rightarrow> assets \<Rightarrow> bool" where
  "checked_names sha names as \<longleftrightarrow> (as = [] \<or> map fst as = names) \<and> list_all (\<lambda>(n, d). service_checked sha n d) as"

lemma gathered_checked:
  assumes "gather sha a = Inr g"
  shows "checked_names sha D3_NAMES (gt_d3 g)" "checked_names sha (D4_NAMES @ [''signs-d4.bin'']) (gt_d4 g)"
    "checked_names sha (DEBUG_NAMES @ [''debug_owner.pub'']) (gt_debug g)" "checked_names sha BOOTVOICE_NAMES (gt_bootvoice g)"
proof -
  obtain db owner where p: "gather_d4 sha a = Inr (gt_d4 g, db)" "gather_d3 a = Inr (gt_d3 g)" "gather_debug sha a = Inr (gt_debug g, owner)"
    "gather_bootvoice a = Inr (gt_bootvoice g)"
    using assms by (auto simp: gather_def split: if_splits sum.splits prod.splits)
  show "checked_names sha D3_NAMES (gt_d3 g)"
    using p(2) collected_services [of _ service_error D3_NAMES "gt_d3 g" sha] service_errors(1)
    by (auto simp: gather_d3_def checked_names_def split: option.splits if_splits)
  show "checked_names sha BOOTVOICE_NAMES (gt_bootvoice g)"
    using p(4) collected_services [of _ bootvoice_error BOOTVOICE_NAMES "gt_bootvoice g" sha] service_errors(3) read_services_Inr
    by (fastforce simp: gather_bootvoice_def checked_names_def split: option.splits if_splits)
  show "checked_names sha (D4_NAMES @ [''signs-d4.bin'']) (gt_d4 g)"
  proof (cases "gt_d4 g = []")
    case False
    then obtain dir svc data pin r where s: "read_services dir service_error D4_NAMES = Inr svc" "check_d4_database sha data pin = Inr r"
      "gt_d4 g = svc @ [(''signs-d4.bin'', data)]"
      using p(1) by (auto simp: gather_d4_def split: option.splits if_splits sum.splits)
    have "map fst svc = D4_NAMES \<and> list_all (\<lambda>(n, d). service_checked sha n d) svc"
      using collected_services [OF read_services_Inr [OF s(1)]] service_errors(1) by simp
    then show ?thesis using pinned_checked s(2) by (simp add: checked_names_def s(3))
  qed (simp add: checked_names_def)
  show "checked_names sha (DEBUG_NAMES @ [''debug_owner.pub'']) (gt_debug g)"
  proof (cases "gt_debug g = []")
    case False
    then obtain dir svc data pin r where s: "read_services dir (debug_error sha) DEBUG_NAMES = Inr svc" "check_debug_owner_key sha data pin = Inr r"
      "gt_debug g = svc @ [(''debug_owner.pub'', data)]"
      using p(3) by (auto simp: gather_debug_def split: option.splits if_splits sum.splits)
    have "map fst svc = DEBUG_NAMES \<and> list_all (\<lambda>(n, d). service_checked sha n d) svc"
      by (rule collected_services [OF read_services_Inr [OF s(1)]]) (rule service_errors(2))
    then show ?thesis using pinned_checked s(2) by (simp add: checked_names_def s(3))
  qed (simp add: checked_names_def)
qed

subsection \<open>The database gate and the deployment filter\<close>

definition label_of :: "bytes \<Rightarrow> bytes" where
  "label_of raw = takeWhile (\<lambda>b. b \<noteq> 0) (slice raw 36 100)"

lemma gate_text_iff: "gate_text v = Inr t \<longleftrightarrow> text_field v = Inr t \<and> \<not> c1_control t"
  by (auto simp: gate_text_def text_field_def Let_def split: if_splits)

lemma gate_text_Inl: "(\<exists>e. gate_text v = Inl e) \<longleftrightarrow> \<not> (\<exists>t. text_field v = Inr t \<and> \<not> c1_control t)"
  unfolding gate_text_iff [symmetric] by (cases "gate_text v") auto

lemma area_types_plain: "t = bytes_of ''R.420'' \<or> t = bytes_of ''R.421'' \<Longrightarrow> \<not> c1_control t \<and> t \<noteq> []"
  by (auto simp: bytes_of_def)

lemma heading_below_360:
  "fle 0 h \<and> fkey h < fkey F64_360 \<longleftrightarrow> heading_error h = None \<and> \<not> feq h F64_M999 \<and> \<not> feq h F64_360"
proof -
  have z: "fkey F64_M999 < fkey (0 :: f64)" by (simp add: fkey64 F64_M999_def)
  show ?thesis using z by (auto simp: heading_error_def fle_def feq_def)
qed

lemma gate_record_iff:
  assumes "length raw = 100"
  shows "gate_record raw = Inr () \<longleftrightarrow> (\<exists>t. prepare_record raw = Inr (t, False, Some raw)) \<and> \<not> c1_control (label_of raw)"
proof -
  let ?r = "unpack_rec raw" and ?h = "widen (sr_heading (unpack_rec raw))"
  have same: "feq ?h F64_360 \<Longrightarrow> pack_rec (?r\<lparr>sr_heading := 0\<rparr>) \<noteq> raw"
  proof
    assume h: "feq ?h F64_360" and p: "pack_rec (?r\<lparr>sr_heading := 0\<rparr>) = raw"
    have "unpack_rec (pack_rec (?r\<lparr>sr_heading := 0\<rparr>)) = ?r\<lparr>sr_heading := 0\<rparr>"
      using assms by (intro unpack_pack) (simp_all add: unpack_rec_def)
    then have "sr_heading ?r = 0" unfolding p by (metis sign_rec.select_convs(3) sign_rec.surjective sign_rec.update_convs(3))
    then show False using h by (simp add: widen_zero feq_def fkey64 F64_360_def)
  qed
  have label: "text_field (sr_label ?r) = Inr l \<Longrightarrow> label_of raw = l" for l
    by (auto dest: text_field_Inr simp: label_of_def unpack_rec_def)
  have g: "gate_record raw = Inr () \<longleftrightarrow> (f64_finite (sr_lat ?r) \<and> f64_finite (sr_lon ?r) \<and> f64_finite ?h) \<and> position_error (sr_lat ?r) (sr_lon ?r) = None
      \<and> (fle 0 ?h \<and> fkey ?h < fkey F64_360)
      \<and> (\<exists>t. gate_text (sr_type ?r) = Inr t \<and> (t = bytes_of ''R.420'' \<or> t = bytes_of ''R.421''))
      \<and> (\<exists>l. gate_text (sr_label ?r) = Inr l)"
    by (cases "gate_text (sr_label ?r)") (auto simp: gate_record_def Let_def split: option.splits sum.splits)
  have p: "(\<exists>t. prepare_record raw = Inr (t, False, Some raw)) \<longleftrightarrow>
      (f64_finite (sr_lat ?r) \<and> f64_finite (sr_lon ?r) \<and> f64_finite ?h) \<and> position_error (sr_lat ?r) (sr_lon ?r) = None
      \<and> heading_error ?h = None \<and> \<not> feq ?h F64_M999 \<and> \<not> feq ?h F64_360
      \<and> (\<exists>t. text_field (sr_type ?r) = Inr t \<and> (t = bytes_of ''R.420'' \<or> t = bytes_of ''R.421'')) \<and> (\<exists>l. text_field (sr_label ?r) = Inr l)"
    using same area_types_plain
    by (cases "text_field (sr_type ?r)"; cases "text_field (sr_label ?r)"; cases "position_error (sr_lat ?r) (sr_lon ?r)"; cases "heading_error ?h")
      (auto simp: prepare_record_def Let_def)
  show ?thesis unfolding g p heading_below_360 gate_text_iff using label area_types_plain by metis
qed

lemma concat_raw_records: "12 + n * 100 \<le> length data \<Longrightarrow> concat (raw_records n data) = slice data 12 (12 + n * 100)"
proof (induction n)
  case (Suc n)
  have "slice data 12 (12 + 100 * n) @ slice data (12 + 100 * n) (112 + 100 * n) = slice data 12 (112 + 100 * n)"
    using take_add [of "100 * n" 100 "drop 12 data"] by (simp add: slice_def add.commute)
  with Suc show ?case by (simp add: raw_records_def mult.commute add.commute)
qed (simp add: raw_records_def slice_def)

lemma kept_length:
  assumes "list_all2 (\<lambda>raw row. prepare_record raw = Inr row) raws rows" "list_all (\<lambda>r. length r = 100) raws"
  shows "length (kept_of rows) = length (filter deployable raws)"
  using arg_cong [OF kept_records [OF assms], of length] by simp

lemma filter_all_length: "length (filter P xs) = length xs \<Longrightarrow> filter P xs = xs"
  by (metis filter_True length_filter_less order_less_irrefl)

lemma header_again:
  assumes "length data = 12 + n * 100" "n = le_nat (slice data 8 12)" "take 8 data = DB_MAGIC"
  shows "DB_MAGIC @ le_bytes 4 n @ concat (raw_records n data) = data"
proof -
  have "le_bytes 4 n = slice data 8 12" using le_bytes_le_nat [of "slice data 8 12"] assms(1,2) by simp
  moreover have "concat (raw_records n data) = drop 12 data" using concat_raw_records [of n data] assms(1) by (simp add: slice_def)
  moreover have "data = take 8 data @ slice data 8 12 @ drop 12 data"
    using append_take_drop_id [of 8 data] append_take_drop_id [of 4 "drop 8 data"] by (simp add: slice_def)
  ultimately show ?thesis using assms(3) by simp
qed

lemma prepared_fixpoint:
  assumes "prepare_db sha data pin = Inr (data, rep)" "raw \<in> set (raw_records (le_nat (slice data 8 12)) data)"
  shows "length raw = 100 \<and> (\<exists>t. prepare_record raw = Inr (t, False, Some raw))"
proof -
  obtain n rows where p: "n = le_nat (slice data 8 12)" "length data = 12 + n * 100" "n \<le> MAX_RECORDS_DB"
    "list_all2 (\<lambda>raw row. prepare_record raw = Inr row) (raw_records n data) rows" "kept_of rows \<noteq> []"
    "data = DB_MAGIC @ le_bytes 4 (length (kept_of rows)) @ concat (map snd (kept_of rows))"
    using assms(1) by (rule prepare_db_cases)
  let ?raws = "raw_records n data" and ?kept = "kept_of rows"
  have l: "list_all (\<lambda>r. length r = 100) ?raws" using p(2) by (rule raw_records_length)
  note k = kept_records [OF p(4) l] and len = kept_length [OF p(4) l] and again = kept_again [OF p(4) l]
  have le: "length ?kept \<le> MAX_RECORDS_DB" using len p(3) length_filter_le [of deployable ?raws] by (simp add: raw_records_def)
  have n: "n = length ?kept" using db_header [OF le, of "concat (map snd ?kept)"] p(1,6) by simp
  have "list_all (\<lambda>r. length r = 100) (map snd ?kept)" using again by (auto simp: list_all_iff)
  then have raws: "?raws = map snd ?kept"
    using raw_records_concat [of "map snd ?kept" "DB_MAGIC @ le_bytes 4 n"] db_header [OF le] p(6) n by simp
  then obtain t where t: "(t, raw) \<in> set ?kept" using assms(2) p(1) by auto
  then show ?thesis using again by (auto simp: list_all_iff)
qed

text \<open>C31. The install gate accepts exactly the databases that the deployment filter, given the same pin, accepts and leaves
  unchanged, and whose labels hold no C1 control character.\<close>

theorem database_gate_iff:
  "(\<exists>r. check_d4_database sha data pin = Inr r) \<longleftrightarrow>
     (\<exists>rep. prepare_db sha data pin = Inr (data, rep))
     \<and> list_all (\<lambda>raw. \<not> c1_control (label_of raw)) (raw_records (le_nat (slice data 8 12)) data)"
  (is "?gate \<longleftrightarrow> ?filter \<and> ?plain")
proof
  let ?n = "le_nat (slice data 8 12)" let ?raws = "raw_records ?n data"
  assume ?gate
  then obtain us where g: "hex_pin pin" "sha data = lower pin" "12 \<le> length data" "take 8 data = DB_MAGIC" "1 \<le> ?n" "?n \<le> 40000"
    "length data = 12 + ?n * 100" "collect gate_record ?raws = Inr us"
    by (cases "collect gate_record ?raws") (auto simp: check_d4_database_def Let_def not_less split: if_splits)
  have l: "list_all (\<lambda>r. length r = 100) ?raws" using g(7) by (rule raw_records_length)
  have each: "(\<exists>t. prepare_record raw = Inr (t, False, Some raw)) \<and> \<not> c1_control (label_of raw)" if "raw \<in> set ?raws" for raw
  proof -
    have "gate_record raw = Inr ()" using g(8) that unfolding collect_Inr by (auto simp: list_all2_conv_all_nth in_set_conv_nth)
    then show ?thesis using gate_record_iff [of raw] l that by (simp add: list_all_iff)
  qed
  define kept where "kept = map (\<lambda>raw. (fst (projr (prepare_record raw)), raw)) ?raws"
  have "list_all (\<lambda>(t, b). prepare_record b = Inr (t, False, Some b) \<and> length b = 100) kept"
    using each l by (fastforce simp: kept_def list_all_iff)
  note d = deployed_rows [OF this]
  have raws: "map snd kept = ?raws" by (simp add: kept_def comp_def)
  have "length kept = ?n" by (simp add: kept_def raw_records_def)
  moreover from this have "kept \<noteq> []" using g(5) by auto
  moreover have "DB_MAGIC @ le_bytes 4 ?n @ concat ?raws = data" using header_again [OF g(7) refl g(4)] .
  ultimately have ?filter using g d unfolding prepare_db_def Let_def by (auto simp: raws MAX_RECORDS_DB_def)
  then show "?filter \<and> ?plain" using each by (auto simp: list_all_iff)
next
  assume a: "?filter \<and> ?plain"
  then obtain rep where f: "prepare_db sha data pin = Inr (data, rep)" by blast
  let ?n = "le_nat (slice data 8 12)" let ?raws = "raw_records ?n data"
  have g: "hex_pin pin" "sha data = lower pin" "12 \<le> length data" "take 8 data = DB_MAGIC" "1 \<le> ?n" "?n \<le> 40000" "length data = 12 + ?n * 100"
    using f by (auto simp: prepare_db_def Let_def MAX_RECORDS_DB_def split: if_splits)
  have "gate_record raw = Inr ()" if "raw \<in> set ?raws" for raw
    using prepared_fixpoint [OF f that] gate_record_iff [of raw] a that by (auto simp: list_all_iff)
  then have "collect gate_record ?raws = Inr (map (\<lambda>_. ()) ?raws)" unfolding collect_Inr by (simp add: list_all2_map2 list.rel_refl_strong)
  then show ?gate using g by (simp add: check_d4_database_def D4_MAX_BYTES_def)
qed


subsection \<open>The owner key\<close>

definition key_blob :: "bytes \<Rightarrow> bytes" where
  "key_blob key = [0, 0, 0, 11] @ bytes_of ''ssh-ed25519'' @ [0, 0, 0, 32] @ key"

definition owner_body :: "bytes \<Rightarrow> bytes" where
  "owner_body key = bytes_of ''ssh-ed25519'' @ 32 # b64encode (key_blob key) @ 32 # bytes_of ''c2m-debug-owner''"

lemma b64_chars: "length bs mod 3 = 0 \<Longrightarrow> list_all b64_char (b64encode bs)"
  by (induction bs rule: b64encode.induct) (simp_all add: b64_char_def)

lemma b64_shape_full: "list_all b64_char t \<Longrightarrow> t \<noteq> [] \<Longrightarrow> b64_shape t"
proof -
  assume a: "list_all b64_char t" "t \<noteq> []"
  have "last t \<noteq> PAD" using a by (metis b64_char_def dec6_PAD last_in_set list_all_iff)
  then have "takeWhile (\<lambda>b. b = PAD) (rev t) = []" using a(2) by (cases t rule: rev_cases) auto
  then show ?thesis using a by (simp add: b64_shape_def)
qed

lemma four_bytes:
  assumes "length bs = 4" "be_nat bs = n" "n < 256" shows "bs = [0, 0, 0, of_nat n]"
proof -
  obtain a b c d where bs: "bs = [a, b, c, d]" using assms(1) by (auto simp: length_Suc_conv numeral_eq_Suc)
  have "256 * (256 * (256 * unat a + unat b) + unat c) + unat d = n" using assms(2) by (simp add: bs be_nat_def)
  moreover have "256 * m + k = n \<Longrightarrow> m = 0 \<and> k = n" for m k :: nat using assms(3) by (cases m) simp_all
  ultimately have "256 * (256 * unat a + unat b) + unat c = 0 \<and> unat d = n" by blast
  then have "unat a = 0 \<and> unat b = 0 \<and> unat c = 0 \<and> unat d = n" by simp
  then show ?thesis by (auto simp: bs unat_eq_0)
qed

lemma key_blob_accepted: "key_blob_error blob = None \<longleftrightarrow> (\<exists>key. length key = 32 \<and> blob = key_blob key)"
proof
  assume a: "key_blob_error blob = None"
  have len: "length blob = 51" and f: "be_nat (slice blob 0 4) = 11" "slice blob 4 15 = bytes_of ''ssh-ed25519''" "be_nat (slice blob 15 19) = 32"
    using a by (auto simp: key_blob_error_def split: if_splits)
  have "slice blob 0 4 = [0, 0, 0, 11]" "slice blob 15 19 = [0, 0, 0, 32]"
    using four_bytes [OF _ f(1)] four_bytes [OF _ f(3)] len by simp_all
  moreover have "blob = slice blob 0 4 @ slice blob 4 15 @ slice blob 15 19 @ drop 19 blob"
    using append_take_drop_id [of 4 blob] append_take_drop_id [of 11 "drop 4 blob"] append_take_drop_id [of 4 "drop 15 blob"]
    by (simp add: slice_def)
  ultimately have "blob = key_blob (drop 19 blob)" using f(2) by (simp add: key_blob_def)
  moreover have "length (drop 19 blob) = 32" using len by simp
  ultimately show "\<exists>key. length key = 32 \<and> blob = key_blob key" by blast
next
  assume "\<exists>key. length key = 32 \<and> blob = key_blob key"
  then obtain key where k: "length key = 32" "blob = key_blob key" by blast
  then show "key_blob_error blob = None"
    by (simp add: key_blob_error_def key_blob_def slice_def be_nat_def bytes_of_def)
qed

lemma split_three: "split_on c xs = [x, y, z] \<longleftrightarrow> xs = x @ c # y @ c # z \<and> c \<notin> set x \<and> c \<notin> set y \<and> c \<notin> set z"
proof
  assume a: "split_on c xs = [x, y, z]"
  have "c \<notin> set part" if "part \<in> set (split_on c xs)" for part using that by (rule split_on_parts)
  then show "xs = x @ c # y @ c # z \<and> c \<notin> set x \<and> c \<notin> set y \<and> c \<notin> set z"
    using a unsplit_split_on [of c xs] by auto
qed (auto simp: split_on_append split_on_free)

lemma no_blank_in_key: "32 \<notin> set (b64encode bs)"
  using b64encode_printable [of 32 bs] by auto

lemma key_line_accepted:
  "key_line_error body = None \<longleftrightarrow>
     (\<exists>key. length key = 32 \<and> body = owner_body key) \<and> \<not> contains (bytes_of ''PRIVATE'') body \<and> \<not> contains (bytes_of ''BEGIN'') body"
  (is "_ \<longleftrightarrow> ?line \<and> ?priv")
proof
  assume a: "key_line_error body = None"
  then obtain x y z where s: "split_on 32 body = [x, y, z]"
    by (auto simp: key_line_error_def split: list.splits)
  then have xz: "x = bytes_of ''ssh-ed25519''" "z = bytes_of ''c2m-debug-owner''" and p: ?priv
    and b: "\<exists>blob. b64decode y = Some blob \<and> b64encode blob = y \<and> key_blob_error blob = None"
    using a by (auto simp: key_line_error_def DEBUG_OWNER_COMMENT_def split: if_splits option.splits)
  then obtain key where "length key = 32" "y = b64encode (key_blob key)" unfolding key_blob_accepted by blast
  then have ?line using s xz by (auto simp: split_three owner_body_def)
  then show "?line \<and> ?priv" using p by blast
next
  assume a: "?line \<and> ?priv"
  then obtain key where k: "length key = 32" "body = owner_body key" by blast
  let ?y = "b64encode (key_blob key)"
  have len: "length (key_blob key) = 51" using k(1) by (simp add: key_blob_def)
  then have ne: "?y \<noteq> []" using length_b64encode [of "key_blob key"] by auto
  have "split_on 32 body = [bytes_of ''ssh-ed25519'', ?y, bytes_of ''c2m-debug-owner'']"
    using no_blank_in_key by (simp add: split_three k(2) owner_body_def) (simp add: bytes_of_def)
  moreover have "b64_shape ?y" using b64_shape_full [OF b64_chars ne] len by simp
  moreover have "key_blob_error (key_blob key) = None" using key_blob_accepted k(1) by blast
  ultimately show "key_line_error body = None"
    using a ne by (simp add: key_line_error_def DEBUG_OWNER_COMMENT_def)
qed

lemma owner_body_bytes: "b \<in> set (owner_body key) \<Longrightarrow> 32 \<le> b \<and> b \<le> 126"
proof -
  assume "b \<in> set (owner_body key)"
  then consider "b = 32" | "b \<in> set (bytes_of ''ssh-ed25519'') \<union> set (bytes_of ''c2m-debug-owner'')" | "b \<in> set (b64encode (key_blob key))"
    by (auto simp: owner_body_def)
  then show ?thesis
  proof cases
    case 2
    then show ?thesis by (auto simp: bytes_of_def)
  next
    case 3
    from b64encode_printable [OF this] show ?thesis by (auto simp: word_le_nat_alt)
  qed simp
qed

text \<open>The owner key gate accepts exactly one file per 32-byte key: its canonical OpenSSH line. A key whose line happens to contain
  the text BEGIN or PRIVATE is refused as well.\<close>

theorem owner_key_gate_iff:
  "check_debug_owner_key sha data pin = Inr d \<longleftrightarrow>
     hex_pin pin \<and> sha data = lower pin \<and> d = sha data
     \<and> (\<exists>key. length key = 32 \<and> data = owner_body key @ [10])
     \<and> \<not> contains (bytes_of ''PRIVATE'') (butlast data) \<and> \<not> contains (bytes_of ''BEGIN'') (butlast data)"
proof -
  have line: "key_line_error (butlast data) = None \<and> data \<noteq> [] \<and> last data = 10 \<longleftrightarrow>
      (\<exists>key. length key = 32 \<and> data = owner_body key @ [10])
      \<and> \<not> contains (bytes_of ''PRIVATE'') (butlast data) \<and> \<not> contains (bytes_of ''BEGIN'') (butlast data)"
    unfolding key_line_accepted by (cases data rule: rev_cases) auto
  have shape: "length data \<le> DEBUG_OWNER_MAX_BYTES \<and> 13 \<notin> set data \<and> count_list data 10 = 1 \<and> \<not> list_ex (\<lambda>b. 128 \<le> b) data
      \<and> \<not> list_ex (\<lambda>b. (b < 32 \<or> b = 127) \<and> b \<noteq> 10) data"
    if k: "length key = 32" "data = owner_body key @ [10]" for key
  proof -
    have "length data = 97" using k by (simp add: owner_body_def length_b64encode key_blob_def)
    moreover have "count_list (owner_body key) 10 = 0" using owner_body_bytes [of 10 key] by (auto simp: count_list_0_iff)
    ultimately show ?thesis using k(2) owner_body_bytes [of _ key] by (fastforce simp: DEBUG_OWNER_MAX_BYTES_def list_ex_iff word_le_nat_alt word_less_nat_alt)
  qed
  show ?thesis
  proof
    assume a: "check_debug_owner_key sha data pin = Inr d"
    then have "key_line_error (butlast data) = None \<and> data \<noteq> [] \<and> last data = 10" "hex_pin pin" "sha data = lower pin" "d = sha data"
      by (auto simp: check_debug_owner_key_def split: if_splits option.splits)
    then show "hex_pin pin \<and> sha data = lower pin \<and> d = sha data
     \<and> (\<exists>key. length key = 32 \<and> data = owner_body key @ [10])
     \<and> \<not> contains (bytes_of ''PRIVATE'') (butlast data) \<and> \<not> contains (bytes_of ''BEGIN'') (butlast data)" using line by blast
  next
    assume a: "hex_pin pin \<and> sha data = lower pin \<and> d = sha data
     \<and> (\<exists>key. length key = 32 \<and> data = owner_body key @ [10])
     \<and> \<not> contains (bytes_of ''PRIVATE'') (butlast data) \<and> \<not> contains (bytes_of ''BEGIN'') (butlast data)"
    then obtain key where k: "length key = 32" "data = owner_body key @ [10]" by blast
    show "check_debug_owner_key sha data pin = Inr d"
      using a shape [OF k] line by (auto simp: check_debug_owner_key_def not_less)
  qed
qed

end
