(* ===== verification/Hook.thy ===== *)
theory Hook
  imports Prelude
begin

text \<open>
  The edit of the stock hook script by \<open>tools/fw/mutate_customer.py\<close> (the part of \<open>main\<close> between the first look at the hook and the
  staging of the assets): where the launch block goes, which lines it has for which services, and every refusal. A script is its
  bytes; the line of the command line that starts the idle daemon is ASCII. Searching backwards for the last line that is not blank
  is cutting off the blank lines at the end.

  Shown: an accepted edit of a script that ends in \<open>exit\<close> replaces that line by a block and keeps every other line; the
  block saves the status first, holds no other \<open>exit\<close> and ends with the stock one; the edits by index build the declared order
  of the services; an edited script is never edited again.
\<close>

subsection \<open>The lines\<close>

definition RC_SAVE :: bytes where "RC_SAVE = bytes_of ''_c2m_rc=$?''"
definition RC_MARK :: bytes where "RC_MARK = bytes_of ''_c2m_rc=''"
definition RC_EXIT :: bytes where "RC_EXIT = bytes_of ''exit $_c2m_rc''"
definition BOOTVOICE_LAUNCH :: bytes where
  "BOOTVOICE_LAUNCH = bytes_of ''/bin/sh /customer/c2m/boot_voice.sh >/dev/null 2>&1 &''"
definition PROFILE_LAUNCH :: bytes where
  "PROFILE_LAUNCH = bytes_of ''/bin/sh /customer/c2m/tsr_profile_boot.sh >/dev/null 2>&1''"
definition DETACHED :: bytes where "DETACHED = bytes_of '' >/dev/null 2>&1 &''"
definition CLOSED :: bytes where "CLOSED = bytes_of '' ) >/dev/null 2>&1 &''"
definition D3_LAUNCH :: bytes where "D3_LAUNCH = bytes_of ''/bin/sh /customer/c2m/boot.sh >/dev/null 2>&1 &''"
definition D4_LAUNCH :: bytes where "D4_LAUNCH = bytes_of ''/bin/sh /customer/c2m/d4_boot.sh >/dev/null 2>&1 &''"
definition DEBUG_LAUNCH :: bytes where "DEBUG_LAUNCH = bytes_of ''/bin/sh /customer/c2m/debug_boot.sh >/dev/null 2>&1 &''"

definition TSR_PATCH_LINES :: "bytes list" where
  "TSR_PATCH_LINES = map bytes_of
     [''if [ -f /customer/minieye/config/adas.flag ]; then'',
      ''base64 -d /customer/minieye/config/adas.flag > /tmp/c2m_adas_de.tmp'',
      ''if grep -q -e \"--enable_tsr=false\" /tmp/c2m_adas_de.tmp; then'',
      ''sed -e s/--enable_tsr=false/--enable_tsr=true/ /tmp/c2m_adas_de.tmp > /customer/minieye/config/adas_de.flag'',
      ''base64 /customer/minieye/config/adas_de.flag > /customer/minieye/config/adas.flag'',
      ''fi'',
      ''rm -f /tmp/c2m_adas_de.tmp'',
      ''fi'']"

definition WAIT_LINES :: "bytes list" where
  "WAIT_LINES = map bytes_of
     [''( _c2m_n=0'',
      ''while [ $_c2m_n -lt 30 ]; do'',
      ''grep -qs '' @ [CHR 0x27] @ '' /mnt/mmc '' @ [CHR 0x27] @ '' /proc/mounts && break'',
      ''sleep 2'',
      ''_c2m_n=$(($_c2m_n + 1))'',
      ''done'']"

definition CARD_LINES :: "bytes list" where
  "CARD_LINES = map bytes_of
     [''if grep -qs '' @ [CHR 0x27] @ '' /mnt/mmc '' @ [CHR 0x27] @ '' /proc/mounts; then'',
      ''mkdir -p /mnt/mmc/C2M_DIAG'',
      ''cp /tmp/c2m_tsr_status.txt /mnt/mmc/C2M_DIAG/tsr-profile-D.txt'',
      ''fi'']"

subsection \<open>The command and the terminal exit\<close>

definition rstrip_space :: "bytes \<Rightarrow> bytes" where
  "rstrip_space bs = rev (dropWhile ascii_space (rev bs))"

definition command_of :: "bytes \<Rightarrow> bytes" where
  "command_of ln = (let c = rstrip_space ln in if suffix [38] c then rstrip_space (butlast c) else c)"

definition blank :: "byte \<Rightarrow> bool" where "blank b \<longleftrightarrow> b = 32 \<or> b = 9"

definition blank_line :: "bytes \<Rightarrow> bool" where "blank_line l \<longleftrightarrow> strip_by blank l = []"

text \<open>\<open>exit([ \t]+[^ \t\n].*)?\<close> on a line without line feeds.\<close>

definition terminal_exit :: "bytes \<Rightarrow> bool" where
  "terminal_exit l \<longleftrightarrow>
     prefix (bytes_of ''exit'') l \<and>
     (let r = drop 4 l in r = [] \<or> blank (hd r) \<and> dropWhile blank r \<noteq> [])"

definition exit_tail :: "bytes \<Rightarrow> bytes" where
  "exit_tail l = (if l = bytes_of ''exit'' \<or> l = bytes_of ''exit $?'' then RC_EXIT else l)"

subsection \<open>The block\<close>

record hook_opts =
  ho_line :: bytes
  ho_tsr_patch :: bool
  ho_tsr_experiment :: bool
  ho_d3 :: bool
  ho_d4 :: bool
  ho_debug :: bool
  ho_bootvoice :: bool

definition base_block :: "hook_opts \<Rightarrow> bytes \<Rightarrow> bytes list" where
  "base_block o' tail =
     [RC_SAVE] @ (if ho_bootvoice o' then [BOOTVOICE_LAUNCH] else [])
     @ (if ho_tsr_patch o' then TSR_PATCH_LINES else [])
     @ (if ho_tsr_experiment o' then [PROFILE_LAUNCH] else [])
     @ WAIT_LINES @ [command_of (ho_line o') @ DETACHED @ CLOSED, tail]"

text \<open>The index of the first line that starts the daemon; the block always has one.\<close>

definition launch_index :: "bytes \<Rightarrow> bytes list \<Rightarrow> nat" where
  "launch_index cmd block = length (takeWhile (\<lambda>l. \<not> prefix (cmd @ bytes_of '' >'') l) block)"

definition insert_at :: "nat \<Rightarrow> 'a list \<Rightarrow> 'a list \<Rightarrow> 'a list" where
  "insert_at i new xs = take i xs @ new @ drop i xs"

definition card_block :: "hook_opts \<Rightarrow> bytes list \<Rightarrow> bytes list" where
  "card_block o' block =
     (if ho_tsr_experiment o' then insert_at (launch_index (command_of (ho_line o')) block) CARD_LINES block else block)"

definition boot_lines :: "hook_opts \<Rightarrow> bytes list" where
  "boot_lines o' =
     (let boots = [D3_LAUNCH] @ (if ho_d4 o' then [D4_LAUNCH] else []) @ (if ho_debug o' then [DEBUG_LAUNCH] else []) in
      butlast boots @ [last boots @ CLOSED])"

definition services_block :: "hook_opts \<Rightarrow> bytes list \<Rightarrow> bytes list" where
  "services_block o' block =
     (let cmd = command_of (ho_line o'); i = launch_index cmd block in
      if ho_d3 o' then insert_at (Suc i) (boot_lines o') (block[i := cmd @ DETACHED]) else block)"

definition launch_block :: "hook_opts \<Rightarrow> bytes \<Rightarrow> bytes list" where
  "launch_block o' tail = services_block o' (card_block o' (base_block o' tail))"

subsection \<open>The edit\<close>

datatype hook_mode = Insert_before_exit | Append_eof

definition hook_refusal :: "hook_opts \<Rightarrow> bytes \<Rightarrow> string option" where
  "hook_refusal o' txt =
     (if \<not> utf8_valid txt then Some ''UnicodeDecodeError''
      else if contains RC_MARK txt \<or> contains RC_EXIT txt then Some ''launch block already present''
      else if contains (ho_line o') txt then Some ''launch line already present''
      else if ho_bootvoice o' \<and> contains BOOTVOICE_LAUNCH txt then Some ''boot voice launch already present''
      else if \<not> suffix [10] txt then Some ''unexpected hook EOF''
      else None)"

definition edit_hook :: "hook_opts \<Rightarrow> bytes \<Rightarrow> string + bytes \<times> hook_mode" where
  "edit_hook o' txt =
     (case hook_refusal o' txt of
        Some e \<Rightarrow> Inl e
      | None \<Rightarrow>
          (let ls = split_on 10 txt; post = rev (takeWhile blank_line (rev ls)); body = rev (dropWhile blank_line (rev ls));
               last_line = (if body = [] then [] else strip_by blank (last body)) in
           if terminal_exit last_line then
             (if ho_tsr_patch o' \<and> contains (bytes_of ''c2m_adas_de.tmp'') txt then Inl ''TSR patch already present''
              else if \<not> ho_d3 o' \<and> ho_debug o' then Inl ''Debug requires D3 services''
              else Inr (unsplit 10 (butlast body @ launch_block o' (exit_tail last_line) @ post), Insert_before_exit))
           else if ho_tsr_patch o' \<or> ho_tsr_experiment o' then Inl ''TSR requires terminal-exit hook shape''
           else Inr (txt @ ho_line o' @ [10], Append_eof)))"

subsection \<open>Splitting and joining\<close>

lemma split_on_unsplit:
  "parts \<noteq> [] \<Longrightarrow> \<forall>part \<in> set parts. c \<notin> set part \<Longrightarrow> split_on c (unsplit c parts) = parts"
  by (induction c parts rule: unsplit.induct) (auto simp: split_on_free split_on_append)

lemma contains_part: "part \<in> set parts \<Longrightarrow> contains pat part \<Longrightarrow> contains pat (unsplit c parts)"
proof (induction c parts rule: unsplit.induct)
  case (3 c x y xs)
  show ?case
  proof (cases "part = x")
    case True
    then show ?thesis using 3 contains_appendI1 by simp
  next
    case False
    then have "contains pat (unsplit c (y # xs))" using 3 by auto
    then show ?thesis using contains_appendI2 [of pat "unsplit c (y # xs)" "x @ [c]"] by simp
  qed
qed auto

subsection \<open>The declared order of the block\<close>

definition block_layout :: "hook_opts \<Rightarrow> bytes \<Rightarrow> bytes list" where
  "block_layout o' tail =
     (let cmd = command_of (ho_line o') in
      [RC_SAVE] @ (if ho_bootvoice o' then [BOOTVOICE_LAUNCH] else [])
      @ (if ho_tsr_patch o' then TSR_PATCH_LINES else []) @ (if ho_tsr_experiment o' then [PROFILE_LAUNCH] else [])
      @ WAIT_LINES @ (if ho_tsr_experiment o' then CARD_LINES else [])
      @ (if ho_d3 o' then [cmd @ DETACHED] @ boot_lines o' else [cmd @ DETACHED @ CLOSED]) @ [tail])"

definition on_customer :: "bytes \<Rightarrow> bool" where
  "on_customer cmd \<longleftrightarrow> prefix (bytes_of ''/customer/'') cmd"

lemmas fixed_lines = RC_SAVE_def BOOTVOICE_LAUNCH_def PROFILE_LAUNCH_def TSR_PATCH_LINES_def WAIT_LINES_def CARD_LINES_def

lemma fixed_no_launch:
  assumes "on_customer cmd" "l \<in> set (RC_SAVE # BOOTVOICE_LAUNCH # PROFILE_LAUNCH # TSR_PATCH_LINES @ WAIT_LINES @ CARD_LINES)"
  shows "\<not> prefix (cmd @ rest) l"
proof
  assume "prefix (cmd @ rest) l"
  then have "prefix (bytes_of ''/customer/'') l"
    using prefix_order.trans [OF assms(1) [unfolded on_customer_def] append_prefixD] by blast
  moreover have "list_all (\<lambda>l. \<not> prefix (bytes_of ''/customer/'') l) (RC_SAVE # BOOTVOICE_LAUNCH # PROFILE_LAUNCH # TSR_PATCH_LINES @ WAIT_LINES @ CARD_LINES)"
    by (simp add: fixed_lines prefix_bytes_of)
  ultimately show False using assms(2) unfolding list_all_iff by blast
qed

lemma launch_index_at:
  assumes "list_all (\<lambda>l. \<not> prefix (cmd @ bytes_of '' >'') l) pre" "prefix (bytes_of '' >'') rest"
  shows "launch_index cmd (pre @ (cmd @ rest) # post) = length pre"
  using assms by (simp add: launch_index_def takeWhile_append list_all_iff)

lemma launch_block_layout:
  assumes "on_customer (command_of (ho_line o'))"
  shows "launch_block o' tail = block_layout o' tail"
proof -
  let ?cmd = "command_of (ho_line o')"
  let ?pre = "[RC_SAVE] @ (if ho_bootvoice o' then [BOOTVOICE_LAUNCH] else [])
      @ (if ho_tsr_patch o' then TSR_PATCH_LINES else []) @ (if ho_tsr_experiment o' then [PROFILE_LAUNCH] else []) @ WAIT_LINES"
  let ?card = "if ho_tsr_experiment o' then CARD_LINES else []"
  have out: "prefix (bytes_of '' >'') (DETACHED @ x)" for x by (simp add: DETACHED_def bytes_of_def)
  have p: "list_all (\<lambda>l. \<not> prefix (?cmd @ bytes_of '' >'') l) ?pre" "list_all (\<lambda>l. \<not> prefix (?cmd @ bytes_of '' >'') l) (?pre @ ?card)"
    using fixed_no_launch [OF assms] by (auto simp: list_all_iff split: if_splits)
  have b: "base_block o' tail = ?pre @ (?cmd @ DETACHED @ CLOSED) # [tail]" by (simp add: base_block_def)
  have "launch_index ?cmd (base_block o' tail) = length ?pre" unfolding b by (rule launch_index_at [OF p(1) out])
  then have c: "card_block o' (base_block o' tail) = (?pre @ ?card) @ (?cmd @ DETACHED @ CLOSED) # [tail]"
    unfolding card_block_def insert_at_def by (simp only: b append_eq_conv_conj) simp
  have "launch_index ?cmd ((?pre @ ?card) @ (?cmd @ DETACHED @ CLOSED) # [tail]) = length (?pre @ ?card)"
    by (rule launch_index_at [OF p(2) out])
  then show ?thesis
    unfolding launch_block_def c services_block_def Let_def block_layout_def
    by (simp only: insert_at_def list_update_append1 list_update_length) (simp add: list_update_append)
qed

subsection \<open>Lines of the block\<close>

lemma set_rstrip: "b \<in> set (rstrip_space bs) \<Longrightarrow> b \<in> set bs"
  unfolding rstrip_space_def by (metis set_dropWhileD set_rev)

lemma command_no_newline: "10 \<notin> set ln \<Longrightarrow> 10 \<notin> set (command_of ln)"
  by (auto simp: command_of_def Let_def dest: set_rstrip in_set_butlastD)

lemma boot_lines_fixed: "set (boot_lines o') \<subseteq> {l @ r |l r. l \<in> {D3_LAUNCH, D4_LAUNCH, DEBUG_LAUNCH} \<and> r \<in> {[], CLOSED}}"
  by (auto simp: boot_lines_def Let_def)

lemma fixed_no_newline:
  "l \<in> set ([RC_SAVE, BOOTVOICE_LAUNCH, PROFILE_LAUNCH, DETACHED, CLOSED, D3_LAUNCH, D4_LAUNCH, DEBUG_LAUNCH] @ TSR_PATCH_LINES @ WAIT_LINES @ CARD_LINES)
   \<Longrightarrow> 10 \<notin> set l"
proof -
  have n: "10 \<notin> set (bytes_of s)" if "list_all (\<lambda>c. c \<noteq> CHR 0x0A) s" for s
  proof
    assume "10 \<in> set (bytes_of s)"
    then obtain c where c: "c \<in> set s" "of_char c = (10 :: byte)" by (auto simp: bytes_of_def)
    then have "bytes_of [c] = bytes_of [CHR 0x0A]" by (simp add: bytes_of_def)
    then have "c = CHR 0x0A" by simp
    then show False using that c(1) unfolding list_all_iff by blast
  qed
  assume "l \<in> set ([RC_SAVE, BOOTVOICE_LAUNCH, PROFILE_LAUNCH, DETACHED, CLOSED, D3_LAUNCH, D4_LAUNCH, DEBUG_LAUNCH] @ TSR_PATCH_LINES @ WAIT_LINES @ CARD_LINES)"
  moreover have "list_all (\<lambda>l. 10 \<notin> set l) [RC_SAVE, BOOTVOICE_LAUNCH, PROFILE_LAUNCH, DETACHED, CLOSED, D3_LAUNCH, D4_LAUNCH, DEBUG_LAUNCH]"
    by (simp add: RC_SAVE_def BOOTVOICE_LAUNCH_def PROFILE_LAUNCH_def DETACHED_def CLOSED_def D3_LAUNCH_def D4_LAUNCH_def DEBUG_LAUNCH_def n)
  moreover have "list_all (\<lambda>l. 10 \<notin> set l) TSR_PATCH_LINES" "list_all (\<lambda>l. 10 \<notin> set l) WAIT_LINES" "list_all (\<lambda>l. 10 \<notin> set l) CARD_LINES"
    by (simp_all add: TSR_PATCH_LINES_def WAIT_LINES_def CARD_LINES_def n)
  ultimately show ?thesis by (auto simp: list_all_iff)
qed

lemma layout_no_newline:
  assumes "10 \<notin> set (ho_line o')" "10 \<notin> set tail" "l \<in> set (block_layout o' tail)"
  shows "10 \<notin> set l"
proof -
  have "10 \<notin> set (command_of (ho_line o'))" using assms(1) by (rule command_no_newline)
  then have "10 \<notin> set (command_of (ho_line o') @ DETACHED)" "10 \<notin> set (command_of (ho_line o') @ DETACHED @ CLOSED)"
    using fixed_no_newline [of DETACHED] fixed_no_newline [of CLOSED] by auto
  moreover have "10 \<notin> set l" if "l \<in> set (boot_lines o')" for l
    using that boot_lines_fixed [of o'] fixed_no_newline [of D3_LAUNCH] fixed_no_newline [of D4_LAUNCH] fixed_no_newline [of DEBUG_LAUNCH]
      fixed_no_newline [of CLOSED] by fastforce
  ultimately show ?thesis
    using assms(2,3) fixed_no_newline [of l] by (auto simp: block_layout_def Let_def split: if_splits)
qed

text \<open>A line whose first byte is not \<open>e\<close> or blank is no exit.\<close>

lemma exit_first: "terminal_exit (strip_by blank l) \<Longrightarrow> l \<noteq> [] \<and> (hd l = 101 \<or> blank (hd l))"
proof -
  assume a: "terminal_exit (strip_by blank l)"
  have e: "bytes_of ''exit'' = 101 # bytes_of ''xit''" by (simp add: bytes_of_def)
  have "\<exists>r. dropWhile blank (rev (dropWhile blank l)) = r @ [101]"
  proof -
    obtain r where "strip_by blank l = 101 # r" using a unfolding terminal_exit_def e by (auto simp: prefix_def)
    then show ?thesis unfolding strip_by_def by (metis rev.simps(2) rev_rev_ident)
  qed
  then obtain r where r: "dropWhile blank (rev (dropWhile blank l)) = r @ [101]" by blast
  then have "\<exists>ws. rev (dropWhile blank l) = ws @ r @ [101]" by (metis takeWhile_dropWhile_id)
  then obtain ws where "dropWhile blank l = 101 # rev (ws @ r)" by (metis append.assoc rev.simps(2) rev_append rev_rev_ident rev_singleton_conv append_Cons append_Nil)
  then show ?thesis by (cases l) (auto split: if_splits)
qed

lemma layout_no_exit:
  assumes "on_customer (command_of (ho_line o'))"
  shows "list_all (\<lambda>l. \<not> terminal_exit (strip_by blank l)) (butlast (block_layout o' tail))"
proof -
  define safe where "safe l \<longleftrightarrow> l \<noteq> [] \<and> hd l \<noteq> 101 \<and> \<not> blank (hd l)" for l
  obtain r where cmd: "command_of (ho_line o') = bytes_of ''/customer/'' @ r" using assms by (auto simp: on_customer_def prefix_def)
  have "safe (command_of (ho_line o') @ x)" for x by (simp add: cmd safe_def bytes_of_def blank_def)
  moreover have "list_all safe (RC_SAVE # BOOTVOICE_LAUNCH # PROFILE_LAUNCH # TSR_PATCH_LINES @ WAIT_LINES @ CARD_LINES)"
    by (simp add: fixed_lines safe_def bytes_of_def blank_def)
  moreover have "list_all safe (boot_lines o')"
    by (simp add: boot_lines_def Let_def safe_def D3_LAUNCH_def D4_LAUNCH_def DEBUG_LAUNCH_def bytes_of_def blank_def)
  ultimately have "list_all safe (butlast (block_layout o' tail))"
    by (simp add: block_layout_def Let_def butlast_append)
  then show ?thesis unfolding list_all_iff safe_def using exit_first by blast
qed

subsection \<open>Properties\<close>

lemma edit_hook_insert:
  assumes "edit_hook o' txt = Inr (new, Insert_before_exit)"
  obtains pre old post where "split_on 10 txt = pre @ old # post" "terminal_exit (strip_by blank old)" "list_all blank_line post"
    "new = unsplit 10 (pre @ launch_block o' (exit_tail (strip_by blank old)) @ post)"
proof -
  let ?ls = "split_on 10 txt"
  let ?body = "rev (dropWhile blank_line (rev ?ls))" and ?post = "rev (takeWhile blank_line (rev ?ls))"
  have e: "\<not> terminal_exit []" by (simp add: terminal_exit_def bytes_of_def)
  have b: "?body \<noteq> []" "terminal_exit (strip_by blank (last ?body))"
    "new = unsplit 10 (butlast ?body @ launch_block o' (exit_tail (strip_by blank (last ?body))) @ ?post)"
    using assms e by (auto simp: edit_hook_def Let_def split: option.splits if_splits)
  have "?ls = ?body @ ?post" by (metis rev_append rev_rev_ident takeWhile_dropWhile_id)
  then have "?ls = butlast ?body @ last ?body # ?post" using b(1) by (metis append.assoc append_Cons append_Nil append_butlast_last_id)
  moreover have "list_all blank_line ?post" by (auto simp: list_all_iff dest: set_takeWhileD)
  ultimately show thesis using b(2,3) that by blast
qed


lemma after_first:
  assumes "block = RC_SAVE # ls"
  shows "\<exists>i. launch_index cmd block = Suc i"
proof -
  have "62 \<notin> set RC_SAVE" by (simp add: RC_SAVE_def bytes_of_def)
  moreover have "62 \<in> set (cmd @ bytes_of '' >'')" by (simp add: bytes_of_def)
  ultimately have "\<not> prefix (cmd @ bytes_of '' >'') RC_SAVE" using set_mono_prefix by blast
  then show ?thesis by (simp add: assms launch_index_def)
qed

lemma block_saves: "\<exists>ls. launch_block o' tail = RC_SAVE # ls"
proof -
  let ?cmd = "command_of (ho_line o')"
  have base: "\<exists>ls. base_block o' tail = RC_SAVE # ls" by (simp add: base_block_def)
  have card: "\<exists>ls. card_block o' block = RC_SAVE # ls" if "\<exists>ls. block = RC_SAVE # ls" for block
    using that after_first [of block _ ?cmd] by (auto simp: card_block_def insert_at_def)
  have "\<exists>ls. services_block o' block = RC_SAVE # ls" if "\<exists>ls. block = RC_SAVE # ls" for block
    using that after_first [of block _ ?cmd] by (auto simp: services_block_def Let_def insert_at_def)
  then show ?thesis using base card unfolding launch_block_def by blast
qed

text \<open>C30. An edited script is never edited again: the next run with the same launch line refuses it, whatever services it would add.\<close>

theorem no_double_hook:
  assumes "edit_hook o' txt = Inr (new, mode)" and "ho_line o'' = ho_line o'"
  shows "\<exists>e. edit_hook o'' new = Inl e"
proof -
  have "contains RC_MARK new \<or> contains (ho_line o'') new"
  proof (cases mode)
    case Insert_before_exit
    then obtain pre old post where n: "new = unsplit 10 (pre @ launch_block o' (exit_tail (strip_by blank old)) @ post)"
      using assms(1) edit_hook_insert by metis
    obtain ls where "launch_block o' (exit_tail (strip_by blank old)) = RC_SAVE # ls" using block_saves by blast
    moreover have "RC_SAVE = RC_MARK @ bytes_of ''$?''" by (simp add: RC_SAVE_def RC_MARK_def bytes_of_def)
    then have "contains RC_MARK RC_SAVE" using contains_append_mid [of RC_MARK "[]"] by (metis append_Nil)
    ultimately show ?thesis using contains_part [of RC_SAVE] n by simp
  next
    case Append_eof
    then have "new = txt @ ho_line o' @ [10]" using assms(1) by (auto simp: edit_hook_def Let_def split: option.splits if_splits)
    then show ?thesis using assms(2) contains_append_mid by metis
  qed
  then show ?thesis by (auto simp: edit_hook_def hook_refusal_def)
qed

subsection \<open>Witnesses\<close>

definition demo_opts :: hook_opts where
  "demo_opts = \<lparr>ho_line = bytes_of ''/customer/c2m/c2m-idle &'', ho_tsr_patch = False, ho_tsr_experiment = True, ho_d3 = True, ho_d4 = True,
     ho_debug = False, ho_bootvoice = False\<rparr>"

definition demo_hook :: bytes where
  "demo_hook = bytes_of ''insmod x.ko'' @ [10] @ bytes_of ''exit $?'' @ [10]"

lemma demo_split: "split_on 10 demo_hook = [bytes_of ''insmod x.ko'', bytes_of ''exit $?'', []]"
  by (simp add: demo_hook_def bytes_of_def)

lemma demo_exit: "strip_by blank (bytes_of ''exit $?'') = bytes_of ''exit $?''" "terminal_exit (bytes_of ''exit $?'')"
  "blank_line []" "\<not> blank_line (bytes_of ''exit $?'')"
  by (simp_all add: strip_by_def blank_def terminal_exit_def blank_line_def bytes_of_def)

lemma demo_accepted: "hook_refusal demo_opts demo_hook = None"
  by (simp add: hook_refusal_def demo_opts_def demo_hook_def contains_def RC_MARK_def RC_EXIT_def bytes_of_def suffix_def)

lemma demo_edited: "\<exists>new. edit_hook demo_opts demo_hook = Inr (new, Insert_before_exit)"
  by (simp add: edit_hook_def demo_accepted demo_split Let_def demo_exit)
    (simp add: demo_opts_def)

lemma demo_command: "command_of (ho_line demo_opts) = bytes_of ''/customer/c2m/c2m-idle''" "10 \<notin> set (ho_line demo_opts)"
  by (simp_all add: command_of_def demo_opts_def rstrip_space_def ascii_space_def bytes_of_def Let_def suffix_def)


theorem no_double_hook_witness: "\<exists>new mode e. edit_hook demo_opts demo_hook = Inr (new, mode) \<and> edit_hook demo_opts new = Inl e"
  using demo_edited no_double_hook by blast

end
