(* ===== verification/Mutate.thy ===== *)
theory Mutate
  imports InstallGates Hook Ownership "HOL-Library.AList" "HOL-Library.Product_Lexorder"
begin

text \<open>
  \<open>main\<close> of \<open>tools/fw/mutate_customer.py\<close>: the mutation of an extracted customer tree. The tree maps path components below its root
  to nodes; \<open>me_root_linked\<close> says whether the root is reached through a symbolic link. Local input files are what the program sees
  of them (\<open>source\<close>), the manifests the values of \<open>json.loads\<close>, the result is the changed tree with the mutation manifest, or
  an error before anything is written. SHA-256 and MD5 (hexadecimal) are parameters. \<open>OSError\<close>s of the writes are not modelled.
\<close>

subsection \<open>The tree\<close>

datatype tnode = TDir nat | TFile nat bytes | TLink | TOther

type_synonym tree = "(string list \<times> tnode) list"

definition tget :: "tree \<Rightarrow> string list \<Rightarrow> tnode option" where "tget t ps = map_of t ps"

definition tput :: "string list \<Rightarrow> tnode \<Rightarrow> tree \<Rightarrow> tree" where "tput ps n t = AList.update ps n t"

definition linked_at :: "bool \<Rightarrow> tree \<Rightarrow> string list \<Rightarrow> bool" where
  "linked_at lnk t ps \<longleftrightarrow> lnk \<or> list_ex (\<lambda>k. tget t (take k ps) = Some TLink) [1..<Suc (length ps)]"

fun node_file :: "tnode option \<Rightarrow> (nat \<times> bytes) option" where
  "node_file (Some (TFile mode data)) = Some (mode, data)"
| "node_file _ = None"

fun is_tdir :: "tnode option \<Rightarrow> bool" where
  "is_tdir (Some (TDir _)) \<longleftrightarrow> True"
| "is_tdir _ \<longleftrightarrow> False"

subsection \<open>The stock manifest\<close>

type_synonym stock_map = "(pyval \<times> pydict) list"

fun hashable :: "pyval \<Rightarrow> bool" where
  "hashable (PList _) = False"
| "hashable (PDict _) = False"
| "hashable _ = True"

definition stock_row :: "pyval \<Rightarrow> (pyval \<times> pydict) option" where
  "stock_row v =
     (case v of
        PDict r \<Rightarrow> if has_key r ''path'' \<and> hashable (dget r ''path'') then Some (dget r ''path'', r) else None
      | _ \<Rightarrow> None)"

definition stock_map :: "pyval option \<Rightarrow> stock_map option" where
  "stock_map doc =
     (case doc of
        Some (PDict d) \<Rightarrow> (case dget d ''entries'' of PList es \<Rightarrow> those (map stock_row es) | _ \<Rightarrow> None)
      | _ \<Rightarrow> None)"

text \<open>Of two entries for one path the later one counts.\<close>

definition stock_get :: "stock_map \<Rightarrow> string \<Rightarrow> pydict option" where
  "stock_get st p = map_of (rev st) (PStr p)"

definition stock_reg :: "stock_map \<Rightarrow> string \<Rightarrow> bool" where
  "stock_reg st p \<longleftrightarrow> (case stock_get st p of None \<Rightarrow> False | Some r \<Rightarrow> dget r ''type'' = PStr ''reg'')"

definition stock_sha :: "stock_map \<Rightarrow> string \<Rightarrow> pyval" where
  "stock_sha st p = (case stock_get st p of None \<Rightarrow> PNone | Some r \<Rightarrow> dget r ''sha256'')"

subsection \<open>The program's inputs\<close>

record mutate_env =
  me_root_linked :: bool
  me_args :: install_args
  me_hook :: string
  me_hook_line :: bytes
  me_stock :: "pyval option"
  me_idle :: source
  me_profile :: source
  me_health :: source
  me_report_new :: bool
  me_specs :: "pyval option option"
  me_local :: "string \<Rightarrow> source"

definition hook_opts_of :: "mutate_env \<Rightarrow> gathered \<Rightarrow> hook_opts" where
  "hook_opts_of env g =
     \<lparr>ho_line = me_hook_line env, ho_tsr_patch = ia_tsr_patch (me_args env), ho_tsr_experiment = ia_tsr_experiment (me_args env),
      ho_d3 = (gt_d3 g \<noteq> []), ho_d4 = (gt_d4 g \<noteq> []), ho_debug = (gt_debug g \<noteq> []), ho_bootvoice = (gt_bootvoice g \<noteq> [])\<rparr>"

subsection \<open>The hook\<close>

definition bad_rel :: "string \<Rightarrow> bool" where
  "bad_rel rel \<longleftrightarrow> list_ex (\<lambda>part. part \<in> {[], ''.'', ''..''}) (split_on (CHR ''/'') rel) \<or> CHR 0x5C \<in> set rel \<or> CHR '':'' \<in> set rel"

record hook_edit =
  he_path :: string
  he_parts :: "string list"
  he_file_mode :: nat
  he_old :: bytes
  he_new :: bytes
  he_kind :: hook_mode

definition plan_hook :: "(bytes \<Rightarrow> string) \<Rightarrow> mutate_env \<Rightarrow> gathered \<Rightarrow> stock_map \<Rightarrow> tree \<Rightarrow> string + hook_edit" where
  "plan_hook sha env g st t =
     (let rel = dropWhile (\<lambda>c. c = CHR ''/'') (me_hook env); p = CHR ''/'' # rel; ps = split_on (CHR ''/'') rel in
      if rel = [] \<or> bad_rel rel then Inl ''invalid image-relative hook path''
      else if \<not> stock_reg st p then Inl ''hook not a stock regular file''
      else if linked_at (me_root_linked env) t ps then Inl ''linked tree/hook path''
      else case node_file (tget t ps) of
          None \<Rightarrow> Inl ''hook tree content != stock manifest''
        | Some (mode, data) \<Rightarrow>
            if stock_sha st p \<noteq> PStr (sha data) then Inl ''hook tree content != stock manifest''
            else (case edit_hook (hook_opts_of env g) data of
                Inl e \<Rightarrow> Inl e
              | Inr (new, kind) \<Rightarrow>
                  Inr \<lparr>he_path = p, he_parts = ps, he_file_mode = mode, he_old = data, he_new = new, he_kind = kind\<rparr>))"

subsection \<open>The staged assets\<close>

definition M755 :: nat where "M755 = 493"
definition M644 :: nat where "M644 = 420"

definition D4_MODES :: "(string \<times> nat) list" where
  "D4_MODES = [(''c2m-signs'', M755), (''d4_boot.sh'', M755), (''signs-d4.bin'', M644)]"
definition DEBUG_MODES :: "(string \<times> nat) list" where
  "DEBUG_MODES = [(''c2m-debug'', M755), (''dropbear'', M755), (''dropbearkey'', M755), (''debug_boot.sh'', M755),
     (''debug_owner.pub'', M644), (''libnss_files.so.2'', M644)]"
definition BOOTVOICE_MODES :: "(string \<times> nat) list" where
  "BOOTVOICE_MODES = [(''c2m-light'', M755), (''boot_voice.sh'', M755), (''Boot_Greeting.wav'', M644),
     (''Light_Dark_TurnOn.wav'', M644), (''Light_Bright_TurnOff.wav'', M644)]"

type_synonym staged = "string \<times> bytes \<times> nat"

definition with_modes :: "(string \<times> nat) list \<Rightarrow> assets \<Rightarrow> staged list" where
  "with_modes modes as = map (\<lambda>(n, d). (n, d, the (map_of modes n))) as"

definition stage_dict :: "staged list \<Rightarrow> staged list" where
  "stage_dict xs = foldl (\<lambda>d (n, v). AList.update n v d) [] xs"

definition shell_source :: "source \<Rightarrow> string + bytes" where
  "shell_source s =
     (case read_source s of Inl e \<Rightarrow> Inl e | Inr data \<Rightarrow> if shell_ok data then Inr data else Inl ''script must be LF shell'')"

definition optional_asset :: "bool \<Rightarrow> string \<Rightarrow> string + bytes \<Rightarrow> string + staged list" where
  "optional_asset wanted name s = (if wanted then map_sum id (\<lambda>d. [(name, d, M755)]) s else Inr [])"

definition health_source :: "source \<Rightarrow> string + bytes" where
  "health_source s =
     (case shell_source s of
        Inl e \<Rightarrow> Inl e
      | Inr data \<Rightarrow> if 1 \<le> length data \<and> length data \<le> 16384 then Inr data else Inl ''D5 health source must be bounded LF shell'')"

definition stage_assets :: "mutate_env \<Rightarrow> gathered \<Rightarrow> string + staged list" where
  "stage_assets env g =
     (case read_source (me_idle env) of
        Inl e \<Rightarrow> Inl e
      | Inr idle \<Rightarrow>
          (case optional_asset (ia_tsr_experiment (me_args env)) ''tsr_profile_boot.sh'' (shell_source (me_profile env)) of
             Inl e \<Rightarrow> Inl e
           | Inr profile \<Rightarrow>
               (case optional_asset (ia_d5 (me_args env)) ''health.sh'' (health_source (me_health env)) of
                  Inl e \<Rightarrow> Inl e
                | Inr health \<Rightarrow> Inr (stage_dict
                    ([(''c2m-idle'', idle, M755)] @ profile @ map (\<lambda>(n, d). (n, d, M755)) (gt_d3 g)
                     @ with_modes D4_MODES (gt_d4 g) @ with_modes DEBUG_MODES (gt_debug g) @ with_modes BOOTVOICE_MODES (gt_bootvoice g)
                     @ health)))))"

definition image_asset :: "string \<Rightarrow> string" where "image_asset n = ''/c2m/'' @ n"

definition destination_error :: "mutate_env \<Rightarrow> gathered \<Rightarrow> stock_map \<Rightarrow> tree \<Rightarrow> staged list \<Rightarrow> string option" where
  "destination_error env g st t as =
     (if linked_at (me_root_linked env) t [''c2m''] \<or> tget t [''c2m''] \<noteq> None \<and> \<not> is_tdir (tget t [''c2m''])
      then Some ''c2m must be a nonsymlink directory''
      else if list_ex (\<lambda>n. tget t [''c2m'', n] \<noteq> None \<or> stock_get st (image_asset n) \<noteq> None) (map fst as) then Some ''existing asset path''
      else if (gt_d4 g \<noteq> [] \<or> gt_debug g \<noteq> [] \<or> gt_bootvoice g \<noteq> []) \<and> \<not> me_report_new env
      then Some ''report must be a new path outside the tree''
      else None)"

subsection \<open>Audio replacements\<close>

definition ADAS :: string where "ADAS = ''/minieye/adas/''"
definition ADAS_PARTS :: "string list" where "ADAS_PARTS = [''minieye'', ''adas'']"
definition MD5_PATH :: string where "MD5_PATH = ''/minieye/adas/md5sum.txt''"
definition MD5_PARTS :: "string list" where "MD5_PARTS = ADAS_PARTS @ [''md5sum.txt'']"

type_synonym audio_spec = "string \<times> string"

text \<open>The target and the local file of one entry of the replacement list.\<close>

definition spec_error :: "pyval \<Rightarrow> string list \<Rightarrow> string + audio_spec" where
  "spec_error v seen =
     (case v of
        PDict d \<Rightarrow>
          (let path = dget d ''path''; file = dget d ''file''; p = the_str path in
           if \<not> is_str path \<or> \<not> is_str file \<or> the_str file = [] \<or> \<not> prefix ADAS p then Inl ''bad audio spec/outside /minieye/adas''
           else if bad_rel (drop (length ADAS) p) then Inl ''invalid audio target path''
           else if p \<in> set seen then Inl ''duplicate audio target''
           else Inr (p, the_str file))
      | _ \<Rightarrow> Inl ''audio spec must be an object'')"

fun check_specs :: "pyval list \<Rightarrow> audio_spec list \<Rightarrow> string + audio_spec list" where
  "check_specs [] acc = Inr acc"
| "check_specs (v # vs) acc =
     (case spec_error v (map fst acc) of Inl e \<Rightarrow> Inl e | Inr s \<Rightarrow> check_specs vs (acc @ [s]))"

definition rel_of :: "string \<Rightarrow> string" where "rel_of p = drop (length ADAS) p"
definition audio_parts :: "string \<Rightarrow> string list" where "audio_parts p = ADAS_PARTS @ split_on (CHR ''/'') (rel_of p)"

definition spec_order :: "tree \<Rightarrow> audio_spec \<Rightarrow> nat \<times> string" where
  "spec_order t s = (if node_file (tget t (audio_parts (fst s))) \<noteq> None then 0 else 1, fst s)"

definition md5_suffix :: "string \<Rightarrow> string" where "md5_suffix rel = ''  ./'' @ rel"

definition md5_hits :: "string \<Rightarrow> string list \<Rightarrow> nat list" where
  "md5_hits rel ls = filter (\<lambda>i. suffix (md5_suffix rel) (ls ! i)) [0..<length ls]"

text \<open>The siblings of a missing target: the sound files of its directory, sorted, and the mode of the first regular one.\<close>

definition siblings :: "tree \<Rightarrow> string list \<Rightarrow> string list" where
  "siblings t dir =
     sort (remdups (map last (filter (\<lambda>ps. length ps = Suc (length dir) \<and> prefix dir ps \<and> suffix ''.wav'' (last ps)) (map fst t))))"

definition sibling_mode :: "tree \<Rightarrow> string list \<Rightarrow> nat option" where
  "sibling_mode t dir =
     (if is_tdir (tget t dir)
      then map_option (\<lambda>n. fst (the (node_file (tget t (dir @ [n])))))
             (find (\<lambda>n. node_file (tget t (dir @ [n])) \<noteq> None) (siblings t dir))
      else None)"

record replacement =
  rp_path :: string
  rp_old_sha :: string
  rp_old_size :: pyval
  rp_data :: bytes
  rp_mode :: nat

definition target_state :: "(bytes \<Rightarrow> string) \<Rightarrow> stock_map \<Rightarrow> tree \<Rightarrow> string \<Rightarrow> string + string \<times> pyval \<times> nat" where
  "target_state sha st t p =
     (case tget t (audio_parts p) of
        None \<Rightarrow>
          (case sibling_mode t (butlast (audio_parts p)) of
             None \<Rightarrow> Inl ''no sibling wav for new-file mode''
           | Some mode \<Rightarrow> Inr (ABSENT, PInt 0, mode))
      | Some (TFile mode data) \<Rightarrow>
          if \<not> stock_reg st p then Inl ''not a stock regular file''
          else if stock_sha st p \<noteq> PStr (sha data) then Inl ''tree != stock manifest''
          else (case stock_get st p of
              Some r \<Rightarrow> if has_key r ''size'' then Inr (sha data, dget r ''size'', mode) else Inl ''KeyError''
            | None \<Rightarrow> Inl ''KeyError'')
      | Some _ \<Rightarrow> Inl ''linked/nonregular audio target'')"

definition plan_replacement :: "(bytes \<Rightarrow> string) \<Rightarrow> mutate_env \<Rightarrow> stock_map \<Rightarrow> tree \<Rightarrow> string list \<Rightarrow> audio_spec \<Rightarrow> string + replacement \<times> nat" where
  "plan_replacement sha env st t ls s =
     (case read_source (me_local env (snd s)) of
        Inl e \<Rightarrow> Inl ''cannot read audio input''
      | Inr wav \<Rightarrow>
          (case check_wav wav of
             Some e \<Rightarrow> Inl e
           | None \<Rightarrow>
               (case md5_hits (rel_of (fst s)) ls of
                  [i] \<Rightarrow>
                    if linked_at (me_root_linked env) t (audio_parts (fst s)) then Inl ''linked/nonregular audio target''
                    else (case target_state sha st t (fst s) of
                        Inl e \<Rightarrow> Inl e
                      | Inr (old, sz, mode) \<Rightarrow>
                          Inr (\<lparr>rp_path = fst s, rp_old_sha = old, rp_old_size = sz, rp_data = wav, rp_mode = mode\<rparr>, i))
                | _ \<Rightarrow> Inl ''md5sum.txt must have one line for the target'')))"

text \<open>The loop over the sorted list: each replacement writes its MD5 into its line.\<close>

fun plan_audio :: "(bytes \<Rightarrow> string) \<Rightarrow> (bytes \<Rightarrow> string) \<Rightarrow> mutate_env \<Rightarrow> stock_map \<Rightarrow> tree \<Rightarrow> audio_spec list \<Rightarrow> string list
     \<Rightarrow> string + replacement list \<times> string list" where
  "plan_audio sha md5 env st t [] ls = Inr ([], ls)"
| "plan_audio sha md5 env st t (s # ss) ls =
     (case plan_replacement sha env st t ls s of
        Inl e \<Rightarrow> Inl e
      | Inr (r, i) \<Rightarrow>
          map_sum id (\<lambda>(rs, ls'). (r # rs, ls')) (plan_audio sha md5 env st t ss (ls[i := md5 (rp_data r) @ drop 32 (ls ! i)])))"

record audio_plan =
  ap_replacements :: "replacement list"
  ap_md5_mode :: nat
  ap_md5_old :: bytes
  ap_md5_size :: pyval
  ap_md5_new :: bytes

definition md5_state :: "(bytes \<Rightarrow> string) \<Rightarrow> mutate_env \<Rightarrow> stock_map \<Rightarrow> tree \<Rightarrow> string + nat \<times> bytes \<times> pyval" where
  "md5_state sha env st t =
     (if \<not> stock_reg st MD5_PATH then Inl ''md5sum.txt not a stock regular file''
      else if linked_at (me_root_linked env) t MD5_PARTS then Inl ''md5sum.txt missing/linked in tree''
      else case node_file (tget t MD5_PARTS) of
          None \<Rightarrow> Inl ''md5sum.txt missing/linked in tree''
        | Some (mode, data) \<Rightarrow>
            if list_ex (\<lambda>b. 128 \<le> b) data then Inl ''UnicodeDecodeError''
            else if stock_sha st MD5_PATH \<noteq> PStr (sha data) then Inl ''md5sum.txt tree content != stock manifest''
            else (case stock_get st MD5_PATH of
                Some r \<Rightarrow> if has_key r ''size'' then Inr (mode, data, dget r ''size'') else Inl ''KeyError''
              | None \<Rightarrow> Inl ''KeyError''))"

definition ascii_text :: "bytes \<Rightarrow> string" where
  "ascii_text = map (\<lambda>b. char_of (unat b))"

definition plan_specs :: "(bytes \<Rightarrow> string) \<Rightarrow> (bytes \<Rightarrow> string) \<Rightarrow> mutate_env \<Rightarrow> stock_map \<Rightarrow> tree \<Rightarrow> pyval option \<Rightarrow> string + audio_plan" where
  "plan_specs sha md5 env st t doc =
     (case doc of
        Some (PList (v # vs)) \<Rightarrow>
          (case md5_state sha env st t of
             Inl e \<Rightarrow> Inl e
           | Inr (mode, old, sz) \<Rightarrow>
               (case check_specs (v # vs) [] of
                  Inl e \<Rightarrow> Inl e
                | Inr specs \<Rightarrow>
                    (case plan_audio sha md5 env st t (sort_key (spec_order t) specs) (split_on (CHR 0x0A) (ascii_text old)) of
                       Inl e \<Rightarrow> Inl e
                     | Inr (rs, ls) \<Rightarrow>
                         (let new = unsplit (CHR 0x0A) ls in
                          if \<not> suffix [CHR 0x0A] new then Inl ''md5sum.txt lost trailing newline''
                          else Inr \<lparr>ap_replacements = rs, ap_md5_mode = mode, ap_md5_old = old, ap_md5_size = sz,
                                 ap_md5_new = bytes_of new\<rparr>))))
      | Some _ \<Rightarrow> Inl ''audio replacements must be a non-empty list''
      | None \<Rightarrow> Inl ''bad audio replacements JSON'')"

subsection \<open>The mutation manifest\<close>

fun oct_digits :: "nat \<Rightarrow> string" where
  "oct_digits n = (if n < 8 then [char_of (48 + n)] else oct_digits (n div 8) @ [char_of (48 + n mod 8)])"

declare oct_digits.simps [simp del]

definition show_int :: "int \<Rightarrow> string" where
  "show_int i = (if i < 0 then CHR ''-'' # show_nat (nat (- i)) else show_nat (nat i))"

definition OWNER_FIELDS :: pydict where
  "OWNER_FIELDS = [(PStr ''uid'', PInt 1001), (PStr ''gid'', PInt 1001)]"

definition file_entry :: "(bytes \<Rightarrow> string) \<Rightarrow> bool \<Rightarrow> staged \<Rightarrow> pyval" where
  "file_entry sha own as =
     (case as of (n, data, mode) \<Rightarrow> PDict
        ([(PStr ''path'', PStr (image_asset n)), (PStr ''type'', PStr ''reg''), (PStr ''mode'', PInt (int mode)),
          (PStr ''mode_oct'', PStr (''0o'' @ oct_digits mode))] @ (if own then OWNER_FIELDS else [])
         @ [(PStr ''size'', PInt (int (length data))), (PStr ''sha256'', PStr (sha data))]))"

definition DIR_ENTRY :: pyval where
  "DIR_ENTRY = PDict ([(PStr ''path'', PStr ''/c2m''), (PStr ''type'', PStr ''dir''), (PStr ''mode'', PInt 493),
     (PStr ''mode_oct'', PStr ''0o755'')] @ OWNER_FIELDS)"

definition find_asset :: "staged list \<Rightarrow> string list \<Rightarrow> staged list" where
  "find_asset as names = List.map_filter (\<lambda>n. map_option (\<lambda>(d, m). (n, d, m)) (map_of as n)) names"

text \<open>The added files in the order of the manifest, and whether their owner is recorded.\<close>

definition added_files :: "gathered \<Rightarrow> staged list \<Rightarrow> (bool \<times> staged) list" where
  "added_files g as =
     map (\<lambda>a. (False, a)) (find_asset as [''c2m-idle'', ''tsr_profile_boot.sh''])
     @ map (\<lambda>(n, d). (False, n, d, M755)) (gt_d3 g)
     @ map (\<lambda>a. (True, a)) (with_modes D4_MODES (gt_d4 g) @ with_modes DEBUG_MODES (gt_debug g) @ with_modes BOOTVOICE_MODES (gt_bootvoice g)
          @ find_asset as [''health.sh''])"

definition replaced_row :: "(bytes \<Rightarrow> string) \<Rightarrow> replacement \<Rightarrow> pyval \<times> pyval" where
  "replaced_row sha r =
     (PStr (rp_path r), PDict [(PStr ''old_sha256'', PStr (rp_old_sha r)), (PStr ''old_size'', rp_old_size r),
        (PStr ''new_sha256'', PStr (sha (rp_data r))), (PStr ''new_size'', PInt (int (length (rp_data r))))])"

definition md5_replacement :: "(bytes \<Rightarrow> string) \<Rightarrow> audio_plan \<Rightarrow> replacement" where
  "md5_replacement sha ap =
     \<lparr>rp_path = MD5_PATH, rp_old_sha = sha (ap_md5_old ap), rp_old_size = ap_md5_size ap, rp_data = ap_md5_new ap, rp_mode = ap_md5_mode ap\<rparr>"

definition all_replacements :: "(bytes \<Rightarrow> string) \<Rightarrow> audio_plan option \<Rightarrow> replacement list" where
  "all_replacements sha ap = (case ap of None \<Rightarrow> [] | Some x \<Rightarrow> ap_replacements x @ [md5_replacement sha x])"

definition replaced_doc :: "(bytes \<Rightarrow> string) \<Rightarrow> replacement list \<Rightarrow> pydict" where
  "replaced_doc sha rs = foldl (\<lambda>d r. AList.update (fst (replaced_row sha r)) (snd (replaced_row sha r)) d) [] rs"

definition mode_text :: "hook_mode \<Rightarrow> string" where
  "mode_text k = (case k of Insert_before_exit \<Rightarrow> ''insert-before-terminal-exit'' | Append_eof \<Rightarrow> ''append-eof'')"

definition modified_row :: "(bytes \<Rightarrow> string) \<Rightarrow> hook_edit \<Rightarrow> pyval" where
  "modified_row sha h =
     PDict [(PStr ''path'', PStr (he_path h)), (PStr ''old_sha256'', PStr (sha (he_old h))), (PStr ''new_sha256'', PStr (sha (he_new h))),
       (PStr ''change'', PStr (mode_text (he_kind h) @ '' '' @ show_int (int (length (he_new h)) - int (length (he_old h))) @ '' bytes''))]"

definition flag :: "bool \<Rightarrow> pydict \<Rightarrow> pydict" where "flag b d = (if b then d else [])"

text \<open>The descriptive object under the key \<open>bootvoice\<close>; its three Vietnamese phrases lie outside the one-byte strings of the model.\<close>

definition BOOTVOICE_DOC :: pydict where
  "BOOTVOICE_DOC =
     [(PStr ''threshold'', PInt 500), (PStr ''light_default_source'', PStr ''stock-day-night-schedule''),
      (PStr ''light_schedule'', PStr ''06:00:01-17:59:59''), (PStr ''ae_helper'', PStr ''manual-only''),
      (PStr ''ae_enable_marker'', PStr ''AE_LIGHT_ENABLE''), (PStr ''greeting'', POther), (PStr ''dark'', POther), (PStr ''bright'', POther),
      (PStr ''actuation'', PStr ''voice-only; no car headlight output on C2M'')]"

definition mutation_doc :: "(bytes \<Rightarrow> string) \<Rightarrow> mutate_env \<Rightarrow> gathered \<Rightarrow> hook_edit \<Rightarrow> staged list \<Rightarrow> audio_plan option \<Rightarrow> pydict" where
  "mutation_doc sha env g h as ap =
     [(PStr ''hook'', PStr (he_path h)), (PStr ''hook_line'', PStr (ascii_text (me_hook_line env))),
      (PStr ''hook_mode'', PStr (mode_text (he_kind h))), (PStr ''tsr_patch'', PBool (ia_tsr_patch (me_args env))),
      (PStr ''tsr_experiment'', PBool (ia_tsr_experiment (me_args env))),
      (PStr ''added'', PList (DIR_ENTRY # map (\<lambda>(own, a). file_entry sha own a) (added_files g as))),
      (PStr ''replaced'', PDict (replaced_doc sha (all_replacements sha ap))),
      (PStr ''modified'', PList [modified_row sha h])]
     @ flag (gt_d3 g \<noteq> []) [(PStr ''d3_services'', PBool True)]
     @ flag (gt_d4 g \<noteq> []) [(PStr ''d4_services'', PBool True),
         (PStr ''d4_database'', case gt_db g of None \<Rightarrow> PNone | Some (n, d) \<Rightarrow> PDict [(PStr ''count'', PInt (int n)), (PStr ''sha256'', PStr d)])]
     @ flag (gt_debug g \<noteq> []) [(PStr ''debug_services'', PBool True),
         (PStr ''debug_owner_key_sha256'', case gt_owner g of None \<Rightarrow> PNone | Some d \<Rightarrow> PStr d)]
     @ flag (gt_bootvoice g \<noteq> []) [(PStr ''bootvoice_services'', PBool True), (PStr ''bootvoice'', PDict BOOTVOICE_DOC)]
     @ flag (ia_d5 (me_args env)) [(PStr ''d5_health'', PBool True)]"

subsection \<open>The mutation\<close>

type_synonym file_write = "string list \<times> nat \<times> bytes"

definition place :: "tree \<Rightarrow> file_write \<Rightarrow> tree" where
  "place t w = (case w of (ps, mode, data) \<Rightarrow> tput ps (TFile mode data) t)"

definition writes_of :: "hook_edit \<Rightarrow> staged list \<Rightarrow> replacement list \<Rightarrow> file_write list" where
  "writes_of h as rs =
     map (\<lambda>(n, d, m). ([''c2m'', n], m, d)) as @ map (\<lambda>r. (audio_parts (rp_path r), rp_mode r, rp_data r)) rs
     @ [(he_parts h, he_file_mode h, he_new h)]"

definition apply_writes :: "file_write list \<Rightarrow> tree \<Rightarrow> tree" where
  "apply_writes ws t = foldl place (tput [''c2m''] (TDir M755) t) ws"

datatype mutate_error = Usage string | Refused string

fun mutate_exit :: "mutate_error + 'a \<Rightarrow> nat" where
  "mutate_exit (Inl (Usage _)) = 2"
| "mutate_exit (Inl (Refused _)) = 1"
| "mutate_exit (Inr _) = 0"

definition plan_all :: "(bytes \<Rightarrow> string) \<Rightarrow> (bytes \<Rightarrow> string) \<Rightarrow> mutate_env \<Rightarrow> gathered \<Rightarrow> tree
     \<Rightarrow> string + hook_edit \<times> staged list \<times> audio_plan option" where
  "plan_all sha md5 env g t =
     (case stock_map (me_stock env) of
        None \<Rightarrow> Inl ''bad stock manifest''
      | Some st \<Rightarrow>
          (case plan_hook sha env g st t of
             Inl e \<Rightarrow> Inl e
           | Inr h \<Rightarrow>
               (case stage_assets env g of
                  Inl e \<Rightarrow> Inl e
                | Inr as \<Rightarrow>
                    (case destination_error env g st t as of
                       Some e \<Rightarrow> Inl e
                     | None \<Rightarrow>
                         (case me_specs env of
                            None \<Rightarrow> Inr (h, as, None)
                          | Some doc \<Rightarrow> map_sum id (\<lambda>ap. (h, as, Some ap)) (plan_specs sha md5 env st t doc))))))"

definition mutate :: "(bytes \<Rightarrow> string) \<Rightarrow> (bytes \<Rightarrow> string) \<Rightarrow> mutate_env \<Rightarrow> tree \<Rightarrow> mutate_error + tree \<times> pydict" where
  "mutate sha md5 env t =
     (case gather sha (me_args env) of
        Inl e \<Rightarrow> Inl (Usage e)
      | Inr g \<Rightarrow>
          (case plan_all sha md5 env g t of
             Inl e \<Rightarrow> Inl (Refused e)
           | Inr (h, as, ap) \<Rightarrow>
               Inr (apply_writes (writes_of h as (all_replacements sha ap)) t, mutation_doc sha env g h as ap)))"

end
