(* ===== verification/Mutation.thy ===== *)
theory Mutation
  imports Mutate
begin

text \<open>
  What a run of \<open>tools/fw/mutate_customer.py\<close> (\<open>Mutate\<close>) guarantees: the mutation manifest names every path that changes; what it
  records as added is new, has the recorded mode, size and hash and has passed its gate; the list \<open>md5sum.txt\<close> agrees with the
  replaced sounds; the ownership tool (\<open>Ownership\<close>) reads the manifest and finds every added path in place, owned by 1001:1001.
\<close>

subsection \<open>Writing\<close>

lemma tget_tput: "tget (tput ps n t) qs = (if qs = ps then Some n else tget t qs)"
  by (simp add: tget_def tput_def update_conv')

lemma tget_place: "tget (place t w) qs = (if qs = fst w then Some (TFile (fst (snd w)) (snd (snd w))) else tget t qs)"
  by (cases w) (simp add: place_def tget_tput)

lemma writes_frame: "qs \<notin> fst ` set ws \<Longrightarrow> tget (foldl place t ws) qs = tget t qs"
  by (induction ws arbitrary: t) (auto simp: tget_place)

lemma last_write: "qs \<notin> fst ` set ws2 \<Longrightarrow> tget (foldl place t (ws1 @ (qs, m, d) # ws2)) qs = Some (TFile m d)"
  by (simp add: writes_frame tget_place)

lemma apply_frame: "qs \<noteq> [''c2m''] \<Longrightarrow> qs \<notin> fst ` set ws \<Longrightarrow> tget (apply_writes ws t) qs = tget t qs"
  by (simp add: apply_writes_def writes_frame tget_tput)

subsection \<open>The staged files\<close>

lemma stage_distinct: "distinct (map fst (acc @ xs)) \<Longrightarrow> foldl (\<lambda>d (n, v). AList.update n v d) acc xs = acc @ xs"
proof (induction xs arbitrary: acc)
  case (Cons x xs)
  obtain n v where x: "x = (n, v)" by (cases x)
  have "AList.update n v acc = acc @ [(n, v)]" using Cons.prems by (induction acc) (auto simp: x)
  then show ?case using Cons.IH [of "acc @ [x]"] Cons.prems by (simp add: x)
qed simp

definition all_names :: "string list" where
  "all_names = [''c2m-idle'', ''tsr_profile_boot.sh''] @ D3_NAMES @ (D4_NAMES @ [''signs-d4.bin'']) @ (DEBUG_NAMES @ [''debug_owner.pub''])
     @ BOOTVOICE_NAMES @ [''health.sh'']"

lemma all_names_facts: "distinct all_names" "list_all (\<lambda>n. CHR ''/'' \<notin> set n) all_names"
  by (simp_all add: all_names_def D3_NAMES_def D4_NAMES_def DEBUG_NAMES_def BOOTVOICE_NAMES_def)

lemma with_modes_names: "map fst (with_modes modes as) = map fst as"
  by (auto simp: with_modes_def)

lemma subseq_facts: "subseq xs ys \<Longrightarrow> set xs \<subseteq> set ys \<and> (distinct ys \<longrightarrow> distinct xs)"
  by (induction rule: list_emb.induct) auto

lemma optional_asset_Inr: "optional_asset b n s = Inr xs \<Longrightarrow> xs = [] \<or> (\<exists>d. xs = [(n, d, M755)] \<and> s = Inr d)"
  by (cases s) (auto simp: optional_asset_def split: if_splits)

text \<open>The staged files are the idle daemon, the gathered services and the scripts of the repository, under pairwise different names.\<close>

lemma staged_list:
  assumes "gather sha (me_args env) = Inr g" "stage_assets env g = Inr as"
  obtains idle profile health where
    "as = [(''c2m-idle'', idle, M755)] @ profile @ map (\<lambda>(n, d). (n, d, M755)) (gt_d3 g)
       @ with_modes D4_MODES (gt_d4 g) @ with_modes DEBUG_MODES (gt_debug g) @ with_modes BOOTVOICE_MODES (gt_bootvoice g) @ health"
    "profile = [] \<or> (\<exists>d. profile = [(''tsr_profile_boot.sh'', d, M755)] \<and> shell_ok d)"
    "health = [] \<or> (\<exists>d. health = [(''health.sh'', d, M755)] \<and> shell_ok d)"
    "distinct (map fst as)" "set (map fst as) \<subseteq> set all_names"
proof -
  obtain idle profile health where p: "optional_asset (ia_tsr_experiment (me_args env)) ''tsr_profile_boot.sh'' (shell_source (me_profile env)) = Inr profile"
    "optional_asset (ia_d5 (me_args env)) ''health.sh'' (health_source (me_health env)) = Inr health"
    and as: "as = stage_dict ([(''c2m-idle'', idle, M755)] @ profile @ map (\<lambda>(n, d). (n, d, M755)) (gt_d3 g)
       @ with_modes D4_MODES (gt_d4 g) @ with_modes DEBUG_MODES (gt_debug g) @ with_modes BOOTVOICE_MODES (gt_bootvoice g) @ health)"
    using assms(2) by (auto simp: stage_assets_def split: sum.splits)
  have sh: "shell_source s = Inr d \<Longrightarrow> shell_ok d" "health_source s = Inr d \<Longrightarrow> shell_ok d" for s d
    by (auto simp: shell_source_def health_source_def split: sum.splits if_splits)
  have pr: "profile = [] \<or> (\<exists>d. profile = [(''tsr_profile_boot.sh'', d, M755)] \<and> shell_ok d)"
    using optional_asset_Inr [OF p(1)] sh by blast
  have he: "health = [] \<or> (\<exists>d. health = [(''health.sh'', d, M755)] \<and> shell_ok d)"
    using optional_asset_Inr [OF p(2)] sh by blast
  let ?xs = "[(''c2m-idle'', idle, M755)] @ profile @ map (\<lambda>(n, d). (n, d, M755)) (gt_d3 g)
       @ with_modes D4_MODES (gt_d4 g) @ with_modes DEBUG_MODES (gt_debug g) @ with_modes BOOTVOICE_MODES (gt_bootvoice g) @ health"
  have d3: "map fst (map (\<lambda>(n, d). (n, d, M755)) (gt_d3 g)) = map fst (gt_d3 g)" by auto
  have c: "gt_d3 g = [] \<or> map fst (gt_d3 g) = D3_NAMES" "gt_d4 g = [] \<or> map fst (gt_d4 g) = D4_NAMES @ [''signs-d4.bin'']"
    "gt_debug g = [] \<or> map fst (gt_debug g) = DEBUG_NAMES @ [''debug_owner.pub'']" "gt_bootvoice g = [] \<or> map fst (gt_bootvoice g) = BOOTVOICE_NAMES"
    using gathered_checked [OF assms(1)] by (auto simp: checked_names_def)
  have names: "map fst ?xs = [''c2m-idle''] @ map fst profile @ map fst (gt_d3 g) @ map fst (gt_d4 g) @ map fst (gt_debug g) @ map fst (gt_bootvoice g) @ map fst health"
    by (simp only: map_append with_modes_names d3) simp
  have sub: "subseq (map fst ?xs) all_names"
    unfolding names all_names_def append.assoc [of "[''c2m-idle'']", symmetric] using pr he c
    by (intro list_emb_append_mono; auto)
  have dist: "distinct (map fst ?xs)" using subseq_facts [OF sub] all_names_facts(1) by blast
  have "stage_dict ?xs = ?xs"
    unfolding stage_dict_def using stage_distinct [of "[]" ?xs] dist by (simp only: append_Nil)
  then have as': "as = ?xs" by (simp only: as)
  show thesis by (rule that [OF as' pr he]) (use dist subseq_facts [OF sub] in \<open>simp_all only: as'\<close>)
qed

subsection \<open>A successful run\<close>

lemma map_sum_Inr: "map_sum id f x = Inr y \<longleftrightarrow> (\<exists>z. x = Inr z \<and> y = f z)"
  by (cases x) auto

lemma mutate_cases:
  assumes "mutate sha md5 env t = Inr (t', doc)"
  obtains g st h as ap where "gather sha (me_args env) = Inr g" "stock_map (me_stock env) = Some st" "plan_hook sha env g st t = Inr h"
    "stage_assets env g = Inr as" "destination_error env g st t as = None"
    "ap = None \<and> me_specs env = None \<or> (\<exists>d a. me_specs env = Some d \<and> plan_specs sha md5 env st t d = Inr a \<and> ap = Some a)"
    "t' = apply_writes (writes_of h as (all_replacements sha ap)) t" "doc = mutation_doc sha env g h as ap"
proof -
  obtain g where g: "gather sha (me_args env) = Inr g" using assms by (auto simp: mutate_def split: sum.splits)
  obtain h as ap where p: "plan_all sha md5 env g t = Inr (h, as, ap)" "t' = apply_writes (writes_of h as (all_replacements sha ap)) t"
    "doc = mutation_doc sha env g h as ap"
    using assms by (auto simp: mutate_def g split: sum.splits prod.splits)
  obtain st where "stock_map (me_stock env) = Some st" "plan_hook sha env g st t = Inr h" "stage_assets env g = Inr as" "destination_error env g st t as = None"
    "ap = None \<and> me_specs env = None \<or> (\<exists>d a. me_specs env = Some d \<and> plan_specs sha md5 env st t d = Inr a \<and> ap = Some a)"
    using p(1) by (auto simp: plan_all_def map_sum_Inr split: option.splits sum.splits)
  then show thesis using g p(2,3) that by blast
qed

lemma slash_parts: "rel \<noteq> [] \<Longrightarrow> hd rel \<noteq> CHR ''/'' \<Longrightarrow> rel_parts (CHR ''/'' # rel) = split_on (CHR ''/'') rel"
  by (cases rel) (auto simp: rel_parts_def)

lemma plan_hook_Inr:
  assumes "plan_hook sha env g st t = Inr h"
  shows "rel_parts (he_path h) = he_parts h" "node_file (tget t (he_parts h)) = Some (he_file_mode h, he_old h)"
    "edit_hook (hook_opts_of env g) (he_old h) = Inr (he_new h, he_kind h)" "stock_sha st (he_path h) = PStr (sha (he_old h))"
    "stock_get st (he_path h) \<noteq> None"
proof -
  let ?rel = "dropWhile (\<lambda>c. c = CHR ''/'') (me_hook env)"
  let ?p = "CHR ''/'' # ?rel" and ?ps = "split_on (CHR ''/'') ?rel"
  have ok: "?rel \<noteq> []" "stock_reg st ?p" using assms unfolding plan_hook_def Let_def by (cases "?rel = []"; cases "stock_reg st ?p"; simp split: if_splits)+
  obtain mode data where f: "node_file (tget t ?ps) = Some (mode, data)"
    using assms unfolding plan_hook_def Let_def by (cases "node_file (tget t ?ps)") (auto split: if_splits)
  obtain new kind where e: "stock_sha st ?p = PStr (sha data)" "edit_hook (hook_opts_of env g) data = Inr (new, kind)"
    using assms unfolding plan_hook_def Let_def f by (cases "edit_hook (hook_opts_of env g) data") (auto split: if_splits)
  have h: "h = \<lparr>he_path = ?p, he_parts = ?ps, he_file_mode = mode, he_old = data, he_new = new, he_kind = kind\<rparr>"
    using assms unfolding plan_hook_def Let_def f by (simp add: e split: if_splits)
  have r: "?rel \<noteq> []" "he_path h = ?p" "he_parts h = ?ps" using ok(1) by (simp_all add: h)
  have rest: "node_file (tget t (he_parts h)) = Some (he_file_mode h, he_old h) \<and> edit_hook (hook_opts_of env g) (he_old h) = Inr (he_new h, he_kind h)
       \<and> stock_sha st (he_path h) = PStr (sha (he_old h)) \<and> stock_get st (he_path h) \<noteq> None"
    using f e ok(2) by (auto simp: h stock_reg_def split: option.splits)
  have "hd ?rel \<noteq> CHR ''/''" using hd_dropWhile [OF r(1)] by simp
  then show "rel_parts (he_path h) = he_parts h" unfolding r(2,3) by (rule slash_parts [OF r(1)])
  show "node_file (tget t (he_parts h)) = Some (he_file_mode h, he_old h)"
    "edit_hook (hook_opts_of env g) (he_old h) = Inr (he_new h, he_kind h)" "stock_sha st (he_path h) = PStr (sha (he_old h))"
    "stock_get st (he_path h) \<noteq> None" using rest by simp_all
qed

lemma check_specs_Inr:
  "check_specs vs acc = Inr specs \<Longrightarrow> distinct (map fst acc) \<Longrightarrow> list_all (\<lambda>s. prefix ADAS (fst s) \<and> \<not> bad_rel (rel_of (fst s))) acc \<Longrightarrow>
   distinct (map fst specs) \<and> list_all (\<lambda>s. prefix ADAS (fst s) \<and> \<not> bad_rel (rel_of (fst s))) specs"
proof (induction vs acc rule: check_specs.induct)
  case (2 v vs acc)
  obtain s where s: "spec_error v (map fst acc) = Inr s" using "2.prems"(1) by (auto split: sum.splits)
  then have "prefix ADAS (fst s)" "\<not> bad_rel (rel_of (fst s))" "fst s \<notin> set (map fst acc)"
    by (auto simp: spec_error_def Let_def rel_of_def image_iff split: pyval.splits if_splits)
  then show ?case using 2 s by simp
qed simp

lemma plan_replacement_path: "plan_replacement sha env st t ls s = Inr (r, i) \<Longrightarrow>
   rp_path r = fst s \<and> check_wav (rp_data r) = None \<and> md5_hits (rel_of (fst s)) ls = [i]"
  by (auto simp: plan_replacement_def split: sum.splits option.splits list.splits if_splits prod.splits)

lemma plan_audio_paths: "plan_audio sha md5 env st t ss ls = Inr (rs, ls') \<Longrightarrow> map rp_path rs = map fst ss"
proof (induction ss arbitrary: ls rs ls')
  case (Cons s ss)
  obtain r i where p: "plan_replacement sha env st t ls s = Inr (r, i)" using Cons.prems by (auto split: sum.splits)
  obtain rs' where "plan_audio sha md5 env st t ss (ls[i := md5 (rp_data r) @ drop 32 (ls ! i)]) = Inr (rs', ls')" "rs = r # rs'"
    using Cons.prems p by (cases "plan_audio sha md5 env st t ss (ls[i := md5 (rp_data r) @ drop 32 (ls ! i)])") auto
  then show ?case using Cons.IH plan_replacement_path [OF p] by simp
qed simp

lemma plan_specs_Inr:
  assumes "plan_specs sha md5 env st t d = Inr a"
  obtains specs ls where "md5_state sha env st t = Inr (ap_md5_mode a, ap_md5_old a, ap_md5_size a)"
    "distinct (map fst specs)" "list_all (\<lambda>s. prefix ADAS (fst s) \<and> \<not> bad_rel (rel_of (fst s))) specs"
    "plan_audio sha md5 env st t (sort_key (spec_order t) specs) (split_on (CHR 0x0A) (ascii_text (ap_md5_old a))) = Inr (ap_replacements a, ls)"
    "ap_md5_new a = bytes_of (unsplit (CHR 0x0A) ls)"
proof -
  obtain v vs where d: "d = Some (PList (v # vs))" using assms by (auto simp: plan_specs_def split: option.splits pyval.splits list.splits)
  obtain specs where c: "check_specs (v # vs) [] = Inr specs" using assms by (auto simp: plan_specs_def d split: sum.splits)
  obtain ls where "md5_state sha env st t = Inr (ap_md5_mode a, ap_md5_old a, ap_md5_size a)"
    "plan_audio sha md5 env st t (sort_key (spec_order t) specs) (split_on (CHR 0x0A) (ascii_text (ap_md5_old a))) = Inr (ap_replacements a, ls)"
    "ap_md5_new a = bytes_of (unsplit (CHR 0x0A) ls)"
    using assms c unfolding plan_specs_def d by (auto simp: Let_def simp del: check_specs.simps split: sum.splits prod.splits if_splits)
  then show thesis using check_specs_Inr [OF c] by (intro that) simp_all
qed

lemma audio_path_parts:
  assumes "prefix ADAS p" "\<not> bad_rel (rel_of p)"
  shows "rel_parts p = audio_parts p"
proof -
  obtain rel where p: "p = ADAS @ rel" using assms(1) by (auto simp: prefix_def)
  have r: "rel_of p = rel" by (simp add: rel_of_def p)
  have s: "split_on (CHR ''/'') (''minieye'' @ CHR ''/'' # (''adas'' @ CHR ''/'' # rel)) = [''minieye'', ''adas''] @ split_on (CHR ''/'') rel"
    by (simp add: split_on_append)
  have "p = CHR ''/'' # (''minieye'' @ CHR ''/'' # (''adas'' @ CHR ''/'' # rel))" by (simp add: p ADAS_def)
  moreover have "rel_parts (CHR ''/'' # (''minieye'' @ CHR ''/'' # (''adas'' @ CHR ''/'' # rel))) = split_on (CHR ''/'') (''minieye'' @ CHR ''/'' # (''adas'' @ CHR ''/'' # rel))"
    by (rule slash_parts) simp_all
  ultimately have "rel_parts p = [''minieye'', ''adas''] @ split_on (CHR ''/'') rel" by (simp only: s)
  then show ?thesis by (simp only: audio_parts_def ADAS_PARTS_def r)
qed

lemma replacement_paths:
  assumes "ap = None \<or> (\<exists>d a. plan_specs sha md5 env st t d = Inr a \<and> ap = Some a)" "r \<in> set (all_replacements sha ap)"
  shows "rel_parts (rp_path r) = audio_parts (rp_path r) \<and> prefix ADAS (rp_path r)"
proof -
  obtain d a where a: "plan_specs sha md5 env st t d = Inr a" "ap = Some a" using assms by (auto simp: all_replacements_def)
  obtain specs ls where s: "list_all (\<lambda>s. prefix ADAS (fst s) \<and> \<not> bad_rel (rel_of (fst s))) specs"
    "plan_audio sha md5 env st t (sort_key (spec_order t) specs) (split_on (CHR 0x0A) (ascii_text (ap_md5_old a))) = Inr (ap_replacements a, ls)"
    using a(1) by (rule plan_specs_Inr)
  consider "r \<in> set (ap_replacements a)" | "r = md5_replacement sha a" using assms(2) by (auto simp: all_replacements_def a(2))
  then show ?thesis
  proof cases
    case 1
    have "set (map rp_path (ap_replacements a)) = set (map fst specs)" unfolding plan_audio_paths [OF s(2)] by simp
    then have "rp_path r \<in> set (map fst specs)" using 1 by (metis image_eqI set_map)
    then show ?thesis using s(1) audio_path_parts by (auto simp: list_all_iff)
  next
    case 2
    then show ?thesis by (simp add: md5_replacement_def MD5_PATH_def audio_parts_def rel_parts_def rel_of_def ADAS_def ADAS_PARTS_def)
  qed
qed

subsection \<open>The manifest and the tree\<close>

lemma find_asset_set: "distinct (map fst as) \<Longrightarrow> set (find_asset as names) = {x \<in> set as. fst x \<in> set names}"
proof -
  assume d: "distinct (map fst as)"
  have f: "set (List.map_filter f xs) = {y. \<exists>x \<in> set xs. f x = Some y}" for f :: "string \<Rightarrow> staged option" and xs
    by (induction xs) (auto simp: map_filter_simps split: option.splits)
  show ?thesis unfolding find_asset_def f using d by (force simp: map_of_eq_Some_iff)
qed

lemma union_between: "S = P \<union> D \<union> (W \<union> H) \<Longrightarrow> P \<subseteq> P' \<Longrightarrow> H \<subseteq> H' \<Longrightarrow> P' \<subseteq> S \<Longrightarrow> H' \<subseteq> S \<Longrightarrow> P' \<union> D \<union> (W \<union> H') = S"
  by blast

lemma added_files_set:
  assumes "gather sha (me_args env) = Inr g" "stage_assets env g = Inr as"
  shows "snd ` set (added_files g as) = set as"
proof -
  obtain idle profile health where as: "as = [(''c2m-idle'', idle, M755)] @ profile @ map (\<lambda>(n, d). (n, d, M755)) (gt_d3 g)
       @ with_modes D4_MODES (gt_d4 g) @ with_modes DEBUG_MODES (gt_debug g) @ with_modes BOOTVOICE_MODES (gt_bootvoice g) @ health"
    and p: "profile = [] \<or> (\<exists>d. profile = [(''tsr_profile_boot.sh'', d, M755)] \<and> shell_ok d)"
    and h: "health = [] \<or> (\<exists>d. health = [(''health.sh'', d, M755)] \<and> shell_ok d)"
    and d: "distinct (map fst as)"
    using assms by (rule staged_list)
  have d3: "snd ` set (map (\<lambda>(n, d). (False, n, d, M755)) (gt_d3 g)) = set (map (\<lambda>(n, d). (n, d, M755)) (gt_d3 g))" by force
  have m: "snd ` set (map (\<lambda>a. (b, a)) xs) = set xs" for b and xs :: "staged list" by force
  have "snd ` set (added_files g as) = {x \<in> set as. fst x \<in> {''c2m-idle'', ''tsr_profile_boot.sh''}} \<union> set (map (\<lambda>(n, d). (n, d, M755)) (gt_d3 g))
      \<union> (set (with_modes D4_MODES (gt_d4 g)) \<union> set (with_modes DEBUG_MODES (gt_debug g)) \<union> set (with_modes BOOTVOICE_MODES (gt_bootvoice g))
         \<union> {x \<in> set as. fst x \<in> {''health.sh''}})"
    unfolding added_files_def set_append image_Un d3 m find_asset_set [OF d] by (simp add: Un_assoc)
  also have "\<dots> = set as"
  proof (rule union_between)
    show "set as = ({(''c2m-idle'', idle, M755)} \<union> set profile) \<union> set (map (\<lambda>(n, d). (n, d, M755)) (gt_d3 g))
      \<union> (set (with_modes D4_MODES (gt_d4 g)) \<union> set (with_modes DEBUG_MODES (gt_debug g)) \<union> set (with_modes BOOTVOICE_MODES (gt_bootvoice g)) \<union> set health)"
      unfolding as by (simp add: Un_assoc)
    have "set profile \<subseteq> set as" unfolding as set_append by blast
    moreover have "set health \<subseteq> set as" unfolding as set_append by blast
    moreover have "(''c2m-idle'', idle, M755) \<in> set as" by (simp add: as)
    ultimately show "{(''c2m-idle'', idle, M755)} \<union> set profile \<subseteq> {x \<in> set as. fst x \<in> {''c2m-idle'', ''tsr_profile_boot.sh''}}"
      "set health \<subseteq> {x \<in> set as. fst x \<in> {''health.sh''}}" using p h by auto
  qed auto
  finally show ?thesis .
qed

lemma asset_parts: "n \<in> set all_names \<Longrightarrow> rel_parts (image_asset n) = [''c2m'', n]"
proof -
  assume "n \<in> set all_names"
  then have n: "CHR ''/'' \<notin> set n" using all_names_facts(2) by (simp add: list_all_iff)
  have "rel_parts (CHR ''/'' # (''c2m'' @ CHR ''/'' # n)) = split_on (CHR ''/'') (''c2m'' @ CHR ''/'' # n)" by (rule slash_parts) simp_all
  also have "\<dots> = [''c2m'', n]" using n split_on_append [of "CHR ''/''" "''c2m''" n] split_on_free [of "CHR ''/''" n] by simp
  finally show ?thesis by (simp add: image_asset_def)
qed

fun list_of :: "pyval \<Rightarrow> pyval list" where
  "list_of (PList vs) = vs"
| "list_of _ = []"

fun dict_of :: "pyval \<Rightarrow> pydict" where
  "dict_of (PDict d) = d"
| "dict_of _ = []"

text \<open>Every path a mutation manifest names.\<close>

definition doc_paths :: "pydict \<Rightarrow> string set" where
  "doc_paths doc = (\<lambda>v. the_str (dget (dict_of v) ''path'')) ` set (list_of (dget doc ''added'') @ list_of (dget doc ''modified''))
     \<union> set (str_keys (dict_of (dget doc ''replaced'')))"

lemma doc_fields:
  "dget (mutation_doc sha env g h as ap) ''added'' = PList (DIR_ENTRY # map (\<lambda>(own, a). file_entry sha own a) (added_files g as))"
  "dget (mutation_doc sha env g h as ap) ''replaced'' = PDict (replaced_doc sha (all_replacements sha ap))"
  "dget (mutation_doc sha env g h as ap) ''modified'' = PList [modified_row sha h]"
  "has_key (mutation_doc sha env g h as ap) ''added''" "has_key (mutation_doc sha env g h as ap) ''replaced''"
  by (simp_all add: mutation_doc_def dget_def has_key_def)

lemma entry_fields:
  "dget (dict_of (file_entry sha own (n, d, m))) ''path'' = PStr (image_asset n)"
  "dget (dict_of (file_entry sha own (n, d, m))) ''type'' = PStr ''reg''"
  "dget (dict_of (file_entry sha own (n, d, m))) ''mode'' = PInt (int m)"
  "dget (dict_of (file_entry sha own (n, d, m))) ''size'' = PInt (int (length d))"
  "dget (dict_of (file_entry sha own (n, d, m))) ''sha256'' = PStr (sha d)"
  "dget (dict_of DIR_ENTRY) ''path'' = PStr ''/c2m''" "dget (dict_of DIR_ENTRY) ''type'' = PStr ''dir''"
  "dget (dict_of (modified_row sha h)) ''path'' = PStr (he_path h)"
  by (simp_all add: file_entry_def DIR_ENTRY_def modified_row_def dget_def OWNER_FIELDS_def)

lemma replaced_keys: "fst ` set (replaced_doc sha rs) = (PStr \<circ> rp_path) ` set rs"
proof -
  have "fst ` set (foldl (\<lambda>d r. AList.update (fst (replaced_row sha r)) (snd (replaced_row sha r)) d) acc rs) = fst ` set acc \<union> (PStr \<circ> rp_path) ` set rs" for acc
    by (induction rs arbitrary: acc) (auto simp: dom_update replaced_row_def)
  then show ?thesis by (simp add: replaced_doc_def)
qed

lemma doc_paths_of:
  assumes "gather sha (me_args env) = Inr g" "stage_assets env g = Inr as"
  shows "doc_paths (mutation_doc sha env g h as ap)
    = insert ''/c2m'' (image_asset ` fst ` set as \<union> {he_path h} \<union> rp_path ` set (all_replacements sha ap))"
proof -
  have "(\<lambda>v. the_str (dget (dict_of v) ''path'')) ` (\<lambda>(own, a). file_entry sha own a) ` set (added_files g as) = image_asset ` fst ` snd ` set (added_files g as)"
    by (force simp: entry_fields image_iff)
  moreover have "set (str_keys (replaced_doc sha rs)) = rp_path ` set rs" for rs
    using replaced_keys [of sha rs] by (auto simp: set_str_keys has_key_def)
  ultimately show ?thesis using added_files_set [OF assms] by (simp add: doc_paths_def doc_fields entry_fields)
qed

lemma run_changes:
  assumes "mutate sha md5 env t = Inr (t', doc)" and "tget t' p \<noteq> tget t p"
  shows "p \<in> rel_parts ` doc_paths doc"
proof -
  obtain g st h as ap where m: "gather sha (me_args env) = Inr g" "plan_hook sha env g st t = Inr h" "stage_assets env g = Inr as"
    "ap = None \<and> me_specs env = None \<or> (\<exists>d a. me_specs env = Some d \<and> plan_specs sha md5 env st t d = Inr a \<and> ap = Some a)"
    "t' = apply_writes (writes_of h as (all_replacements sha ap)) t" "doc = mutation_doc sha env g h as ap"
    using assms(1) by (rule mutate_cases)
  have paths: "doc_paths doc = insert ''/c2m'' (image_asset ` fst ` set as \<union> {he_path h} \<union> rp_path ` set (all_replacements sha ap))"
    unfolding m(6) by (rule doc_paths_of [OF m(1,3)])
  have "set (map fst as) \<subseteq> set all_names" using m(1,3) by (rule staged_list)
  then have "[''c2m'', fst x] \<in> rel_parts ` doc_paths doc" if "x \<in> set as" for x
    using asset_parts [of "fst x"] that by (force simp: paths)
  moreover have "audio_parts (rp_path r) \<in> rel_parts ` doc_paths doc" if "r \<in> set (all_replacements sha ap)" for r
    using replacement_paths [OF _ that] m(4) that by (force simp: paths)
  moreover have "he_parts h \<in> rel_parts ` doc_paths doc" using plan_hook_Inr(1) [OF m(2)] by (force simp: paths)
  moreover have "[''c2m''] \<in> rel_parts ` doc_paths doc"
  proof -
    have "rel_parts ''/c2m'' = [''c2m'']" by (simp add: rel_parts_def)
    then show ?thesis by (force simp: paths)
  qed
  moreover have "p = [''c2m''] \<or> p \<in> fst ` set (writes_of h as (all_replacements sha ap))"
    using assms(2) apply_frame unfolding m(5) by blast
  ultimately show ?thesis by (auto simp: writes_of_def)
qed


lemma destinations_free:
  "destination_error env g st t as = None \<Longrightarrow> x \<in> set as \<Longrightarrow> tget t [''c2m'', fst x] = None \<and> stock_get st (image_asset (fst x)) = None"
  by (auto simp: destination_error_def list_ex_iff split: if_splits)

lemma added_placed:
  assumes "gather sha (me_args env) = Inr g" "plan_hook sha env g st t = Inr h" "stage_assets env g = Inr as" "destination_error env g st t as = None"
    "ap = None \<or> (\<exists>d a. plan_specs sha md5 env st t d = Inr a \<and> ap = Some a)" "(n, d, m) \<in> set as"
  shows "tget (apply_writes (writes_of h as (all_replacements sha ap)) t) [''c2m'', n] = Some (TFile m d)"
proof -
  obtain as1 as2 where as: "as = as1 @ (n, d, m) # as2" using assms(6) by (meson split_list)
  have "distinct (map fst as)" using assms(1,3) by (rule staged_list)
  then have "n \<notin> fst ` set as2" by (simp add: as)
  moreover have "[''c2m'', n] \<noteq> he_parts h"
    using destinations_free [OF assms(4,6)] plan_hook_Inr(2) [OF assms(2)] by auto
  moreover have "audio_parts q \<noteq> [''c2m'', n]" for q by (simp add: audio_parts_def ADAS_PARTS_def)
  ultimately have apart: "n \<notin> fst ` set as2" "[''c2m'', n] \<noteq> he_parts h" "\<And>q. audio_parts q \<noteq> [''c2m'', n]" by blast+
  let ?after = "map (\<lambda>(n, d, m). ([''c2m'', n], m, d)) as2
      @ map (\<lambda>r. (audio_parts (rp_path r), rp_mode r, rp_data r)) (all_replacements sha ap) @ [(he_parts h, he_file_mode h, he_new h)]"
  have out: "[''c2m'', n] \<notin> fst ` set ?after" using apart by (force simp: image_iff)
  have "writes_of h as (all_replacements sha ap) = map (\<lambda>(n, d, m). ([''c2m'', n], m, d)) as1 @ ([''c2m'', n], m, d) # ?after"
    by (simp add: writes_of_def as)
  then show ?thesis unfolding apply_writes_def by (simp only: last_write [OF out])
qed

text \<open>Every staged file but the idle daemon has passed the gate for its name.\<close>

lemma staged_checked:
  assumes "gather sha (me_args env) = Inr g" "stage_assets env g = Inr as" "(n, d, m) \<in> set as" "n \<noteq> ''c2m-idle''"
  shows "service_checked sha n d"
proof -
  obtain idle profile health where as: "as = [(''c2m-idle'', idle, M755)] @ profile @ map (\<lambda>(n, d). (n, d, M755)) (gt_d3 g)
       @ with_modes D4_MODES (gt_d4 g) @ with_modes DEBUG_MODES (gt_debug g) @ with_modes BOOTVOICE_MODES (gt_bootvoice g) @ health"
    and p: "profile = [] \<or> (\<exists>d. profile = [(''tsr_profile_boot.sh'', d, M755)] \<and> shell_ok d)"
    and h: "health = [] \<or> (\<exists>d. health = [(''health.sh'', d, M755)] \<and> shell_ok d)"
    using assms(1,2) by (rule staged_list)
  have "service_checked sha ''tsr_profile_boot.sh'' d = shell_ok d" "service_checked sha ''health.sh'' d = shell_ok d"
    by (simp_all add: service_checked_def suffix_eval)
  moreover have "service_checked sha n d" if "(n, d) \<in> set (gt_d3 g @ gt_d4 g @ gt_debug g @ gt_bootvoice g)"
    using gathered_checked [OF assms(1)] that by (auto simp: checked_names_def list_all_iff)
  moreover have "(n, d, m) \<in> set (with_modes ms xs) \<Longrightarrow> (n, d) \<in> set xs" for ms xs by (auto simp: with_modes_def)
  moreover have "(n, d, m) \<in> set profile \<union> set health \<union> (\<lambda>(n, d). (n, d, M755)) ` set (gt_d3 g)
      \<union> set (with_modes D4_MODES (gt_d4 g)) \<union> set (with_modes DEBUG_MODES (gt_debug g)) \<union> set (with_modes BOOTVOICE_MODES (gt_bootvoice g))"
    using assms(3,4) unfolding as by auto
  ultimately show ?thesis using p h by (elim UnE) auto
qed

text \<open>C26. What the manifest records as added was not there before, is there now with the recorded mode, size and hash, and every such file but
  the idle daemon has passed the gate for its name.\<close>

theorem added_as_recorded:
  assumes "mutate sha md5 env t = Inr (t', doc)" and "PDict e \<in> set (list_of (dget doc ''added''))" and "dget e ''type'' = PStr ''reg''"
  shows "\<exists>n d m. dget e ''path'' = PStr (''/c2m/'' @ n) \<and> tget t [''c2m'', n] = None \<and> tget t' [''c2m'', n] = Some (TFile m d)
     \<and> dget e ''mode'' = PInt (int m) \<and> dget e ''size'' = PInt (int (length d)) \<and> dget e ''sha256'' = PStr (sha d)
     \<and> (n = ''c2m-idle'' \<or> service_checked sha n d)"
proof -
  obtain g st h as ap where m: "gather sha (me_args env) = Inr g" "plan_hook sha env g st t = Inr h" "stage_assets env g = Inr as"
    "destination_error env g st t as = None"
    "ap = None \<and> me_specs env = None \<or> (\<exists>d a. me_specs env = Some d \<and> plan_specs sha md5 env st t d = Inr a \<and> ap = Some a)"
    "t' = apply_writes (writes_of h as (all_replacements sha ap)) t" "doc = mutation_doc sha env g h as ap"
    using assms(1) by (rule mutate_cases)
  have "PDict e \<noteq> DIR_ENTRY"
  proof
    assume "PDict e = DIR_ENTRY"
    then have "dget e ''type'' = PStr ''dir''" using entry_fields(7) by (metis dict_of.simps(1))
    then show False using assms(3) by simp
  qed
  then obtain own x where x: "(own, x) \<in> set (added_files g as)" "PDict e = file_entry sha own x"
    using assms(2) by (auto simp: m(7) doc_fields)
  obtain n d k where nd: "x = (n, d, k)" by (cases x)
  have "snd (own, x) \<in> snd ` set (added_files g as)" using x(1) by (rule imageI)
  then have as: "(n, d, k) \<in> set as" unfolding added_files_set [OF m(1,3)] by (simp add: nd)
  have e: "e = dict_of (file_entry sha own (n, d, k))" using x(2) nd dict_of.simps(1) by metis
  have "tget t' [''c2m'', n] = Some (TFile k d)" unfolding m(6) using m(5) added_placed [OF m(1-4) _ as] by blast
  moreover have "tget t [''c2m'', n] = None" using destinations_free [OF m(4) as] by simp
  moreover have "n = ''c2m-idle'' \<or> service_checked sha n d" using staged_checked [OF m(1,3) as] by blast
  ultimately show ?thesis unfolding e entry_fields by (auto simp: image_asset_def)
qed

subsection \<open>The list of MD5 sums\<close>

definition md5_line :: "string \<Rightarrow> bool" where
  "md5_line l \<longleftrightarrow> l = [] \<or> (length (take 32 l) = 32 \<and> CHR '' '' \<notin> set (take 32 l) \<and> take 4 (drop 32 l) = ''  ./'' \<and> CHR '' '' \<notin> set (drop 36 l))"

lemma md5_line_split: "md5_line l \<Longrightarrow> l \<noteq> [] \<Longrightarrow> \<exists>h p. l = h @ ''  ./'' @ p \<and> length h = 32 \<and> CHR '' '' \<notin> set h \<and> CHR '' '' \<notin> set p"
proof -
  assume a: "md5_line l" "l \<noteq> []"
  have "l = take 32 l @ take 4 (drop 32 l) @ drop 36 l"
    using append_take_drop_id [of 32 l] append_take_drop_id [of 4 "drop 32 l"] by simp
  then show ?thesis using a unfolding md5_line_def by metis
qed

lemma md5_line_join: "length h = 32 \<Longrightarrow> CHR '' '' \<notin> set h \<Longrightarrow> CHR '' '' \<notin> set p \<Longrightarrow> md5_line (h @ ''  ./'' @ p)"
  by (simp add: md5_line_def)

lemma md5_line_suffix:
  assumes "md5_line l" shows "suffix (md5_suffix rel) l \<longleftrightarrow> drop 32 l = md5_suffix rel"
proof
  assume "suffix (md5_suffix rel) l"
  then obtain us where us: "l = us @ ''  ./'' @ rel" by (auto simp: suffix_def md5_suffix_def)
  then obtain h p where h: "l = h @ ''  ./'' @ p" "length h = 32" "CHR '' '' \<notin> set h" "CHR '' '' \<notin> set p"
    using md5_line_split [OF assms] by auto
  have pos: "i = 32 \<or> i = 33" if i: "i < length l" "l ! i = CHR '' ''" for i
  proof (rule ccontr)
    assume n: "\<not> (i = 32 \<or> i = 33)"
    consider "i < 32" | "i = 34" | "i = 35" | "36 \<le> i" using n by linarith
    then show False
    proof cases
      case 1
      then have "l ! i = h ! i" by (simp add: h(1,2) nth_append)
      then show False using i 1 h(2,3) by (metis nth_mem)
    next
      case 4
      then have "l ! i = p ! (i - 36)" by (simp add: h(1,2) nth_append nth_Cons')
      moreover have "i - 36 < length p" using i(1) 4 by (simp add: h(1,2))
      ultimately show False using i h(4) by (metis nth_mem)
    qed (use i in \<open>simp_all add: h(1,2) nth_append\<close>)
  qed
  have "l ! length us = CHR '' ''" "l ! Suc (length us) = CHR '' ''" "Suc (length us) < length l" by (simp_all add: us nth_append)
  then have "length us = 32" using pos [of "length us"] pos [of "Suc (length us)"] by force
  then show "drop 32 l = md5_suffix rel" by (simp add: us md5_suffix_def)
next
  assume "drop 32 l = md5_suffix rel"
  then show "suffix (md5_suffix rel) l" by (metis suffix_drop)
qed

lemma md5_hits_eq:
  assumes "list_all md5_line ls" shows "md5_hits rel ls = filter (\<lambda>i. map (drop 32) ls ! i = md5_suffix rel) [0..<length ls]"
  unfolding md5_hits_def using assms by (intro filter_cong) (auto simp: list_all_length md5_line_suffix)

lemma md5_hits_same:
  assumes "list_all md5_line ls" "list_all md5_line ls'" "map (drop 32) ls' = map (drop 32) ls"
  shows "md5_hits rel ls' = md5_hits rel ls"
  unfolding md5_hits_eq [OF assms(1)] md5_hits_eq [OF assms(2)] assms(3) using map_eq_imp_length_eq [OF assms(3)] by simp

text \<open>What is relied on of the MD5 digest in hexadecimal.\<close>

definition hex32 :: "string \<Rightarrow> bool" where
  "hex32 s \<longleftrightarrow> length s = 32 \<and> CHR '' '' \<notin> set s \<and> CHR 0x0A \<notin> set s"

lemma replaced_line:
  assumes "list_all md5_line ls" "md5_hits rel ls = [i]" "hex32 h"
  shows "i < length ls" "h @ drop 32 (ls ! i) = h @ md5_suffix rel" "list_all md5_line (ls[i := h @ drop 32 (ls ! i)])"
    "map (drop 32) (ls[i := h @ drop 32 (ls ! i)]) = map (drop 32) ls"
proof -
  have "i \<in> set (md5_hits rel ls)" using assms(2) by simp
  then have i: "i < length ls" "drop 32 (ls ! i) = md5_suffix rel"
    unfolding md5_hits_eq [OF assms(1)] by auto
  then show "i < length ls" "h @ drop 32 (ls ! i) = h @ md5_suffix rel" by simp_all
  have "md5_line (ls ! i)" using assms(1) i(1) by (simp add: list_all_length)
  moreover have ne: "ls ! i \<noteq> []" using i(2) by (auto simp: md5_suffix_def)
  ultimately obtain h' p where q: "ls ! i = h' @ ''  ./'' @ p" "length h' = 32" "CHR '' '' \<notin> set p"
    using md5_line_split by blast
  then have p: "drop 32 (ls ! i) = ''  ./'' @ p" "CHR '' '' \<notin> set p" by simp_all
  then have "md5_line (h @ drop 32 (ls ! i))" using md5_line_join [of h p] assms(3) by (simp add: hex32_def)
  then show "list_all md5_line (ls[i := h @ drop 32 (ls ! i)])" using assms(1) set_update_subset_insert [of ls i] by (fastforce simp: list_all_iff)
  have "drop 32 (h @ drop 32 (ls ! i)) = drop 32 (ls ! i)" using assms(3) by (simp add: hex32_def)
  then show "map (drop 32) (ls[i := h @ drop 32 (ls ! i)]) = map (drop 32) ls"
    by (metis list_update_id map_update)
qed

lemma hit_unique:
  assumes "list_all md5_line ls" "md5_hits rel ls = [i]" "md5_hits rel' ls = [i]" shows "rel = rel'"
proof -
  have "i \<in> set (md5_hits rel ls)" "i \<in> set (md5_hits rel' ls)" using assms by simp_all
  then have "drop 32 (ls ! i) = md5_suffix rel" "drop 32 (ls ! i) = md5_suffix rel'" unfolding md5_hits_eq [OF assms(1)] by auto
  then show ?thesis by (simp add: md5_suffix_def)
qed

lemma plan_audio_lines:
  assumes "plan_audio sha md5 env st t ss ls = Inr (rs, ls')" "list_all md5_line ls" "distinct (map (rel_of \<circ> fst) ss)" "\<And>d. hex32 (md5 d)"
  shows "list_all md5_line ls' \<and> map (drop 32) ls' = map (drop 32) ls
     \<and> (\<forall>r \<in> set rs. check_wav (rp_data r) = None \<and> (\<exists>i. md5_hits (rel_of (rp_path r)) ls = [i] \<and> ls' ! i = md5 (rp_data r) @ md5_suffix (rel_of (rp_path r))))
     \<and> (\<forall>i. (\<forall>r \<in> set rs. md5_hits (rel_of (rp_path r)) ls \<noteq> [i]) \<longrightarrow> ls' ! i = ls ! i)"
  using assms(1-3)
proof (induction ss arbitrary: ls rs ls')
  case (Cons s ss)
  obtain r i where p: "plan_replacement sha env st t ls s = Inr (r, i)" using Cons.prems(1) by (auto split: sum.splits)
  note rp = plan_replacement_path [OF p]
  let ?ls = "ls[i := md5 (rp_data r) @ drop 32 (ls ! i)]"
  have hits: "md5_hits (rel_of (fst s)) ls = [i]" using rp by simp
  note l = replaced_line [OF Cons.prems(2) hits assms(4)]
  obtain rs' where q: "plan_audio sha md5 env st t ss ?ls = Inr (rs', ls')" "rs = r # rs'"
    using Cons.prems(1) p by (cases "plan_audio sha md5 env st t ss ?ls") auto
  have IH: "list_all md5_line ls'" "map (drop 32) ls' = map (drop 32) ?ls"
    "\<And>r. r \<in> set rs' \<Longrightarrow> check_wav (rp_data r) = None \<and> (\<exists>i. md5_hits (rel_of (rp_path r)) ?ls = [i] \<and> ls' ! i = md5 (rp_data r) @ md5_suffix (rel_of (rp_path r)))"
    "\<And>i. (\<forall>r \<in> set rs'. md5_hits (rel_of (rp_path r)) ?ls \<noteq> [i]) \<Longrightarrow> ls' ! i = ?ls ! i"
    using Cons.IH [OF q(1) l(3)] Cons.prems(3) by auto
  have same: "md5_hits rel ?ls = md5_hits rel ls" for rel by (rule md5_hits_same [OF Cons.prems(2) l(3,4)])
  have names: "map rp_path rs' = map fst ss" using plan_audio_paths [OF q(1)] .
  have other: "md5_hits (rel_of (rp_path r')) ls \<noteq> [i]" if "r' \<in> set rs'" for r'
  proof
    assume "md5_hits (rel_of (rp_path r')) ls = [i]"
    then have "rel_of (rp_path r') = rel_of (fst s)" using hit_unique [OF Cons.prems(2)] hits by blast
    moreover have "rp_path r' \<in> set (map fst ss)" using that unfolding names [symmetric] by simp
    ultimately show False using Cons.prems(3) by (force simp: image_iff)
  qed
  have "ls' ! i = ?ls ! i" using IH(4) other same by auto
  then have "ls' ! i = md5 (rp_data r) @ md5_suffix (rel_of (rp_path r))" using l(1,2) rp by simp
  moreover have "ls' ! j = ls ! j" if "\<forall>r \<in> set rs. md5_hits (rel_of (rp_path r)) ls \<noteq> [j]" for j
    using that IH(4) [of j] same hits rp unfolding q(2) by (cases "i = j") auto
  ultimately show ?case using IH(1-3) l(4) same hits rp unfolding q(2) by auto
qed simp

lemma ascii_text_bytes_of [simp]: "ascii_text (bytes_of s) = s"
  by (induction s) (simp_all add: ascii_text_def bytes_of_def unat_of_char)

lemma audio_prefix: "prefix ADAS p \<Longrightarrow> p = ADAS @ rel_of p"
  by (auto simp: prefix_def rel_of_def)

lemma unsplit_audio: "unsplit (CHR ''/'') (audio_parts p) = tl ADAS @ rel_of p"
proof -
  have u: "unsplit c (x # split_on c xs) = x @ c # xs" for c :: char and x xs
    using split_on_ne [of c xs] unsplit_split_on [of c xs] by (cases "split_on c xs") auto
  have "unsplit c (y # x # split_on c xs) = y @ c # x @ c # xs" for c :: char and x y xs by (simp add: u)
  then show ?thesis by (simp add: audio_parts_def ADAS_PARTS_def ADAS_def)
qed

lemma audio_parts_inj: "prefix ADAS p \<Longrightarrow> prefix ADAS q \<Longrightarrow> audio_parts p = audio_parts q \<Longrightarrow> p = q"
  using audio_prefix unsplit_audio by (metis same_append_eq)

lemma hook_unsplit: "plan_hook sha env g st t = Inr h \<Longrightarrow> he_path h = CHR ''/'' # unsplit (CHR ''/'') (he_parts h)"
  by (auto simp: plan_hook_def Let_def unsplit_split_on split: if_splits option.splits prod.splits sum.splits)

lemma md5_parts: "audio_parts MD5_PATH = MD5_PARTS" "prefix ADAS MD5_PATH"
  by (simp_all add: MD5_PATH_def MD5_PARTS_def audio_parts_def rel_of_def ADAS_def)

lemma hook_elsewhere:
  assumes "plan_hook sha env g st t = Inr h" "\<not> prefix ADAS (he_path h)"
  shows "he_parts h \<noteq> audio_parts p"
proof
  assume "he_parts h = audio_parts p"
  then have "he_path h = CHR ''/'' # tl ADAS @ rel_of p" using hook_unsplit [OF assms(1)] unsplit_audio by simp
  then have "he_path h = ADAS @ rel_of p" by (simp add: ADAS_def)
  then show False using assms(2) by simp
qed

lemma replaced_written_apart:
  assumes "he_parts h \<noteq> audio_parts (rp_path r)" "rs = rs1 @ r # rs2" "rp_path r \<notin> rp_path ` set rs2"
    "list_all (\<lambda>r. prefix ADAS (rp_path r)) rs"
  shows "tget (apply_writes (writes_of h as rs) t) (audio_parts (rp_path r)) = Some (TFile (rp_mode r) (rp_data r))"
proof -
  let ?w = "\<lambda>r. (audio_parts (rp_path r), rp_mode r, rp_data r)"
  have "audio_parts (rp_path r') \<noteq> audio_parts (rp_path r)" if "r' \<in> set rs2" for r'
  proof
    assume "audio_parts (rp_path r') = audio_parts (rp_path r)"
    moreover have "prefix ADAS (rp_path r')" "prefix ADAS (rp_path r)" using that assms(2,4) by (simp_all add: list_all_iff)
    ultimately have "rp_path r' = rp_path r" using audio_parts_inj by blast
    then show False using that assms(3) by (metis imageI)
  qed
  then have out: "audio_parts (rp_path r) \<notin> fst ` set (map ?w rs2 @ [(he_parts h, he_file_mode h, he_new h)])"
    using assms(1) by (force simp: image_iff)
  have "writes_of h as rs = (map (\<lambda>(n, d, m). ([''c2m'', n], m, d)) as @ map ?w rs1) @ (audio_parts (rp_path r), rp_mode r, rp_data r)
      # (map ?w rs2 @ [(he_parts h, he_file_mode h, he_new h)])"
    by (simp add: writes_of_def assms(2))
  then show ?thesis unfolding apply_writes_def by (simp only: last_write [OF out])
qed

lemma replaced_written:
  assumes "plan_hook sha env g st t = Inr h" "\<not> prefix ADAS (he_path h)" "rs = rs1 @ r # rs2" "rp_path r \<notin> rp_path ` set rs2"
    "list_all (\<lambda>r. prefix ADAS (rp_path r)) rs"
  shows "tget (apply_writes (writes_of h as rs) t) (audio_parts (rp_path r)) = Some (TFile (rp_mode r) (rp_data r))"
  using replaced_written_apart [OF hook_elsewhere [OF assms(1,2)] assms(3-5)] .

lemma hook_written: "tget (apply_writes (writes_of h as rs) t) (he_parts h) = Some (TFile (he_file_mode h) (he_new h))"
  by (simp add: apply_writes_def writes_of_def tget_place)

lemma md5_state_Inr:
  "md5_state sha env st t = Inr (m, old, sz) \<Longrightarrow> tget t MD5_PARTS = Some (TFile m old)"
proof -
  assume a: "md5_state sha env st t = Inr (m, old, sz)"
  then obtain m' d' where "node_file (tget t MD5_PARTS) = Some (m', d')"
    by (cases "node_file (tget t MD5_PARTS)") (auto simp: md5_state_def split: if_splits)
  moreover from this have "m' = m \<and> d' = old" using a by (auto simp: md5_state_def split: if_splits option.splits)
  ultimately show ?thesis by (cases "tget t MD5_PARTS" rule: node_file.cases) auto
qed


subsection \<open>The manifest feeds the ownership tool\<close>

fun node_kind :: "tnode \<Rightarrow> node" where
  "node_kind (TDir _) = Dir"
| "node_kind (TFile _ _) = Reg"
| "node_kind TLink = Symlink"
| "node_kind TOther = Other_node"

definition lstat_of :: "tree \<Rightarrow> string list \<Rightarrow> node option" where
  "lstat_of t ps = (if ps = [] then Some Dir else map_option node_kind (tget t ps))"

lemma names_valid: "list_all (\<lambda>n. path_error (image_asset n) = None) all_names"
  by (simp add: all_names_def D3_NAMES_def D4_NAMES_def DEBUG_NAMES_def BOOTVOICE_NAMES_def image_asset_def path_error_def)

lemma staged_modes:
  assumes "gather sha (me_args env) = Inr g" "stage_assets env g = Inr as" "(n, d, m) \<in> set as"
  shows "m = M755 \<or> m = M644"
proof -
  obtain idle profile health where as: "as = [(''c2m-idle'', idle, M755)] @ profile @ map (\<lambda>(n, d). (n, d, M755)) (gt_d3 g)
       @ with_modes D4_MODES (gt_d4 g) @ with_modes DEBUG_MODES (gt_debug g) @ with_modes BOOTVOICE_MODES (gt_bootvoice g) @ health"
    and p: "profile = [] \<or> (\<exists>d. profile = [(''tsr_profile_boot.sh'', d, M755)] \<and> shell_ok d)"
    and h: "health = [] \<or> (\<exists>d. health = [(''health.sh'', d, M755)] \<and> shell_ok d)"
    using assms(1,2) by (rule staged_list)
  have w: "m = M755 \<or> m = M644" if "(n, d, m) \<in> set (with_modes ms xs)" "xs = [] \<or> map fst xs = names"
      "list_all (\<lambda>n. map_of ms n = Some M755 \<or> map_of ms n = Some M644) names" for ms xs names
  proof -
    have "n \<in> set names" "m = the (map_of ms n)" using that(1,2) by (force simp: with_modes_def)+
    then show ?thesis using that(3) by (force simp: list_all_iff)
  qed
  have c: "gt_d4 g = [] \<or> map fst (gt_d4 g) = D4_NAMES @ [''signs-d4.bin'']"
    "gt_debug g = [] \<or> map fst (gt_debug g) = DEBUG_NAMES @ [''debug_owner.pub'']" "gt_bootvoice g = [] \<or> map fst (gt_bootvoice g) = BOOTVOICE_NAMES"
    using gathered_checked [OF assms(1)] by (auto simp: checked_names_def)
  have "list_all (\<lambda>n. map_of D4_MODES n = Some M755 \<or> map_of D4_MODES n = Some M644) (D4_NAMES @ [''signs-d4.bin''])"
    "list_all (\<lambda>n. map_of DEBUG_MODES n = Some M755 \<or> map_of DEBUG_MODES n = Some M644) (DEBUG_NAMES @ [''debug_owner.pub''])"
    "list_all (\<lambda>n. map_of BOOTVOICE_MODES n = Some M755 \<or> map_of BOOTVOICE_MODES n = Some M644) BOOTVOICE_NAMES"
    by (simp_all add: D4_MODES_def DEBUG_MODES_def BOOTVOICE_MODES_def D4_NAMES_def DEBUG_NAMES_def BOOTVOICE_NAMES_def)
  note modes = w [OF _ c(1) this(1)] w [OF _ c(2) this(2)] w [OF _ c(3) this(3)]
  have "(n, d, m) \<in> {(''c2m-idle'', idle, M755)} \<union> set profile \<union> set health \<union> (\<lambda>(n, d). (n, d, M755)) ` set (gt_d3 g)
      \<union> set (with_modes D4_MODES (gt_d4 g)) \<union> set (with_modes DEBUG_MODES (gt_debug g)) \<union> set (with_modes BOOTVOICE_MODES (gt_bootvoice g))"
    using assms(3) unfolding as by auto
  then show ?thesis using p h modes by (elim UnE) auto
qed

definition added_row :: "bool \<times> staged \<Rightarrow> string \<times> entry" where
  "added_row oa = (image_asset (fst (snd oa)), \<lparr>en_type = ''reg'', en_owner = (if fst oa then Some FALLBACK else None)\<rparr>)"

lemma target_added: "target_of (added_row oa) = (image_asset (fst (snd oa)), ''reg'', FALLBACK)"
  by (simp add: target_of_def added_row_def)

lemma file_entry_read:
  "path_error (image_asset n) = None \<Longrightarrow> image_asset n \<notin> set (map fst acc) \<Longrightarrow> m \<le> 4095 \<Longrightarrow>
   added_entry (file_entry sha own (n, d, m)) acc = Inr (added_row (own, n, d, m))"
  by (cases own) (simp_all add: added_entry_def file_entry_def dget_def has_key_def OWNER_FIELDS_def VALID_TYPES_def MAX_ID_def added_row_def FALLBACK_def)

lemma added_read:
  "\<forall>(own, n, d, m) \<in> set fs. path_error (image_asset n) = None \<and> m \<le> 4095 \<Longrightarrow> distinct (map fst acc @ map (image_asset \<circ> fst \<circ> snd) fs) \<Longrightarrow>
   load_entries added_entry (map (\<lambda>(own, a). file_entry sha own a) fs) acc = Inr (acc @ map added_row fs)"
proof (induction fs arbitrary: acc)
  case (Cons f fs)
  obtain own n d m where f: "f = (own, n, d, m)" by (cases f)
  have "added_entry (file_entry sha own (n, d, m)) acc = Inr (added_row (own, n, d, m))"
    using Cons.prems by (intro file_entry_read) (auto simp: f)
  moreover have "load_entries added_entry (map (\<lambda>(own, a). file_entry sha own a) fs) (acc @ [added_row f]) = Inr ((acc @ [added_row f]) @ map added_row fs)"
    using Cons.prems by (intro Cons.IH) (auto simp: f added_row_def)
  ultimately show ?case by (simp add: f)
qed simp

lemma replaced_read:
  assumes "list_all (\<lambda>(k, v). is_str k \<and> valid_path (the_str k) \<and> (\<exists>r s. v = PDict r \<and> dget r ''old_sha256'' = PStr s)) rs"
    "distinct (map (the_str \<circ> fst) rs)" "set acc \<inter> set (map (the_str \<circ> fst) rs) = {}"
  shows "\<exists>absent. load_replaced rs acc = Inr absent"
  using assms
proof (induction rs acc rule: load_replaced.induct)
  case (2 k rec items acc)
  obtain r s where v: "rec = PDict r" "dget r ''old_sha256'' = PStr s" and k: "is_str k" "valid_path (the_str k)" using "2.prems"(1) by auto
  then have p: "check_image_path k = None" by (cases k) (auto simp: valid_path_def)
  show ?case
  proof (cases "s = ABSENT")
    case True
    then show ?thesis using "2.IH"(1) [of r] "2.prems" v p by (simp add: list_all_iff)
  next
    case False
    then show ?thesis using "2.IH"(2) [of r] "2.prems" v p by (simp add: list_all_iff)
  qed
qed simp

lemma set_update_subset: "set (AList.update k v al) \<subseteq> insert (k, v) (set al)"
  by (induction al) auto

lemma replaced_doc_ok:
  "distinct (map fst (replaced_doc sha rs)) \<and> (\<forall>kv \<in> set (replaced_doc sha rs). \<exists>r. kv = replaced_row sha r)"
proof -
  have "distinct (map fst (foldl (\<lambda>d r. AList.update (fst (replaced_row sha r)) (snd (replaced_row sha r)) d) acc rs))
      \<and> (\<forall>kv \<in> set (foldl (\<lambda>d r. AList.update (fst (replaced_row sha r)) (snd (replaced_row sha r)) d) acc rs). \<exists>r. kv = replaced_row sha r)"
    if "distinct (map fst acc)" "\<forall>kv \<in> set acc. \<exists>r. kv = replaced_row sha r" for acc
    using that
  proof (induction rs arbitrary: acc)
    case (Cons r rs)
    have "\<forall>kv \<in> set (AList.update (fst (replaced_row sha r)) (snd (replaced_row sha r)) acc). \<exists>r. kv = replaced_row sha r"
      using Cons.prems(2) set_update_subset [of "fst (replaced_row sha r)" "snd (replaced_row sha r)" acc] by (metis insertE prod.collapse subsetD)
    then show ?case using Cons.IH [OF distinct_update [OF Cons.prems(1)]] by simp
  qed simp
  from this [of "[]"] show ?thesis by (simp add: replaced_doc_def)
qed

lemma str_keys_all: "\<forall>kv \<in> set d. is_str (fst kv) \<Longrightarrow> str_keys d = map (the_str \<circ> fst) d"
  by (induction d rule: str_keys.induct) auto

lemma added_names_distinct:
  assumes "gather sha (me_args env) = Inr g"
  shows "distinct (map (fst \<circ> snd) (added_files g as)) \<and> set (map (fst \<circ> snd) (added_files g as)) \<subseteq> set all_names"
proof -
  have f: "subseq (map fst (find_asset as names)) names" for names
    by (induction names) (auto simp: find_asset_def map_filter_simps split: option.splits)
  have d3: "map (fst \<circ> snd) (map (\<lambda>(n, d). (False, n, d, M755)) (gt_d3 g)) = map fst (gt_d3 g)" by auto
  have m: "map (fst \<circ> snd) (map (\<lambda>a. (b, a)) xs) = map fst xs" for b and xs :: "staged list" by (simp add: comp_def)
  have c: "subseq (map fst (gt_d3 g)) D3_NAMES" "subseq (map fst (gt_d4 g)) (D4_NAMES @ [''signs-d4.bin''])"
    "subseq (map fst (gt_debug g)) (DEBUG_NAMES @ [''debug_owner.pub''])" "subseq (map fst (gt_bootvoice g)) BOOTVOICE_NAMES"
    using gathered_checked [OF assms] by (auto simp: checked_names_def)
  have "subseq (map (fst \<circ> snd) (added_files g as)) all_names"
    unfolding added_files_def all_names_def map_append d3 m with_modes_names by (intro list_emb_append_mono c f)
  then show ?thesis using subseq_facts all_names_facts(1) by blast
qed

text \<open>C28. The ownership tool reads the mutation manifest of any successful run (with replaced paths it can express), finds every added path in
  the mutated tree with the recorded type below real directories, and gives all of them the owner 1001:1001.\<close>

theorem manifest_feeds_ownership:
  assumes "mutate sha md5 env t = Inr (t', doc)" and "list_all valid_path (str_keys (dict_of (dget doc ''replaced'')))"
  shows "\<exists>added absent. load_mut_manifest (Some (Some (PDict doc))) = Inr (added, absent)
     \<and> fst ` set added = (\<lambda>v. the_str (dget (dict_of v) ''path'')) ` set (list_of (dget doc ''added''))
     \<and> list_all (\<lambda>e. check_target (lstat_of t') (target_of e) = None \<and> snd (snd (target_of e)) = FALLBACK) added"
proof -
  obtain g st h as ap where m: "gather sha (me_args env) = Inr g" "plan_hook sha env g st t = Inr h" "stage_assets env g = Inr as"
    "destination_error env g st t as = None"
    "ap = None \<and> me_specs env = None \<or> (\<exists>d a. me_specs env = Some d \<and> plan_specs sha md5 env st t d = Inr a \<and> ap = Some a)"
    "t' = apply_writes (writes_of h as (all_replacements sha ap)) t" "doc = mutation_doc sha env g h as ap"
    using assms(1) by (rule mutate_cases)
  let ?fs = "added_files g as" and ?rs = "replaced_doc sha (all_replacements sha ap)"
  let ?c2m = "(''/c2m'', \<lparr>en_type = ''dir'', en_owner = Some FALLBACK\<rparr>)"
  note names = added_names_distinct [OF m(1), of as]
  have inas: "(n, d, k) \<in> set as" if "(own, n, d, k) \<in> set ?fs" for own n d k
    using imageI [OF that, of snd] unfolding added_files_set [OF m(1,3)] by simp
  have inj: "inj image_asset" by (rule injI) (simp add: image_asset_def)
  have "distinct (map fst [?c2m] @ map (image_asset \<circ> fst \<circ> snd) ?fs)"
    using names inj by (auto simp: distinct_map comp_inj_on inj_on_def image_asset_def)
  moreover have "\<forall>(own, n, d, k) \<in> set ?fs. path_error (image_asset n) = None \<and> k \<le> 4095"
  proof clarify
    fix own n d k assume f: "(own, n, d, k) \<in> set ?fs"
    then have "n \<in> set (map (fst \<circ> snd) ?fs)" by force
    then have "n \<in> set all_names" using names by blast
    then have "path_error (image_asset n) = None" using names_valid by (simp add: list_all_iff)
    moreover have "k \<le> 4095" using staged_modes [OF m(1,3) inas [OF f]] by (auto simp: M755_def M644_def)
    ultimately show "path_error (image_asset n) = None \<and> k \<le> 4095" ..
  qed
  ultimately have "load_entries added_entry (map (\<lambda>(own, a). file_entry sha own a) ?fs) [?c2m] = Inr ([?c2m] @ map added_row ?fs)"
    by (intro added_read)
  moreover have "added_entry DIR_ENTRY [] = Inr ?c2m"
    by (simp add: added_entry_def DIR_ENTRY_def OWNER_FIELDS_def dget_def has_key_def path_error_def VALID_TYPES_def MAX_ID_def FALLBACK_def)
  ultimately have added: "load_entries added_entry (DIR_ENTRY # map (\<lambda>(own, a). file_entry sha own a) ?fs) [] = Inr (?c2m # map added_row ?fs)"
    by simp
  have rows: "\<forall>kv \<in> set ?rs. \<exists>r. kv = replaced_row sha r" "distinct (map fst ?rs)" using replaced_doc_ok by blast+
  then have strs: "\<forall>kv \<in> set ?rs. is_str (fst kv)" by (auto simp: replaced_row_def)
  have keys: "str_keys ?rs = map (the_str \<circ> fst) ?rs" using strs by (rule str_keys_all)
  have valid: "list_all valid_path (map (the_str \<circ> fst) ?rs)" using assms(2) by (simp add: m(7) doc_fields keys)
  have "list_all (\<lambda>(k, v). is_str k \<and> valid_path (the_str k) \<and> (\<exists>r s. v = PDict r \<and> dget r ''old_sha256'' = PStr s)) ?rs"
    unfolding list_all_iff
  proof
    fix kv assume kv: "kv \<in> set ?rs"
    then obtain r where "kv = replaced_row sha r" using rows(1) by blast
    then have "\<exists>d s. snd kv = PDict d \<and> dget d ''old_sha256'' = PStr s" by (simp add: replaced_row_def dget_def)
    then show "case kv of (k, v) \<Rightarrow> is_str k \<and> valid_path (the_str k) \<and> (\<exists>r s. v = PDict r \<and> dget r ''old_sha256'' = PStr s)"
      using kv strs valid by (force simp: list_all_iff)
  qed
  moreover have "distinct (map (the_str \<circ> fst) ?rs)"
  proof -
    have "inj_on the_str (set (map fst ?rs))" using strs by (intro inj_onI) (metis image_iff set_map is_str.elims(2) the_str.simps(1))
    then show ?thesis using rows(2) by (simp add: distinct_map comp_inj_on)
  qed
  ultimately obtain absent where absent: "load_replaced ?rs [] = Inr absent" using replaced_read [of ?rs "[]"] by auto
  have load: "load_mut_manifest (Some (Some (PDict doc))) = Inr (?c2m # map added_row ?fs, absent)"
    using added absent by (simp add: load_mut_manifest_def get_or_def m(7) doc_fields)
  have dir: "lstat_of t' [''c2m''] = Some Dir"
  proof -
    have "[''c2m''] \<noteq> he_parts h"
      using plan_hook_Inr(2) [OF m(2)] m(4) by (cases "tget t [''c2m'']" rule: is_tdir.cases) (auto simp: destination_error_def split: if_splits)
    then have "[''c2m''] \<notin> fst ` set (writes_of h as (all_replacements sha ap))"
      by (auto simp: writes_of_def audio_parts_def ADAS_PARTS_def)
    then show ?thesis by (simp add: m(6) apply_writes_def writes_frame tget_tput lstat_of_def)
  qed
  have placed_file: "check_target (lstat_of t') (target_of (added_row (own, n, d, k))) = None" if f: "(own, n, d, k) \<in> set ?fs" for own n d k
  proof -
    have "n \<in> set (map (fst \<circ> snd) ?fs)" using f by force
    then have "rel_parts (image_asset n) = [''c2m'', n]" using names asset_parts by blast
    moreover have "ap = None \<or> (\<exists>d a. plan_specs sha md5 env st t d = Inr a \<and> ap = Some a)" using m(5) by blast
    then have "tget t' [''c2m'', n] = Some (TFile k d)" unfolding m(6) by (rule added_placed [OF m(1-4) _ inas [OF f]])
    then have "lstat_of t' [''c2m'', n] = Some Reg" by (simp add: lstat_of_def)
    ultimately show ?thesis using dir by (simp add: check_target_def target_added ancestors_def upt_rec check_ancestor_def)
  qed
  have "check_target (lstat_of t') (target_of ?c2m) = None"
    using dir by (simp add: check_target_def target_of_def rel_parts_def ancestors_def)
  then have "list_all (\<lambda>e. check_target (lstat_of t') (target_of e) = None \<and> snd (snd (target_of e)) = FALLBACK) (?c2m # map added_row ?fs)"
    using placed_file by (auto simp: list_all_iff target_added) (simp_all add: target_of_def)
  moreover have "fst ` set (?c2m # map added_row ?fs) = (\<lambda>v. the_str (dget (dict_of v) ''path'')) ` set (list_of (dget doc ''added''))"
    by (force simp: m(7) doc_fields entry_fields added_row_def image_iff)
  ultimately show ?thesis using load by blast
qed

subsection \<open>A sample run\<close>

definition demo_digest :: "bytes \<Rightarrow> string" where "demo_digest d = replicate 32 (CHR ''0'')"

definition demo_wav :: bytes where
  "demo_wav = bytes_of ''RIFF'' @ [0, 0, 0, 0] @ bytes_of ''WAVE'' @ bytes_of ''fmt '' @ [16, 0, 0, 0, 1, 0, 1, 0, 192, 93, 0, 0, 0, 0, 0, 0, 2, 0, 16, 0]
     @ bytes_of ''data'' @ [2, 0, 0, 0, 0, 0]"

definition demo_sound :: string where "demo_sound = ''/minieye/adas/a.wav''"

definition demo_list :: bytes where
  "demo_list = bytes_of (replicate 32 (CHR ''f'') @ ''  ./a.wav'' @ [CHR 0x0A])"

definition demo_stock_row :: "string \<Rightarrow> pyval" where
  "demo_stock_row p = PDict [(PStr ''path'', PStr p), (PStr ''type'', PStr ''reg''), (PStr ''sha256'', PStr (replicate 32 (CHR ''0''))),
     (PStr ''size'', PInt 1)]"

definition demo_tree :: tree where
  "demo_tree = [([''wifi''], TDir 493), ([''wifi'', ''rc.sh''], TFile 493 demo_hook), ([''minieye''], TDir 493), (ADAS_PARTS, TDir 493),
     (MD5_PARTS, TFile 420 demo_list), (ADAS_PARTS @ [''a.wav''], TFile 420 [1])]"

definition demo_install :: install_args where
  "demo_install = \<lparr>ia_tsr_patch = False, ia_tsr_experiment = False, ia_d5 = False, ia_d3 = None, ia_d4 = None, ia_d4_db = None, ia_d4_pin = None,
     ia_debug = None, ia_key = None, ia_key_pin = None, ia_bootvoice = None\<rparr>"

definition demo_env :: mutate_env where
  "demo_env = \<lparr>me_root_linked = False, me_args = demo_install, me_hook = ''wifi/rc.sh'', me_hook_line = bytes_of ''/customer/c2m/c2m-idle &'',
     me_stock = Some (PDict [(PStr ''entries'', PList (map demo_stock_row [''/wifi/rc.sh'', MD5_PATH, demo_sound]))]),
     me_idle = Regular [1], me_profile = Missing, me_health = Missing, me_report_new = True,
     me_specs = Some (Some (PList [PDict [(PStr ''path'', PStr demo_sound), (PStr ''file'', PStr ''new.wav'')]])),
     me_local = (\<lambda>_. Regular demo_wav)\<rparr>"

definition demo_gathered :: gathered where
  "demo_gathered = \<lparr>gt_d4 = [], gt_db = None, gt_d3 = [], gt_debug = [], gt_owner = None, gt_bootvoice = []\<rparr>"

definition demo_stock :: stock_map where
  "demo_stock = map (\<lambda>p. (PStr p, dict_of (demo_stock_row p))) [''/wifi/rc.sh'', MD5_PATH, demo_sound]"

lemma demo_gather: "gather demo_digest demo_install = Inr demo_gathered"
  by (simp add: gather_def demo_install_def gather_d4_def gather_d3_def gather_debug_def gather_bootvoice_def demo_gathered_def)

lemma demo_stock_map: "stock_map (me_stock demo_env) = Some demo_stock"
  by (simp add: stock_map_def demo_env_def stock_row_def demo_stock_row_def dget_def has_key_def demo_stock_def)

lemma demo_plain_hook: "hook_refusal (hook_opts_of demo_env demo_gathered) demo_hook = None"
  by (simp add: hook_refusal_def hook_opts_of_def demo_env_def demo_gathered_def demo_hook_def contains_def RC_MARK_def RC_EXIT_def bytes_of_def suffix_def)

lemma demo_plain_edit: "\<exists>new. edit_hook (hook_opts_of demo_env demo_gathered) demo_hook = Inr (new, Insert_before_exit)"
  by (simp add: edit_hook_def demo_plain_hook demo_split Let_def demo_exit)
    (simp add: hook_opts_of_def demo_env_def demo_install_def demo_gathered_def)

lemma demo_stock_get:
  "stock_get demo_stock ''/wifi/rc.sh'' = Some (dict_of (demo_stock_row ''/wifi/rc.sh''))"
  "stock_get demo_stock MD5_PATH = Some (dict_of (demo_stock_row MD5_PATH))"
  "stock_get demo_stock demo_sound = Some (dict_of (demo_stock_row demo_sound))"
  "stock_get demo_stock ''/c2m/c2m-idle'' = None"
  by (simp_all add: stock_get_def demo_stock_def MD5_PATH_def demo_sound_def)

lemma demo_stock_fields:
  "dget (dict_of (demo_stock_row p)) ''type'' = PStr ''reg''" "dget (dict_of (demo_stock_row p)) ''sha256'' = PStr (demo_digest d)"
  "has_key (dict_of (demo_stock_row p)) ''size''"
  by (simp_all add: demo_stock_row_def dget_def has_key_def demo_digest_def)

lemma demo_nodes:
  "tget demo_tree [''wifi'', ''rc.sh''] = Some (TFile 493 demo_hook)" "tget demo_tree [''wifi''] = Some (TDir 493)"
  "tget demo_tree [''minieye''] = Some (TDir 493)" "tget demo_tree ADAS_PARTS = Some (TDir 493)" "tget demo_tree MD5_PARTS = Some (TFile 420 demo_list)"
  "tget demo_tree [''c2m''] = None" "tget demo_tree [''c2m'', n] = None" "tget demo_tree (audio_parts demo_sound) = Some (TFile 420 [1])"
  by (simp_all add: tget_def demo_tree_def ADAS_PARTS_def MD5_PARTS_def audio_parts_def rel_of_def demo_sound_def ADAS_def)

lemma demo_plan_hook: "\<exists>h. plan_hook demo_digest demo_env demo_gathered demo_stock demo_tree = Inr h \<and> he_path h = ''/wifi/rc.sh''"
proof -
  obtain new where "edit_hook (hook_opts_of demo_env demo_gathered) demo_hook = Inr (new, Insert_before_exit)" using demo_plain_edit by blast
  moreover have "me_hook demo_env = ''wifi/rc.sh''" "\<not> me_root_linked demo_env" by (simp_all add: demo_env_def)
  moreover have "\<not> linked_at False demo_tree [''wifi'', ''rc.sh'']"
    by (simp add: linked_at_def upt_rec demo_nodes)
  ultimately show ?thesis
    using demo_stock_fields(2) [of "''/wifi/rc.sh''" demo_hook]
    by (simp add: plan_hook_def bad_rel_def stock_reg_def stock_sha_def demo_stock_get demo_stock_fields(1) demo_nodes)
qed

lemma demo_staged: "stage_assets demo_env demo_gathered = Inr [(''c2m-idle'', [1], M755)]"
  by (simp add: stage_assets_def demo_env_def demo_install_def demo_gathered_def optional_asset_def with_modes_def stage_dict_def)

lemma demo_destination: "destination_error demo_env demo_gathered demo_stock demo_tree [(''c2m-idle'', [1], M755)] = None"
  by (simp add: destination_error_def linked_at_def demo_nodes demo_stock_get image_asset_def) (simp add: demo_env_def demo_gathered_def)

lemma demo_lines: "split_on (CHR 0x0A) (ascii_text demo_list) = [replicate 32 (CHR ''f'') @ ''  ./a.wav'', []]"
  using split_on_append [of "CHR 0x0A" "replicate 32 (CHR ''f'') @ ''  ./a.wav''" "[]"] by (simp add: demo_list_def)

lemma demo_md5_lines: "list_all md5_line (split_on (CHR 0x0A) (ascii_text demo_list))"
  unfolding demo_lines by (simp add: md5_line_def)

lemma demo_wav_ok: "check_wav demo_wav = None"
  by (simp add: check_wav_def demo_wav_def slice_def bytes_of_def)

lemma demo_md5_state: "md5_state demo_digest demo_env demo_stock demo_tree = Inr (420, demo_list, PInt 1)"
proof -
  have "\<not> linked_at False demo_tree MD5_PARTS"
    by (simp add: linked_at_def upt_rec MD5_PARTS_def ADAS_PARTS_def tget_def demo_tree_def)
  moreover have "\<not> list_ex (\<lambda>b. 128 \<le> b) demo_list" by (simp add: demo_list_def bytes_of_def list_ex_iff)
  moreover have "\<not> me_root_linked demo_env" by (simp add: demo_env_def)
  moreover have "dget (dict_of (demo_stock_row p)) ''size'' = PInt 1" for p by (simp add: demo_stock_row_def dget_def)
  ultimately show ?thesis
    using demo_stock_fields(2) [of MD5_PATH demo_list]
    by (simp add: md5_state_def stock_reg_def stock_sha_def demo_stock_get demo_stock_fields(1,3) demo_nodes)
qed

lemma demo_hits: "md5_hits ''a.wav'' [replicate 32 (CHR ''f'') @ ''  ./a.wav'', []] = [0]"
  by (simp add: md5_hits_def md5_suffix_def upt_rec suffix_eval)

lemma demo_replacement:
  "\<exists>r. plan_replacement demo_digest demo_env demo_stock demo_tree [replicate 32 (CHR ''f'') @ ''  ./a.wav'', []] (demo_sound, ''new.wav'') = Inr (r, 0) \<and> rp_path r = demo_sound"
proof -
  have "rel_of demo_sound = ''a.wav''" by (simp add: rel_of_def demo_sound_def ADAS_def)
  moreover have "\<not> linked_at False demo_tree (audio_parts demo_sound)"
    by (simp add: linked_at_def upt_rec audio_parts_def calculation ADAS_PARTS_def tget_def demo_tree_def)
  moreover have "me_local demo_env f = Regular demo_wav" "\<not> me_root_linked demo_env" for f by (simp_all add: demo_env_def)
  ultimately show ?thesis
    using demo_stock_fields(2) [of demo_sound "[1]"]
    by (simp add: plan_replacement_def demo_wav_ok demo_hits target_state_def demo_nodes stock_reg_def stock_sha_def demo_stock_get demo_stock_fields(1,3))
qed

lemma demo_planned:
  "\<exists>a. plan_specs demo_digest demo_digest demo_env demo_stock demo_tree (the (me_specs demo_env)) = Inr a \<and> map rp_path (ap_replacements a) = [demo_sound]"
proof -
  let ?d = "PDict [(PStr ''path'', PStr demo_sound), (PStr ''file'', PStr ''new.wav'')]"
  have specs: "the (me_specs demo_env) = Some (PList [?d])" by (simp add: demo_env_def)
  have "check_specs [?d] [] = Inr [(demo_sound, ''new.wav'')]"
    by (simp add: spec_error_def dget_def) (simp add: demo_sound_def ADAS_def bad_rel_def)
  moreover obtain r where r: "plan_replacement demo_digest demo_env demo_stock demo_tree [replicate 32 (CHR ''f'') @ ''  ./a.wav'', []] (demo_sound, ''new.wav'') = Inr (r, 0)"
    "rp_path r = demo_sound" using demo_replacement by blast
  moreover have "suffix [CHR 0x0A] (x @ y @ [CHR 0x0A])" for x y :: string by (simp add: suffix_def)
  ultimately show ?thesis unfolding specs
    by (simp add: plan_specs_def demo_md5_state demo_lines Let_def suffix_eval)
qed

lemma demo_mutated:
  "\<exists>t' doc. mutate demo_digest demo_digest demo_env demo_tree = Inr (t', doc) \<and> dget doc ''hook'' = PStr ''/wifi/rc.sh''
     \<and> str_keys (dict_of (dget doc ''replaced'')) = [demo_sound, MD5_PATH]"
proof -
  obtain h where h: "plan_hook demo_digest demo_env demo_gathered demo_stock demo_tree = Inr h" "he_path h = ''/wifi/rc.sh''"
    using demo_plan_hook by blast
  obtain a where a: "plan_specs demo_digest demo_digest demo_env demo_stock demo_tree (the (me_specs demo_env)) = Inr a"
    "map rp_path (ap_replacements a) = [demo_sound]" using demo_planned by (elim exE conjE)
  obtain d where d: "me_specs demo_env = Some d" by (simp add: demo_env_def)
  have a': "plan_specs demo_digest demo_digest demo_env demo_stock demo_tree d = Inr a" using a(1) by (simp only: d option.sel)
  have g: "gather demo_digest (me_args demo_env) = Inr demo_gathered" using demo_gather by (simp add: demo_env_def)
  let ?as = "[(''c2m-idle'', [1], M755)]"
  have "plan_all demo_digest demo_digest demo_env demo_gathered demo_tree = Inr (h, ?as, Some a)"
    by (subst plan_all_def) (simp only: demo_stock_map h demo_staged demo_destination d option.case sum.case a' map_sum.simps)
  then have m: "mutate demo_digest demo_digest demo_env demo_tree
      = Inr (apply_writes (writes_of h ?as (all_replacements demo_digest (Some a))) demo_tree, mutation_doc demo_digest demo_env demo_gathered h ?as (Some a))"
    by (simp add: mutate_def g)
  obtain r where "ap_replacements a = [r]" "rp_path r = demo_sound" using a(2) by auto
  then have "str_keys (replaced_doc demo_digest (all_replacements demo_digest (Some a))) = [demo_sound, MD5_PATH]"
    by (simp add: replaced_doc_def all_replacements_def replaced_row_def md5_replacement_def demo_sound_def MD5_PATH_def)
  then show ?thesis using m h(2) by (simp add: doc_fields) (simp add: mutation_doc_def dget_def)
qed


theorem added_as_recorded_witness:
  "\<exists>t' doc e d m. mutate demo_digest demo_digest demo_env demo_tree = Inr (t', doc) \<and> dget e ''path'' = PStr ''/c2m/c2m-idle''
     \<and> tget t' [''c2m'', ''c2m-idle''] = Some (TFile m d)"
proof -
  obtain t' doc where m: "mutate demo_digest demo_digest demo_env demo_tree = Inr (t', doc)" using demo_mutated by blast
  obtain g h as ap where w: "stage_assets demo_env g = Inr as" "doc = mutation_doc demo_digest demo_env g h as ap" "gather demo_digest (me_args demo_env) = Inr g"
    using mutate_cases [OF m] by metis
  have g: "g = demo_gathered" using w(3) demo_gather by (simp add: demo_env_def)
  let ?e = "dict_of (file_entry demo_digest False (''c2m-idle'', [1], M755))"
  have as: "as = [(''c2m-idle'', [1], M755)]" using w(1) demo_staged by (simp add: g)
  have "PDict ?e = file_entry demo_digest False (''c2m-idle'', [1], M755)" by (simp add: file_entry_def)
  then have "PDict ?e \<in> set (list_of (dget doc ''added''))"
    by (simp add: w(2) doc_fields as added_files_def find_asset_def map_filter_simps)
  from added_as_recorded [OF m this entry_fields(2)]
  obtain n d k where "PStr (image_asset ''c2m-idle'') = PStr (''/c2m/'' @ n)" "tget t' [''c2m'', n] = Some (TFile k d)"
    unfolding entry_fields(1) by (elim exE conjE)
  moreover from this(1) have "n = ''c2m-idle''" by (simp add: image_asset_def)
  moreover have "dget ?e ''path'' = PStr ''/c2m/c2m-idle''" unfolding entry_fields(1) by (simp add: image_asset_def)
  ultimately show ?thesis using m by (intro exI [of _ t'] exI [of _ doc] exI [of _ ?e] exI [of _ d] exI [of _ k]) simp
qed


theorem manifest_feeds_ownership_witness:
  "\<exists>t' doc added absent. mutate demo_digest demo_digest demo_env demo_tree = Inr (t', doc) \<and> load_mut_manifest (Some (Some (PDict doc))) = Inr (added, absent)"
proof -
  obtain t' doc where m: "mutate demo_digest demo_digest demo_env demo_tree = Inr (t', doc)"
    "str_keys (dict_of (dget doc ''replaced'')) = [demo_sound, MD5_PATH]" using demo_mutated by blast
  have "list_all valid_path (str_keys (dict_of (dget doc ''replaced'')))"
    by (simp add: m(2) valid_path_def path_error_def demo_sound_def MD5_PATH_def)
  from manifest_feeds_ownership [OF m(1) this] show ?thesis using m(1) by blast
qed

end
