(* ===== verification/VerifyB.thy ===== *)
theory VerifyB
  imports Mutation
begin

text \<open>
  \<open>tools/fw/verify_b_manifest.py\<close>: the manifest of a rebuilt customer (or oneed) image is compared with the stock manifest and the
  mutation manifest. The three documents are the values of \<open>json.loads\<close>. The result is the list of violations (empty: verdict OK, exit
  code 0), or \<open>None\<close> for an exception, which includes the refused mutation kinds; a path that is no string, which no tool writes, is
  outside the model and also \<open>None\<close>. The texts of the violations are not modelled.

  Shown: the verdict is OK exactly when the rebuilt image has the paths of stock and mutation and every path has the row the two
  prescribe.
\<close>

subsection \<open>Equality of JSON values\<close>

text \<open>Python's \<open>==\<close>: a bool is a number, numbers are equal when their values are, \<open>NaN\<close> equals nothing.\<close>

fun num_of :: "pyval \<Rightarrow> pyfloat option" where
  "num_of (PBool b) = Some (FFin (if b then 1 else 0))"
| "num_of (PInt i) = Some (FFin (of_int i))"
| "num_of (PFloat f) = Some f"
| "num_of _ = None"

function (sequential) py_eq :: "pyval \<Rightarrow> pyval \<Rightarrow> bool" where
  "py_eq (PList xs) (PList ys) \<longleftrightarrow> length xs = length ys \<and> list_all (\<lambda>(x, y). py_eq x y) (zip xs ys)"
| "py_eq (PDict d) (PDict e) \<longleftrightarrow>
     length d = length e \<and> list_all (\<lambda>(k, v). case map_of e k of None \<Rightarrow> False | Some w \<Rightarrow> py_eq v w) d"
| "py_eq a b \<longleftrightarrow>
     (case (num_of a, num_of b) of (Some x, Some y) \<Rightarrow> x = y \<and> x \<noteq> FNaN | (None, None) \<Rightarrow> a = b | _ \<Rightarrow> False)"
  by pat_completeness auto

lemma size_member: "x \<in> set xs \<Longrightarrow> size x < Suc (size_list size xs)"
  by (simp add: size_list_estimation' less_Suc_eq_le)

lemma size_item: "(k, v) \<in> set d \<Longrightarrow> size v < Suc (size_list (size_prod size size) d)"
  using size_list_estimation' [of "(k, v)" d "size v" "size_prod size size"] by (simp add: less_Suc_eq_le)

termination py_eq
proof (relation "measure (\<lambda>(a, b). size a)")
  show "((x, y), PList xs, PList ys) \<in> measure (\<lambda>(a, b). size a)" if "z \<in> set (zip xs ys)" "(x, y) = z" for xs ys x y z
    using that size_member [of x xs] by (auto dest: set_zip_leftD)
qed (auto intro: size_item)

lemma py_eq_str [simp]: "py_eq v (PStr s) \<longleftrightarrow> v = PStr s" "py_eq (PStr s) v \<longleftrightarrow> v = PStr s"
  by (cases v; auto)+

lemma py_eq_int [simp]: "py_eq (PInt i) (PInt j) \<longleftrightarrow> i = j"
  by simp

subsection \<open>The documents\<close>

type_synonym rows = "(string \<times> pydict) list"

definition path_row :: "pyval \<Rightarrow> (string \<times> pydict) option" where
  "path_row v = (case v of PDict r \<Rightarrow> (case dget r ''path'' of PStr p \<Rightarrow> Some (p, r) | _ \<Rightarrow> None) | _ \<Rightarrow> None)"

definition index_rows :: "pyval list \<Rightarrow> rows option" where
  "index_rows vs = map_option (foldl (\<lambda>d (p, r). AList.update p r d) []) (those (map path_row vs))"

definition load_rows :: "pyval \<Rightarrow> rows option" where
  "load_rows doc = (case doc of PDict d \<Rightarrow> (case dget d ''entries'' of PList vs \<Rightarrow> index_rows vs | _ \<Rightarrow> None) | _ \<Rightarrow> None)"

record b_mut =
  bm_hook :: "(string \<times> pyval) option"
  bm_added :: rows
  bm_replaced :: rows

fun new_hook_sha :: "string \<Rightarrow> pyval list \<Rightarrow> pyval option" where
  "new_hook_sha h (PDict m # ms) =
     (if \<not> has_key m ''path'' then None
      else if dget m ''path'' = PStr h then (if has_key m ''new_sha256'' then Some (dget m ''new_sha256'') else None)
      else new_hook_sha h ms)"
| "new_hook_sha h _ = None"

definition load_hook :: "pydict \<Rightarrow> (string \<times> pyval) option" where
  "load_hook d =
     (case (dget d ''hook'', dget d ''modified'') of
        (PStr h, PList ms) \<Rightarrow> map_option (\<lambda>s. (h, s)) (new_hook_sha h ms)
      | _ \<Rightarrow> None)"

fun replaced_entry :: "pyval \<times> pyval \<Rightarrow> (string \<times> pydict) option" where
  "replaced_entry (PStr p, PDict r) = Some (p, r)"
| "replaced_entry _ = None"

definition load_b_mut :: "pyval \<Rightarrow> b_mut option" where
  "load_b_mut doc =
     (case doc of
        PDict d \<Rightarrow>
          (case (get_or d ''kind'' (PStr ''customer''), get_or d ''added'' (PList []), get_or d ''replaced'' (PDict [])) of
             (PStr kind, PList as, PDict rs) \<Rightarrow>
               (case (index_rows as, those (map replaced_entry rs)) of
                  (Some added, Some replaced) \<Rightarrow>
                    if kind = ''oneed'' then Some \<lparr>bm_hook = None, bm_added = added, bm_replaced = replaced\<rparr>
                    else if kind = ''customer''
                    then map_option (\<lambda>h. \<lparr>bm_hook = Some h, bm_added = added, bm_replaced = replaced\<rparr>) (load_hook d)
                    else None
                | _ \<Rightarrow> None)
           | _ \<Rightarrow> None)
      | _ \<Rightarrow> None)"

subsection \<open>The comparison\<close>

definition B_KEYS :: "string list" where
  "B_KEYS = [''type'', ''mode'', ''uid'', ''gid'', ''size'', ''sha256'', ''target'', ''mtime'']"
definition DIR_KEYS :: "string list" where "DIR_KEYS = [''type'', ''mode'', ''uid'', ''gid'']"
definition ADDED_KEYS :: "string list" where "ADDED_KEYS = [''type'', ''mode'', ''size'', ''sha256'', ''uid'', ''gid'']"

datatype violation =
    Replaced_missing string
  | Replaced_mismatch string
  | Replaced_metadata string string
  | Removed_path string
  | Changed_key string string
  | Missing_added string
  | Added_dir_mismatch string string
  | Added_mismatch string string
  | Hook_missing string
  | Hook_sha string
  | Absent_missing string
  | Absent_mismatch string
  | Unexpected_paths "string list"

definition differing :: "string list \<Rightarrow> pydict \<Rightarrow> pydict \<Rightarrow> string list" where
  "differing ks s a = filter (\<lambda>k. \<not> py_eq (dget s k) (dget a k)) ks"

text \<open>Whether a row has another content than recorded; the record is read by \<open>recd["new_sha256"]\<close> and, if the hashes agree,
  \<open>recd["new_size"]\<close>. The message of a mismatch reads both.\<close>

definition content_differs :: "pydict \<Rightarrow> pydict \<Rightarrow> bool option" where
  "content_differs recd a =
     (if \<not> has_key recd ''new_sha256'' then None
      else if \<not> py_eq (dget a ''sha256'') (dget recd ''new_sha256'') then Some True
      else if \<not> has_key recd ''new_size'' then None
      else Some (\<not> py_eq (dget a ''size'') (dget recd ''new_size'')))"

definition is_hook :: "b_mut \<Rightarrow> string \<Rightarrow> bool" where
  "is_hook m p \<longleftrightarrow> (case bm_hook m of None \<Rightarrow> False | Some (h, _) \<Rightarrow> p = h)"

definition replaced_check :: "string \<Rightarrow> pydict \<Rightarrow> pydict \<Rightarrow> pydict option \<Rightarrow> violation list option" where
  "replaced_check p s recd act =
     (case act of
        None \<Rightarrow> Some [Replaced_missing p]
      | Some a \<Rightarrow>
          (case content_differs recd a of
             None \<Rightarrow> None
           | Some bad \<Rightarrow>
               if bad \<and> \<not> has_key recd ''new_size'' then None
               else Some ((if bad then [Replaced_mismatch p] else []) @ map (Replaced_metadata p) (differing DIR_KEYS s a))))"

definition stock_check :: "b_mut \<Rightarrow> rows \<Rightarrow> string \<times> pydict \<Rightarrow> violation list option" where
  "stock_check m act row =
     (case row of (p, s) \<Rightarrow>
        if is_hook m p then Some []
        else (case map_of (bm_replaced m) p of
            Some recd \<Rightarrow> replaced_check p s recd (map_of act p)
          | None \<Rightarrow> Some
              (case map_of act p of
                 None \<Rightarrow> [Removed_path p]
               | Some a \<Rightarrow> map (Changed_key p) (differing (if dget s ''type'' = PStr ''dir'' then DIR_KEYS else B_KEYS) s a))))"

definition added_check :: "rows \<Rightarrow> string \<times> pydict \<Rightarrow> violation list" where
  "added_check act row =
     (case row of (p, a) \<Rightarrow>
        (case map_of act p of
           None \<Rightarrow> [Missing_added p]
         | Some r \<Rightarrow>
             if dget a ''type'' = PStr ''dir'' then map (Added_dir_mismatch p) (differing DIR_KEYS r a)
             else map (Added_mismatch p) (differing (filter (has_key a) ADDED_KEYS) r a)))"

definition hook_check :: "b_mut \<Rightarrow> rows \<Rightarrow> violation list" where
  "hook_check m act =
     (case bm_hook m of
        None \<Rightarrow> []
      | Some (h, sha) \<Rightarrow>
          (case map_of act h of
             None \<Rightarrow> [Hook_missing h]
           | Some r \<Rightarrow> if py_eq (dget r ''sha256'') sha then [] else [Hook_sha h]))"

text \<open>The recorded paths that are new in the image, sorted.\<close>

definition allowed_new :: "b_mut \<Rightarrow> string list" where
  "allowed_new m = sort (map fst (filter (\<lambda>(p, r). dget r ''old_sha256'' = PStr ''(absent-in-image)'') (bm_replaced m)))"

definition absent_check :: "b_mut \<Rightarrow> rows \<Rightarrow> string \<Rightarrow> violation list option" where
  "absent_check m act p =
     (case (map_of act p, map_of (bm_replaced m) p) of
        (Some a, Some recd) \<Rightarrow> map_option (\<lambda>bad. if bad then [Absent_mismatch p] else []) (content_differs recd a)
      | _ \<Rightarrow> Some [Absent_missing p])"

definition extra_paths :: "rows \<Rightarrow> b_mut \<Rightarrow> rows \<Rightarrow> string list" where
  "extra_paths st m act = filter (\<lambda>p. p \<notin> set (map fst st @ map fst (bm_added m) @ allowed_new m)) (map fst act)"

definition b_violations :: "rows \<Rightarrow> b_mut \<Rightarrow> rows \<Rightarrow> violation list option" where
  "b_violations st m act =
     (case (those (map (stock_check m act) st), those (map (absent_check m act) (allowed_new m))) of
        (Some vs, Some ws) \<Rightarrow> Some
          (concat vs @ concat (map (added_check act) (bm_added m)) @ hook_check m act @ concat ws
           @ (if extra_paths st m act = [] then [] else [Unexpected_paths (sort (extra_paths st m act))]))
      | _ \<Rightarrow> None)"

definition verify_b :: "pyval \<Rightarrow> pyval \<Rightarrow> pyval \<Rightarrow> violation list option" where
  "verify_b stock mut actual =
     (case (load_rows stock, load_rows actual, load_b_mut mut) of
        (Some st, Some act, Some m) \<Rightarrow> b_violations st m act
      | _ \<Rightarrow> None)"

fun verify_b_exit :: "violation list option \<Rightarrow> nat" where
  "verify_b_exit (Some []) = 0"
| "verify_b_exit _ = 1"

subsection \<open>What the verdict means\<close>

definition agree :: "string list \<Rightarrow> pydict \<Rightarrow> pydict \<Rightarrow> bool" where
  "agree ks s a \<longleftrightarrow> list_all (\<lambda>k. py_eq (dget s k) (dget a k)) ks"

definition as_recorded :: "pydict \<Rightarrow> pydict \<Rightarrow> bool" where
  "as_recorded recd a \<longleftrightarrow> has_key recd ''new_sha256'' \<and> has_key recd ''new_size''
     \<and> py_eq (dget a ''sha256'') (dget recd ''new_sha256'') \<and> py_eq (dget a ''size'') (dget recd ''new_size'')"

text \<open>The row \<open>a\<close> of the path \<open>p\<close> in the rebuilt image is the one that stock and mutation prescribe.\<close>

definition prescribed :: "rows \<Rightarrow> b_mut \<Rightarrow> string \<Rightarrow> pydict \<Rightarrow> bool" where
  "prescribed st m p a \<longleftrightarrow>
     (case map_of st p of
        None \<Rightarrow> True
      | Some s \<Rightarrow> is_hook m p
          \<or> (case map_of (bm_replaced m) p of
               Some recd \<Rightarrow> as_recorded recd a \<and> agree DIR_KEYS s a
             | None \<Rightarrow> agree (if dget s ''type'' = PStr ''dir'' then DIR_KEYS else B_KEYS) s a))
     \<and> (case map_of (bm_added m) p of
          None \<Rightarrow> True
        | Some e \<Rightarrow> agree (if dget e ''type'' = PStr ''dir'' then DIR_KEYS else filter (has_key e) ADDED_KEYS) a e)
     \<and> (case map_of (bm_replaced m) p of
          None \<Rightarrow> True
        | Some recd \<Rightarrow> p \<in> set (allowed_new m) \<longrightarrow> as_recorded recd a)
     \<and> (case bm_hook m of None \<Rightarrow> True | Some (h, sha) \<Rightarrow> p = h \<longrightarrow> py_eq (dget a ''sha256'') sha)"

definition image_ok :: "rows \<Rightarrow> b_mut \<Rightarrow> rows \<Rightarrow> bool" where
  "image_ok st m act \<longleftrightarrow>
     set (map fst act) = set (map fst st) \<union> set (map fst (bm_added m)) \<union> set (allowed_new m)
     \<and> (case bm_hook m of None \<Rightarrow> True | Some (h, _) \<Rightarrow> h \<in> set (map fst act))
     \<and> list_all (\<lambda>(p, a). prescribed st m p a) act"

lemma those_Nil: "(\<exists>vs. those (map f xs) = Some vs \<and> concat vs = []) \<longleftrightarrow> list_all (\<lambda>x. f x = Some []) xs"
  by (induction xs) (auto split: option.splits)

lemma those_Some_Nil: "list_all (\<lambda>x. f x = Some []) xs \<Longrightarrow> \<exists>vs. those (map f xs) = Some vs \<and> concat vs = []"
  using those_Nil by blast

lemma no_violations:
  "b_violations st m act = Some [] \<longleftrightarrow>
     list_all (\<lambda>x. stock_check m act x = Some []) st \<and> list_all (\<lambda>p. absent_check m act p = Some []) (allowed_new m)
     \<and> list_all (\<lambda>x. added_check act x = []) (bm_added m) \<and> hook_check m act = [] \<and> extra_paths st m act = []"
  unfolding those_Nil [symmetric] by (auto simp: b_violations_def list_all_iff split: option.splits if_splits)

lemma differing_Nil: "differing ks s a = [] \<longleftrightarrow> agree ks s a"
  by (auto simp: differing_def agree_def filter_empty_conv list_all_iff)

lemma same_content: "content_differs recd a = Some False \<longleftrightarrow> as_recorded recd a"
  by (auto simp: content_differs_def as_recorded_def)

lemma replaced_check_Nil:
  "replaced_check p s recd act = Some [] \<longleftrightarrow> (\<exists>a. act = Some a \<and> as_recorded recd a \<and> agree DIR_KEYS s a)"
  by (auto simp: replaced_check_def same_content [symmetric] differing_Nil [symmetric] split: option.splits if_splits)

lemma stock_check_Nil:
  "stock_check m act (p, s) = Some [] \<longleftrightarrow> is_hook m p
     \<or> (\<exists>a. map_of act p = Some a
         \<and> (case map_of (bm_replaced m) p of
              Some recd \<Rightarrow> as_recorded recd a \<and> agree DIR_KEYS s a
            | None \<Rightarrow> agree (if dget s ''type'' = PStr ''dir'' then DIR_KEYS else B_KEYS) s a))"
  by (auto simp: stock_check_def replaced_check_Nil differing_Nil split: option.splits)

lemma added_check_Nil:
  "added_check act (p, e) = [] \<longleftrightarrow>
     (\<exists>a. map_of act p = Some a \<and> agree (if dget e ''type'' = PStr ''dir'' then DIR_KEYS else filter (has_key e) ADDED_KEYS) a e)"
  by (auto simp: added_check_def differing_Nil split: option.splits)

lemma hook_check_Nil:
  "hook_check m act = [] \<longleftrightarrow>
     (case bm_hook m of None \<Rightarrow> True | Some (h, sha) \<Rightarrow> \<exists>a. map_of act h = Some a \<and> py_eq (dget a ''sha256'') sha)"
  by (auto simp: hook_check_def split: option.splits)

lemma allowed_recorded: "p \<in> set (allowed_new m) \<Longrightarrow> \<exists>recd. map_of (bm_replaced m) p = Some recd"
  by (force simp: allowed_new_def map_of_eq_None_iff image_iff dest: weak_map_of_SomeI split: prod.splits)

lemma absent_check_Nil:
  "p \<in> set (allowed_new m) \<Longrightarrow> absent_check m act p = Some [] \<longleftrightarrow>
     (\<exists>a recd. map_of act p = Some a \<and> map_of (bm_replaced m) p = Some recd \<and> as_recorded recd a)"
  using allowed_recorded [of p m] by (auto simp: absent_check_def same_content [symmetric] split: option.splits if_splits)

lemma update_rows_distinct: "distinct (map fst d) \<Longrightarrow> distinct (map fst (foldl (\<lambda>d (p, r). AList.update p r d) d xs))"
  by (induction xs arbitrary: d) (auto simp: distinct_update)

lemma index_rows_distinct: "index_rows vs = Some d \<Longrightarrow> distinct (map fst d)"
  using update_rows_distinct [of "[]"] by (auto simp: index_rows_def)

lemma load_rows_distinct: "load_rows doc = Some d \<Longrightarrow> distinct (map fst d)"
  using index_rows_distinct by (auto simp: load_rows_def split: pyval.splits)

lemma load_b_mut_distinct: "load_b_mut doc = Some m \<Longrightarrow> distinct (map fst (bm_added m))"
  using index_rows_distinct by (auto simp: load_b_mut_def split: pyval.splits option.splits if_splits)

lemma list_all_rows: "distinct (map fst xs) \<Longrightarrow> list_all (\<lambda>(p, x). P p x) xs \<longleftrightarrow> (\<forall>p x. map_of xs p = Some x \<longrightarrow> P p x)"
  by (auto simp: list_all_iff)

lemma keys_map_of: "p \<in> set (map fst xs) \<longleftrightarrow> (\<exists>x. map_of xs p = Some x)"
  by (metis map_of_eq_None_iff not_None_eq set_map)

lemma extra_Nil: "extra_paths st m act = [] \<longleftrightarrow>
    (\<forall>p a. map_of act p = Some a \<longrightarrow> p \<in> set (map fst st) \<union> set (map fst (bm_added m)) \<union> set (allowed_new m))"
proof -
  have "extra_paths st m act = [] \<longleftrightarrow>
      (\<forall>p. p \<in> set (map fst act) \<longrightarrow> p \<in> set (map fst st) \<union> set (map fst (bm_added m)) \<union> set (allowed_new m))"
    unfolding extra_paths_def filter_empty_conv by auto
  then show ?thesis unfolding keys_map_of by blast
qed

lemma b_violations_iff:
  assumes "distinct (map fst st)" "distinct (map fst act)" "distinct (map fst (bm_added m))"
  shows "b_violations st m act = Some [] \<longleftrightarrow> image_ok st m act"
proof -
  let ?A = "\<forall>p s. map_of st p = Some s \<longrightarrow> stock_check m act (p, s) = Some []"
  let ?B = "\<forall>p \<in> set (allowed_new m). absent_check m act p = Some []"
  let ?C = "\<forall>p e. map_of (bm_added m) p = Some e \<longrightarrow> added_check act (p, e) = []"
  have all: "list_all (\<lambda>x. stock_check m act x = Some []) st \<longleftrightarrow> ?A" "list_all (\<lambda>x. added_check act x = []) (bm_added m) \<longleftrightarrow> ?C"
    using list_all_rows [OF assms(1), of "\<lambda>p s. stock_check m act (p, s) = Some []"] list_all_rows [OF assms(3), of "\<lambda>p e. added_check act (p, e) = []"]
    by (simp_all add: case_prod_beta')
  have chk: "b_violations st m act = Some [] \<longleftrightarrow> ?A \<and> ?B \<and> ?C \<and> hook_check m act = [] \<and> extra_paths st m act = []"
    unfolding no_violations all by (auto simp: list_all_iff)
  have ok: "image_ok st m act \<longleftrightarrow>
      (\<forall>p. (\<exists>a. map_of act p = Some a) \<longleftrightarrow> (\<exists>s. map_of st p = Some s) \<or> (\<exists>e. map_of (bm_added m) p = Some e) \<or> p \<in> set (allowed_new m))
      \<and> (case bm_hook m of None \<Rightarrow> True | Some (h, _) \<Rightarrow> \<exists>a. map_of act h = Some a) \<and> (\<forall>p a. map_of act p = Some a \<longrightarrow> prescribed st m p a)"
    unfolding image_ok_def list_all_rows [OF assms(2)] set_eq_iff Un_iff keys_map_of by blast
  show ?thesis
  proof
    assume v: "b_violations st m act = Some []"
    then have v: ?A ?B ?C "hook_check m act = []" "extra_paths st m act = []" by (simp_all add: chk)
    have d: "\<exists>a. map_of act p = Some a" if "map_of st p = Some s" for p s
    proof -
      have "stock_check m act (p, s) = Some []" using v(1) that by blast
      then consider "is_hook m p" | a where "map_of act p = Some a" unfolding stock_check_Nil by blast
      then show ?thesis using v(4) by cases (auto simp: hook_check_Nil is_hook_def split: option.splits)
    qed
    have "\<exists>a. map_of act p = Some a" if "p \<in> set (allowed_new m)" for p using v(2) that absent_check_Nil [OF that] by blast
    moreover have "\<exists>a. map_of act p = Some a" if "map_of (bm_added m) p = Some e" for p e using v(3) that by (auto simp: added_check_Nil)
    moreover have "prescribed st m p a" if a: "map_of act p = Some a" for p a
      unfolding prescribed_def
    proof (intro conjI)
      show "case map_of st p of None \<Rightarrow> True
        | Some s \<Rightarrow> is_hook m p \<or> (case map_of (bm_replaced m) p of Some recd \<Rightarrow> as_recorded recd a \<and> agree DIR_KEYS s a
             | None \<Rightarrow> agree (if dget s ''type'' = PStr ''dir'' then DIR_KEYS else B_KEYS) s a)"
      proof (cases "map_of st p")
        case (Some s)
        then have "stock_check m act (p, s) = Some []" using v(1) by blast
        then show ?thesis using Some by (simp add: stock_check_Nil a)
      qed simp
      show "case map_of (bm_added m) p of None \<Rightarrow> True
        | Some e \<Rightarrow> agree (if dget e ''type'' = PStr ''dir'' then DIR_KEYS else filter (has_key e) ADDED_KEYS) a e"
      proof (cases "map_of (bm_added m) p")
        case (Some e)
        then have "added_check act (p, e) = []" using v(3) by blast
        then show ?thesis using Some by (simp add: added_check_Nil a)
      qed simp
      show "case map_of (bm_replaced m) p of None \<Rightarrow> True | Some recd \<Rightarrow> p \<in> set (allowed_new m) \<longrightarrow> as_recorded recd a"
        using v(2) a absent_check_Nil [of p m act] by (auto split: option.split)
      show "case bm_hook m of None \<Rightarrow> True | Some (h, sha) \<Rightarrow> p = h \<longrightarrow> py_eq (dget a ''sha256'') sha"
        using v(4) a by (auto simp: hook_check_Nil split: option.splits)
    qed
    moreover have "map_of act p = Some a \<Longrightarrow> (\<exists>s. map_of st p = Some s) \<or> (\<exists>e. map_of (bm_added m) p = Some e) \<or> p \<in> set (allowed_new m)" for p a
      using v(5) unfolding extra_Nil Un_iff keys_map_of by blast
    moreover have "case bm_hook m of None \<Rightarrow> True | Some (h, _) \<Rightarrow> \<exists>a. map_of act h = Some a"
      using v(4) by (auto simp: hook_check_Nil split: option.splits)
    ultimately show "image_ok st m act" unfolding ok using d by blast
  next
    assume i: "image_ok st m act"
    have p: "prescribed st m p a" if "map_of act p = Some a" for p a using i that unfolding ok by blast
    have ?A
    proof (intro allI impI)
      fix p s assume s: "map_of st p = Some s"
      then obtain a where a: "map_of act p = Some a" using i unfolding ok by blast
      show "stock_check m act (p, s) = Some []" using p [OF a] s a by (auto simp: prescribed_def stock_check_Nil)
    qed
    moreover have ?B
    proof
      fix p assume n: "p \<in> set (allowed_new m)"
      then obtain a where a: "map_of act p = Some a" using i unfolding ok by blast
      show "absent_check m act p = Some []" using p [OF a] n a allowed_recorded [OF n] by (auto simp: prescribed_def absent_check_Nil)
    qed
    moreover have ?C
    proof (intro allI impI)
      fix p e assume e: "map_of (bm_added m) p = Some e"
      then obtain a where a: "map_of act p = Some a" using i unfolding ok by blast
      show "added_check act (p, e) = []" using p [OF a] e a by (auto simp: prescribed_def added_check_Nil)
    qed
    moreover have "hook_check m act = []"
    proof (cases "bm_hook m")
      case (Some hs)
      obtain h sha where hs: "hs = (h, sha)" by (cases hs)
      have "case bm_hook m of None \<Rightarrow> True | Some (h, _) \<Rightarrow> \<exists>a. map_of act h = Some a" using i unfolding ok by blast
      then obtain a where a: "map_of act h = Some a" by (auto simp: Some hs)
      then show ?thesis using p [OF a] by (simp add: hook_check_Nil prescribed_def Some hs)
    qed (simp add: hook_check_Nil)
    moreover have "extra_paths st m act = []" using i unfolding ok extra_Nil Un_iff keys_map_of by blast
    ultimately show "b_violations st m act = Some []" by (simp only: chk)
  qed
qed

lemma verify_b_iff:
  "verify_b stock mut actual = Some [] \<longleftrightarrow>
     (\<exists>st act m. load_rows stock = Some st \<and> load_rows actual = Some act \<and> load_b_mut mut = Some m \<and> image_ok st m act)"
  using b_violations_iff load_rows_distinct load_b_mut_distinct by (auto simp: verify_b_def split: option.splits)

text \<open>C32. The verdict is OK (exit code 0) exactly when the three documents are readable, the rebuilt image has exactly the paths of the
  stock image, the added ones and the recorded new ones, contains the hook, and each of its rows is the prescribed one: the hook has the
  recorded hash, a replaced file the recorded hash and size and its old metadata, an added path the recorded row, and any other
  path its stock row.\<close>

theorem verify_b_ok_iff:
  "verify_b stock mut actual = Some [] \<longleftrightarrow>
     (\<exists>st act m. load_rows stock = Some st \<and> load_rows actual = Some act \<and> load_b_mut mut = Some m \<and> image_ok st m act)"
  by (rule verify_b_iff)

end
