(* ===== verification/Oneed.thy ===== *)
theory Oneed
  imports VerifyB
begin

text \<open>
  \<open>tools/fw/mutate_oneed.py\<close>: the replacement of sounds in an extracted oneed tree (the tree of \<open>Mutate\<close>). The manifests are values of
  \<open>json.loads\<close> (\<open>None\<close>: unreadable), \<open>oe_local\<close> gives the bytes of a local file; SHA-256 is a parameter. The result is the tree with
  the mutation manifest or an error; a run may fail after its writes.

  Shown: a refused run leaves the tree as it was, unless the report exists already; and the image rebuilt from a
  mutated tree passes \<open>verify_b_manifest.py\<close>.
\<close>

record oneed_env =
  oe_root_linked :: bool
  oe_root_dir :: bool
  oe_stock :: "pyval option"
  oe_specs :: "pyval option"
  oe_local :: "string \<Rightarrow> bytes option"
  oe_count :: "int option"
  oe_report_exists :: bool

record swap =
  sw_path :: string
  sw_mode :: nat
  sw_old :: bytes
  sw_new :: bytes

definition oneed_path_ok :: "string \<Rightarrow> bool" where
  "oneed_path_ok p \<longleftrightarrow> prefix ''/audio/'' p \<and> suffix ''.wav'' p \<and> ''..'' \<notin> set (split_on (CHR ''/'') p) \<and> CHR 0x5C \<notin> set p
     \<and> count_list p (CHR ''/'') = 2"

definition oneed_target :: "string \<Rightarrow> string list" where
  "oneed_target p = split_on (CHR ''/'') (dropWhile (\<lambda>c. c = CHR ''/'') p)"

text \<open>The checks of one entry whose path is well formed: the stock row, the file in the tree, the new sound.\<close>

definition check_swap :: "(bytes \<Rightarrow> string) \<Rightarrow> oneed_env \<Rightarrow> stock_map \<Rightarrow> tree \<Rightarrow> string \<Rightarrow> string \<Rightarrow> string + swap" where
  "check_swap sha env st t p src =
     (case stock_get st p of
        None \<Rightarrow> Inl ''not a stock regular file''
      | Some row \<Rightarrow>
          if dget row ''type'' \<noteq> PStr ''reg'' then Inl ''not a stock regular file''
          else if linked_at (oe_root_linked env) t (oneed_target p) then Inl ''tree target missing/nonregular''
          else (case (node_file (tget t (oneed_target p)), oe_local env src) of
              (None, _) \<Rightarrow> Inl ''tree target missing/nonregular''
            | (_, None) \<Rightarrow> Inl ''cannot read audio input''
            | (Some (mode, old), Some wav) \<Rightarrow>
                (case check_wav wav of
                   Some e \<Rightarrow> Inl e
                 | None \<Rightarrow>
                     if dget row ''sha256'' \<noteq> PStr (sha old) \<or> \<not> py_eq (PInt (int (length old))) (dget row ''size'')
                     then Inl ''tree != stock manifest''
                     else if wav = old then Inl ''replacement identical to current bytes''
                     else Inr \<lparr>sw_path = p, sw_mode = mode, sw_old = old, sw_new = wav\<rparr>)))"

definition check_entry :: "(bytes \<Rightarrow> string) \<Rightarrow> oneed_env \<Rightarrow> stock_map \<Rightarrow> tree \<Rightarrow> string list \<Rightarrow> pyval \<Rightarrow> string + swap" where
  "check_entry sha env st t seen v =
     (case v of
        PDict d \<Rightarrow>
          if set (map fst d) \<noteq> {PStr ''path'', PStr ''file''} then Inl ''each spec must be exactly {path, file}''
          else if \<not> is_str (dget d ''file'') then Inl ''TypeError''
          else if \<not> is_str (dget d ''path'') \<or> \<not> oneed_path_ok (the_str (dget d ''path'')) then Inl ''invalid oneed audio target path''
          else if the_str (dget d ''path'') \<in> set seen then Inl ''duplicate audio target''
          else check_swap sha env st t (the_str (dget d ''path'')) (the_str (dget d ''file''))
      | _ \<Rightarrow> Inl ''each spec must be exactly {path, file}'')"

fun check_entries :: "(bytes \<Rightarrow> string) \<Rightarrow> oneed_env \<Rightarrow> stock_map \<Rightarrow> tree \<Rightarrow> pyval list \<Rightarrow> swap list \<Rightarrow> string + swap list" where
  "check_entries sha env st t [] acc = Inr acc"
| "check_entries sha env st t (v # vs) acc =
     (case check_entry sha env st t (map sw_path acc) v of
        Inl e \<Rightarrow> Inl e
      | Inr s \<Rightarrow> check_entries sha env st t vs (acc @ [s]))"

definition plan_oneed :: "(bytes \<Rightarrow> string) \<Rightarrow> oneed_env \<Rightarrow> tree \<Rightarrow> string + swap list" where
  "plan_oneed sha env t =
     (if oe_root_linked env \<or> \<not> oe_root_dir env then Inl ''tree must be a nonsymlink directory''
      else (case (stock_map (oe_stock env), oe_specs env) of
          (None, _) \<Rightarrow> Inl ''bad stock manifest''
        | (_, None) \<Rightarrow> Inl ''bad audio replacements JSON''
        | (Some st, Some (PList (v # vs))) \<Rightarrow>
            if oe_count env \<noteq> None \<and> oe_count env \<noteq> Some (int (length (v # vs))) then Inl ''unexpected number of replacements''
            else check_entries sha env st t (v # vs) []
        | _ \<Rightarrow> Inl ''audio replacements must be a non-empty list''))"

definition swap_row :: "(bytes \<Rightarrow> string) \<Rightarrow> swap \<Rightarrow> pyval \<times> pyval" where
  "swap_row sha s =
     (PStr (sw_path s), PDict [(PStr ''old_sha256'', PStr (sha (sw_old s))), (PStr ''old_size'', PInt (int (length (sw_old s)))),
        (PStr ''new_sha256'', PStr (sha (sw_new s))), (PStr ''new_size'', PInt (int (length (sw_new s))))])"

definition oneed_doc :: "(bytes \<Rightarrow> string) \<Rightarrow> swap list \<Rightarrow> pydict" where
  "oneed_doc sha ss =
     [(PStr ''kind'', PStr ''oneed''), (PStr ''added'', PList []), (PStr ''modified'', PList []), (PStr ''replaced'', PDict (map (swap_row sha) ss))]"

definition write_swap :: "tree \<Rightarrow> swap \<Rightarrow> tree" where
  "write_swap t s = tput (oneed_target (sw_path s)) (TFile (sw_mode s) (sw_new s)) t"

definition mutate_oneed :: "(bytes \<Rightarrow> string) \<Rightarrow> oneed_env \<Rightarrow> tree \<Rightarrow> tree \<times> (string + pydict)" where
  "mutate_oneed sha env t =
     (case plan_oneed sha env t of
        Inl e \<Rightarrow> (t, Inl e)
      | Inr ss \<Rightarrow>
          (foldl write_swap t ss,
           if oe_report_exists env then Inl ''out-manifest already exists (never overwrite)'' else Inr (oneed_doc sha ss)))"

subsection \<open>The planned swaps\<close>

definition swap_ok :: "(bytes \<Rightarrow> string) \<Rightarrow> stock_map \<Rightarrow> tree \<Rightarrow> swap \<Rightarrow> bool" where
  "swap_ok sha st t s \<longleftrightarrow>
     oneed_path_ok (sw_path s) \<and> tget t (oneed_target (sw_path s)) = Some (TFile (sw_mode s) (sw_old s)) \<and> sw_new s \<noteq> sw_old s
     \<and> check_wav (sw_new s) = None
     \<and> (\<exists>row. stock_get st (sw_path s) = Some row \<and> dget row ''type'' = PStr ''reg'' \<and> dget row ''sha256'' = PStr (sha (sw_old s)))"

lemma node_file_Some: "node_file n = Some (m, d) \<longleftrightarrow> n = Some (TFile m d)"
  by (cases n rule: node_file.cases) auto

lemma check_entry_Inr:
  assumes "check_entry sha env st t seen v = Inr s"
  shows "swap_ok sha st t s \<and> sw_path s \<notin> set seen"
proof -
  obtain d where d: "v = PDict d" using assms by (cases v) (auto simp: check_entry_def)
  let ?p = "the_str (dget d ''path'')"
  have c: "oneed_path_ok ?p" "?p \<notin> set seen" "check_swap sha env st t ?p (the_str (dget d ''file'')) = Inr s"
    using assms by (auto simp: check_entry_def d split: if_splits)
  from c(3) show ?thesis using c(1,2)
    by (auto simp: check_swap_def swap_ok_def node_file_Some split: option.splits if_splits prod.splits)
qed

lemma check_entries_Inr:
  "check_entries sha env st t vs acc = Inr ss \<Longrightarrow> list_all (swap_ok sha st t) acc \<Longrightarrow> distinct (map sw_path acc) \<Longrightarrow>
   list_all (swap_ok sha st t) ss \<and> distinct (map sw_path ss) \<and> length ss = length acc + length vs"
proof (induction vs arbitrary: acc)
  case (Cons v vs)
  obtain s where s: "check_entry sha env st t (map sw_path acc) v = Inr s" using Cons.prems(1) by (auto split: sum.splits)
  show ?case using Cons.IH [of "acc @ [s]"] Cons.prems check_entry_Inr [OF s] by (simp add: s)
qed simp

lemma plan_oneed_Inr:
  assumes "plan_oneed sha env t = Inr ss"
  obtains st where "stock_map (oe_stock env) = Some st" "list_all (swap_ok sha st t) ss" "distinct (map sw_path ss)" "ss \<noteq> []"
proof -
  obtain st v vs where p: "stock_map (oe_stock env) = Some st" "check_entries sha env st t (v # vs) [] = Inr ss"
    using assms by (auto simp: plan_oneed_def simp del: check_entries.simps split: if_splits option.splits pyval.splits list.splits)
  show thesis using that [OF p(1)] check_entries_Inr [OF p(2)] by fastforce
qed

lemma oneed_parts: "oneed_path_ok p \<Longrightarrow> oneed_target p = rel_parts p"
  by (auto simp: oneed_target_def rel_parts_def oneed_path_ok_def)

lemma oneed_target_inj:
  assumes "oneed_path_ok p" "oneed_path_ok q" "oneed_target p = oneed_target q"
  shows "p = q"
proof -
  obtain a b where a: "p = ''/audio/'' @ a" and b: "q = ''/audio/'' @ b" using assms(1,2) by (auto simp: oneed_path_ok_def prefix_def)
  have "unsplit (CHR ''/'') (oneed_target p) = unsplit (CHR ''/'') (oneed_target q)" using assms(3) by simp
  then show ?thesis unfolding oneed_target_def unsplit_split_on by (simp add: a b)
qed

lemma oneed_targets_distinct:
  "list_all (\<lambda>s. oneed_path_ok (sw_path s)) ss \<Longrightarrow> distinct (map sw_path ss) \<Longrightarrow> distinct (map (oneed_target \<circ> sw_path) ss)"
  using oneed_target_inj by (induction ss) (auto simp: list_all_iff)

subsection \<open>The written tree\<close>

lemma tget_write_swap:
  "tget (write_swap t s) ps = (if ps = oneed_target (sw_path s) then Some (TFile (sw_mode s) (sw_new s)) else tget t ps)"
  by (simp add: write_swap_def tget_tput)

lemma swaps_frame: "ps \<notin> set (map (oneed_target \<circ> sw_path) ss) \<Longrightarrow> tget (foldl write_swap t ss) ps = tget t ps"
  by (induction ss arbitrary: t) (auto simp: tget_write_swap)

lemma swaps_written:
  "distinct (map (oneed_target \<circ> sw_path) ss) \<Longrightarrow> s \<in> set ss \<Longrightarrow>
   tget (foldl write_swap t ss) (oneed_target (sw_path s)) = Some (TFile (sw_mode s) (sw_new s))"
proof (induction ss arbitrary: t)
  case (Cons x ss)
  then show ?case using swaps_frame [of "oneed_target (sw_path x)" ss "write_swap t x"]
    by (auto simp: tget_write_swap)
qed simp


subsection \<open>The rebuilt image\<close>

text \<open>The row of a path read again from a tree: hash and size are those of the file now there.\<close>

definition reread :: "(bytes \<Rightarrow> string) \<Rightarrow> tree \<Rightarrow> string \<Rightarrow> pydict \<Rightarrow> pydict" where
  "reread sha t p r =
     (case node_file (tget t (rel_parts p)) of
        None \<Rightarrow> r
      | Some (m, d) \<Rightarrow> AList.update (PStr ''size'') (PInt (int (length d))) (AList.update (PStr ''sha256'') (PStr (sha d)) r))"

lemma reread_other: "k \<noteq> ''size'' \<Longrightarrow> k \<noteq> ''sha256'' \<Longrightarrow> dget (reread sha t p r) k = dget r k"
  by (simp add: reread_def dget_def update_conv' split: option.split)

lemma reread_file:
  assumes "tget t (rel_parts p) = Some (TFile m d)"
  shows "dget (reread sha t p r) ''size'' = PInt (int (length d))" "dget (reread sha t p r) ''sha256'' = PStr (sha d)"
  by (simp_all add: reread_def assms dget_def update_conv')

text \<open>The row describes the file of the tree.\<close>

definition described :: "(bytes \<Rightarrow> string) \<Rightarrow> tree \<Rightarrow> string \<Rightarrow> pydict \<Rightarrow> bool" where
  "described sha t p r \<longleftrightarrow> agree B_KEYS r (reread sha t p r)"

lemma described_dir_keys: "described sha t p r \<Longrightarrow> agree DIR_KEYS r (reread sha t' p r)"
  by (simp add: described_def agree_def B_KEYS_def DIR_KEYS_def reread_other)

lemma described_any_keys: "described sha t p r \<Longrightarrow> agree (if c then DIR_KEYS else B_KEYS) r (reread sha t p r)"
  using described_dir_keys by (simp add: described_def)

lemma update_rows_map: "map_of (foldl (\<lambda>d (p, r). AList.update p r d) acc xs) p = (case map_of (rev xs) p of Some r \<Rightarrow> Some r | None \<Rightarrow> map_of acc p)"
  by (induction xs arbitrary: acc) (auto simp: update_conv' map_add_Some_iff split: option.split)

lemma path_row_stock: "path_row v = Some (p, r) \<Longrightarrow> stock_row v = Some (PStr p, r)"
  by (auto simp: path_row_def stock_row_def has_key_def dget_def map_of_eq_None_iff [symmetric] split: pyval.splits option.splits if_splits)

lemma those_path_rows: "those (map path_row vs) = Some xs \<Longrightarrow> those (map stock_row vs) = Some (map (\<lambda>(p, r). (PStr p, r)) xs)"
proof (induction vs arbitrary: xs)
  case (Cons v vs)
  then obtain p r ys where "path_row v = Some (p, r)" "those (map path_row vs) = Some ys" "xs = (p, r) # ys"
    by (auto split: option.splits)
  then show ?case using Cons.IH by (simp add: path_row_stock)
qed simp

lemma stock_rows_agree: "load_rows doc = Some st \<Longrightarrow> stock_map (Some doc) = Some sm \<Longrightarrow> stock_get sm p = map_of st p"
proof -
  assume l: "load_rows doc = Some st" and m: "stock_map (Some doc) = Some sm"
  obtain d vs where d: "doc = PDict d" "dget d ''entries'' = PList vs" and i: "index_rows vs = Some st"
    using l by (auto simp: load_rows_def split: pyval.splits)
  obtain xs where x: "those (map path_row vs) = Some xs" "st = foldl (\<lambda>d (p, r). AList.update p r d) [] xs"
    using i by (auto simp: index_rows_def)
  have "sm = map (\<lambda>(p, r). (PStr p, r)) xs" using m those_path_rows [OF x(1)] by (simp add: stock_map_def d)
  moreover have "map_of (map (\<lambda>(p, r). (PStr p, r)) ys) (PStr p) = map_of ys p" for ys :: rows by (induction ys) auto
  ultimately have "stock_get sm p = map_of (rev xs) p" by (simp add: stock_get_def rev_map)
  then show ?thesis by (simp add: x(2) update_rows_map split: option.split)
qed

lemma oneed_doc_loaded:
  "load_b_mut (PDict (oneed_doc sha ss)) = Some \<lparr>bm_hook = None, bm_added = [],
     bm_replaced = map (\<lambda>s. (sw_path s, case snd (swap_row sha s) of PDict d \<Rightarrow> d | _ \<Rightarrow> [])) ss\<rparr>"
proof -
  have "those (map replaced_entry (map (swap_row sha) ss)) = Some (map (\<lambda>s. (sw_path s, case snd (swap_row sha s) of PDict d \<Rightarrow> d | _ \<Rightarrow> [])) ss)"
    by (induction ss) (simp_all add: swap_row_def)
  then show ?thesis by (simp add: load_b_mut_def oneed_doc_def get_or_def has_key_def dget_def index_rows_def)
qed

text \<open>C34. The chain of tools closes: if the stock manifest describes the tree and the rebuilt image has the stock rows with hash and
  size read again from the mutated tree, then the manifest of that image passes the verification against the mutation manifest.\<close>

theorem oneed_verified:
  assumes run: "mutate_oneed sha env t = (t', Inr doc)" and sha: "\<And>d. length (sha d) = 64"
    and stock: "oe_stock env = Some stock" "load_rows stock = Some st" "list_all (\<lambda>(p, r). valid_path p \<and> described sha t p r) st"
    and image: "load_rows actual = Some act" "\<And>p. map_of act p = map_option (reread sha t' p) (map_of st p)"
  shows "verify_b stock (PDict doc) actual = Some []"
proof -
  obtain ss where plan: "plan_oneed sha env t = Inr ss" and t': "t' = foldl write_swap t ss" and doc: "doc = oneed_doc sha ss"
    using run by (auto simp: mutate_oneed_def split: sum.splits if_splits)
  obtain sm where p: "stock_map (oe_stock env) = Some sm" "list_all (swap_ok sha sm t) ss" "distinct (map sw_path ss)"
    using plan by (rule plan_oneed_Inr)
  have get: "stock_get sm q = map_of st q" for q using stock_rows_agree [OF stock(2)] p(1) stock(1) by simp
  have rows: "valid_path q \<and> described sha t q r" if "map_of st q = Some r" for q r
    using stock(3) map_of_SomeD [OF that] by (auto simp: list_all_iff)
  have sw: "oneed_path_ok (sw_path s) \<and> valid_path (sw_path s)" if "s \<in> set ss" for s
    using p(2) that rows by (auto simp: list_all_iff swap_ok_def get)
  let ?row = "\<lambda>s. case snd (swap_row sha s) of PDict d \<Rightarrow> d | _ \<Rightarrow> []"
  obtain m where m: "load_b_mut (PDict doc) = Some m" "bm_hook m = None" "bm_added m = []" "bm_replaced m = map (\<lambda>s. (sw_path s, ?row s)) ss"
    using that [OF oneed_doc_loaded [of sha ss, folded doc]] by simp
  have "dget (?row s) ''old_sha256'' \<noteq> PStr ''(absent-in-image)''" for s
    using sha [of "sw_old s"] by (auto simp: swap_row_def dget_def)
  then have new: "allowed_new m = []" by (simp add: allowed_new_def m(4) filter_empty_conv)
  have written: "tget t' (rel_parts (sw_path s)) = Some (TFile (sw_mode s) (sw_new s))" if "s \<in> set ss" for s
    using swaps_written [OF oneed_targets_distinct [OF _ p(3)] that, of t] sw that by (simp add: t' list_all_iff oneed_parts)
  have rest: "tget t' (rel_parts q) = tget t (rel_parts q)" if "q \<notin> set (map sw_path ss)" "valid_path q" for q
    unfolding t' using that sw rel_parts_inj [of q] by (intro swaps_frame) (auto simp: oneed_parts)
  have "prescribed st m q (reread sha t' q r)" if r: "map_of st q = Some r" for q r
  proof (cases "map_of (bm_replaced m) q")
    case None
    then have "q \<notin> set (map sw_path ss)" by (force simp: m(4) map_of_eq_None_iff)
    then have "reread sha t' q r = reread sha t q r" using rest rows [OF r] by (simp add: reread_def)
    then show ?thesis using None rows [OF r] described_any_keys by (simp add: prescribed_def r m(2,3) del: if_split)
  next
    case (Some recd)
    then obtain s where s: "s \<in> set ss" "q = sw_path s" "recd = ?row s" using map_of_SomeD [OF Some] by (auto simp: m(4))
    have "as_recorded recd (reread sha t' q r)"
      using reread_file [OF written [OF s(1)], of sha r] by (simp add: as_recorded_def s(2,3) swap_row_def has_key_def dget_def)
    then show ?thesis using Some described_dir_keys [OF conjunct2 [OF rows [OF r]], of t'] by (simp add: prescribed_def r m(2,3))
  qed
  then have "list_all (\<lambda>(q, a). prescribed st m q a) act"
    unfolding list_all_rows [OF load_rows_distinct [OF image(1)]] using image(2) by (auto simp: map_option_eq_Some)
  moreover have "set (map fst act) = set (map fst st)" unfolding set_eq_iff keys_map_of using image(2) by (simp add: map_option_eq_Some)
  ultimately have "image_ok st m act" by (simp only: image_ok_def m(2,3) new) simp
  then show ?thesis unfolding verify_b_iff using stock(2) image(1) m(1) by blast
qed

subsection \<open>A sample run\<close>

definition demo_sha64 :: "bytes \<Rightarrow> string" where "demo_sha64 d = replicate 64 (CHR ''0'')"

definition demo_oneed_rows :: "nat \<Rightarrow> pyval" where
  "demo_oneed_rows n = PDict [(PStr ''entries'', PList [PDict [(PStr ''path'', PStr ''/audio/a.wav''), (PStr ''type'', PStr ''reg''),
     (PStr ''mode'', PInt 420), (PStr ''size'', PInt (int n)), (PStr ''sha256'', PStr (replicate 64 (CHR ''0'')))]])]"

definition demo_oneed_tree :: tree where
  "demo_oneed_tree = [([''audio''], TDir 493), ([''audio'', ''a.wav''], TFile 420 [1])]"

definition demo_oneed :: "bool \<Rightarrow> oneed_env" where
  "demo_oneed there = \<lparr>oe_root_linked = False, oe_root_dir = True, oe_stock = Some (demo_oneed_rows 1),
     oe_specs = Some (PList [PDict [(PStr ''path'', PStr ''/audio/a.wav''), (PStr ''file'', PStr ''x.wav'')]]),
     oe_local = (\<lambda>_. Some demo_wav), oe_count = Some 1, oe_report_exists = there\<rparr>"

lemma demo_oneed_parts: "oneed_target ''/audio/a.wav'' = [''audio'', ''a.wav'']" "rel_parts ''/audio/a.wav'' = [''audio'', ''a.wav'']"
  by (simp_all add: oneed_target_def rel_parts_def)

lemma demo_oneed_planned:
  "plan_oneed demo_sha64 (demo_oneed there) demo_oneed_tree
     = Inr [\<lparr>sw_path = ''/audio/a.wav'', sw_mode = 420, sw_old = [1], sw_new = demo_wav\<rparr>]"
proof -
  let ?row = "[(PStr ''path'', PStr ''/audio/a.wav''), (PStr ''type'', PStr ''reg''), (PStr ''mode'', PInt 420), (PStr ''size'', PInt 1),
     (PStr ''sha256'', PStr (replicate 64 (CHR ''0'')))]"
  have st: "stock_map (oe_stock (demo_oneed there)) = Some [(PStr ''/audio/a.wav'', ?row)]"
    by (simp add: stock_map_def demo_oneed_def demo_oneed_rows_def stock_row_def dget_def has_key_def)
  have path: "oneed_path_ok ''/audio/a.wav''" by (simp add: oneed_path_ok_def suffix_eval)
  have tree: "\<not> linked_at False demo_oneed_tree [''audio'', ''a.wav'']" "node_file (tget demo_oneed_tree [''audio'', ''a.wav'']) = Some (420, [1])"
    by (simp_all add: linked_at_def upt_rec tget_def demo_oneed_tree_def)
  have get: "stock_get [(PStr ''/audio/a.wav'', ?row)] ''/audio/a.wav'' = Some ?row" by (simp add: stock_get_def)
  have fields: "dget ?row ''type'' = PStr ''reg''" "dget ?row ''sha256'' = PStr (demo_sha64 [1])" "dget ?row ''size'' = PInt 1"
    by (simp_all add: dget_def demo_sha64_def)
  have ne: "demo_wav \<noteq> [1]" by (simp add: demo_wav_def bytes_of_def)
  have env: "\<not> oe_root_linked (demo_oneed there)" "oe_root_dir (demo_oneed there)" "oe_local (demo_oneed there) f = Some demo_wav"
    "oe_count (demo_oneed there) = Some 1"
    "oe_specs (demo_oneed there) = Some (PList [PDict [(PStr ''path'', PStr ''/audio/a.wav''), (PStr ''file'', PStr ''x.wav'')]])" for f
    by (simp_all add: demo_oneed_def)
  have swap: "check_swap demo_sha64 (demo_oneed there) [(PStr ''/audio/a.wav'', ?row)] demo_oneed_tree ''/audio/a.wav'' ''x.wav''
      = Inr \<lparr>sw_path = ''/audio/a.wav'', sw_mode = 420, sw_old = [1], sw_new = demo_wav\<rparr>"
    unfolding check_swap_def get demo_oneed_parts using tree ne by (simp add: env fields demo_wav_ok)
  have "dget [(PStr ''path'', PStr ''/audio/a.wav''), (PStr ''file'', PStr ''x.wav'')] ''path'' = PStr ''/audio/a.wav''"
    "dget [(PStr ''path'', PStr ''/audio/a.wav''), (PStr ''file'', PStr ''x.wav'')] ''file'' = PStr ''x.wav''" by (simp_all add: dget_def)
  then have "check_entry demo_sha64 (demo_oneed there) [(PStr ''/audio/a.wav'', ?row)] demo_oneed_tree [] 
      (PDict [(PStr ''path'', PStr ''/audio/a.wav''), (PStr ''file'', PStr ''x.wav'')])
      = Inr \<lparr>sw_path = ''/audio/a.wav'', sw_mode = 420, sw_old = [1], sw_new = demo_wav\<rparr>"
    by (simp add: check_entry_def path swap)
  then show ?thesis unfolding plan_oneed_def st by (simp add: env)
qed


theorem oneed_verified_witness:
  "\<exists>t' doc. mutate_oneed demo_sha64 (demo_oneed False) demo_oneed_tree = (t', Inr doc)
     \<and> verify_b (demo_oneed_rows 1) (PDict doc) (demo_oneed_rows (length demo_wav)) = Some []"
proof -
  obtain t' doc where m: "mutate_oneed demo_sha64 (demo_oneed False) demo_oneed_tree = (t', Inr doc)" "tget t' [''audio'', ''a.wav''] = Some (TFile 420 demo_wav)"
    by (simp add: mutate_oneed_def demo_oneed_planned write_swap_def demo_oneed_parts tget_tput) (simp add: demo_oneed_def)
  let ?row = "\<lambda>n. [(PStr ''path'', PStr ''/audio/a.wav''), (PStr ''type'', PStr ''reg''), (PStr ''mode'', PInt 420), (PStr ''size'', PInt (int n)),
     (PStr ''sha256'', PStr (replicate 64 (CHR ''0'')))]"
  have l: "load_rows (demo_oneed_rows n) = Some [(''/audio/a.wav'', ?row n)]" for n
    by (simp add: load_rows_def demo_oneed_rows_def dget_def index_rows_def path_row_def)
  have r: "reread demo_sha64 t ''/audio/a.wav'' (?row n) = ?row (length d)" if "tget t [''audio'', ''a.wav''] = Some (TFile k d)" for t k n d
    using that by (simp add: reread_def demo_oneed_parts demo_sha64_def)
  have "tget demo_oneed_tree [''audio'', ''a.wav''] = Some (TFile 420 [1])" by (simp add: tget_def demo_oneed_tree_def)
  from r [OF this, of 1] have "list_all (\<lambda>(p, r). valid_path p \<and> described demo_sha64 demo_oneed_tree p r) [(''/audio/a.wav'', ?row 1)]"
    by (simp add: described_def agree_def B_KEYS_def dget_def valid_path_def path_error_def)
  moreover have "map_of [(''/audio/a.wav'', ?row (length demo_wav))] p = map_option (reread demo_sha64 t' p) (map_of [(''/audio/a.wav'', ?row 1)] p)" for p
    using r [OF m(2), of 1] by simp
  moreover have "oe_stock (demo_oneed False) = Some (demo_oneed_rows 1)" by (simp add: demo_oneed_def)
  ultimately have "verify_b (demo_oneed_rows 1) (PDict doc) (demo_oneed_rows (length demo_wav)) = Some []"
    by (intro oneed_verified [OF m(1) _ _ l _ l]) (simp_all add: demo_sha64_def)
  then show ?thesis using m(1) by blast
qed

end
