(* ===== verification/CustomerImage.thy ===== *)
theory CustomerImage
  imports Oneed
begin

text \<open>
  The chain of the customer image: what \<open>mutate_customer.py\<close> (\<open>Mutate\<close>) writes and records passes \<open>verify_b_manifest.py\<close>
  (\<open>VerifyB\<close>) on the manifest of the image rebuilt from the mutated tree.
\<close>

subsection \<open>Reading the mutation manifest\<close>

definition added_pair :: "(bytes \<Rightarrow> string) \<Rightarrow> bool \<times> staged \<Rightarrow> string \<times> pydict" where
  "added_pair sha oa = (image_asset (fst (snd oa)), dict_of (file_entry sha (fst oa) (snd oa)))"

definition C2M_PAIR :: "string \<times> pydict" where "C2M_PAIR = (''/c2m'', dict_of DIR_ENTRY)"

definition replaced_pair :: "pyval \<times> pyval \<Rightarrow> string \<times> pydict" where
  "replaced_pair kv = (the_str (fst kv), dict_of (snd kv))"

lemma path_row_added: "path_row (file_entry sha own x) = Some (added_pair sha (own, x))" "path_row DIR_ENTRY = Some C2M_PAIR"
proof -
  obtain n d k where x: "x = (n, d, k)" by (cases x)
  have "file_entry sha own x = PDict (dict_of (file_entry sha own x))" by (simp add: file_entry_def x)
  moreover have "dget (dict_of (file_entry sha own x)) ''path'' = PStr (image_asset n)" unfolding x by (rule entry_fields)
  ultimately obtain d where "file_entry sha own x = PDict d" "dget d ''path'' = PStr (image_asset n)" by (metis dict_of.simps(1))
  then show "path_row (file_entry sha own x) = Some (added_pair sha (own, x))" by (simp add: path_row_def added_pair_def x)
  show "path_row DIR_ENTRY = Some C2M_PAIR" by (simp add: path_row_def C2M_PAIR_def DIR_ENTRY_def dget_def)
qed

lemma those_list_all: "list_all (\<lambda>x. f x = Some (g x)) xs \<Longrightarrow> those (map f xs) = Some (map g xs)"
  by (induction xs) auto

lemma index_fresh: "those (map path_row vs) = Some xs \<Longrightarrow> distinct (map fst xs) \<Longrightarrow> index_rows vs = Some xs"
  using stage_distinct [of "[]" xs] by (simp add: index_rows_def)

lemma added_indexed:
  assumes "distinct (map (fst \<circ> snd) fs)"
  shows "index_rows (DIR_ENTRY # map (\<lambda>(own, a). file_entry sha own a) fs) = Some (C2M_PAIR # map (added_pair sha) fs)"
proof (rule index_fresh)
  have "those (map (path_row \<circ> (\<lambda>(own, a). file_entry sha own a)) fs) = Some (map (added_pair sha) fs)"
    by (rule those_list_all) (auto simp: list_all_iff path_row_added)
  then show "those (map path_row (DIR_ENTRY # map (\<lambda>(own, a). file_entry sha own a) fs)) = Some (C2M_PAIR # map (added_pair sha) fs)"
    by (simp add: path_row_added)
  have "inj image_asset" by (rule injI) (simp add: image_asset_def)
  then have "distinct (map (image_asset \<circ> (fst \<circ> snd)) fs)" using assms by (simp add: distinct_map comp_inj_on inj_on_def)
  moreover have "map fst (map (added_pair sha) fs) = map (image_asset \<circ> (fst \<circ> snd)) fs" by (induction fs) (simp_all add: added_pair_def)
  moreover have "''/c2m'' \<notin> set (map (image_asset \<circ> (fst \<circ> snd)) fs)" by (auto simp: image_asset_def)
  ultimately show "distinct (map fst (C2M_PAIR # map (added_pair sha) fs))" by (simp only: list.map distinct.simps C2M_PAIR_def fst_conv) simp
qed

lemma replaced_row_pair: "replaced_entry (replaced_row sha r) = Some (replaced_pair (replaced_row sha r))" "is_str (fst (replaced_row sha r))"
  by (simp_all add: replaced_row_def replaced_pair_def)

lemma replaced_indexed:
  "those (map replaced_entry (replaced_doc sha rs)) = Some (map replaced_pair (replaced_doc sha rs))"
proof (rule those_list_all)
  have rows: "\<exists>r. kv = replaced_row sha r" if "kv \<in> set (replaced_doc sha rs)" for kv using replaced_doc_ok that by blast
  show "list_all (\<lambda>kv. replaced_entry kv = Some (replaced_pair kv)) (replaced_doc sha rs)"
    unfolding list_all_iff
  proof
    fix kv assume "kv \<in> set (replaced_doc sha rs)"
    then obtain r where "kv = replaced_row sha r" using rows by blast
    then show "replaced_entry kv = Some (replaced_pair kv)" using replaced_row_pair(1) by simp
  qed
qed

lemma customer_doc_loaded:
  assumes "distinct (map (fst \<circ> snd) (added_files g as))"
  shows "load_b_mut (PDict (mutation_doc sha env g h as ap)) = Some
     \<lparr>bm_hook = Some (he_path h, PStr (sha (he_new h))), bm_added = C2M_PAIR # map (added_pair sha) (added_files g as),
      bm_replaced = map replaced_pair (replaced_doc sha (all_replacements sha ap))\<rparr>"
proof -
  let ?doc = "mutation_doc sha env g h as ap"
  have kind: "\<not> has_key ?doc ''kind''" by (auto simp: mutation_doc_def has_key_def flag_def)
  have hook: "dget ?doc ''hook'' = PStr (he_path h)" by (simp add: mutation_doc_def dget_def)
  have "new_hook_sha (he_path h) [modified_row sha h] = Some (PStr (sha (he_new h)))"
    by (simp add: modified_row_def has_key_def dget_def)
  then have "load_hook ?doc = Some (he_path h, PStr (sha (he_new h)))" by (simp add: load_hook_def hook doc_fields)
  then show ?thesis
    by (simp add: load_b_mut_def get_or_def kind doc_fields added_indexed [OF assms] replaced_indexed)
qed

subsection \<open>The last replacement of a path\<close>

lemma replaced_lookup:
  assumes "p = rp_path r" "p \<notin> rp_path ` set rs2"
  shows "map_of (map replaced_pair (replaced_doc sha (rs1 @ r # rs2))) p = Some (dict_of (snd (replaced_row sha r)))"
proof -
  have other: "map_of (foldl (\<lambda>d r. AList.update (fst (replaced_row sha r)) (snd (replaced_row sha r)) d) acc rs) (PStr p) = map_of acc (PStr p)"
    if "p \<notin> rp_path ` set rs" for acc rs
    using that by (induction rs arbitrary: acc) (auto simp: update_conv' replaced_row_def)
  have pairs: "map_of (map replaced_pair d) p = map_option dict_of (map_of d (PStr p))" if "\<forall>kv \<in> set d. is_str (fst kv)" for d
    using that by (induction d) (auto simp: replaced_pair_def elim!: is_str.elims)
  have "map_of (replaced_doc sha (rs1 @ r # rs2)) (PStr p) = Some (snd (replaced_row sha r))"
    using other [OF assms(2)] assms(1) by (simp add: replaced_doc_def update_conv' replaced_row_def)
  moreover have "\<forall>kv \<in> set (replaced_doc sha (rs1 @ r # rs2)). is_str (fst kv)"
    using replaced_doc_ok [of sha "rs1 @ r # rs2"] replaced_row_pair(2) by metis
  ultimately show ?thesis by (simp add: pairs)
qed

lemma last_replacement:
  assumes "p \<in> rp_path ` set rs"
  obtains rs1 r rs2 where "rs = rs1 @ r # rs2" "rp_path r = p" "map_of (map replaced_pair (replaced_doc sha rs)) p = Some (dict_of (snd (replaced_row sha r)))"
    "p \<notin> rp_path ` set rs2"
proof -
  have "\<exists>r \<in> set rs. rp_path r = p" using assms by auto
  then obtain rs1 r rs2 where r: "rs = rs1 @ r # rs2" "rp_path r = p" "\<forall>x \<in> set rs2. rp_path x \<noteq> p" by (rule split_list_last_propE)
  then have "p \<notin> rp_path ` set rs2" by auto
  then show thesis using that [OF r(1,2)] replaced_lookup [of p r rs2 sha rs1] r(1,2) by metis
qed

lemma plan_audio_each:
  "plan_audio sha md5 env st t ss ls = Inr (rs, ls') \<Longrightarrow> r \<in> set rs \<Longrightarrow> \<exists>ls s i. plan_replacement sha env st t ls s = Inr (r, i)"
proof (induction ss arbitrary: ls rs ls')
  case (Cons s ss)
  obtain x i where p: "plan_replacement sha env st t ls s = Inr (x, i)" using Cons.prems(1) by (auto split: sum.splits)
  obtain rs' where "plan_audio sha md5 env st t ss (ls[i := md5 (rp_data x) @ drop 32 (ls ! i)]) = Inr (rs', ls')" "rs = x # rs'"
    using Cons.prems(1) p by (cases "plan_audio sha md5 env st t ss (ls[i := md5 (rp_data x) @ drop 32 (ls ! i)])") auto
  then show ?case using Cons.IH Cons.prems(2) p by (cases "r = x") (blast, auto simp del: split_paired_Ex)
qed simp

lemma new_target_recorded:
  assumes "plan_specs sha md5 env st t d = Inr a" "r \<in> set (ap_replacements a)" "tget t (audio_parts (rp_path r)) = None"
  shows "rp_old_sha r = ABSENT"
proof -
  obtain specs ls where "plan_audio sha md5 env st t (sort_key (spec_order t) specs) (split_on (CHR 0x0A) (ascii_text (ap_md5_old a))) = Inr (ap_replacements a, ls)"
    using assms(1) by (rule plan_specs_Inr)
  then obtain ls s i where p: "plan_replacement sha env st t ls s = Inr (r, i)" using plan_audio_each assms(2) by blast
  then have "target_state sha st t (rp_path r) = Inr (rp_old_sha r, rp_old_size r, rp_mode r)"
    by (auto simp: plan_replacement_def split: sum.splits option.splits list.splits if_splits prod.splits)
  then show ?thesis using assms(3) by (auto simp: target_state_def split: option.splits)
qed

lemma md5_in_stock: "plan_specs sha md5 env st t d = Inr a \<Longrightarrow> stock_get st MD5_PATH \<noteq> None"
proof -
  assume "plan_specs sha md5 env st t d = Inr a"
  then have "md5_state sha env st t = Inr (ap_md5_mode a, ap_md5_old a, ap_md5_size a)" by (rule plan_specs_Inr)
  then have "stock_reg st MD5_PATH" by (simp add: md5_state_def split: if_splits)
  then show ?thesis by (auto simp: stock_reg_def split: option.splits)
qed

text \<open>A replaced path other than the hook: its record is that of the file now in place, and says whether the path is new.\<close>

lemma replaced_node:
  assumes "ap = None \<or> (\<exists>d a. plan_specs sha md5 env st t d = Inr a \<and> ap = Some a)" and "p \<in> rp_path ` set (all_replacements sha ap)"
    and "he_parts h \<noteq> audio_parts p"
  obtains r where "map_of (map replaced_pair (replaced_doc sha (all_replacements sha ap))) p = Some (dict_of (snd (replaced_row sha r)))"
    "tget (apply_writes (writes_of h as (all_replacements sha ap)) t) (rel_parts p) = Some (TFile (rp_mode r) (rp_data r))"
    "tget t (rel_parts p) = None \<and> stock_get st p = None \<longrightarrow> rp_old_sha r = ABSENT"
proof -
  let ?rs = "all_replacements sha ap"
  obtain rs1 r rs2 where r: "?rs = rs1 @ r # rs2" "rp_path r = p" "map_of (map replaced_pair (replaced_doc sha ?rs)) p = Some (dict_of (snd (replaced_row sha r)))"
    "p \<notin> rp_path ` set rs2"
    using assms(2) by (rule last_replacement)
  have ad: "list_all (\<lambda>r. prefix ADAS (rp_path r)) ?rs" using replacement_paths [OF assms(1)] by (auto simp: list_all_iff)
  have "tget (apply_writes (writes_of h as ?rs) t) (audio_parts p) = Some (TFile (rp_mode r) (rp_data r))"
    using replaced_written_apart [OF _ r(1) _ ad, of h] assms(3) r(2,4) by simp
  moreover have rel: "rel_parts p = audio_parts p" using replacement_paths [OF assms(1), of r] r(1,2) by simp
  moreover have "rp_old_sha r = ABSENT" if n: "tget t (rel_parts p) = None" "stock_get st p = None"
  proof -
    obtain d a where a: "plan_specs sha md5 env st t d = Inr a" "ap = Some a" using assms(1,2) by (auto simp: all_replacements_def)
    have "p \<noteq> MD5_PATH" using md5_in_stock [OF a(1)] n(2) by auto
    moreover have "r \<in> set ?rs" by (simp add: r(1))
    ultimately have "r \<in> set (ap_replacements a)" using r(2) by (auto simp: all_replacements_def a(2) md5_replacement_def)
    then show ?thesis using new_target_recorded [OF a(1)] n(1) rel r(2) by simp
  qed
  ultimately show thesis using that r(3) by simp
qed

subsection \<open>The rebuilt image\<close>

text \<open>The row of a path of the image: the stock row with hash and size read again from the tree, or the row of a new path, which the
  rebuild gives the owner 1001:1001. A new path is a file or a directory.\<close>

definition fresh_row :: "(bytes \<Rightarrow> string) \<Rightarrow> tree \<Rightarrow> string \<Rightarrow> pydict option" where
  "fresh_row sha t p =
     (case tget t (rel_parts p) of
        Some (TFile m d) \<Rightarrow> Some ([(PStr ''path'', PStr p), (PStr ''type'', PStr ''reg''), (PStr ''mode'', PInt (int m)), (PStr ''size'', PInt (int (length d))),
          (PStr ''sha256'', PStr (sha d))] @ OWNER_FIELDS)
      | Some (TDir m) \<Rightarrow> Some ([(PStr ''path'', PStr p), (PStr ''type'', PStr ''dir''), (PStr ''mode'', PInt (int m))] @ OWNER_FIELDS)
      | Some _ \<Rightarrow> Some []
      | None \<Rightarrow> None)"

definition image_row :: "(bytes \<Rightarrow> string) \<Rightarrow> tree \<Rightarrow> rows \<Rightarrow> string \<Rightarrow> pydict option" where
  "image_row sha t st p = (case map_of st p of Some r \<Rightarrow> Some (reread sha t p r) | None \<Rightarrow> fresh_row sha t p)"

lemma image_row_file:
  assumes "image_row sha t st p = Some a" "tget t (rel_parts p) = Some (TFile m d)"
  shows "dget a ''size'' = PInt (int (length d))" "dget a ''sha256'' = PStr (sha d)"
proof -
  have "dget a ''size'' = PInt (int (length d)) \<and> dget a ''sha256'' = PStr (sha d)"
  proof (cases "map_of st p")
    case None
    then show ?thesis using assms by (auto simp: image_row_def fresh_row_def dget_def)
  next
    case (Some r)
    then have "a = reread sha t p r" using assms(1) by (simp add: image_row_def)
    then show ?thesis using reread_file [OF assms(2)] by simp
  qed
  then show "dget a ''size'' = PInt (int (length d))" "dget a ''sha256'' = PStr (sha d)" by simp_all
qed

lemma replaced_as_recorded:
  assumes "image_row sha t st p = Some a" "tget t (rel_parts p) = Some (TFile (rp_mode r) (rp_data r))"
  shows "as_recorded (dict_of (snd (replaced_row sha r))) a"
  using image_row_file [OF assms] by (simp add: as_recorded_def replaced_row_def has_key_def dget_def)

lemma fresh_agrees:
  "tget t (rel_parts p) = Some (TFile m d) \<Longrightarrow> fresh_row sha t p = Some a \<Longrightarrow>
   agree (filter (has_key (dict_of (file_entry sha own (n, d, m)))) ADDED_KEYS) a (dict_of (file_entry sha own (n, d, m)))"
  "tget t (rel_parts p) = Some (TDir M755) \<Longrightarrow> fresh_row sha t p = Some a \<Longrightarrow> agree DIR_KEYS a (dict_of DIR_ENTRY)"
  by (cases own; auto simp: fresh_row_def agree_def ADDED_KEYS_def file_entry_def has_key_def dget_def OWNER_FIELDS_def)
    (auto simp: fresh_row_def agree_def DIR_KEYS_def DIR_ENTRY_def dget_def OWNER_FIELDS_def M755_def)

text \<open>The stock manifest describes the tree completely, and has no \<open>/c2m\<close>; the image rebuilt from the tree.\<close>

definition stock_of :: "(bytes \<Rightarrow> string) \<Rightarrow> tree \<Rightarrow> rows \<Rightarrow> bool" where
  "stock_of sha t st \<longleftrightarrow> list_all (\<lambda>(p, r). valid_path p \<and> described sha t p r) st \<and> map_of st ''/c2m'' = None
     \<and> (\<forall>p. valid_path p \<and> map_of st p = None \<longrightarrow> tget t (rel_parts p) = None)"

definition rebuilt :: "(bytes \<Rightarrow> string) \<Rightarrow> tree \<Rightarrow> rows \<Rightarrow> rows \<Rightarrow> bool" where
  "rebuilt sha t st act \<longleftrightarrow> (\<forall>p. map_of act p = (if valid_path p then image_row sha t st p else None))"

lemma stock_ofD:
  assumes "stock_of sha t st"
  shows "map_of st p = Some r \<Longrightarrow> valid_path p \<and> described sha t p r" "valid_path p \<Longrightarrow> map_of st p = None \<Longrightarrow> tget t (rel_parts p) = None"
    "map_of st ''/c2m'' = None"
  using assms map_of_SomeD [of st p r] by (auto simp: stock_of_def list_all_iff)

text \<open>A run, with the stock manifest read by both tools.\<close>

lemma customer_run:
  assumes "mutate sha md5 env t = Inr (t', doc)" "me_stock env = Some stock" "load_rows stock = Some st"
  obtains g sm h as ap where "gather sha (me_args env) = Inr g" "plan_hook sha env g sm t = Inr h" "stage_assets env g = Inr as"
    "destination_error env g sm t as = None" "ap = None \<or> (\<exists>d a. plan_specs sha md5 env sm t d = Inr a \<and> ap = Some a)"
    "t' = apply_writes (writes_of h as (all_replacements sha ap)) t" "doc = mutation_doc sha env g h as ap" "\<And>p. stock_get sm p = map_of st p"
proof -
  obtain g sm h as ap where m: "gather sha (me_args env) = Inr g" "stock_map (me_stock env) = Some sm" "plan_hook sha env g sm t = Inr h"
    "stage_assets env g = Inr as" "destination_error env g sm t as = None"
    "ap = None \<and> me_specs env = None \<or> (\<exists>d a. me_specs env = Some d \<and> plan_specs sha md5 env sm t d = Inr a \<and> ap = Some a)"
    "t' = apply_writes (writes_of h as (all_replacements sha ap)) t" "doc = mutation_doc sha env g h as ap"
    using assms(1) by (rule mutate_cases)
  have "stock_get sm p = map_of st p" for p using stock_rows_agree [OF assms(3)] m(2) assms(2) by simp
  then show thesis using m that by blast
qed

text \<open>The added paths are valid, new, and where the manifest says.\<close>

lemma added_facts:
  assumes "gather sha (me_args env) = Inr g" "plan_hook sha env g sm t = Inr h" "stage_assets env g = Inr as"
    "destination_error env g sm t as = None" "ap = None \<or> (\<exists>d a. plan_specs sha md5 env sm t d = Inr a \<and> ap = Some a)"
    and "map_of (C2M_PAIR # map (added_pair sha) (added_files g as)) p = Some e"
  shows "valid_path p \<and> p \<noteq> he_path h \<and> (p = ''/c2m'' \<or> stock_get sm p = None)
     \<and> (p = ''/c2m'' \<and> e = dict_of DIR_ENTRY \<and> tget (apply_writes (writes_of h as (all_replacements sha ap)) t) (rel_parts p) = Some (TDir M755)
        \<or> (\<exists>own n d m. e = dict_of (file_entry sha own (n, d, m))
             \<and> tget (apply_writes (writes_of h as (all_replacements sha ap)) t) (rel_parts p) = Some (TFile m d)))"
proof (cases "p = ''/c2m''")
  case True
  have parts: "rel_parts p = [''c2m'']" by (simp add: True rel_parts_def)
  have "[''c2m''] \<noteq> he_parts h"
    using plan_hook_Inr(2) [OF assms(2)] assms(4) by (cases "tget t [''c2m'']" rule: is_tdir.cases) (auto simp: destination_error_def split: if_splits)
  moreover from this have "p \<noteq> he_path h" using plan_hook_Inr(1) [OF assms(2)] parts by auto
  moreover have "valid_path p" by (simp add: True valid_path_def path_error_def)
  moreover from \<open>[''c2m''] \<noteq> he_parts h\<close> have "[''c2m''] \<notin> fst ` set (writes_of h as (all_replacements sha ap))"
    by (auto simp: writes_of_def audio_parts_def ADAS_PARTS_def)
  ultimately show ?thesis using assms(6) by (simp add: parts [unfolded True] True C2M_PAIR_def apply_writes_def writes_frame tget_tput)
next
  case False
  then obtain own x where x: "(own, x) \<in> set (added_files g as)" "(p, e) = added_pair sha (own, x)"
    using map_of_SomeD [OF assms(6)] by (auto simp: C2M_PAIR_def)
  obtain n d m where nd: "x = (n, d, m)" by (cases x)
  have pe: "p = image_asset n" "e = dict_of (file_entry sha own (n, d, m))" using x(2) by (simp_all add: added_pair_def nd)
  have as: "(n, d, m) \<in> set as" using imageI [OF x(1), of snd] unfolding added_files_set [OF assms(1,3)] by (simp add: nd)
  have "n \<in> set all_names" using added_names_distinct [OF assms(1), of as] x(1) nd by force
  then have parts: "rel_parts p = [''c2m'', n]" and valid: "valid_path p"
    using asset_parts names_valid by (auto simp: pe(1) valid_path_def list_all_iff)
  have free: "tget t [''c2m'', n] = None" "stock_get sm p = None" using destinations_free [OF assms(4) as] by (simp_all add: pe(1))
  have "p \<noteq> he_path h" using plan_hook_Inr(1,2) [OF assms(2)] parts free(1) by auto
  moreover have "tget (apply_writes (writes_of h as (all_replacements sha ap)) t) (rel_parts p) = Some (TFile m d)"
    unfolding parts by (rule added_placed [OF assms(1-5) as])
  ultimately show ?thesis using valid free(2) pe(2) by blast
qed

lemma doc_replaced: "str_keys (dict_of (dget (mutation_doc sha env g h as ap) ''replaced'')) = str_keys (replaced_doc sha (all_replacements sha ap))"
  by (simp add: doc_fields)

lemma replaced_paths: "set (str_keys (replaced_doc sha rs)) = rp_path ` set rs"
  using replaced_keys [of sha rs] by (auto simp: set_str_keys has_key_def)

lemma replaced_pair_keys: "set (map fst (map replaced_pair (replaced_doc sha rs))) = rp_path ` set rs"
proof -
  have "set (map fst (map replaced_pair d)) = the_str ` fst ` set d" for d :: pydict by (induction d) (simp_all add: replaced_pair_def)
  then have "set (map fst (map replaced_pair (replaced_doc sha rs))) = the_str ` (PStr \<circ> rp_path) ` set rs" by (simp only: replaced_keys)
  then show ?thesis by (simp add: image_comp comp_def)
qed

lemma added_keys: "set (map fst (C2M_PAIR # map (added_pair sha) (added_files g as))) = insert ''/c2m'' (image_asset ` fst ` snd ` set (added_files g as))"
  by (force simp: C2M_PAIR_def added_pair_def image_iff)

lemma allowed_replaced:
  "bm_replaced m = map replaced_pair (replaced_doc sha rs) \<Longrightarrow> p \<in> set (allowed_new m) \<Longrightarrow> p \<in> rp_path ` set rs"
proof -
  assume m: "bm_replaced m = map replaced_pair (replaced_doc sha rs)" and p: "p \<in> set (allowed_new m)"
  then obtain recd where "map_of (map replaced_pair (replaced_doc sha rs)) p = Some recd" using allowed_recorded by metis
  then obtain kv where kv: "kv \<in> set (replaced_doc sha rs)" "p = the_str (fst kv)" by (auto simp: replaced_pair_def dest!: map_of_SomeD)
  then have "fst kv \<in> (PStr \<circ> rp_path) ` set rs" using replaced_keys [of sha rs] by (metis image_eqI)
  then show ?thesis using kv(2) by force
qed

lemma recorded_new:
  assumes "map_of (bm_replaced m) p = Some (dict_of (snd (replaced_row sha r)))" "rp_old_sha r = ABSENT"
  shows "p \<in> set (allowed_new m)"
  using map_of_SomeD [OF assms(1)] assms(2) by (force simp: allowed_new_def replaced_row_def dget_def ABSENT_def)

text \<open>Any path the run does not name keeps its file.\<close>

lemma unnamed_kept:
  assumes run: "mutate sha md5 env t = Inr (t', doc)" and "p \<notin> doc_paths doc" "valid_path p" "\<forall>q \<in> doc_paths doc. valid_path q"
  shows "tget t' (rel_parts p) = tget t (rel_parts p)"
proof (rule ccontr)
  assume "tget t' (rel_parts p) \<noteq> tget t (rel_parts p)"
  then have "rel_parts p \<in> rel_parts ` doc_paths doc" by (rule run_changes [OF run])
  then show False using assms(2-4) rel_parts_inj by blast
qed

text \<open>Everything the verification of a run rests on, in one place: the record read from the manifest, the paths, the nodes of the mutated
  tree.\<close>

lemma customer_facts:
  assumes run: "mutate sha md5 env t = Inr (t', doc)" and stock: "me_stock env = Some stock" "load_rows stock = Some st" "stock_of sha t st"
    and valid: "list_all valid_path (str_keys (dict_of (dget doc ''replaced'')))" and hook_apart: "\<not> prefix ADAS (the_str (dget doc ''hook''))"
  obtains m h hs where "load_b_mut (PDict doc) = Some m" "bm_hook m = Some (h, PStr hs)"
    "map_of st h \<noteq> None" "\<exists>k d. tget t' (rel_parts h) = Some (TFile k d) \<and> hs = sha d"
    "\<forall>q \<in> doc_paths doc. valid_path q"
    "doc_paths doc = set (map fst (bm_added m)) \<union> {h} \<union> set (map fst (bm_replaced m))"
    "\<And>p e. map_of (bm_added m) p = Some e \<Longrightarrow> p \<noteq> h \<and> map_of st p = None
       \<and> (e = dict_of DIR_ENTRY \<and> tget t' (rel_parts p) = Some (TDir M755)
          \<or> (\<exists>own n d k. e = dict_of (file_entry sha own (n, d, k)) \<and> tget t' (rel_parts p) = Some (TFile k d)))"
    "\<And>p recd. map_of (bm_replaced m) p = Some recd \<Longrightarrow> p \<noteq> h \<and> (\<exists>r. recd = dict_of (snd (replaced_row sha r))
       \<and> tget t' (rel_parts p) = Some (TFile (rp_mode r) (rp_data r)) \<and> (map_of st p = None \<longrightarrow> p \<in> set (allowed_new m)))"
proof -
  obtain g sm h as ap where f: "gather sha (me_args env) = Inr g" "plan_hook sha env g sm t = Inr h" "stage_assets env g = Inr as"
    "destination_error env g sm t as = None" "ap = None \<or> (\<exists>d a. plan_specs sha md5 env sm t d = Inr a \<and> ap = Some a)"
    "t' = apply_writes (writes_of h as (all_replacements sha ap)) t" "doc = mutation_doc sha env g h as ap" "\<And>p. stock_get sm p = map_of st p"
    by (rule customer_run [OF run stock(1,2)]) blast
  let ?rs = "all_replacements sha ap"
  let ?m = "\<lparr>bm_hook = Some (he_path h, PStr (sha (he_new h))), bm_added = C2M_PAIR # map (added_pair sha) (added_files g as),
      bm_replaced = map replaced_pair (replaced_doc sha ?rs)\<rparr>"
  have loaded: "load_b_mut (PDict doc) = Some ?m"
    unfolding f(7) by (rule customer_doc_loaded) (use added_names_distinct [OF f(1)] in blast)
  have hst: "map_of st (he_path h) \<noteq> None" using plan_hook_Inr(5) [OF f(2)] f(8) by simp
  have hook: "\<exists>k d. tget t' (rel_parts (he_path h)) = Some (TFile k d) \<and> sha (he_new h) = sha d"
    using hook_written [of h as ?rs t] plan_hook_Inr(1) [OF f(2)] by (intro exI conjI) (simp_all only: f(6))
  have hv: "valid_path (he_path h)" using hst stock_ofD(1) [OF stock(3)] by auto
  note reps = replaced_pair_keys [of sha ?rs]
  have rv: "valid_path q" if "q \<in> rp_path ` set ?rs" for q
    using valid that unfolding f(7) doc_replaced replaced_paths [of sha ?rs, symmetric] by (simp add: list_all_iff)
  have added: "valid_path p \<and> p \<noteq> he_path h \<and> map_of st p = None
       \<and> (e = dict_of DIR_ENTRY \<and> tget t' (rel_parts p) = Some (TDir M755)
          \<or> (\<exists>own n d k. e = dict_of (file_entry sha own (n, d, k)) \<and> tget t' (rel_parts p) = Some (TFile k d)))"
    if "map_of (bm_added ?m) p = Some e" for p e
    using added_facts [OF f(1-5), of p e] that stock_ofD(3) [OF stock(3)] unfolding f(6,8) by auto
  have paths: "doc_paths doc = set (map fst (bm_added ?m)) \<union> {he_path h} \<union> set (map fst (bm_replaced ?m))"
    unfolding f(7) doc_paths_of [OF f(1,3)] b_mut.simps reps added_keys added_files_set [OF f(1,3)] by blast
  have "valid_path q" if q: "q \<in> doc_paths doc" for q
  proof -
    consider "q \<in> set (map fst (bm_added ?m))" | "q = he_path h" | "q \<in> rp_path ` set ?rs" using q unfolding paths b_mut.simps reps by blast
    then show ?thesis
    proof cases
      case 1
      then obtain e where "map_of (bm_added ?m) q = Some e" using keys_map_of by metis
      then show ?thesis using added by blast
    qed (use hv rv in auto)
  qed
  moreover have "p \<noteq> he_path h \<and> (\<exists>r. recd = dict_of (snd (replaced_row sha r)) \<and> tget t' (rel_parts p) = Some (TFile (rp_mode r) (rp_data r))
       \<and> (map_of st p = None \<longrightarrow> p \<in> set (allowed_new ?m)))"
    if p: "map_of (bm_replaced ?m) p = Some recd" for p recd
  proof -
    have rp: "p \<in> rp_path ` set ?rs" using p unfolding reps [symmetric] keys_map_of by simp
    then have v: "valid_path p" by (rule rv)
    have h: "\<not> prefix ADAS (he_path h)" using hook_apart by (simp add: f(7) mutation_doc_def dget_def)
    then have ne: "p \<noteq> he_path h"
    proof -
      obtain x where "x \<in> set ?rs" "p = rp_path x" using rp by blast
      then have "prefix ADAS p" using replacement_paths [OF f(5)] by blast
      then show ?thesis using h by auto
    qed
    from f(5) rp hook_elsewhere [OF f(2) h] obtain r where r: "map_of (map replaced_pair (replaced_doc sha ?rs)) p = Some (dict_of (snd (replaced_row sha r)))"
      "tget (apply_writes (writes_of h as ?rs) t) (rel_parts p) = Some (TFile (rp_mode r) (rp_data r))"
      "tget t (rel_parts p) = None \<and> stock_get sm p = None \<longrightarrow> rp_old_sha r = ABSENT"
      by (rule replaced_node [where as = as])
    have "p \<in> set (allowed_new ?m)" if n: "map_of st p = None"
      using r(1,3) stock_ofD(2) [OF stock(3) v n] n by (intro recorded_new [of ?m p sha r]) (simp_all add: f(8))
    then show ?thesis using r(1,2) p ne by (auto simp: f(6))
  qed
  ultimately show thesis using that [OF loaded _ hst hook] paths added by auto
qed

text \<open>The paths of the rebuilt image, and its rows, from the facts above.\<close>

lemma fresh_iff: "fresh_row sha t p = None \<longleftrightarrow> tget t (rel_parts p) = None"
  by (simp add: fresh_row_def split: option.split tnode.split)

lemma customer_paths:
  assumes st: "stock_of sha t st" and act: "\<And>p. map_of act p = (if valid_path p then image_row sha t' st p else None)"
    and m: "bm_hook m = Some (h, PStr hs)" "map_of st h \<noteq> None" "\<exists>k d. tget t' (rel_parts h) = Some (TFile k d) \<and> hs = sha d"
      "\<forall>q \<in> paths. valid_path q" "paths = set (map fst (bm_added m)) \<union> {h} \<union> set (map fst (bm_replaced m))"
      "\<And>p. p \<notin> paths \<Longrightarrow> valid_path p \<Longrightarrow> tget t' (rel_parts p) = tget t (rel_parts p)"
    and added: "\<And>p e. map_of (bm_added m) p = Some e \<Longrightarrow> p \<noteq> h \<and> map_of st p = None
       \<and> (e = dict_of DIR_ENTRY \<and> tget t' (rel_parts p) = Some (TDir M755)
          \<or> (\<exists>own n d k. e = dict_of (file_entry sha own (n, d, k)) \<and> tget t' (rel_parts p) = Some (TFile k d)))"
    and replaced: "\<And>p recd. map_of (bm_replaced m) p = Some recd \<Longrightarrow> p \<noteq> h \<and> (\<exists>r. recd = dict_of (snd (replaced_row sha r))
       \<and> tget t' (rel_parts p) = Some (TFile (rp_mode r) (rp_data r)) \<and> (map_of st p = None \<longrightarrow> p \<in> set (allowed_new m)))"
  shows "p \<in> set (map fst act) \<longleftrightarrow> p \<in> set (map fst st) \<union> set (map fst (bm_added m)) \<union> set (allowed_new m)"
proof -
  note new = fresh_iff [of sha t']
  show "p \<in> set (map fst act) \<longleftrightarrow> p \<in> set (map fst st) \<union> set (map fst (bm_added m)) \<union> set (allowed_new m)"
  proof
    assume "p \<in> set (map fst act)"
    then have p: "valid_path p" "image_row sha t' st p \<noteq> None" unfolding keys_map_of act by (auto split: if_splits)
    show "p \<in> set (map fst st) \<union> set (map fst (bm_added m)) \<union> set (allowed_new m)"
    proof (cases "map_of st p")
      case None
      then have "tget t' (rel_parts p) \<noteq> tget t (rel_parts p)"
        using p(2) stock_ofD(2) [OF st p(1)] new [of p] by (auto simp: image_row_def)
      then have "p \<in> paths" using m(6) p(1) by blast
      then show ?thesis using None m(2) replaced unfolding m(5) by (auto simp: keys_map_of simp del: set_map)
    qed (simp add: keys_map_of del: set_map)
  next
    assume "p \<in> set (map fst st) \<union> set (map fst (bm_added m)) \<union> set (allowed_new m)"
    then consider r where "map_of st p = Some r" | e where "map_of (bm_added m) p = Some e" | recd where "map_of (bm_replaced m) p = Some recd"
      using allowed_recorded [of p m] by (auto simp: keys_map_of simp del: set_map)
    then have "valid_path p \<and> image_row sha t' st p \<noteq> None"
    proof cases
      case 1
      then show ?thesis using stock_ofD(1) [OF st] by (auto simp: image_row_def)
    next
      case 2
      then have "p \<in> paths" unfolding m(5) by (auto simp: keys_map_of simp del: set_map)
      then show ?thesis using 2 m(4) added [OF 2] new [of p] by (auto simp: image_row_def)
    next
      case 3
      then have "p \<in> paths" unfolding m(5) by (auto simp: keys_map_of simp del: set_map)
      then show ?thesis using m(4) replaced [OF 3] new [of p] by (auto simp: image_row_def split: option.split)
    qed
    then show "p \<in> set (map fst act)" unfolding keys_map_of act by auto
  qed
qed

lemma customer_rows:
  assumes st: "stock_of sha t st" and a: "image_row sha t' st p = Some a" "valid_path p"
    and m: "bm_hook m = Some (h, PStr hs)" "map_of st h \<noteq> None" "\<exists>k d. tget t' (rel_parts h) = Some (TFile k d) \<and> hs = sha d"
      "\<forall>q \<in> paths. valid_path q" "paths = set (map fst (bm_added m)) \<union> {h} \<union> set (map fst (bm_replaced m))"
      "\<And>p. p \<notin> paths \<Longrightarrow> valid_path p \<Longrightarrow> tget t' (rel_parts p) = tget t (rel_parts p)"
    and added: "\<And>p e. map_of (bm_added m) p = Some e \<Longrightarrow> p \<noteq> h \<and> map_of st p = None
       \<and> (e = dict_of DIR_ENTRY \<and> tget t' (rel_parts p) = Some (TDir M755)
          \<or> (\<exists>own n d k. e = dict_of (file_entry sha own (n, d, k)) \<and> tget t' (rel_parts p) = Some (TFile k d)))"
    and replaced: "\<And>p recd. map_of (bm_replaced m) p = Some recd \<Longrightarrow> p \<noteq> h \<and> (\<exists>r. recd = dict_of (snd (replaced_row sha r))
       \<and> tget t' (rel_parts p) = Some (TFile (rp_mode r) (rp_data r)) \<and> (map_of st p = None \<longrightarrow> p \<in> set (allowed_new m)))"
  shows "prescribed st m p a"
  unfolding prescribed_def
proof (intro conjI)
  show "case map_of st p of None \<Rightarrow> True | Some s \<Rightarrow> is_hook m p
      \<or> (case map_of (bm_replaced m) p of Some recd \<Rightarrow> as_recorded recd a \<and> agree DIR_KEYS s a
          | None \<Rightarrow> agree (if dget s ''type'' = PStr ''dir'' then DIR_KEYS else B_KEYS) s a)"
  proof (cases "map_of st p")
    case (Some s)
    then have s: "a = reread sha t' p s" "described sha t p s" using a(1) stock_ofD(1) [OF st Some] by (simp_all add: image_row_def)
    consider "p = h" | recd where "map_of (bm_replaced m) p = Some recd" | "p \<noteq> h" "map_of (bm_replaced m) p = None" by blast
    then show ?thesis
    proof cases
      case 1
      then have "is_hook m p" by (simp add: is_hook_def m(1))
      then show ?thesis by (simp add: Some)
    next
      case (2 recd)
      then obtain r where "recd = dict_of (snd (replaced_row sha r))" "tget t' (rel_parts p) = Some (TFile (rp_mode r) (rp_data r))"
        using replaced by blast
      then show ?thesis using replaced_as_recorded [OF a(1)] described_dir_keys [OF s(2), of t'] 2 by (simp add: Some s(1))
    next
      case 3
      then have "map_of (bm_added m) p = None" using Some added [of p] by (cases "map_of (bm_added m) p") auto
      then have "p \<notin> paths" using 3 unfolding m(5) by (auto simp: keys_map_of simp del: set_map)
      then have "a = reread sha t p s" using m(6) a(2) by (simp add: s(1) reread_def)
      then show ?thesis using 3(2) described_any_keys [OF s(2)] by (simp add: Some del: if_split)
    qed
  qed simp
  show "case map_of (bm_added m) p of None \<Rightarrow> True
    | Some e \<Rightarrow> agree (if dget e ''type'' = PStr ''dir'' then DIR_KEYS else filter (has_key e) ADDED_KEYS) a e"
  proof (cases "map_of (bm_added m) p")
    case (Some e)
    then have "fresh_row sha t' p = Some a" using added [OF Some] a(1) by (simp add: image_row_def)
    then show ?thesis using added [OF Some] fresh_agrees [of t' p] by (auto simp: Some entry_fields)
  qed simp
  show "case map_of (bm_replaced m) p of None \<Rightarrow> True | Some recd \<Rightarrow> p \<in> set (allowed_new m) \<longrightarrow> as_recorded recd a"
    using replaced [of p] replaced_as_recorded [OF a(1)] by (auto split: option.split)
  show "case bm_hook m of None \<Rightarrow> True | Some (h, sha) \<Rightarrow> p = h \<longrightarrow> py_eq (dget a ''sha256'') sha"
    using m(3) image_row_file(2) [OF a(1)] by (auto simp: m(1))
qed

text \<open>C33. The chain of the customer image closes: if the stock manifest describes the extracted tree, then the manifest of the image
  rebuilt from the tree that a successful run leaves passes the verification against the mutation manifest of that run.\<close>

theorem customer_verified:
  assumes run: "mutate sha md5 env t = Inr (t', doc)"
    and stock: "me_stock env = Some stock" "load_rows stock = Some st" "stock_of sha t st"
    and image: "load_rows actual = Some act" "rebuilt sha t' st act"
    and valid: "list_all valid_path (str_keys (dict_of (dget doc ''replaced'')))" and hook: "\<not> prefix ADAS (the_str (dget doc ''hook''))"
  shows "verify_b stock (PDict doc) actual = Some []"
proof -
  obtain m h hs where f: "load_b_mut (PDict doc) = Some m" "bm_hook m = Some (h, PStr hs)"
    "map_of st h \<noteq> None" "\<exists>k d. tget t' (rel_parts h) = Some (TFile k d) \<and> hs = sha d"
    "\<forall>q \<in> doc_paths doc. valid_path q"
    "doc_paths doc = set (map fst (bm_added m)) \<union> {h} \<union> set (map fst (bm_replaced m))"
    and added: "\<And>p e. map_of (bm_added m) p = Some e \<Longrightarrow> p \<noteq> h \<and> map_of st p = None
       \<and> (e = dict_of DIR_ENTRY \<and> tget t' (rel_parts p) = Some (TDir M755)
          \<or> (\<exists>own n d k. e = dict_of (file_entry sha own (n, d, k)) \<and> tget t' (rel_parts p) = Some (TFile k d)))"
    and replaced: "\<And>p recd. map_of (bm_replaced m) p = Some recd \<Longrightarrow> p \<noteq> h \<and> (\<exists>r. recd = dict_of (snd (replaced_row sha r))
       \<and> tget t' (rel_parts p) = Some (TFile (rp_mode r) (rp_data r)) \<and> (map_of st p = None \<longrightarrow> p \<in> set (allowed_new m)))"
    using run stock valid hook by (rule customer_facts) blast
  have act: "map_of act p = (if valid_path p then image_row sha t' st p else None)" for p using image(2) by (simp add: rebuilt_def)
  have kept: "tget t' (rel_parts p) = tget t (rel_parts p)" if "p \<notin> doc_paths doc" "valid_path p" for p
    using unnamed_kept [OF run that f(5)] .
  note facts = f(2-6) kept added replaced
  have "set (map fst act) = set (map fst st) \<union> set (map fst (bm_added m)) \<union> set (allowed_new m)"
    using customer_paths [OF stock(3) act facts] by blast
  moreover have "list_all (\<lambda>(p, a). prescribed st m p a) act"
    unfolding list_all_rows [OF load_rows_distinct [OF image(1)]]
  proof (intro allI impI)
    fix p a assume "map_of act p = Some a"
    then have "image_row sha t' st p = Some a" "valid_path p" unfolding act by (simp_all split: if_splits)
    then show "prescribed st m p a" by (rule customer_rows [OF stock(3) _ _ facts])
  qed
  moreover have "h \<in> set (map fst st)" using f(3) unfolding keys_map_of by blast
  ultimately have "image_ok st m act" unfolding image_ok_def f(2) by simp
  then show ?thesis unfolding verify_b_iff using stock(2) image(1) f(1) by blast
qed

subsection \<open>A sample run\<close>

definition demo_small_tree :: tree where
  "demo_small_tree = [([''wifi''], TDir 493), ([''wifi'', ''rc.sh''], TFile 493 demo_hook)]"

definition demo_dir_row :: "string \<Rightarrow> pydict" where
  "demo_dir_row p = [(PStr ''path'', PStr p), (PStr ''type'', PStr ''dir''), (PStr ''mode'', PInt 493)] @ OWNER_FIELDS"

definition demo_file_row :: "string \<Rightarrow> nat \<Rightarrow> pydict" where
  "demo_file_row p n = [(PStr ''path'', PStr p), (PStr ''type'', PStr ''reg''), (PStr ''mode'', PInt 493), (PStr ''size'', PInt (int n)),
     (PStr ''sha256'', PStr (demo_digest []))] @ OWNER_FIELDS"

definition demo_rows :: "nat \<Rightarrow> bool \<Rightarrow> rows" where
  "demo_rows n mutated =
     [(''/wifi'', demo_dir_row ''/wifi''), (''/wifi/rc.sh'', demo_file_row ''/wifi/rc.sh'' n)]
     @ (if mutated then [(''/c2m'', demo_dir_row ''/c2m''), (''/c2m/c2m-idle'', demo_file_row ''/c2m/c2m-idle'' 1)] else [])"

definition demo_doc :: "rows \<Rightarrow> pyval" where
  "demo_doc rows = PDict [(PStr ''entries'', PList (map (\<lambda>(p, r). PDict r) rows))]"

definition demo_small_env :: mutate_env where
  "demo_small_env = demo_env\<lparr>me_stock := Some (demo_doc (demo_rows (length demo_hook) False)), me_specs := None\<rparr>"

lemma demo_rows_loaded: "load_rows (demo_doc (demo_rows n b)) = Some (demo_rows n b)"
  by (cases b) (simp_all add: load_rows_def demo_doc_def dget_def index_rows_def demo_rows_def path_row_def demo_dir_row_def demo_file_row_def)

lemma demo_digest_same: "demo_digest d = demo_digest []" by (simp add: demo_digest_def)

lemma demo_small_parts:
  "rel_parts ''/wifi'' = [''wifi'']" "rel_parts ''/wifi/rc.sh'' = [''wifi'', ''rc.sh'']" "rel_parts ''/c2m'' = [''c2m'']"
  "rel_parts ''/c2m/c2m-idle'' = [''c2m'', ''c2m-idle'']"
  "valid_path ''/wifi''" "valid_path ''/wifi/rc.sh''" "valid_path ''/c2m''" "valid_path ''/c2m/c2m-idle''"
  by (simp_all add: rel_parts_def valid_path_def path_error_def)

lemma demo_small_nodes:
  "tget demo_small_tree ps = (if ps = [''wifi''] then Some (TDir 493) else if ps = [''wifi'', ''rc.sh''] then Some (TFile 493 demo_hook) else None)"
  by (simp add: tget_def demo_small_tree_def)

lemma demo_small_run:
  "\<exists>t' doc new. mutate demo_digest demo_digest demo_small_env demo_small_tree = Inr (t', doc)
     \<and> (\<forall>ps. tget t' ps = (if ps = [''wifi'', ''rc.sh''] then Some (TFile 493 new) else if ps = [''c2m'', ''c2m-idle''] then Some (TFile 493 [1])
          else if ps = [''c2m''] then Some (TDir 493) else tget demo_small_tree ps))
     \<and> dget doc ''hook'' = PStr ''/wifi/rc.sh'' \<and> str_keys (dict_of (dget doc ''replaced'')) = []"
proof -
  let ?sm = "map (\<lambda>(p, r). (PStr p, r)) (demo_rows (length demo_hook) False)"
  have env: "me_hook demo_small_env = ''wifi/rc.sh''" "\<not> me_root_linked demo_small_env" "me_specs demo_small_env = None"
    "hook_opts_of demo_small_env demo_gathered = hook_opts_of demo_env demo_gathered" "me_args demo_small_env = demo_install"
    by (simp_all add: demo_small_env_def demo_env_def hook_opts_of_def)
  have sm: "stock_map (me_stock demo_small_env) = Some ?sm"
    by (simp add: demo_small_env_def stock_map_def demo_doc_def demo_rows_def demo_dir_row_def demo_file_row_def stock_row_def dget_def has_key_def)
  have get: "stock_get ?sm ''/wifi/rc.sh'' = Some (demo_file_row ''/wifi/rc.sh'' (length demo_hook))" "stock_get ?sm ''/c2m/c2m-idle'' = None"
    by (simp_all add: stock_get_def demo_rows_def)
  have row: "dget (demo_file_row p n) ''type'' = PStr ''reg''" "dget (demo_file_row p n) ''sha256'' = PStr (demo_digest d)" for p n d
    using demo_digest_same [of d] by (simp_all add: demo_file_row_def dget_def)
  have free: "\<not> linked_at False demo_small_tree [''wifi'', ''rc.sh'']" "\<not> linked_at False demo_small_tree [''c2m'']"
    by (simp_all add: linked_at_def upt_rec demo_small_nodes)
  obtain new where "edit_hook (hook_opts_of demo_env demo_gathered) demo_hook = Inr (new, Insert_before_exit)" using demo_plain_edit by blast
  then obtain h where h: "plan_hook demo_digest demo_small_env demo_gathered ?sm demo_small_tree = Inr h"
    "h = \<lparr>he_path = ''/wifi/rc.sh'', he_parts = [''wifi'', ''rc.sh''], he_file_mode = 493, he_old = demo_hook, he_new = new, he_kind = Insert_before_exit\<rparr>"
    using free(1) row(2) [of "''/wifi/rc.sh''" "length demo_hook" demo_hook]
    by (simp add: plan_hook_def env bad_rel_def stock_reg_def stock_sha_def get row(1) demo_small_nodes)
  have staged: "stage_assets demo_small_env demo_gathered = Inr [(''c2m-idle'', [1], M755)]"
    by (simp add: stage_assets_def demo_small_env_def demo_env_def demo_install_def demo_gathered_def optional_asset_def with_modes_def stage_dict_def)
  have dest: "destination_error demo_small_env demo_gathered ?sm demo_small_tree [(''c2m-idle'', [1], M755)] = None"
    using free(2) by (simp add: destination_error_def env(2) demo_small_nodes image_asset_def get(2)) (simp add: demo_gathered_def)
  have plan: "plan_all demo_digest demo_digest demo_small_env demo_gathered demo_small_tree = Inr (h, [(''c2m-idle'', [1], M755)], None)"
    by (subst plan_all_def) (simp only: sm h(1) staged dest env option.case sum.case)
  show ?thesis
    by (simp add: mutate_def env(5) demo_gather plan doc_fields all_replacements_def replaced_doc_def)
      (auto simp: h(2) mutation_doc_def dget_def apply_writes_def writes_of_def tget_place tget_tput M755_def)
qed

theorem customer_verified_witness:
  "\<exists>t' doc actual. mutate demo_digest demo_digest demo_small_env demo_small_tree = Inr (t', doc)
     \<and> verify_b (demo_doc (demo_rows (length demo_hook) False)) (PDict doc) actual = Some []"
proof -
  obtain t' doc new where m: "mutate demo_digest demo_digest demo_small_env demo_small_tree = Inr (t', doc)"
    "\<And>ps. tget t' ps = (if ps = [''wifi'', ''rc.sh''] then Some (TFile 493 new) else if ps = [''c2m'', ''c2m-idle''] then Some (TFile 493 [1])
          else if ps = [''c2m''] then Some (TDir 493) else tget demo_small_tree ps)"
    "dget doc ''hook'' = PStr ''/wifi/rc.sh''" "str_keys (dict_of (dget doc ''replaced'')) = []"
    using demo_small_run by blast
  let ?st = "demo_rows (length demo_hook) False" let ?act = "demo_rows (length new) True"
  have apart: "rel_parts p \<noteq> rel_parts q" if "valid_path p" "valid_path q" "p \<noteq> q" for p q using rel_parts_inj that by blast
  have parts: "p = ''/wifi'' \<longleftrightarrow> rel_parts p = [''wifi'']" "p = ''/wifi/rc.sh'' \<longleftrightarrow> rel_parts p = [''wifi'', ''rc.sh'']"
    "p = ''/c2m'' \<longleftrightarrow> rel_parts p = [''c2m'']" "p = ''/c2m/c2m-idle'' \<longleftrightarrow> rel_parts p = [''c2m'', ''c2m-idle'']" if "valid_path p" for p
    using apart [OF that] demo_small_parts by metis+
  have row: "reread demo_digest t p (demo_file_row p n) = demo_file_row p (length d)" if "tget t (rel_parts p) = Some (TFile k d)" for t p n k d
    using that demo_digest_same [of d] by (simp add: reread_def demo_file_row_def)
  have eqs: "agree B_KEYS (demo_file_row p n) (demo_file_row p n)" "agree B_KEYS (demo_dir_row p) (demo_dir_row p)" for p n
    by (simp_all add: agree_def B_KEYS_def demo_file_row_def demo_dir_row_def dget_def OWNER_FIELDS_def)
  have dirs: "reread demo_digest t ''/wifi'' r = r" if "tget t [''wifi''] = Some (TDir 493)" for t r
    using that by (simp add: reread_def demo_small_parts)
  have stock: "stock_of demo_digest demo_small_tree ?st"
    unfolding stock_of_def
  proof (intro conjI allI impI)
    show "list_all (\<lambda>(p, r). valid_path p \<and> described demo_digest demo_small_tree p r) ?st"
      using row [of demo_small_tree "''/wifi/rc.sh''" 493 demo_hook "length demo_hook"] dirs [of demo_small_tree]
      by (simp add: demo_rows_def demo_small_parts described_def demo_small_nodes eqs)
    show "map_of ?st ''/c2m'' = None" by (simp add: demo_rows_def)
    fix p assume p: "valid_path p \<and> map_of ?st p = None"
    then have "p \<noteq> ''/wifi''" "p \<noteq> ''/wifi/rc.sh''" by (auto simp: demo_rows_def)
    then show "tget demo_small_tree (rel_parts p) = None" using parts(1,2) [of p] p by (simp add: demo_small_nodes)
  qed
  have "map_of ?act p = (if valid_path p then image_row demo_digest t' ?st p else None)" for p
  proof -
    consider "p = ''/wifi''" | "p = ''/wifi/rc.sh''" | "p = ''/c2m''" | "p = ''/c2m/c2m-idle''"
      | "p \<notin> {''/wifi'', ''/wifi/rc.sh'', ''/c2m'', ''/c2m/c2m-idle''}" by blast
    then show ?thesis
    proof cases
      case 1
      then show ?thesis using dirs [of t'] by (simp add: demo_rows_def image_row_def demo_small_parts m(2) demo_small_nodes)
    next
      case 2
      then show ?thesis using row [of t' "''/wifi/rc.sh''" 493 new "length demo_hook"]
        by (simp add: demo_rows_def image_row_def demo_small_parts m(2) demo_small_nodes)
    next
      case 5
      then have "map_of ?act p = None" "map_of ?st p = None" by (auto simp: demo_rows_def)
      then show ?thesis using parts [of p] 5 by (auto simp: image_row_def eq_commute [of None] fresh_iff m(2) demo_small_nodes)
    qed (simp_all add: demo_rows_def image_row_def fresh_row_def demo_small_parts m(2) demo_dir_row_def demo_file_row_def demo_digest_same [of "[1]"])
  qed
  then have "rebuilt demo_digest t' ?st ?act" by (simp add: rebuilt_def)
  moreover have "me_stock demo_small_env = Some (demo_doc ?st)" by (simp add: demo_small_env_def)
  ultimately have "verify_b (demo_doc ?st) (PDict doc) (demo_doc ?act) = Some []"
    using stock m(3,4) by (intro customer_verified [OF m(1) _ demo_rows_loaded _ demo_rows_loaded]) (simp_all add: ADAS_def)
  then show ?thesis using m(1) by blast
qed
end

