(* ===== verification/TsrProfile.thy ===== *)
theory TsrProfile
  imports Base64 Floats PyValue
begin

text \<open>
  \<open>tools/fw/tsr_profile.py\<close>: the review of a private ADAS flag file and the staging of a narrow change of its TSR values. Keys and values
  are bytes; a Python \<open>float\<close> is its value in units of \<open>2 ^ -1074\<close>. Errors are the \<open>ValueError\<close>s that \<open>main\<close> turns into BLOCK; SHA-256
  sums and the texts of the report are not modelled.

  Shown: applying a profile succeeds exactly when the profile is valid, its keys are present and no minimum exceeds its maximum
  (the self-checks at the end never fail); the result differs only in the values of the lines of these keys; the staged base64
  file decodes to the staged plain file.
\<close>

subsection \<open>The keys and their values\<close>

text \<open>\<open>None\<close>: a bool; otherwise the bounds of a number.\<close>

definition KEYS :: "(bytes \<times> (nat \<times> nat) option) list" where
  "KEYS = map (\<lambda>(k, r). (bytes_of k, r))
     [(''enable_tsr'', None), (''tsrw_interval'', Some (0, 3600)), (''tsrw_sli_over_min_ratio'', Some (0, 100)),
      (''tsrw_sli_over_min_thresh'', Some (0, 200)), (''tsrw_sli_speed_min_thresh'', Some (0, 200)),
      (''tsrw_sli_speed_max_thresh'', Some (0, 200)), (''tsrw_sli_host_speed_min_thresh'', Some (0, 200)),
      (''tsrw_sli_host_speed_max_thresh'', Some (0, 200))]"

definition MAX_BYTES :: nat where "MAX_BYTES = 256 * 1024"

definition digit :: "byte \<Rightarrow> bool" where "digit b \<longleftrightarrow> 48 \<le> b \<and> b \<le> 57"

text \<open>\<open>(?:0|[1-9][0-9]*)(?:\.[0-9]+)?\<close>\<close>

definition number_ok :: "bytes \<Rightarrow> bool" where
  "number_ok v =
     (let a = takeWhile digit v; r = dropWhile digit v in
      a \<noteq> [] \<and> (hd a = 48 \<longrightarrow> length a = 1) \<and> (r = [] \<or> hd r = 46 \<and> tl r \<noteq> [] \<and> list_all digit (tl r)))"

text \<open>\<open>float\<close>: the quotient rounded to 53 significant bits, ties to even.\<close>

definition round_units :: "nat \<Rightarrow> nat \<Rightarrow> nat" where
  "round_units n d =
     (let q = n * 2 ^ 1074 div d; e = (if q < 2 ^ 53 then 0 else ilog q - 52); s = d * 2 ^ e;
          m = n * 2 ^ 1074 div s; r = n * 2 ^ 1074 mod s
      in (if s < 2 * r \<or> 2 * r = s \<and> odd m then m + 1 else m) * 2 ^ e)"

definition float_units :: "bytes \<Rightarrow> nat" where
  "float_units v =
     (let a = takeWhile digit v; b = drop (Suc (length a)) v in
      round_units (foldl (\<lambda>n c. 10 * n + (unat c - 48)) 0 (a @ b)) (10 ^ length b))"

definition validate_value :: "bytes \<Rightarrow> bytes \<Rightarrow> string option" where
  "validate_value key v =
     (case map_of KEYS key of
        None \<Rightarrow> Some ''profile contains a non-TSR key''
      | Some None \<Rightarrow> if v = bytes_of ''true'' \<or> v = bytes_of ''false'' then None else Some ''invalid TSR boolean''
      | Some (Some (lo, hi)) \<Rightarrow>
          if \<not> number_ok v then Some ''invalid TSR numeric value''
          else if \<not> float_units v < 2 ^ 2098 \<or> \<not> (lo * 2 ^ 1074 \<le> float_units v \<and> float_units v \<le> hi * 2 ^ 1074)
          then Some ''TSR numeric value outside host review policy''
          else None)"

subsection \<open>The source\<close>

definition decode_source :: "bytes \<Rightarrow> bool \<Rightarrow> string + bytes" where
  "decode_source raw encoded =
     (if raw = [] \<or> MAX_BYTES < length raw then Inl ''config empty or exceeds input bound''
      else case (if encoded then b64decode (filter (\<lambda>b. b \<notin> {32, 9, 13, 10}) raw) else Some raw) of
        None \<Rightarrow> Inl ''invalid base64 config''
      | Some data \<Rightarrow>
          if data = [] \<or> MAX_BYTES < length data \<or> 0 \<in> set data \<or> 13 \<in> set data
          then Inl ''decoded config invalid, non-LF or exceeds bound''
          else if \<not> utf8_valid data then Inl ''decoded config is not UTF-8''
          else if last data \<noteq> 10 then Inl ''decoded config lacks final LF''
          else Inr data)"

subsection \<open>Lines\<close>

text \<open>\<open>bytes.splitlines(keepends=True)\<close>: the ends are LF, CR and CR LF.\<close>

fun lines_keep :: "bytes \<Rightarrow> bytes list" where
  "lines_keep [] = []"
| "lines_keep (b # bs) =
     (if b = 10 then [b] # lines_keep bs
      else if b = 13 then (case bs of c # r \<Rightarrow> if c = 10 then [b, c] # lines_keep r else [b] # lines_keep bs | [] \<Rightarrow> [[b]])
      else (case lines_keep bs of [] \<Rightarrow> [[b]] | l # ls \<Rightarrow> (b # l) # ls))"

definition line_body :: "bytes \<Rightarrow> bytes" where "line_body = takeWhile (\<lambda>b. b \<noteq> 10 \<and> b \<noteq> 13)"

definition gap :: "byte \<Rightarrow> bool" where "gap b \<longleftrightarrow> b = 32 \<or> b = 9"
definition letter :: "byte \<Rightarrow> bool" where "letter b \<longleftrightarrow> 65 \<le> b \<and> b \<le> 90 \<or> 97 \<le> b \<and> b \<le> 122 \<or> b = 95"
definition word_byte :: "byte \<Rightarrow> bool" where "word_byte b \<longleftrightarrow> letter b \<or> digit b"
definition plain_byte :: "byte \<Rightarrow> bool" where "plain_byte b \<longleftrightarrow> b \<notin> {32, 9, 13, 10, 35}"

text \<open>The four groups of the regular expression of a line; no two of its repetitions can match the same byte, so the match is unique.\<close>

definition match_line :: "bytes \<Rightarrow> (bytes \<times> bytes \<times> bytes \<times> bytes) option" where
  "match_line l =
     (let indent = takeWhile gap l; r = dropWhile gap l; name = takeWhile word_byte (drop 2 r); s = dropWhile word_byte (drop 2 r);
          v = takeWhile plain_byte (tl s); rest = dropWhile plain_byte (tl s)
      in if take 2 r = [45, 45] \<and> name \<noteq> [] \<and> letter (hd name) \<and> s \<noteq> [] \<and> hd s = 61 \<and> v \<noteq> [] \<and> list_all gap rest
         then Some (indent, name, v, rest) else None)"

text \<open>\<open>re.search(rb"--" + key + rb"\b", line)\<close>; every key ends with a word byte.\<close>

definition mentions :: "bytes \<Rightarrow> bytes \<Rightarrow> bool" where
  "mentions key l \<longleftrightarrow>
     list_ex (\<lambda>i. prefix ([45, 45] @ key) (drop i l) \<and> (case drop (i + 2 + length key) l of [] \<Rightarrow> True | b # _ \<Rightarrow> \<not> word_byte b)) [0..<length l]"

subsection \<open>Inspection\<close>

type_synonym settings = "(bytes \<times> bytes) list"

definition inspect_line :: "bytes \<Rightarrow> settings \<Rightarrow> string + settings" where
  "inspect_line raw found =
     (let stripped = strip_by gap raw in
      if stripped = [] \<or> hd stripped = 35 then Inr found
      else case match_line raw of
        None \<Rightarrow> if list_ex (\<lambda>k. mentions k stripped) (map fst KEYS) then Inl ''ambiguous active TSR config line'' else Inr found
      | Some (_, key, v, _) \<Rightarrow>
          if key \<notin> fst ` set KEYS then Inr found
          else if key \<in> fst ` set found then Inl ''duplicate active TSR key''
          else if list_ex (\<lambda>b. 128 \<le> b) v then Inl ''UnicodeDecodeError''
          else (case validate_value key v of Some e \<Rightarrow> Inl e | None \<Rightarrow> Inr (found @ [(key, v)])))"

fun inspect_lines :: "bytes list \<Rightarrow> settings \<Rightarrow> string + settings" where
  "inspect_lines [] found = Inr found"
| "inspect_lines (l # ls) found = (case inspect_line l found of Inl e \<Rightarrow> Inl e | Inr f \<Rightarrow> inspect_lines ls f)"

definition inspect_config :: "bytes \<Rightarrow> string + settings" where
  "inspect_config data = inspect_lines (map line_body (lines_keep data)) []"

subsection \<open>Applying a profile\<close>

fun profile_item :: "pyval \<times> pyval \<Rightarrow> string + bytes \<times> bytes" where
  "profile_item (PStr k, PStr v) =
     (case validate_value (bytes_of k) (bytes_of v) of Some e \<Rightarrow> Inl e | None \<Rightarrow> Inr (bytes_of k, bytes_of v))"
| "profile_item _ = Inl ''profile keys/values must be strings''"

definition load_profile :: "pyval \<Rightarrow> string + settings" where
  "load_profile v = (case v of PDict (x # xs) \<Rightarrow> collect profile_item (x # xs) | _ \<Rightarrow> Inl ''profile must be a nonempty object'')"

text \<open>\<open>{**before, **profile}\<close> for a profile whose keys are all present.\<close>

definition merged :: "settings \<Rightarrow> settings \<Rightarrow> settings" where
  "merged before prof = map (\<lambda>(k, v). (k, case map_of prof k of Some w \<Rightarrow> w | None \<Rightarrow> v)) before"

definition MIN_MAX :: "(bytes \<times> bytes) list" where
  "MIN_MAX = [(bytes_of ''tsrw_sli_speed_min_thresh'', bytes_of ''tsrw_sli_speed_max_thresh''),
     (bytes_of ''tsrw_sli_host_speed_min_thresh'', bytes_of ''tsrw_sli_host_speed_max_thresh'')]"

definition exceeds :: "settings \<Rightarrow> bytes \<times> bytes \<Rightarrow> bool" where
  "exceeds after p =
     (case (map_of after (fst p), map_of after (snd p)) of
        (Some lo, Some hi) \<Rightarrow> float_units hi < float_units lo
      | _ \<Rightarrow> False)"

definition edit_line :: "settings \<Rightarrow> bytes \<Rightarrow> bytes" where
  "edit_line prof line =
     (case match_line (butlast line) of
        Some (indent, key, v, rest) \<Rightarrow>
          (case map_of prof key of
             Some w \<Rightarrow> indent @ [45, 45] @ key @ [61] @ w @ rest @ [10]
           | None \<Rightarrow> line)
      | None \<Rightarrow> line)"

definition line_change :: "settings \<Rightarrow> settings \<Rightarrow> bytes \<Rightarrow> (bytes \<times> bytes \<times> bytes) list" where
  "line_change before prof line =
     (case match_line (butlast line) of
        Some (_, key, _, _) \<Rightarrow>
          (case (map_of prof key, map_of before key) of
             (Some w, Some v) \<Rightarrow> if v \<noteq> w then [(key, v, w)] else []
           | _ \<Rightarrow> [])
      | None \<Rightarrow> [])"

definition outside :: "settings \<Rightarrow> bytes \<Rightarrow> bytes" where
  "outside prof blob =
     concat (filter (\<lambda>line. case match_line (butlast line) of Some (_, key, _, _) \<Rightarrow> key \<notin> fst ` set prof | None \<Rightarrow> True) (lines_keep blob))"

text \<open>\<open>base64.encodebytes\<close>, and \<open>base64.b64decode\<close> without validation: other bytes are skipped, a completed padding ends the data.\<close>

function encodebytes :: "bytes \<Rightarrow> bytes" where
  "encodebytes data = (if data = [] then [] else b64encode (take 57 data) @ [10] @ encodebytes (drop 57 data))"
  by pat_completeness auto
termination by (relation "measure length") auto

declare encodebytes.simps [simp del]

fun lenient :: "nat \<Rightarrow> nat \<Rightarrow> nat \<Rightarrow> bytes \<Rightarrow> bytes option" where
  "lenient quad left pads [] = (if quad = 0 then Some [] else None)"
| "lenient quad left pads (b # bs) =
     (if b = PAD then
        (if 2 \<le> quad \<and> 4 \<le> quad + Suc pads then Some [] else lenient quad left (if 2 \<le> quad then Suc pads else pads) bs)
      else case dec6 b of
        None \<Rightarrow> lenient quad left pads bs
      | Some n \<Rightarrow>
          if quad = 0 then lenient 1 n 0 bs
          else if quad = 1 then map_option (\<lambda>r. oct1 left n # r) (lenient 2 n 0 bs)
          else if quad = 2 then map_option (\<lambda>r. oct2 left n # r) (lenient 3 n 0 bs)
          else map_option (\<lambda>r. oct3 left n # r) (lenient 0 0 0 bs))"

definition apply_profile :: "bytes \<Rightarrow> pyval \<Rightarrow> string + bytes \<times> (bytes \<times> bytes \<times> bytes) list" where
  "apply_profile data profile =
     (case load_profile profile of
        Inl e \<Rightarrow> Inl e
      | Inr prof \<Rightarrow>
          (case inspect_config data of
             Inl e \<Rightarrow> Inl e
           | Inr before \<Rightarrow>
               if \<not> fst ` set prof \<subseteq> fst ` set before then Inl ''requested TSR key absent: no implicit insertion''
               else if list_ex (exceeds (merged before prof)) MIN_MAX then Inl ''TSR minimum exceeds maximum''
               else
                 (let result = concat (map (edit_line prof) (lines_keep data)) in
                  case inspect_config result of
                    Inl e \<Rightarrow> Inl e
                  | Inr found \<Rightarrow>
                      if outside prof data \<noteq> outside prof result \<or> set found \<noteq> set (merged before prof)
                      then Inl ''non-TSR byte-preservation invariant failed''
                      else if lenient 0 0 0 (encodebytes result) \<noteq> Some result then Inl ''encoded/decoded consistency failed''
                      else Inr (result, concat (map (line_change before prof) (lines_keep data))))))"

text \<open>\<open>main\<close>: what is printed or staged. The outer \<open>option\<close>: whether a profile is given; the inner one: whether it is JSON.
  The flag: an output directory is given, one that does not exist yet (otherwise \<open>mkdir\<close> raises, which is BLOCK too).\<close>

datatype outcome = Inspected settings | Staged bytes bytes "(bytes \<times> bytes \<times> bytes) list"

definition profile_main :: "bytes \<Rightarrow> bool \<Rightarrow> pyval option option \<Rightarrow> bool \<Rightarrow> string + outcome" where
  "profile_main raw encoded profile out_dir =
     (case decode_source raw encoded of
        Inl e \<Rightarrow> Inl e
      | Inr data \<Rightarrow>
          (case inspect_config data of
             Inl e \<Rightarrow> Inl e
           | Inr found \<Rightarrow>
               (case profile of
                  None \<Rightarrow> if out_dir then Inl ''out-dir requires a profile'' else Inr (Inspected found)
                | Some p \<Rightarrow>
                    if \<not> out_dir then Inl ''profile requires private out-dir''
                    else (case p of
                        None \<Rightarrow> Inl ''JSONDecodeError''
                      | Some v \<Rightarrow> map_sum id (\<lambda>(result, changes). Staged result (encodebytes result) changes) (apply_profile data v)))))"

subsection \<open>Lines\<close>

definition join_lines :: "bytes list \<Rightarrow> bytes" where "join_lines ls = concat (map (\<lambda>l. l @ [10]) ls)"

definition one_line :: "bytes \<Rightarrow> bool" where "one_line l \<longleftrightarrow> 10 \<notin> set l \<and> 13 \<notin> set l"

lemma lines_keep_first: "one_line l \<Longrightarrow> lines_keep (l @ 10 # r) = (l @ [10]) # lines_keep r"
  by (induction l) (auto simp: one_line_def)

lemma lines_keep_join: "list_all one_line ls \<Longrightarrow> lines_keep (join_lines ls) = map (\<lambda>l. l @ [10]) ls"
  by (induction ls) (simp_all add: join_lines_def lines_keep_first)

lemma line_body_join: "one_line l \<Longrightarrow> line_body (l @ [10]) = l"
  by (auto simp: line_body_def one_line_def takeWhile_append)

lemma lines_exist: "13 \<notin> set data \<Longrightarrow> data = [] \<or> last data = 10 \<Longrightarrow> \<exists>ls. data = join_lines ls \<and> list_all one_line ls"
proof -
  assume cr: "13 \<notin> set data" and lf: "data = [] \<or> last data = 10"
  have "\<exists>ls part. data = join_lines ls @ part \<and> list_all one_line ls \<and> one_line part" using cr
  proof (induction data)
    case Nil
    show ?case by (rule exI [of _ "[]"]) (simp add: join_lines_def one_line_def)
  next
    case (Cons b data)
    then obtain ls part where p: "data = join_lines ls @ part" "list_all one_line ls" "one_line part" by auto
    have step: "join_lines (l # ls) = l @ 10 # join_lines ls" for l ls by (simp add: join_lines_def)
    have nil: "join_lines [] = []" by (simp add: join_lines_def)
    have one: "one_line []" "one_line (b # l) \<longleftrightarrow> b \<noteq> 10 \<and> b \<noteq> 13 \<and> one_line l" for l by (auto simp: one_line_def)
    have b: "b \<noteq> 13" using Cons.prems by simp
    consider "b = 10" | "b \<noteq> 10" "ls = []" | l ls' where "b \<noteq> 10" "ls = l # ls'" by (cases ls) auto
    then show ?case
    proof cases
      case 1
      then show ?thesis using p by (intro exI [of _ "[] # ls"] exI [of _ part]) (simp add: step one)
    next
      case 2
      then show ?thesis using p b by (intro exI [of _ "[]"] exI [of _ "b # part"]) (simp add: one nil)
    next
      case 3
      then show ?thesis using p b by (intro exI [of _ "(b # l) # ls'"] exI [of _ part]) (simp add: step one)
    qed
  qed
  then obtain ls part where p: "data = join_lines ls @ part" "list_all one_line ls" "one_line part" by blast
  have "part = []" using p(1,3) lf last_in_set [of part] by (cases "part = []") (auto simp: one_line_def)
  then show ?thesis using p by auto
qed

subsection \<open>The regular expression of a line\<close>

lemma takeWhile_run: "list_all P xs \<Longrightarrow> ys = [] \<or> \<not> P (hd ys) \<Longrightarrow> takeWhile P (xs @ ys) = xs \<and> dropWhile P (xs @ ys) = ys"
  by (induction xs) (cases ys; simp)+

definition parts_ok :: "bytes \<Rightarrow> bytes \<Rightarrow> bytes \<Rightarrow> bytes \<Rightarrow> bool" where
  "parts_ok indent key v rest \<longleftrightarrow> list_all gap indent \<and> key \<noteq> [] \<and> letter (hd key) \<and> list_all word_byte key
     \<and> v \<noteq> [] \<and> list_all plain_byte v \<and> list_all gap rest"

lemma match_line_iff:
  "match_line l = Some (indent, key, v, rest) \<longleftrightarrow> l = indent @ [45, 45] @ key @ [61] @ v @ rest \<and> parts_ok indent key v rest"
proof
  assume m: "match_line l = Some (indent, key, v, rest)"
  let ?r = "dropWhile gap l" let ?s = "dropWhile word_byte (drop 2 ?r)"
  have g: "indent = takeWhile gap l" "key = takeWhile word_byte (drop 2 ?r)" "v = takeWhile plain_byte (tl ?s)" "rest = dropWhile plain_byte (tl ?s)"
    "take 2 ?r = [45, 45]" "key \<noteq> []" "letter (hd key)" "?s \<noteq> []" "hd ?s = 61" "v \<noteq> []" "list_all gap rest"
    using m by (auto simp: match_line_def Let_def split: if_splits)
  have "l = indent @ take 2 ?r @ key @ [hd ?s] @ v @ rest" unfolding g(1-4) using g(8) by simp
  moreover have "list_all gap indent" "list_all word_byte key" "list_all plain_byte v"
    unfolding g(1-3) by (auto simp: list_all_iff dest: set_takeWhileD)
  ultimately show "l = indent @ [45, 45] @ key @ [61] @ v @ rest \<and> parts_ok indent key v rest"
    using g by (simp add: parts_ok_def)
next
  assume "l = indent @ [45, 45] @ key @ [61] @ v @ rest \<and> parts_ok indent key v rest"
  then have l: "l = indent @ [45, 45] @ key @ [61] @ v @ rest" and ok: "parts_ok indent key v rest" by simp_all
  have "\<not> gap 45" "\<not> word_byte 61" by (simp_all add: gap_def word_byte_def letter_def digit_def)
  moreover have "rest = [] \<or> \<not> plain_byte (hd rest)" using ok by (cases rest) (auto simp: parts_ok_def gap_def plain_byte_def)
  ultimately have "takeWhile gap l = indent" "dropWhile gap l = [45, 45] @ key @ [61] @ v @ rest"
    "takeWhile word_byte (key @ [61] @ v @ rest) = key" "dropWhile word_byte (key @ [61] @ v @ rest) = [61] @ v @ rest"
    "takeWhile plain_byte (v @ rest) = v" "dropWhile plain_byte (v @ rest) = rest"
    using takeWhile_run [of gap indent "[45, 45] @ key @ [61] @ v @ rest"] takeWhile_run [of word_byte key "[61] @ v @ rest"]
      takeWhile_run [of plain_byte v rest] ok by (simp_all add: l parts_ok_def)
  moreover from this(2) have "drop 2 (dropWhile gap l) = key @ [61] @ v @ rest" "take 2 (dropWhile gap l) = [45, 45]" by simp_all
  ultimately show "match_line l = Some (indent, key, v, rest)" using ok unfolding match_line_def Let_def by (simp only:) (simp add: parts_ok_def)
qed

lemma strip_match:
  assumes "match_line l = Some (indent, key, v, rest)"
  shows "strip_by gap l \<noteq> [] \<and> hd (strip_by gap l) = 45"
proof -
  have l: "l = indent @ [45, 45] @ key @ [61] @ v @ rest" and ok: "parts_ok indent key v rest" using assms by (simp_all add: match_line_iff)
  have g: "\<not> gap 45" by (simp add: gap_def)
  have d: "dropWhile gap l = 45 # ([45] @ key @ [61] @ v @ rest)"
    using takeWhile_run [of gap indent "[45, 45] @ key @ [61] @ v @ rest"] ok g by (simp add: l parts_ok_def)
  have "strip_by gap l = 45 # rev (dropWhile gap (rev ([45] @ key @ [61] @ v @ rest))) \<or> strip_by gap l = [45]"
    unfolding strip_by_def d using g by (simp add: dropWhile_append3 dropWhile_append)
  then show ?thesis by auto
qed

subsection \<open>Values\<close>

lemma plain_value:
  assumes "validate_value key v = None"
  shows "v \<noteq> [] \<and> list_all plain_byte v \<and> list_all (\<lambda>b. 0 < b \<and> b < 128) v \<and> key \<in> fst ` set KEYS"
proof -
  obtain kind where k: "map_of KEYS key = Some kind" using assms by (cases "map_of KEYS key") (auto simp: validate_value_def)
  then have key: "key \<in> fst ` set KEYS" by (metis domI dom_map_of_conv_image_fst)
  have d: "plain_byte b \<and> 0 < b \<and> b < 128" if "digit b \<or> b = 46" for b
    using that by (auto simp: digit_def plain_byte_def word_le_nat_alt word_less_nat_alt)
  have "v \<noteq> [] \<and> list_all (\<lambda>b. plain_byte b \<and> 0 < b \<and> b < 128) v"
  proof (cases kind)
    case None
    then have "v = bytes_of ''true'' \<or> v = bytes_of ''false''" using assms k by (auto simp: validate_value_def split: if_splits)
    then show ?thesis by (auto simp: bytes_of_def plain_byte_def)
  next
    case (Some lh)
    then have n: "number_ok v" using assms k by (cases lh) (auto simp: validate_value_def split: if_splits)
    have "list_all digit (takeWhile digit v)" by (auto simp: list_all_iff dest: set_takeWhileD)
    moreover have "dropWhile digit v = [] \<or> (\<exists>r. dropWhile digit v = 46 # r \<and> list_all digit r)"
      using n by (cases "dropWhile digit v") (auto simp: number_ok_def Let_def)
    ultimately obtain a r where "v = a @ r" "list_all digit a" "r = [] \<or> (\<exists>q. r = 46 # q \<and> list_all digit q)"
      by (metis takeWhile_dropWhile_id)
    then have "list_all (\<lambda>b. digit b \<or> b = 46) v" by (auto simp: list_all_iff)
    moreover have "v \<noteq> []" using n by (auto simp: number_ok_def)
    ultimately show ?thesis using d by (auto simp: list_all_iff)
  qed
  then show ?thesis using key by (auto simp: list_all_iff)
qed

subsection \<open>The edited file\<close>

definition edit_raw :: "settings \<Rightarrow> bytes \<Rightarrow> bytes" where "edit_raw prof l = butlast (edit_line prof (l @ [10]))"

definition prof_ok :: "settings \<Rightarrow> bool" where "prof_ok prof \<longleftrightarrow> list_all (\<lambda>(k, w). validate_value k w = None) prof"

lemma prof_value: "prof_ok prof \<Longrightarrow> map_of prof k = Some w \<Longrightarrow> validate_value k w = None"
  using map_of_SomeD [of prof k w] by (auto simp: prof_ok_def list_all_iff)

lemma edit_raw_cases:
  assumes "prof_ok prof"
  obtains (same) "edit_raw prof l = l" "edit_line prof (l @ [10]) = l @ [10]"
      "\<And>indent key v rest. match_line l = Some (indent, key, v, rest) \<Longrightarrow> map_of prof key = None"
    | (edited) indent key v rest w where "match_line l = Some (indent, key, v, rest)" "map_of prof key = Some w"
      "edit_raw prof l = indent @ [45, 45] @ key @ [61] @ w @ rest" "edit_line prof (l @ [10]) = edit_raw prof l @ [10]"
      "match_line (edit_raw prof l) = Some (indent, key, w, rest)"
proof (cases "match_line l")
  case None
  then show thesis by (intro same) (simp_all add: edit_raw_def edit_line_def)
next
  case (Some x)
  then obtain indent key v rest where m: "match_line l = Some (indent, key, v, rest)" by (cases x) auto
  show thesis
  proof (cases "map_of prof key")
    case None
    then show thesis using m by (intro same) (simp_all add: edit_raw_def edit_line_def)
  next
    case (Some w)
    have e: "edit_raw prof l = indent @ [45, 45] @ key @ [61] @ w @ rest" by (simp add: edit_raw_def edit_line_def m Some butlast_append)
    have "parts_ok indent key w rest" using m plain_value [OF prof_value [OF assms Some]] by (simp add: match_line_iff parts_ok_def)
    then have "match_line (edit_raw prof l) = Some (indent, key, w, rest)" unfolding e by (simp only: match_line_iff)
    then show thesis using m Some e by (intro edited) (simp_all add: edit_line_def)
  qed
qed

lemma edit_line_raw: "prof_ok prof \<Longrightarrow> edit_line prof (l @ [10]) = edit_raw prof l @ [10]"
  by (rule edit_raw_cases [of prof l]) simp_all

lemma edited_one_line:
  assumes "prof_ok prof" "one_line l" shows "one_line (edit_raw prof l)"
  using assms(1)
proof (cases rule: edit_raw_cases [of prof l])
  case (edited indent key v rest w)
  have "list_all plain_byte w" using plain_value [OF prof_value [OF assms(1) edited(2)]] by simp
  then have "10 \<notin> set w" "13 \<notin> set w" by (auto simp: list_all_iff plain_byte_def)
  moreover have "one_line (indent @ [45, 45] @ key @ [61] @ v @ rest)" using assms(2) edited(1) by (simp add: match_line_iff)
  ultimately show ?thesis unfolding edited(3) by (simp add: one_line_def)
qed (use assms(2) in simp)

lemma merged_keys: "fst ` set (merged found prof) = fst ` set found"
  by (force simp: merged_def)

lemma inspect_edited_line:
  assumes "prof_ok prof" "inspect_line l found = Inr f"
  shows "inspect_line (edit_raw prof l) (merged found prof) = Inr (merged f prof)"
  using assms(1)
proof (cases rule: edit_raw_cases [of prof l])
  case same
  show ?thesis
  proof (cases "match_line l")
    case None
    then show ?thesis using assms(2) by (auto simp: inspect_line_def Let_def same(1) split: if_splits)
  next
    case (Some x)
    then obtain indent key v rest where m: "match_line l = Some (indent, key, v, rest)" by (cases x) auto
    have "merged (found @ [(key, v)]) prof = merged found prof @ [(key, v)]" using same(3) [OF m] by (simp add: merged_def)
    then show ?thesis using assms(2) by (auto simp: inspect_line_def Let_def same(1) m merged_keys split: if_splits option.splits)
  qed
next
  case (edited indent key v rest w)
  have w: "validate_value key w = None" using prof_value [OF assms(1) edited(2)] .
  have "\<not> list_ex (\<lambda>b. 128 \<le> b) w" "key \<in> fst ` set KEYS"
    using plain_value [OF w] by (auto simp: list_all_iff list_ex_iff not_le)
  moreover have "merged (found @ [(key, v)]) prof = merged found prof @ [(key, w)]" by (simp add: merged_def edited(2))
  ultimately show ?thesis using assms(2) strip_match [OF edited(1)] strip_match [OF edited(5)] w
    by (auto simp: inspect_line_def Let_def edited(1,5) merged_keys split: if_splits option.splits)
qed

lemma inspect_edited:
  assumes "prof_ok prof"
  shows "inspect_lines ls found = Inr f \<Longrightarrow> inspect_lines (map (edit_raw prof) ls) (merged found prof) = Inr (merged f prof)"
proof (induction ls arbitrary: found)
  case (Cons l ls)
  obtain g where g: "inspect_line l found = Inr g" "inspect_lines ls g = Inr f" using Cons.prems by (auto split: sum.splits)
  then show ?case using Cons.IH inspect_edited_line [OF assms g(1)] by simp
qed simp

text \<open>A valid file as its lines, and what the operations are on them.\<close>

lemma config_lines:
  assumes "decode_source raw encoded = Inr data"
  obtains ls where "data = join_lines ls" "list_all one_line ls" "utf8_valid data" "0 \<notin> set data" "data \<noteq> []" "length data \<le> MAX_BYTES"
proof -
  have d: "13 \<notin> set data" "last data = 10" "utf8_valid data" "0 \<notin> set data" "data \<noteq> []" "length data \<le> MAX_BYTES"
    using assms by (auto simp: decode_source_def not_less split: if_splits option.splits)
  then obtain ls where "data = join_lines ls" "list_all one_line ls" using lines_exist [of data] by blast
  then show thesis using d that by blast
qed

lemma inspect_join: "list_all one_line ls \<Longrightarrow> inspect_config (join_lines ls) = inspect_lines ls []"
proof -
  assume a: "list_all one_line ls"
  have "map line_body (map (\<lambda>l. l @ [10]) ls) = ls" using a by (induction ls) (simp_all add: line_body_join)
  then show ?thesis by (simp add: inspect_config_def lines_keep_join [OF a] del: map_map)
qed

lemma edit_join:
  "prof_ok prof \<Longrightarrow> list_all one_line ls \<Longrightarrow> concat (map (edit_line prof) (lines_keep (join_lines ls))) = join_lines (map (edit_raw prof) ls)"
  by (simp only: lines_keep_join) (simp add: join_lines_def comp_def edit_line_raw)

lemma edited_lines: "prof_ok prof \<Longrightarrow> list_all one_line ls \<Longrightarrow> list_all one_line (map (edit_raw prof) ls)"
  using edited_one_line by (auto simp: list_all_iff)

lemma outside_edited:
  assumes "prof_ok prof" "list_all one_line ls"
  shows "outside prof (join_lines (map (edit_raw prof) ls)) = outside prof (join_lines ls)"
proof -
  let ?keep = "\<lambda>l. case match_line l of Some (_, key, _, _) \<Rightarrow> key \<notin> fst ` set prof | None \<Rightarrow> True"
  have o: "outside prof (join_lines ls) = concat (map (\<lambda>l. l @ [10]) (filter ?keep ls))" if "list_all one_line ls" for ls
    using that by (simp add: outside_def lines_keep_join filter_map comp_def)
  have "filter ?keep (map (edit_raw prof) ls) = filter ?keep ls"
  proof (induction ls)
    case (Cons l ls)
    from assms(1) show ?case
    proof (cases rule: edit_raw_cases [of prof l])
      case (edited indent key v rest w)
      have "key \<in> fst ` set prof" using edited(2) by (metis domI dom_map_of_conv_image_fst)
      then show ?thesis using Cons by (simp add: edited(1,5))
    qed (simp add: Cons)
  qed simp
  then show ?thesis using o [OF assms(2)] o [OF edited_lines [OF assms]] by simp
qed

subsection \<open>The staged base64 file\<close>

lemma encode_append: "length a mod 3 = 0 \<Longrightarrow> b64encode (a @ b) = b64encode a @ b64encode b"
proof (induction a rule: b64encode.induct)
  case (1 x y z r)
  then show ?case by (simp add: mod_Suc split: if_splits)
qed simp_all

lemma encode_space: "filter (\<lambda>b. b \<notin> {32, 9, 13, 10}) (b64encode x) = b64encode x"
proof -
  have "b \<notin> {32, 9, 13, 10}" if "b \<in> set (b64encode x)" for b using b64encode_printable [OF that] by auto
  then show ?thesis by (simp add: filter_id_conv)
qed

lemma encodebytes_compact: "filter (\<lambda>b. b \<notin> {32, 9, 13, 10}) (encodebytes x) = b64encode x"
proof (induction x rule: encodebytes.induct)
  case (1 data)
  show ?case
  proof (cases "data = []")
    case True
    then show ?thesis by (simp add: encodebytes.simps [of "[]"])
  next
    case False
    have "b64encode data = b64encode (take 57 data) @ b64encode (drop 57 data)"
    proof (cases "57 \<le> length data")
      case True
      then show ?thesis using encode_append [of "take 57 data" "drop 57 data"] by simp
    qed simp
    then show ?thesis using 1 [OF False] False by (subst encodebytes.simps) (simp only: if_False filter_append encode_space, simp)
  qed
qed

lemma lenient_group:
  "lenient 0 0 0 (b64encode (a # b # c # r) @ s) = map_option (\<lambda>t. a # b # c # t) (lenient 0 0 0 (b64encode r @ s))"
  by (simp add: option.map_comp comp_def)

lemma lenient_tail: "lenient 0 0 0 (b64encode [a, b] @ s) = Some [a, b]" "lenient 0 0 0 (b64encode [a] @ s) = Some [a]"
  by simp_all

lemma lenient_encode_lf:
  "length x mod 3 = 0 \<or> s = [] \<Longrightarrow> lenient 0 0 0 (b64encode x @ 10 # s) = map_option (\<lambda>t. x @ t) (lenient 0 0 0 s)"
proof (induction x rule: b64encode.induct)
  case (1 a b c r)
  then have "length r mod 3 = 0 \<or> s = []" by (auto simp: mod_Suc split: if_splits)
  then show ?case using 1 by (simp only: lenient_group) (simp add: option.map_comp comp_def)
next
  case (2 a b)
  then show ?case by (simp only: lenient_tail) simp
next
  case (3 a)
  then show ?case by (simp only: lenient_tail) simp
next
  case 4
  have "dec6 10 = None" "(10 :: byte) \<noteq> PAD" by (simp_all add: dec6_def PAD_def)
  then show ?case by (simp add: option.map_ident)
qed

lemma lenient_encodebytes: "lenient 0 0 0 (encodebytes x) = Some x"
proof (induction x rule: encodebytes.induct)
  case (1 data)
  show ?case
  proof (cases "data = []")
    case False
    have e: "encodebytes data = b64encode (take 57 data) @ 10 # encodebytes (drop 57 data)" using False by (subst encodebytes.simps) simp
    have "length (take 57 data) mod 3 = 0 \<or> encodebytes (drop 57 data) = []"
      using encodebytes.simps [of "[]"] by (cases "57 \<le> length data") simp_all
    then have "lenient 0 0 0 (encodebytes data) = map_option (\<lambda>t. take 57 data @ t) (lenient 0 0 0 (encodebytes (drop 57 data)))"
      unfolding e by (rule lenient_encode_lf)
    then show ?thesis by (simp only: 1 [OF False] option.map append_take_drop_id)
  qed (simp add: encodebytes.simps [of "[]"])
qed

subsection \<open>Valid UTF-8\<close>

lemma ascii_no_cont: "b < 128 \<Longrightarrow> \<not> cont_byte b \<and> b \<le> 0x7F"
  by (auto simp: cont_byte_def word_le_nat_alt word_less_nat_alt)

lemma utf8_ascii_split: "b < 128 \<Longrightarrow> utf8_valid (xs @ b # ys) \<longleftrightarrow> utf8_valid xs \<and> utf8_valid ys"
proof (induction xs rule: utf8_valid.induct)
  case 1
  then show ?case using ascii_no_cont by simp
next
  case (2 a s)
  note nc = ascii_no_cont [OF "2.prems"]
  consider "a \<le> 0x7F" | "\<not> a \<le> 0x7F" "s = []" | c where "\<not> a \<le> 0x7F" "s = [c]" | c d where "\<not> a \<le> 0x7F" "s = [c, d]"
    | c d e t where "\<not> a \<le> 0x7F" "s = c # d # e # t" by (metis list.exhaust)
  then show ?case
    by cases (use 2 nc in \<open>auto split: list.splits\<close>)
qed

lemma utf8_ascii: "list_all (\<lambda>b. b < 128) xs \<Longrightarrow> utf8_valid xs"
proof (induction xs)
  case (Cons b xs)
  then show ?case using utf8_ascii_split [of b "[]" xs] by simp
qed simp

lemma utf8_lines: "utf8_valid (join_lines ls) \<longleftrightarrow> list_all utf8_valid ls"
proof (induction ls)
  case (Cons l ls)
  have "join_lines (l # ls) = l @ 10 # join_lines ls" by (simp add: join_lines_def)
  then show ?case using Cons utf8_ascii_split [of 10 l "join_lines ls"] by simp
qed (simp add: join_lines_def)

lemma ascii_parts: "gap b \<or> word_byte b \<Longrightarrow> 0 < b \<and> b < 128"
  by (auto simp: gap_def word_byte_def letter_def digit_def word_le_nat_alt word_less_nat_alt)

lemma edited_text:
  assumes "prof_ok prof" "utf8_valid l" "0 \<notin> set l"
  shows "utf8_valid (edit_raw prof l) \<and> 0 \<notin> set (edit_raw prof l)"
  using assms(1)
proof (cases rule: edit_raw_cases [of prof l])
  case (edited indent key v rest w)
  have "list_all (\<lambda>b. 0 < b \<and> b < 128) w" using plain_value [OF prof_value [OF assms(1) edited(2)]] by simp
  moreover have "list_all (\<lambda>b. 0 < b \<and> b < 128) (indent @ key @ rest)"
    using edited(5) ascii_parts by (auto simp: match_line_iff parts_ok_def list_all_iff)
  ultimately have "list_all (\<lambda>b. 0 < b \<and> b < 128) (edit_raw prof l)" unfolding edited(3) by simp
  then show ?thesis by (auto simp: list_all_iff intro: utf8_ascii)
qed (use assms in simp)

subsection \<open>The operation\<close>

lemma collect_all: "collect f xs = Inr ys \<Longrightarrow> y \<in> set ys \<Longrightarrow> \<exists>x \<in> set xs. f x = Inr y"
proof (induction xs arbitrary: ys)
  case (Cons x xs)
  then show ?case by (cases "f x"; cases "collect f xs") auto
qed simp

lemma load_profile_ok: "load_profile v = Inr prof \<Longrightarrow> prof_ok prof"
proof -
  assume "load_profile v = Inr prof"
  then obtain xs where "collect profile_item xs = Inr prof"
    by (auto simp del: collect.simps simp: load_profile_def split: pyval.splits list.splits)
  then have "\<exists>x \<in> set xs. profile_item x = Inr kw" if "kw \<in> set prof" for kw using collect_all that by fast
  moreover have "validate_value (fst kw) (snd kw) = None" if "profile_item x = Inr kw" for x kw
    using that by (cases x rule: profile_item.cases) (auto split: option.splits)
  ultimately have "validate_value (fst kw) (snd kw) = None" if "kw \<in> set prof" for kw using that by metis
  then show ?thesis by (auto simp: prof_ok_def list_all_iff)
qed

lemma applied:
  assumes data: "data = join_lines ls" "list_all one_line ls" and prof: "load_profile profile = Inr prof"
    and before: "inspect_config data = Inr before" "fst ` set prof \<subseteq> fst ` set before" "\<not> list_ex (exceeds (merged before prof)) MIN_MAX"
  shows "apply_profile data profile = Inr (join_lines (map (edit_raw prof) ls), concat (map (line_change before prof) (lines_keep data)))"
    and "inspect_config (join_lines (map (edit_raw prof) ls)) = Inr (merged before prof)"
proof -
  have ok: "prof_ok prof" using prof by (rule load_profile_ok)
  have "inspect_lines (map (edit_raw prof) ls) (merged [] prof) = Inr (merged before prof)"
    using inspect_edited [OF ok, of ls "[]"] before(1) by (simp add: data inspect_join)
  then show i: "inspect_config (join_lines (map (edit_raw prof) ls)) = Inr (merged before prof)"
    using inspect_join [OF edited_lines [OF ok data(2)]] by (simp add: merged_def)
  have "concat (map (edit_line prof) (lines_keep data)) = join_lines (map (edit_raw prof) ls)"
    unfolding data(1) by (rule edit_join [OF ok data(2)])
  then show "apply_profile data profile = Inr (join_lines (map (edit_raw prof) ls), concat (map (line_change before prof) (lines_keep data)))"
    using outside_edited [OF ok data(2)] before by (simp add: apply_profile_def prof i lenient_encodebytes data(1) [symmetric] Let_def)
qed

subsection \<open>A file of one setting\<close>

definition demo_flags :: bytes where "demo_flags = bytes_of ''# flags'' @ [10] @ bytes_of ''--enable_tsr=false'' @ [10]"
definition demo_result :: bytes where "demo_result = bytes_of ''# flags'' @ [10] @ bytes_of ''--enable_tsr=true'' @ [10]"
definition demo_coded :: bytes where "demo_coded = bytes_of ''IyBmbGFncwotLWVuYWJsZV90c3I9dHJ1ZQo='' @ [10]"
definition demo_profile :: pyval where "demo_profile = PDict [(PStr ''enable_tsr'', PStr ''true'')]"
definition demo_prof :: settings where "demo_prof = [(bytes_of ''enable_tsr'', bytes_of ''true'')]"
definition demo_before :: settings where "demo_before = [(bytes_of ''enable_tsr'', bytes_of ''false'')]"
definition demo_changes :: "(bytes \<times> bytes \<times> bytes) list" where
  "demo_changes = [(bytes_of ''enable_tsr'', bytes_of ''false'', bytes_of ''true'')]"

lemma demo_source: "decode_source demo_flags False = Inr demo_flags"
proof -
  have "demo_flags \<noteq> []" "0 \<notin> set demo_flags" "13 \<notin> set demo_flags" "utf8_valid demo_flags" "last demo_flags = 10" by code_simp+
  moreover have "length demo_flags \<le> MAX_BYTES" by (simp add: demo_flags_def MAX_BYTES_def bytes_of_def)
  ultimately show ?thesis by (simp add: decode_source_def)
qed


lemma demo_load: "load_profile demo_profile = Inr demo_prof" by code_simp
lemma demo_settings: "inspect_config demo_flags = Inr demo_before" by code_simp
lemma demo_present: "fst ` set demo_prof \<subseteq> fst ` set demo_before" by (simp add: demo_prof_def demo_before_def)
lemma demo_bounds: "\<not> list_ex (exceeds (merged demo_before demo_prof)) MIN_MAX" by code_simp
lemma demo_edit: "demo_result = concat (map (edit_line demo_prof) (lines_keep demo_flags))" by code_simp
lemma demo_change: "demo_changes = concat (map (line_change demo_before demo_prof) (lines_keep demo_flags))" by code_simp

lemmas demo_facts = demo_load demo_settings demo_present demo_bounds demo_edit demo_change

lemma demo_applied: "apply_profile demo_flags demo_profile = Inr (demo_result, demo_changes)"
proof -
  obtain ls where ls: "demo_flags = join_lines ls" "list_all one_line ls" using demo_source by (rule config_lines)
  show ?thesis using applied(1) [OF ls demo_facts(1-4)] edit_join [OF load_profile_ok [OF demo_facts(1)] ls(2)] demo_facts(5,6) by (simp add: ls(1))
qed



text \<open>C37. The two staged files agree: read again as a stock flag file, the staged base64 file is accepted, decodes to the staged plain
  file, and an inspection shows the old settings with those of the profile, unless the base64 file exceeds the input bound.\<close>

theorem staged_reread:
  assumes "profile_main raw encoded (Some (Some profile)) True = Inr (Staged plain coded changes)" and "length coded \<le> MAX_BYTES"
  shows "decode_source coded True = Inr plain
     \<and> (\<exists>prof before. load_profile profile = Inr prof \<and> profile_main raw encoded None False = Inr (Inspected before)
          \<and> profile_main coded True None False = Inr (Inspected (merged before prof)))"
proof -
  obtain data where d1: "decode_source raw encoded = Inr data"
    using assms(1) by (cases "decode_source raw encoded") (simp_all add: profile_main_def)
  obtain before where d2: "inspect_config data = Inr before"
    using assms(1) by (cases "inspect_config data") (simp_all add: profile_main_def d1)
  have d3: "apply_profile data profile = Inr (plain, changes)" "coded = encodebytes plain"
    using assms(1) by (cases "apply_profile data profile"; auto simp: profile_main_def d1 d2)+
  note d = d1 d2 d3
  obtain prof where prof: "load_profile profile = Inr prof"
    using d3(1) by (cases "load_profile profile") (simp_all add: apply_profile_def)
  have "fst ` set prof \<subseteq> fst ` set before" "\<not> list_ex (exceeds (merged before prof)) MIN_MAX"
    using d3(1) unfolding apply_profile_def prof d2 sum.case by (metis Inl_Inr_False)+
  note p = prof this
  obtain ls where ls: "data = join_lines ls" "list_all one_line ls" "utf8_valid data" "0 \<notin> set data" "data \<noteq> []" using d(1) by (rule config_lines)
  note ok = load_profile_ok [OF p(1)]
  let ?es = "map (edit_raw prof) ls"
  have plain: "plain = join_lines ?es" using applied(1) [OF ls(1,2) p(1) d(2) p(2,3)] d(3) by simp
  have "ls \<noteq> []" using ls(1,5) by (auto simp: join_lines_def)
  then obtain es e where es: "?es = es @ [e]" by (metis map_is_Nil_conv rev_exhaust)
  have chars: "utf8_valid l \<and> 0 \<notin> set l" if "l \<in> set ls" for l
    using ls(3,4) that by (auto simp: ls(1) utf8_lines list_all_iff) (auto simp: join_lines_def split: if_splits)
  have "list_all (\<lambda>l. utf8_valid l \<and> 0 \<notin> set l) ?es" using chars edited_text [OF ok] by (auto simp: list_all_iff)
  then have u: "utf8_valid plain" "0 \<notin> set plain"
    unfolding plain by (auto simp: utf8_lines list_all_iff) (auto simp: join_lines_def split: if_splits)
  have "13 \<notin> set plain" unfolding plain using edited_lines [OF ok ls(2)] by (auto simp: join_lines_def one_line_def list_all_iff)
  moreover have "last plain = 10" "plain \<noteq> []" by (simp_all add: plain es join_lines_def)
  moreover have len: "length (b64encode plain) \<le> length coded"
    unfolding d(4) encodebytes_compact [symmetric] by (rule length_filter_le)
  then have "length plain \<le> MAX_BYTES" using assms(2) by (simp add: length_b64encode)
  moreover have "coded \<noteq> []" using d(4) \<open>plain \<noteq> []\<close> by (subst (asm) encodebytes.simps) simp
  ultimately have dec: "decode_source coded True = Inr plain"
    using assms(2) u encodebytes_compact [of plain] by (simp add: decode_source_def d(4) b64decode_encode)
  have "inspect_config plain = Inr (merged before prof)" unfolding plain by (rule applied(2) [OF ls(1,2) p(1) d(2) p(2,3)])
  then show ?thesis using dec p(1) d(1,2) by (simp add: profile_main_def)
qed

theorem staged_reread_witness:
  "profile_main demo_coded True None False = Inr (Inspected demo_prof)"
proof -
  have n: "demo_result \<noteq> []" "take 57 demo_result = demo_result" "drop 57 demo_result = []" "b64encode demo_result @ [10] = demo_coded"
    by code_simp+
  have c: "encodebytes demo_result = demo_coded" using n encodebytes.simps [of "[]"] by (subst encodebytes.simps) simp
  have m: "profile_main demo_flags False (Some (Some demo_profile)) True = Inr (Staged demo_result demo_coded demo_changes)"
    by (simp add: profile_main_def demo_source demo_facts(2) demo_applied c)
  have "length demo_coded \<le> MAX_BYTES" by (simp add: demo_coded_def MAX_BYTES_def bytes_of_def)
  moreover have "merged demo_before demo_prof = demo_prof" by code_simp
  moreover have "profile_main demo_flags False None False = Inr (Inspected demo_before)"
    by (simp add: profile_main_def demo_source demo_facts(2))
  ultimately show ?thesis using staged_reread [OF m] demo_facts(1) by simp
qed

end
