(* ===== verification/AdbKey.thy ===== *)
theory AdbKey
  imports Base64
begin

text \<open>
  \<open>tools/m4/adb_owner_key.py\<close>: the encoding of an RSA public key for Android's debug bridge, the check of an encoded key, and the reader
  of the DER key that OpenSSL prints. The modulus and the exponent are naturals (the callers read them from bytes); errors are the
  \<open>ValueError\<close>s. The creation of the key (OpenSSL, the directory and its permissions) is not modelled: \<open>prepare_public\<close> starts from the
  DER bytes OpenSSL prints. MD5 is a parameter.

  Shown: the fields of an encoded key are those of the Android format; the check accepts exactly the encodings of odd 2048-bit
  moduli; the DER reader accepts exactly one encoding per key; a key that is read is encoded without a failure of the later
  checks, unless its modulus is even.
\<close>

subsection \<open>Numbers\<close>

fun bit_length :: "nat \<Rightarrow> nat" where
  "bit_length n = (if n = 0 then 0 else Suc (bit_length (n div 2)))"

declare bit_length.simps [simp del]

text \<open>\<open>pow(a, -1, m)\<close>: the loop of the extended Euclidean algorithm, an error unless it ends with 1.\<close>

function inv_loop :: "int \<Rightarrow> int \<Rightarrow> int \<Rightarrow> int \<Rightarrow> int \<times> int" where
  "inv_loop a n b c = (if n = 0 then (a, b) else inv_loop n (a mod n) c (b - a div n * c))"
  by pat_completeness auto
termination
  by (relation "measure (\<lambda>(a, n, b, c). nat \<bar>n\<bar>)") (auto simp: abs_mod_less)

declare inv_loop.simps [simp del]

definition mod_inverse :: "nat \<Rightarrow> nat \<Rightarrow> nat option" where
  "mod_inverse a m =
     (case inv_loop (int a) (int m) 1 0 of (g, b) \<Rightarrow> if g = 1 then Some (nat (b mod int m)) else None)"

subsection \<open>Android public keys\<close>

definition COMMENT :: bytes where "COMMENT = bytes_of ''c2m-owner''"
definition ANDROID_BYTES :: nat where "ANDROID_BYTES = 524"
definition PUBLIC_PAYLOAD_BYTES :: nat where "PUBLIC_PAYLOAD_BYTES = 711"

definition android_public_key :: "nat \<Rightarrow> nat \<Rightarrow> string + bytes" where
  "android_public_key n e =
     (if bit_length n \<noteq> 2048 \<or> even n then Inl ''expected odd RSA2048 modulus''
      else if e \<noteq> 65537 then Inl ''expected exponent65537''
      else case mod_inverse (n mod 2 ^ 32) (2 ^ 32) of
        None \<Rightarrow> Inl ''base is not invertible for the given modulus''
      | Some i \<Rightarrow>
          Inr (le_bytes 4 64 @ le_bytes 4 (nat (- int i mod 2 ^ 32)) @ le_bytes 256 n @ le_bytes 256 (2 ^ 4096 mod n) @ le_bytes 4 e))"

definition public_payload :: "nat \<Rightarrow> nat \<Rightarrow> string + bytes" where
  "public_payload n e =
     (case android_public_key n e of
        Inl err \<Rightarrow> Inl err
      | Inr raw \<Rightarrow>
          (let result = b64encode raw @ [32] @ COMMENT @ [0] in
           if length result \<noteq> PUBLIC_PAYLOAD_BYTES then Inl ''AssertionError'' else Inr result))"

definition validate_public_payload :: "bytes \<Rightarrow> string + bytes" where
  "validate_public_payload payload =
     (if length payload \<noteq> PUBLIC_PAYLOAD_BYTES then Inl ''bad public payload length''
      else if drop 700 payload \<noteq> [32] @ COMMENT @ [0] then Inl ''bad fixed public comment''
      else case b64decode (take 700 payload) of
        None \<Rightarrow> Inl ''bad public key encoding''
      | Some raw \<Rightarrow>
          if length raw \<noteq> ANDROID_BYTES \<or> b64encode raw \<noteq> take 700 payload then Inl ''noncanonical public key''
          else (case android_public_key (le_nat (slice raw 8 264)) (le_nat (slice raw 520 524)) of
              Inl err \<Rightarrow> Inl err
            | Inr key \<Rightarrow> if raw \<noteq> key then Inl ''bad Android RSA fields'' else Inr raw))"

fun colon_pairs :: "string \<Rightarrow> string" where
  "colon_pairs (a # b # c # s) = a # b # CHR '':'' # colon_pairs (c # s)"
| "colon_pairs s = s"

definition upper_hex :: "string \<Rightarrow> string" where
  "upper_hex = map (\<lambda>c. if 97 \<le> code c \<and> code c \<le> 122 then char_of (code c - 32) else c)"

definition fingerprint :: "(bytes \<Rightarrow> string) \<Rightarrow> bytes \<Rightarrow> string + string" where
  "fingerprint md5 payload = map_sum id (\<lambda>raw. colon_pairs (upper_hex (md5 raw))) (validate_public_payload payload)"

subsection \<open>The DER reader\<close>

definition der_size :: "bytes \<Rightarrow> nat \<Rightarrow> string + nat \<times> nat" where
  "der_size data start =
     (let s = unat (data ! (start - 1)); count = s mod 128 in
      if s < 128 then Inr (s, start)
      else if count \<notin> {1, 2} \<or> length data < start + count \<or> data ! start = 0 then Inl ''bad public DER length''
      else (let v = be_nat (slice data start (start + count)) in
        if v < 128 \<or> count = 2 \<and> v < 256 then Inl ''nonminimal public DER length'' else Inr (v, start + count)))"

definition der_item :: "bytes \<Rightarrow> nat \<Rightarrow> byte \<Rightarrow> string + bytes \<times> nat" where
  "der_item data offset expected =
     (if length data < offset + 2 \<or> data ! offset \<noteq> expected then Inl ''bad public DER tag''
      else case der_size data (offset + 2) of
        Inl err \<Rightarrow> Inl err
      | Inr (s, start) \<Rightarrow> if length data < start + s then Inl ''truncated public DER'' else Inr (slice data start (start + s), start + s))"

definition RSA_ALGORITHM :: bytes where
  "RSA_ALGORITHM = [0x06, 0x09, 0x2A, 0x86, 0x48, 0x86, 0xF7, 0x0D, 0x01, 0x01, 0x01, 0x05, 0x00]"

definition parse_rsa_integers :: "bytes \<Rightarrow> string + nat \<times> nat" where
  "parse_rsa_integers rsa =
     (case der_item rsa 0 0x02 of
        Inl err \<Rightarrow> Inl err
      | Inr (n, pos) \<Rightarrow>
          (case der_item rsa pos 0x02 of
             Inl err \<Rightarrow> Inl err
           | Inr (e, pos) \<Rightarrow>
               if pos \<noteq> length rsa \<or> length n \<noteq> 257 \<or> n ! 0 \<noteq> 0 \<or> \<not> 128 \<le> unat (n ! 1) then Inl ''not RSA2048 public integer''
               else if e \<noteq> [1, 0, 1] then Inl ''not exponent65537''
               else Inr (be_nat n, be_nat e)))"

definition parse_rsa_bits :: "bytes \<Rightarrow> nat \<Rightarrow> string + nat \<times> nat" where
  "parse_rsa_bits sq pos =
     (case der_item sq pos 0x03 of
        Inl err \<Rightarrow> Inl err
      | Inr (bits, pos) \<Rightarrow>
          if pos \<noteq> length sq \<or> bits = [] \<or> bits ! 0 \<noteq> 0 then Inl ''bad public BIT STRING''
          else (case der_item (tl bits) 0 0x30 of
              Inl err \<Rightarrow> Inl err
            | Inr (rsa, end_at) \<Rightarrow> if end_at \<noteq> length bits - 1 then Inl ''extra RSA public bytes'' else parse_rsa_integers rsa))"

definition parse_rsa_spki :: "bytes \<Rightarrow> string + nat \<times> nat" where
  "parse_rsa_spki der =
     (if \<not> (32 \<le> length der \<and> length der \<le> 1024) then Inl ''bad public DER size''
      else case der_item der 0 0x30 of
        Inl err \<Rightarrow> Inl err
      | Inr (sq, end_at) \<Rightarrow>
          if end_at \<noteq> length der then Inl ''extra public DER bytes''
          else (case der_item sq 0 0x30 of
              Inl err \<Rightarrow> Inl err
            | Inr (algorithm, pos) \<Rightarrow> if algorithm \<noteq> RSA_ALGORITHM then Inl ''not RSA public SPKI'' else parse_rsa_bits sq pos))"

text \<open>The part of \<open>prepare_new_key\<close> behind OpenSSL: the payload and the fingerprint of the report.\<close>

definition prepare_public :: "(bytes \<Rightarrow> string) \<Rightarrow> bytes \<Rightarrow> string + bytes \<times> string" where
  "prepare_public md5 der =
     (case parse_rsa_spki der of
        Inl err \<Rightarrow> Inl err
      | Inr (n, e) \<Rightarrow>
          (case public_payload n e of
             Inl err \<Rightarrow> Inl err
           | Inr payload \<Rightarrow>
               (case validate_public_payload payload of
                  Inl err \<Rightarrow> Inl err
                | Inr raw \<Rightarrow> map_sum id (\<lambda>f. (payload, f)) (fingerprint md5 payload))))"

subsection \<open>Lemmas on numbers\<close>

lemma bit_length_iff: "bit_length n = Suc k \<longleftrightarrow> 2 ^ k \<le> n \<and> n < 2 ^ Suc k"
proof (induction k arbitrary: n)
  case 0
  have "bit_length n = Suc 0 \<longleftrightarrow> n \<noteq> 0 \<and> n div 2 = 0"
    by (subst bit_length.simps) (simp add: bit_length.simps [of "n div 2"])
  then show ?case by auto
next
  case (Suc k)
  have "bit_length n = Suc (Suc k) \<longleftrightarrow> n \<noteq> 0 \<and> bit_length (n div 2) = Suc k" by (subst bit_length.simps) simp
  also have "\<dots> \<longleftrightarrow> 2 ^ Suc k \<le> n \<and> n < 2 ^ Suc (Suc k)" unfolding Suc.IH by auto
  finally show ?case .
qed

lemma inv_loop_gcd: "0 \<le> a \<Longrightarrow> 0 \<le> n \<Longrightarrow> fst (inv_loop a n b c) = gcd a n"
proof (induction a n b c rule: inv_loop.induct)
  case (1 a n b c)
  show ?case
  proof (cases "n = 0")
    case False
    then have "fst (inv_loop n (a mod n) c (b - a div n * c)) = gcd n (a mod n)" using 1 by simp
    moreover have "inv_loop a n b c = inv_loop n (a mod n) c (b - a div n * c)" using False by (subst inv_loop.simps) simp
    ultimately show ?thesis by (simp only: gcd_red_int [of a n])
  qed (use 1 in \<open>simp add: inv_loop.simps\<close>)
qed

lemma inv_loop_mod:
  "m dvd b * x - a \<Longrightarrow> m dvd c * x - n \<Longrightarrow> m dvd snd (inv_loop a n b c) * x - fst (inv_loop a n b c)"
proof (induction a n b c rule: inv_loop.induct)
  case (1 a n b c)
  show ?case
  proof (cases "n = 0")
    case False
    have "(b - a div n * c) * x - a mod n = (b * x - a) - a div n * (c * x - n)"
      by (simp add: algebra_simps minus_div_mult_eq_mod [symmetric])
    then have "m dvd (b - a div n * c) * x - a mod n" using "1.prems" by simp
    moreover have "inv_loop a n b c = inv_loop n (a mod n) c (b - a div n * c)" using False by (subst inv_loop.simps) simp
    ultimately show ?thesis using 1 False by simp
  qed (use 1 in \<open>simp add: inv_loop.simps\<close>)
qed

lemma mod_inverse_correct: "mod_inverse a m = Some i \<Longrightarrow> 0 < m \<Longrightarrow> i < m \<and> int m dvd int i * int a - 1"
proof -
  assume i: "mod_inverse a m = Some i" and m: "0 < m"
  obtain g b where l: "inv_loop (int a) (int m) 1 0 = (g, b)" by fastforce
  have g: "g = 1" "i = nat (b mod int m)" using i l by (auto simp: mod_inverse_def split: if_splits)
  have "int m dvd b * int a - 1" using inv_loop_mod [of "int m" 1 "int a" "int a" 0 "int m"] l g by simp
  moreover have "(b mod int m) * int a - 1 = (b * int a - 1) - int m * (b div int m * int a)"
    by (simp add: algebra_simps minus_mult_div_eq_mod [symmetric])
  ultimately have "int m dvd (b mod int m) * int a - 1" by (metis dvd_diff dvd_triv_left)
  then show ?thesis using m g(2) by (simp add: nat_less_iff)
qed

lemma mod_inverse_exists: "coprime a m \<Longrightarrow> \<exists>i. mod_inverse a m = Some i"
  using inv_loop_gcd [of "int a" "int m" 1 0] by (auto simp: mod_inverse_def split: prod.splits)

subsection \<open>DER elements\<close>

text \<open>The encoding of an element with fewer than 65536 bytes, the only one that DER allows.\<close>

definition der_length :: "nat \<Rightarrow> bytes" where
  "der_length n = (if n < 128 then [of_nat n] else if n < 256 then [0x81, of_nat n] else 0x82 # be_bytes 2 n)"

definition tlv :: "byte \<Rightarrow> bytes \<Rightarrow> bytes" where
  "tlv t v = t # der_length (length v) @ v"

lemma be_nat_1 [simp]: "be_nat [x] = unat x" and be_nat_2 [simp]: "be_nat [x, y] = 256 * unat x + unat y"
  by (simp_all add: be_nat_def)

lemma slice_behind: "slice (pre @ d) (length pre + a) (length pre + b) = slice d a b"
  by (simp add: slice_def)

lemma size_shift:
  "der_size (pre @ d) (length pre + Suc k) = map_sum id (\<lambda>(s, st). (s, length pre + st)) (der_size d (Suc k))"
proof -
  have "(pre @ d) ! (length pre + i) = d ! i" for i by (simp add: nth_append)
  moreover have "length pre + Suc k - 1 = length pre + k" "length pre + Suc k + c = length pre + (Suc k + c)" for c by simp_all
  ultimately show ?thesis unfolding der_size_def Let_def by (simp only: length_append slice_behind) simp
qed

lemma item_shift:
  "der_item (pre @ d) (length pre) t = map_sum id (\<lambda>(v, e). (v, length pre + e)) (der_item d 0 t)"
proof (cases "der_size d 2")
  case (Inl e)
  then show ?thesis using size_shift [of pre d 1] by (simp add: der_item_def nth_append numeral_2_eq_2)
next
  case (Inr x)
  then show ?thesis using size_shift [of pre d 1] slice_behind [of pre d "snd x" "snd x + fst x"]
    by (cases x) (simp add: der_item_def nth_append numeral_2_eq_2 add.assoc)
qed

lemma item_encoded: "length v < 65536 \<Longrightarrow> der_item (tlv t v @ rest) 0 t = Inr (v, length (tlv t v))"
proof -
  assume l: "length v < 65536"
  consider "length v < 128" | "128 \<le> length v" "length v < 256" | "256 \<le> length v" by linarith
  then show ?thesis
  proof cases
    case 1
    then show ?thesis by (simp add: der_item_def der_size_def tlv_def der_length_def slice_def Let_def)
  next
    case 2
    then have "unat (of_nat (length v) :: byte) = length v" by simp
    moreover from this 2 have "(of_nat (length v) :: byte) \<noteq> 0" by (metis unat_0 not_less_zero le_zero_eq zero_less_numeral not_le)
    ultimately show ?thesis using 2 by (simp add: der_item_def der_size_def tlv_def der_length_def slice_def Let_def)
  next
    case 3
    have b: "be_bytes 2 (length v) = [of_nat (length v div 256), of_nat (length v mod 256)]"
      using l by (simp add: numeral_2_eq_2)
    have d: "unat (of_nat (length v div 256) :: byte) = length v div 256" using l by simp
    moreover have "0 < length v div 256" using 3 by simp
    ultimately have "(of_nat (length v div 256) :: byte) \<noteq> 0" by (metis unat_0 less_irrefl)
    then show ?thesis using 3 d by (simp add: der_item_def der_size_def tlv_def der_length_def slice_def Let_def b)
  qed
qed

lemma item_decoded: "der_item d 0 t = Inr (v, e) \<Longrightarrow> length v < 65536 \<and> e = length (tlv t v) \<and> d = tlv t v @ drop e d"
proof -
  assume i: "der_item d 0 t = Inr (v, e)"
  then have "2 \<le> length d" by (auto simp: der_item_def split: if_splits)
  then obtain b r where d: "d = t # b # r" using i by (cases d; cases "tl d") (auto simp: der_item_def split: if_splits)
  obtain s st where z: "der_size d 2 = Inr (s, st)"
    using i by (cases "der_size d 2") (auto simp: der_item_def numeral_2_eq_2 split: if_splits)
  have v: "v = slice d st (st + s)" "e = st + s" "st + s \<le> length d" using i z by (auto simp: der_item_def numeral_2_eq_2 split: if_splits)
  have shape: "length v < 65536 \<and> d = t # der_length (length v) @ v @ drop e d \<and> e = length (tlv t v)" if "take (st - 1) (b # r) = der_length s" "s < 65536" "st = Suc (length (der_length s))"
  proof -
    have "length v = s" using v by simp
    moreover have "d = take st d @ v @ drop e d" unfolding v slice_def by (metis append_take_drop_id add_diff_cancel_left' drop_drop add.commute)
    moreover have "take st d = t # der_length s" using that(1,3) by (simp add: d)
    ultimately show ?thesis using that v(2) by (simp add: tlv_def)
  qed
  have "length v < 65536 \<and> d = t # der_length (length v) @ v @ drop e d \<and> e = length (tlv t v)"
  proof (cases "unat b < 128")
    case True
    then have "s = unat b" "st = 2" using z by (simp_all add: der_size_def d Let_def)
    then show ?thesis using True by (intro shape) (simp_all add: der_length_def)
  next
    case False
    let ?c = "unat b mod 128"
    have c: "?c \<in> {1, 2}" "2 + ?c \<le> length d" "d ! 2 \<noteq> 0" "s = be_nat (slice d 2 (2 + ?c))" "st = 2 + ?c" "128 \<le> s" "?c = 2 \<longrightarrow> 256 \<le> s"
      using z False by (auto simp: der_size_def d Let_def split: if_splits)
    have "unat b - 128 < 128" using False unat_byte_less [of b] by linarith
    then have ub: "unat b = 128 + ?c" using False by (simp add: le_mod_geq)
    consider "?c = 1" | "?c = 2" using c(1) by blast
    then show ?thesis
    proof cases
      case 1
      then obtain x r' where r: "r = x # r'" using c(2) by (cases r) (auto simp: d)
      have s: "s = unat x" using c(4) by (simp add: d r 1 slice_def)
      have "b = 0x81" using ub 1 by (intro word_unat_eq_iff [THEN iffD2]) simp
      moreover have "s < 65536" using s unat_byte_less [of x] by linarith
      ultimately show ?thesis using c(5,6) s 1 by (intro shape) (simp_all add: der_length_def r)
    next
      case 2
      then obtain x y r' where r: "r = x # y # r'" using c(2) by (cases r; cases "tl r") (auto simp: d)
      have s: "s = 256 * unat x + unat y" using c(4) by (simp add: d r 2 slice_def numeral_2_eq_2)
      have "b = 0x82" using ub 2 by (intro word_unat_eq_iff [THEN iffD2]) simp
      moreover have "be_bytes 2 s = [x, y]" using be_bytes_be_nat [of "[x, y]"] s by (simp add: numeral_2_eq_2)
      moreover have "s < 65536" using s unat_byte_less [of x] unat_byte_less [of y] by linarith
      ultimately show ?thesis using c(5,7) 2 by (intro shape) (simp_all add: der_length_def r)
    qed
  qed
  then show ?thesis unfolding tlv_def append.simps append_assoc by blast
qed

lemma item_iff: "der_item d 0 t = Inr (v, e) \<longleftrightarrow> length v < 65536 \<and> e = length (tlv t v) \<and> d = tlv t v @ drop e d"
  using item_encoded item_decoded by metis

subsection \<open>The fields of a key\<close>

definition rsa2048 :: "nat \<Rightarrow> bool" where "rsa2048 n \<longleftrightarrow> 2 ^ 2047 \<le> n \<and> n < 2 ^ 2048"

lemma rsa2048_length: "bit_length n = 2048 \<longleftrightarrow> rsa2048 n"
proof -
  have s: "(2048 :: nat) = Suc 2047" by simp
  show ?thesis unfolding rsa2048_def s by (rule bit_length_iff)
qed

lemma power_bytes: "(2 :: nat) ^ (8 * k) = 256 ^ k"
  by (simp add: power_mult)

lemma rsa2048_bytes: "rsa2048 n \<longleftrightarrow> 128 * 256 ^ 255 \<le> n \<and> n < 256 * 256 ^ 255"
proof -
  have "(2 :: nat) ^ 2047 = 2 ^ (7 + 8 * 255)" "(2 :: nat) ^ 2048 = 2 ^ (8 + 8 * 255)" by simp_all
  then have "(2 :: nat) ^ 2047 = 2 ^ 7 * 256 ^ 255" "(2 :: nat) ^ 2048 = 2 ^ 8 * 256 ^ 255" unfolding power_add power_bytes .
  then show ?thesis unfolding rsa2048_def by simp
qed

text \<open>The negative inverse of the modulus: there is one, and only one of 32 bits.\<close>

definition n0inv_ok :: "nat \<Rightarrow> nat \<Rightarrow> bool" where "n0inv_ok n x \<longleftrightarrow> x < 2 ^ 32 \<and> (n * x + 1) mod 2 ^ 32 = 0"

lemma n0inv_int: "n0inv_ok n x \<longleftrightarrow> x < 2 ^ 32 \<and> (2 ^ 32 :: int) dvd int n * int x + 1"
proof -
  have "(2 ^ 32 :: nat) dvd n * x + 1 \<longleftrightarrow> int (2 ^ 32) dvd int (n * x + 1)" by (rule int_dvd_int_iff [symmetric])
  then show ?thesis by (simp add: n0inv_ok_def mod_eq_0_iff_dvd add.commute)
qed

lemma n0inv_unique: "odd n \<Longrightarrow> n0inv_ok n x \<Longrightarrow> n0inv_ok n y \<Longrightarrow> x = y"
proof -
  assume odd: "odd n" and x: "n0inv_ok n x" and y: "n0inv_ok n y"
  have "(2 ^ 32 :: int) dvd (int n * int x + 1) - (int n * int y + 1)" using x y unfolding n0inv_int by (blast intro: dvd_diff)
  then have "(2 ^ 32 :: int) dvd int n * (int x - int y)" by (simp add: algebra_simps)
  moreover have "coprime (2 ^ 32 :: int) (int n)" using odd by (simp only: coprime_power_left_iff) simp
  ultimately have "(2 ^ 32 :: int) dvd int x - int y" by (simp add: coprime_dvd_mult_right_iff)
  moreover have "\<bar>int x - int y\<bar> < 2 ^ 32" using x y by (auto simp: n0inv_ok_def)
  ultimately have "int x - int y = 0" using zdvd_not_zless by (metis abs_of_nonneg abs_ge_zero dvd_abs_iff linorder_neqE_linordered_idom not_less abs_0_eq abs_eq_0)
  then show ?thesis by simp
qed

lemma n0inv_exists: "odd n \<Longrightarrow> \<exists>i. mod_inverse (n mod 2 ^ 32) (2 ^ 32) = Some i"
  by (intro mod_inverse_exists) (simp only: coprime_power_right_iff, simp add: dvd_mod_iff)

lemma n0inv_computed: "mod_inverse (n mod 2 ^ 32) (2 ^ 32) = Some i \<Longrightarrow> n0inv_ok n (nat (- int i mod 2 ^ 32))"
proof -
  assume i: "mod_inverse (n mod 2 ^ 32) (2 ^ 32) = Some i"
  let ?m = "2 ^ 32 :: int"
  have "?m dvd int i * int (n mod 2 ^ 32) - 1" using mod_inverse_correct [OF i] by simp
  moreover have "?m dvd int n - int (n mod 2 ^ 32)" by (simp add: zmod_int)
  then have "?m dvd int i * (int n - int (n mod 2 ^ 32))" by (rule dvd_mult)
  ultimately have "?m dvd (int i * int (n mod 2 ^ 32) - 1) + int i * (int n - int (n mod 2 ^ 32))" by (rule dvd_add)
  then have d: "?m dvd int i * int n - 1" by (simp add: algebra_simps)
  have "?m dvd - int i mod ?m + int i" by (simp add: mod_0_imp_dvd mod_add_left_eq)
  then have "?m dvd int n * (- int i mod ?m + int i)" by (rule dvd_mult)
  then have "?m dvd int n * (- int i mod ?m + int i) - (int i * int n - 1)" using d by (rule dvd_diff)
  then have "?m dvd int n * (- int i mod ?m) + 1" by (simp add: algebra_simps)
  moreover have "0 \<le> - int i mod ?m" "- int i mod ?m < ?m" by simp_all
  ultimately show ?thesis unfolding n0inv_int by (simp add: nat_less_iff)
qed

text \<open>The Android structure: the number of words, the negative inverse, the modulus, the Montgomery square, the exponent.\<close>

definition key_bytes :: "nat \<Rightarrow> nat \<Rightarrow> bytes" where
  "key_bytes n x = le_bytes 4 64 @ le_bytes 4 x @ le_bytes 256 n @ le_bytes 256 (2 ^ 4096 mod n) @ le_bytes 4 65537"

lemma length_key_bytes: "length (key_bytes n x) = 524"
  by (simp add: key_bytes_def)

lemma android_key_iff:
  "android_public_key n e = Inr raw \<longleftrightarrow> rsa2048 n \<and> odd n \<and> e = 65537 \<and> (\<exists>x. n0inv_ok n x \<and> raw = key_bytes n x)"
    (is "?l \<longleftrightarrow> ?r")
proof
  assume ?l
  then obtain i where "rsa2048 n" "odd n" "e = 65537" "mod_inverse (n mod 2 ^ 32) (2 ^ 32) = Some i"
    "raw = key_bytes n (nat (- int i mod 2 ^ 32))"
    unfolding android_public_key_def rsa2048_length key_bytes_def by (auto split: if_splits option.splits simp del: le_bytes.simps)
  then show ?r using n0inv_computed by blast
next
  assume r: ?r
  then obtain x where x: "n0inv_ok n x" "raw = key_bytes n x" by blast
  obtain i where i: "mod_inverse (n mod 2 ^ 32) (2 ^ 32) = Some i" using r n0inv_exists by blast
  have "nat (- int i mod 2 ^ 32) = x" using n0inv_unique [OF _ n0inv_computed [OF i] x(1)] r by blast
  then show ?l using r i x(2) by (simp only: android_public_key_def rsa2048_length key_bytes_def) (simp del: le_bytes.simps)
qed

lemma key_fields_read:
  assumes "rsa2048 n"
  shows "le_nat (slice (key_bytes n x) 8 264) = n" "le_nat (slice (key_bytes n x) 520 524) = 65537"
proof -
  have n: "n < 256 ^ 256" using assms unfolding rsa2048_bytes by (simp only: power_Suc [symmetric]) simp
  have "slice (key_bytes n x) 8 264 = le_bytes 256 n" by (simp add: key_bytes_def slice_def del: le_bytes.simps)
  then show "le_nat (slice (key_bytes n x) 8 264) = n" using le_nat_le_bytes [OF n] by (simp only:)
  have "slice (key_bytes n x) 520 524 = le_bytes 4 65537" by (simp add: key_bytes_def slice_def del: le_bytes.simps)
  then show "le_nat (slice (key_bytes n x) 520 524) = 65537" using le_nat_le_bytes [of 65537 4] by simp
qed

lemma payload_iff:
  "public_payload n e = Inr p \<longleftrightarrow> (\<exists>raw. android_public_key n e = Inr raw \<and> p = b64encode raw @ [32] @ COMMENT @ [0])"
proof -
  have "length (b64encode raw @ [32] @ COMMENT @ [0]) = PUBLIC_PAYLOAD_BYTES" if "android_public_key n e = Inr raw" for raw
    using that length_key_bytes by (auto simp: android_key_iff length_b64encode COMMENT_def PUBLIC_PAYLOAD_BYTES_def)
  then show ?thesis by (cases "android_public_key n e") (auto simp: public_payload_def Let_def)
qed

lemma validated_iff:
  "validate_public_payload p = Inr raw \<longleftrightarrow> (\<exists>n. android_public_key n 65537 = Inr raw \<and> public_payload n 65537 = Inr p)" (is "?l \<longleftrightarrow> ?r")
proof
  assume l: ?l
  let ?n = "le_nat (slice raw 8 264)" let ?e = "le_nat (slice raw 520 524)"
  have v: "drop 700 p = [32] @ COMMENT @ [0]" "b64encode raw = take 700 p" "android_public_key ?n ?e = Inr raw"
    using l by (auto simp: validate_public_payload_def split: if_splits option.splits sum.splits)
  have "?e = 65537" using v(3) by (simp only: android_key_iff)
  moreover have "p = b64encode raw @ [32] @ COMMENT @ [0]" using v(1,2) append_take_drop_id [of 700 p] by simp
  ultimately show ?r using v(3) by (auto simp: payload_iff)
next
  assume ?r
  then obtain n where n: "android_public_key n 65537 = Inr raw" "p = b64encode raw @ [32] @ COMMENT @ [0]" by (auto simp: payload_iff)
  then obtain x where x: "rsa2048 n" "raw = key_bytes n x" by (auto simp: android_key_iff)
  have b: "length (b64encode raw) = 700" using x(2) length_key_bytes [of n x] by (simp add: length_b64encode)
  then have "length p = PUBLIC_PAYLOAD_BYTES" "take 700 p = b64encode raw" "drop 700 p = [32] @ COMMENT @ [0]"
    by (simp_all add: n(2) COMMENT_def PUBLIC_PAYLOAD_BYTES_def)
  moreover have "length raw = ANDROID_BYTES" by (simp add: x(2) length_key_bytes ANDROID_BYTES_def)
  moreover have "android_public_key (le_nat (slice raw 8 264)) (le_nat (slice raw 520 524)) = Inr raw"
    unfolding x(2) key_fields_read [OF x(1)] using n(1) unfolding x(2) .
  ultimately show ?l by (simp add: validate_public_payload_def)
qed

text \<open>C39. The check of a payload accepts exactly the encodings of odd moduli of 2048 bits, and returns the encoded structure, whose fields are
  the modulus, its negative inverse modulo \<open>2 ^ 32\<close> and the Montgomery square. There is exactly one payload per modulus.\<close>

theorem payload_valid_iff:
  "validate_public_payload p = Inr raw \<longleftrightarrow>
     (\<exists>n x. 2 ^ 2047 \<le> n \<and> n < 2 ^ 2048 \<and> odd n \<and> x < 2 ^ 32 \<and> (n * x + 1) mod 2 ^ 32 = 0 \<and> public_payload n 65537 = Inr p
        \<and> raw = le_bytes 4 64 @ le_bytes 4 x @ le_bytes 256 n @ le_bytes 256 (2 ^ 4096 mod n) @ le_bytes 4 65537)"
proof -
  have "validate_public_payload p = Inr raw \<longleftrightarrow>
      (\<exists>n x. rsa2048 n \<and> odd n \<and> n0inv_ok n x \<and> public_payload n 65537 = Inr p \<and> raw = key_bytes n x)"
    unfolding validated_iff android_key_iff by blast
  then show ?thesis unfolding rsa2048_def n0inv_ok_def key_bytes_def by (simp only: conj_assoc)
qed

subsection \<open>The DER key\<close>

text \<open>The encoding of an RSA public key with exponent 65537 as a \<open>SubjectPublicKeyInfo\<close>.\<close>

definition rsa_integers :: "nat \<Rightarrow> bytes" where "rsa_integers n = tlv 0x02 (be_bytes 257 n) @ tlv 0x02 [1, 0, 1]"

definition spki :: "nat \<Rightarrow> bytes" where
  "spki n = tlv 0x30 (tlv 0x30 RSA_ALGORITHM @ tlv 0x03 (0 # tlv 0x30 (rsa_integers n)))"

lemma be_nat_Cons: "be_nat (x # xs) = unat x * 256 ^ length xs + be_nat xs"
proof (induction xs rule: rev_induct)
  case (snoc y ys)
  have "be_nat ((x # ys) @ [y]) = 256 * be_nat (x # ys) + unat y" by (rule be_nat_snoc)
  then show ?case using snoc by (simp add: algebra_simps)
qed simp

lemma top_bytes:
  "x = 0 \<and> 128 \<le> unat y \<longleftrightarrow> 128 * 256 ^ length ys \<le> be_nat (x # y # ys) \<and> be_nat (x # y # ys) < 256 * 256 ^ length ys"
proof -
  let ?p = "256 ^ length ys :: nat"
  have v: "be_nat (x # y # ys) = unat x * (256 * ?p) + (unat y * ?p + be_nat ys)" by (simp add: be_nat_Cons)
  have y: "be_nat ys < ?p" by (rule be_nat_bound)
  have small: "unat y * ?p + be_nat ys < 256 * ?p"
  proof -
    have "Suc (unat y) * ?p \<le> 256 * ?p" using unat_byte_less [of y] by (intro mult_le_mono1) linarith
    then have "?p + unat y * ?p \<le> 256 * ?p" by (simp only: mult_Suc)
    then show ?thesis using y by linarith
  qed
  show ?thesis
  proof (cases "x = 0")
    case True
    have "128 \<le> unat y \<longleftrightarrow> 128 * ?p \<le> unat y * ?p + be_nat ys"
    proof
      assume "128 \<le> unat y"
      then have "128 * ?p \<le> unat y * ?p" by (rule mult_le_mono1)
      then show "128 * ?p \<le> unat y * ?p + be_nat ys" by (rule trans_le_add1)
    next
      assume a: "128 * ?p \<le> unat y * ?p + be_nat ys"
      have "128 * ?p < ?p + unat y * ?p" using a y by linarith
      then have "128 * ?p < Suc (unat y) * ?p" by (simp only: mult_Suc)
      then have "128 < Suc (unat y)" by (rule mult_less_cancel2 [THEN iffD1, THEN conjunct2])
      then show "128 \<le> unat y" by simp
    qed
    then show ?thesis using True small v by simp
  next
    case False
    then have "1 \<le> unat x" by (metis One_nat_def Suc_leI unat_gt_0)
    then have "1 * (256 * ?p) \<le> unat x * (256 * ?p)" by (rule mult_le_mono1)
    then have "\<not> be_nat (x # y # ys) < 256 * ?p" unfolding v by linarith
    then show ?thesis using False by blast
  qed
qed

lemma rsa2048_top: "length nb = 257 \<Longrightarrow> nb ! 0 = 0 \<and> 128 \<le> unat (nb ! 1) \<longleftrightarrow> rsa2048 (be_nat nb)"
proof -
  assume l: "length nb = 257"
  then obtain x y ys where "nb = x # y # ys" "length ys = 255" by (cases nb; cases "tl nb") auto
  then show ?thesis using top_bytes [of x y ys] by (simp only: rsa2048_bytes) simp
qed

lemma item_pair_iff:
  "(\<exists>pos. der_item d 0 s = Inr (v, pos) \<and> der_item d pos t = Inr (w, length d)) \<longleftrightarrow>
   length v < 65536 \<and> length w < 65536 \<and> d = tlv s v @ tlv t w"
proof -
  have second: "der_item d (length (tlv s v)) t = Inr (w, length d) \<longleftrightarrow> length w < 65536 \<and> r = tlv t w" if d: "d = tlv s v @ r" for r
  proof -
    have "der_item d (length (tlv s v)) t = Inr (w, length d) \<longleftrightarrow> der_item r 0 t = Inr (w, length r)"
      unfolding d item_shift by (cases "der_item r 0 t") (auto simp: map_prod_def)
    then show ?thesis unfolding item_iff by auto
  qed
  show ?thesis
  proof
    assume "\<exists>pos. der_item d 0 s = Inr (v, pos) \<and> der_item d pos t = Inr (w, length d)"
    then obtain pos where p: "der_item d 0 s = Inr (v, pos)" "der_item d pos t = Inr (w, length d)" by blast
    then have i: "length v < 65536" "pos = length (tlv s v)" "d = tlv s v @ drop pos d" unfolding item_iff by blast+
    then show "length v < 65536 \<and> length w < 65536 \<and> d = tlv s v @ tlv t w" using second [OF i(3)] p(2) by metis
  next
    assume a: "length v < 65536 \<and> length w < 65536 \<and> d = tlv s v @ tlv t w"
    then have "der_item d 0 s = Inr (v, length (tlv s v))" using item_encoded by blast
    then show "\<exists>pos. der_item d 0 s = Inr (v, pos) \<and> der_item d pos t = Inr (w, length d)" using second a by blast
  qed
qed

lemma item_whole_iff: "der_item d 0 t = Inr (v, length d) \<longleftrightarrow> length v < 65536 \<and> d = tlv t v"
  unfolding item_iff by auto

lemma integers_iff: "parse_rsa_integers rsa = Inr (n, e) \<longleftrightarrow> rsa2048 n \<and> e = 65537 \<and> rsa = rsa_integers n"
proof -
  have e: "be_nat [1, 0, 1] = 65537" by (simp add: be_nat_def)
  have "parse_rsa_integers rsa = Inr (n, e) \<longleftrightarrow>
    (\<exists>nb pos. der_item rsa 0 2 = Inr (nb, pos) \<and> der_item rsa pos 2 = Inr ([1, 0, 1], length rsa)
       \<and> length nb = 257 \<and> nb ! 0 = 0 \<and> 128 \<le> unat (nb ! 1) \<and> n = be_nat nb \<and> e = 65537)"
    using e by (auto simp: parse_rsa_integers_def split: sum.splits if_splits)
  also have "\<dots> \<longleftrightarrow> (\<exists>nb. length nb = 257 \<and> rsa2048 (be_nat nb) \<and> n = be_nat nb \<and> e = 65537
       \<and> (\<exists>pos. der_item rsa 0 2 = Inr (nb, pos) \<and> der_item rsa pos 2 = Inr ([1, 0, 1], length rsa)))"
    using rsa2048_top by blast
  also have "\<dots> \<longleftrightarrow> (\<exists>nb. length nb = 257 \<and> rsa2048 n \<and> n = be_nat nb \<and> e = 65537 \<and> rsa = tlv 2 nb @ tlv 2 [1, 0, 1])"
    unfolding item_pair_iff by auto
  also have "\<dots> \<longleftrightarrow> rsa2048 n \<and> e = 65537 \<and> rsa = rsa_integers n"
  proof
    assume "\<exists>nb. length nb = 257 \<and> rsa2048 n \<and> n = be_nat nb \<and> e = 65537 \<and> rsa = tlv 2 nb @ tlv 2 [1, 0, 1]"
    then show "rsa2048 n \<and> e = 65537 \<and> rsa = rsa_integers n" using be_bytes_be_nat by (metis rsa_integers_def)
  next
    assume a: "rsa2048 n \<and> e = 65537 \<and> rsa = rsa_integers n"
    have "n < 256 ^ 257"
    proof -
      have "n < 256 * 256 ^ 255" using a unfolding rsa2048_bytes by blast
      also have "\<dots> = 256 ^ Suc 255" by (rule power_Suc [symmetric])
      also have "\<dots> \<le> 256 ^ 257" by (rule power_increasing) simp_all
      finally show ?thesis .
    qed
    then have "n = be_nat (be_bytes 257 n)" by (rule be_nat_be_bytes [symmetric])
    then show "\<exists>nb. length nb = 257 \<and> rsa2048 n \<and> n = be_nat nb \<and> e = 65537 \<and> rsa = tlv 2 nb @ tlv 2 [1, 0, 1]"
      using a length_be_bytes [of 257 n] unfolding rsa_integers_def by blast
  qed
  finally show ?thesis .
qed

lemma bits_iff: "rest = tlv 0x03 (0 # tlv 0x30 (rsa_integers n)) \<Longrightarrow> rsa2048 n \<Longrightarrow> parse_rsa_bits (pre @ rest) (length pre) = Inr (n, 65537)"
proof -
  assume r: "rest = tlv 0x03 (0 # tlv 0x30 (rsa_integers n))" and n: "rsa2048 n"
  have i: "parse_rsa_integers (rsa_integers n) = Inr (n, 65537)" using n by (simp only: integers_iff)
  have l: "length (rsa_integers n) = 266" by (simp add: rsa_integers_def tlv_def der_length_def)
  then have l': "length (tlv 0x30 (rsa_integers n)) = 270" by (simp add: tlv_def der_length_def)
  have "der_item rest 0 0x03 = Inr (0 # tlv 0x30 (rsa_integers n), length rest)" unfolding r item_whole_iff using l' by simp
  then have "der_item (pre @ rest) (length pre) 0x03 = Inr (0 # tlv 0x30 (rsa_integers n), length (pre @ rest))" by (simp add: item_shift)
  moreover have "der_item (tlv 0x30 (rsa_integers n)) 0 0x30 = Inr (rsa_integers n, length (tlv 0x30 (rsa_integers n)))"
    unfolding item_whole_iff using l by simp
  ultimately show ?thesis using i by (simp add: parse_rsa_bits_def)
qed

lemma bits_only:
  "parse_rsa_bits (pre @ rest) (length pre) = Inr (n, e) \<Longrightarrow> rsa2048 n \<and> e = 65537 \<and> rest = tlv 0x03 (0 # tlv 0x30 (rsa_integers n))"
proof -
  assume p: "parse_rsa_bits (pre @ rest) (length pre) = Inr (n, e)"
  obtain bits pos where "der_item (pre @ rest) (length pre) 0x03 = Inr (bits, pos)"
    using p by (auto simp: parse_rsa_bits_def split: sum.splits)
  moreover from this have "pos = length (pre @ rest)" "bits \<noteq> []" "bits ! 0 = 0" using p by (auto simp: parse_rsa_bits_def split: if_splits)
  ultimately have "der_item (pre @ rest) (length pre) 0x03 = Inr (bits, length pre + length rest)" by simp
  then have "der_item rest 0 0x03 = Inr (bits, length rest)" unfolding item_shift by (cases "der_item rest 0 0x03") auto
  then have rest: "rest = tlv 0x03 bits" unfolding item_whole_iff by blast
  obtain seq where bits: "bits = 0 # seq" using \<open>bits \<noteq> []\<close> \<open>bits ! 0 = 0\<close> by (cases bits) auto
  obtain rsa where "der_item seq 0 0x30 = Inr (rsa, length seq)" "parse_rsa_integers rsa = Inr (n, e)"
    using p \<open>der_item (pre @ rest) (length pre) 0x03 = Inr (bits, pos)\<close> by (auto simp: parse_rsa_bits_def bits split: sum.splits if_splits)
  then show ?thesis using rest bits unfolding item_whole_iff integers_iff by simp
qed

lemma length_spki: "length (spki n) = 294"
  by (simp add: spki_def rsa_integers_def tlv_def der_length_def RSA_ALGORITHM_def)

lemma parsed_iff: "parse_rsa_spki der = Inr (n, e) \<longleftrightarrow> rsa2048 n \<and> e = 65537 \<and> der = spki n" (is "?l \<longleftrightarrow> ?r")
proof
  assume l: ?l
  obtain sq where der: "der_item der 0 0x30 = Inr (sq, length der)"
    using l by (auto simp: parse_rsa_spki_def split: if_splits sum.splits)
  obtain pos where alg: "der_item sq 0 0x30 = Inr (RSA_ALGORITHM, pos)" "parse_rsa_bits sq pos = Inr (n, e)"
    using l der by (auto simp: parse_rsa_spki_def split: if_splits sum.splits)
  have "pos = length (tlv 0x30 RSA_ALGORITHM)" "sq = tlv 0x30 RSA_ALGORITHM @ drop pos sq" using alg(1) unfolding item_iff by blast+
  then have "rsa2048 n \<and> e = 65537 \<and> drop pos sq = tlv 0x03 (0 # tlv 0x30 (rsa_integers n))" using alg(2) bits_only by metis
  then show ?r using der \<open>sq = _\<close> unfolding item_whole_iff spki_def by metis
next
  assume r: ?r
  let ?bits = "tlv 0x03 (0 # tlv 0x30 (rsa_integers n))"
  let ?sq = "tlv 0x30 RSA_ALGORITHM @ ?bits"
  have "length ?sq < 65536" by (simp add: rsa_integers_def tlv_def der_length_def RSA_ALGORITHM_def)
  then have "der_item der 0 0x30 = Inr (?sq, length der)" unfolding item_whole_iff using r by (simp only: spki_def)
  moreover have "der_item ?sq 0 0x30 = Inr (RSA_ALGORITHM, length (tlv 0x30 RSA_ALGORITHM))"
    by (rule item_encoded) (simp add: RSA_ALGORITHM_def)
  moreover have "parse_rsa_bits ?sq (length (tlv 0x30 RSA_ALGORITHM)) = Inr (n, 65537)" using r by (intro bits_iff) simp_all
  moreover have "length der = 294" using r by (simp only: length_spki)
  ultimately show ?l using r by (simp add: parse_rsa_spki_def)
qed

text \<open>C40. The DER reader accepts exactly one encoding for every modulus of 2048 bits (odd or even), and nothing else.\<close>

theorem spki_accepted_iff: "parse_rsa_spki der = Inr (n, e) \<longleftrightarrow> 2 ^ 2047 \<le> n \<and> n < 2 ^ 2048 \<and> e = 65537 \<and> der = spki n"
  unfolding parsed_iff rsa2048_def by (simp only: conj_assoc)

text \<open>Preparing a key succeeds exactly for the DER key of an odd modulus: the payload is its encoding, which the check accepts, and the
  fingerprint is that of the encoded structure.\<close>

theorem prepared_iff:
  "prepare_public md5 der = Inr (payload, f) \<longleftrightarrow>
     (\<exists>n. 2 ^ 2047 \<le> n \<and> n < 2 ^ 2048 \<and> odd n \<and> der = spki n \<and> public_payload n 65537 = Inr payload \<and> fingerprint md5 payload = Inr f)"
proof -
  have valid: "\<exists>raw. validate_public_payload q = Inr raw" if p: "public_payload n 65537 = Inr q" for n q
  proof -
    obtain raw where "android_public_key n 65537 = Inr raw" using p by (auto simp: payload_iff)
    then show ?thesis using p validated_iff by blast
  qed
  have even: "odd n \<and> e = 65537" if "public_payload n e = Inr q" for n e q
    using that by (auto simp: payload_iff android_key_iff)
  have step: "prepare_public md5 der = Inr (payload, f) \<longleftrightarrow> public_payload n e = Inr payload \<and> fingerprint md5 payload = Inr f"
    if "parse_rsa_spki der = Inr (n, e)" for n e
  proof (cases "public_payload n e")
    case (Inr q)
    then obtain raw where raw: "validate_public_payload q = Inr raw" using valid even by blast
    then show ?thesis using that Inr by (cases "fingerprint md5 q") (auto simp: prepare_public_def)
  qed (use that in \<open>simp add: prepare_public_def\<close>)
  have "prepare_public md5 der = Inr (payload, f) \<longleftrightarrow>
    (\<exists>n e. parse_rsa_spki der = Inr (n, e) \<and> public_payload n e = Inr payload \<and> fingerprint md5 payload = Inr f)"
  proof (cases "parse_rsa_spki der")
    case (Inr x)
    then show ?thesis using step by (cases x) simp
  qed (simp add: prepare_public_def)
  then show ?thesis unfolding parsed_iff rsa2048_def using even by blast
qed

end
