(* ===== verification/BuildB.thy ===== *)
theory BuildB
  imports Image
begin

text \<open>
  The candidate builder \<open>tools/fw/build_candidates.py\<close>: \<open>compute_b_layout\<close> moves the payloads behind a rebuilt customer image and
  regenerates the numbers of the upgrade script; \<open>main\<close> then cuts the other payloads out of the base image and puts the new image
  together (\<open>assemble_inner.py\<close>, layout mode). The other steps of \<open>main\<close> run the tools of \<open>Image\<close>, \<open>Validate\<close>, \<open>Tar\<close> and \<open>CandidateDiff\<close>
  as subprocesses. The script is text below code point 256 and stays a list of bytes; offsets are integers, since a shift may be
  negative.

  Shown: for an ordered base layout, every layout that is computed can be assembled, and the image holds the new images and, bit for
  bit, every other payload of the base at the offsets and sizes the layout lists.
\<close>

subsection \<open>Substitution\<close>

fun splice :: "(nat \<Rightarrow> match \<Rightarrow> bytes) \<Rightarrow> bytes \<Rightarrow> nat \<Rightarrow> (nat \<times> match) list \<Rightarrow> bytes" where
  "splice f s pos [] = drop pos s"
| "splice f s pos ((k, m) # ms) = slice s pos (m_start m) @ f k m @ splice f s (m_end m) ms"

text \<open>\<open>re.subn\<close> for an expression that never matches the empty string; the function gets the number of the match.\<close>

definition subn :: "(nat \<Rightarrow> match \<Rightarrow> bytes) \<Rightarrow> rx \<Rightarrow> bytes \<Rightarrow> bytes \<times> nat" where
  "subn f r s = (let ms = finditer r s in (splice f s 0 (enumerate 0 ms), length ms))"

text \<open>\<open>\\w\<close> of a \<open>str\<close> pattern below code point 256.\<close>

definition text_word :: "byte \<Rightarrow> bool" where
  "text_word b \<longleftrightarrow> is_word b \<or> b \<in> {170, 178, 179, 181, 185, 186, 188, 189, 190} \<or> 192 \<le> b \<and> b \<noteq> 215 \<and> b \<noteq> 247"

definition B_FATLOAD_RE :: rx where
  "B_FATLOAD_RE = Seqs [Grp 1 (Seqs [LitI ''fatload'', Many1 sp, LitI ''mmc'', Many1 sp, Many1 dig, Many1 sp, LitI ''0x'', Many1 hexdig, Many1 sp,
     LitI ''$(SdUpgradeImage)'', Many1 sp]), Grp 2 NUMBER_RX, Grp 3 (Many1 sp), Grp 4 NUMBER_RX]"

definition B_UBIWRITE_RE :: rx where
  "B_UBIWRITE_RE = Seqs [Grp 1 (Seqs [LitI ''ubi'', Many1 sp, LitI ''write'', Many1 sp, LitI ''0x'', Many1 hexdig, Many1 sp,
     Grp 2 (Many1 text_word), Many1 sp]), Grp 3 NUMBER_RX]"

subsection \<open>The layout\<close>

record new_load =
  nl_section :: bytes
  nl_index :: nat
  nl_offset :: int
  nl_size :: nat

definition nl_end :: "new_load \<Rightarrow> int" where "nl_end r = nl_offset r + int (nl_size r)"

record b_layout =
  bl_script :: bytes
  bl_loads :: "new_load list"
  bl_tail :: bytes
  bl_tail_offset :: int
  bl_total :: int

definition B_CUSTOMER :: bytes where "B_CUSTOMER = bytes_of ''customer.es''"
definition B_ONEED :: bytes where "B_ONEED = bytes_of ''oneed_cust.es''"

text \<open>\<open>hex\<close>\<close>

definition hex_int :: "int \<Rightarrow> bytes" where
  "hex_int i = (if i < 0 then [45] else []) @ [48, 120] @ hex_text (nat \<bar>i\<bar>)"

fun shift_loads :: "nat \<Rightarrow> nat option \<Rightarrow> int \<Rightarrow> bool \<Rightarrow> load_row list \<Rightarrow> new_load list" where
  "shift_loads csize osize delta after [] = []"
| "shift_loads csize osize delta after (r # rs) =
     (if ld_section r = B_CUSTOMER
      then \<lparr>nl_section = ld_section r, nl_index = ld_index r, nl_offset = int (ld_offset r), nl_size = csize\<rparr>
           # shift_loads csize osize delta True rs
      else \<lparr>nl_section = ld_section r, nl_index = ld_index r, nl_offset = int (ld_offset r) + (if after then delta else 0),
             nl_size = (case osize of Some n \<Rightarrow> if ld_section r = B_ONEED then n else ld_size r | None \<Rightarrow> ld_size r)\<rparr>
           # shift_loads csize osize delta after rs)"

text \<open>\<open>max(loads, key=...)\<close>: the first of the maximal rows.\<close>

fun max_end :: "load_row \<Rightarrow> load_row list \<Rightarrow> load_row" where
  "max_end r [] = r"
| "max_end r (q # qs) = max_end (if ld_end r < ld_end q then q else r) qs"

definition fat_text :: "new_load list \<Rightarrow> nat \<Rightarrow> match \<Rightarrow> bytes" where
  "fat_text rs k m = group 1 m @ hex_int (int (nl_size (rs ! k))) @ group 3 m @ hex_int (nl_offset (rs ! k))"

definition ubi_text :: "bytes \<Rightarrow> nat \<Rightarrow> nat option \<Rightarrow> match \<Rightarrow> bytes" where
  "ubi_text s csize osize m =
     (if group 2 m = bytes_of ''customer'' then group 1 m @ hex_int (int csize)
      else case osize of
        Some n \<Rightarrow> if group 2 m = bytes_of ''oneed_cust'' then group 1 m @ hex_int (int n) else m_text s m
      | None \<Rightarrow> m_text s m)"

definition rewrite_script :: "new_load list \<Rightarrow> nat \<Rightarrow> nat option \<Rightarrow> bytes \<Rightarrow> string + bytes" where
  "rewrite_script rs csize osize script =
     (let n = length (finditer B_FATLOAD_RE script) in
      if length rs < n then Inl ''StopIteration''
      else if n < length rs then Inl ''B layout: load/script fatload count mismatch''
      else
        (let s1 = fst (subn (fat_text rs) B_FATLOAD_RE script); (s2, n2) = subn (\<lambda>_. ubi_text s1 csize osize) B_UBIWRITE_RE s1 in
         if n2 \<noteq> 3 then Inl ''B layout: expected fatload + 3 ubi-write''
         else if \<not> suffix (bytes_of ''symbol'') s2 then Inl ''B layout: script end marker disturbed''
         else Inr (s2 @ [10])))"

definition compute_b_layout :: "load_row list \<Rightarrow> bytes \<Rightarrow> bytes \<Rightarrow> bytes \<Rightarrow> bytes option \<Rightarrow> string + b_layout" where
  "compute_b_layout loads script tail new_customer new_oneed =
     (case find (\<lambda>r. ld_section r = B_CUSTOMER) loads of
        None \<Rightarrow> Inl ''StopIteration''
      | Some old_c \<Rightarrow>
          (let delta = int (length new_customer) - int (ld_size old_c); osize = map_option length new_oneed in
           if delta \<le> - int (ld_size old_c) then Inl ''B layout: absurd customer delta''
           else if new_oneed \<noteq> None \<and> ld_section (max_end (hd loads) (tl loads)) \<noteq> B_ONEED
           then Inl ''B layout: oneed_cust.es is not the final payload''
           else
             (let rs = shift_loads (length new_customer) osize delta False loads in
              case rewrite_script rs (length new_customer) osize script of
                Inl e \<Rightarrow> Inl e
              | Inr text \<Rightarrow>
                  if Min (set (map nl_offset rs)) \<le> int (length text) then Inl ''B layout: regenerated script overruns first payload''
                  else (let last_end = Max (set (map nl_end rs)) in
                    Inr \<lparr>bl_script = text, bl_loads = rs, bl_tail = tail, bl_tail_offset = last_end,
                      bl_total = last_end + int (length tail)\<rparr>))))"

subsection \<open>The image\<close>

text \<open>\<open>orig\<close> is the first row of the contract with the section and index of the payload.\<close>

definition payload_blob :: "load_row list \<Rightarrow> bytes \<Rightarrow> bytes \<Rightarrow> bytes option \<Rightarrow> new_load \<Rightarrow> bytes" where
  "payload_blob loads inner new_customer new_oneed r =
     (if nl_section r = B_CUSTOMER then new_customer
      else if nl_section r = B_ONEED \<and> new_oneed \<noteq> None then the new_oneed
      else case find (\<lambda>x. ld_section x = nl_section r \<and> ld_index x = nl_index r) loads of
        Some orig \<Rightarrow> slice inner (ld_offset orig) (ld_end orig)
      | None \<Rightarrow> [])"

definition b_specs :: "load_row list \<Rightarrow> bytes \<Rightarrow> bytes \<Rightarrow> bytes option \<Rightarrow> b_layout \<Rightarrow> payload_spec list" where
  "b_specs loads inner new_customer new_oneed lay =
     map (\<lambda>r. let blob = payload_blob loads inner new_customer new_oneed r in
            \<lparr>ps_offset = nat (nl_offset r), ps_size = length blob, ps_file = blob\<rparr>) (bl_loads lay)"

definition build_inner_b :: "load_row list \<Rightarrow> bytes \<Rightarrow> bytes \<Rightarrow> bytes \<Rightarrow> bytes \<Rightarrow> bytes option \<Rightarrow> string + b_layout \<times> bytes" where
  "build_inner_b loads script tail inner new_customer new_oneed =
     (case compute_b_layout loads script tail new_customer new_oneed of
        Inl e \<Rightarrow> Inl e
      | Inr lay \<Rightarrow>
          map_sum id (\<lambda>out. (lay, out))
            (layout_mode (nat (bl_total lay)) (bl_script lay) (b_specs loads inner new_customer new_oneed lay) (bl_tail lay)
               (nat (bl_tail_offset lay))))"

subsection \<open>Ordered base layouts\<close>

text \<open>The loads of an ordinary image: in the order of their offsets, without overlaps and inside the image, none empty; one customer image, at
  most one load of the second tree; section and index name a load.\<close>

definition base_ok :: "load_row list \<Rightarrow> bytes \<Rightarrow> bool" where
  "base_ok loads inner \<longleftrightarrow> sorted_wrt (\<lambda>a b. ld_end a \<le> ld_offset b) loads
     \<and> list_all (\<lambda>r. 0 < ld_size r \<and> ld_end r = ld_offset r + ld_size r \<and> ld_end r \<le> length inner) loads
     \<and> distinct (map (\<lambda>r. (ld_section r, ld_index r)) loads)
     \<and> count_list (map ld_section loads) B_CUSTOMER = 1 \<and> count_list (map ld_section loads) B_ONEED \<le> 1"

text \<open>Where a load goes.\<close>

definition moved :: "nat option \<Rightarrow> int \<Rightarrow> load_row \<Rightarrow> new_load" where
  "moved osize d r = \<lparr>nl_section = ld_section r, nl_index = ld_index r, nl_offset = int (ld_offset r) + d,
     nl_size = (case osize of Some n \<Rightarrow> if ld_section r = B_ONEED then n else ld_size r | None \<Rightarrow> ld_size r)\<rparr>"

lemma shift_append:
  "B_CUSTOMER \<notin> ld_section ` set pre \<Longrightarrow> shift_loads csize osize delta a (pre @ rs)
     = map (moved osize (if a then delta else 0)) pre @ shift_loads csize osize delta a rs"
  by (induction pre) (auto simp: moved_def)

lemma count_split: "count_list xs x = Suc 0 \<Longrightarrow> \<exists>us vs. xs = us @ x # vs \<and> x \<notin> set us \<and> x \<notin> set vs"
proof -
  assume c: "count_list xs x = Suc 0"
  then have "x \<in> set xs" by (metis count_notin nat.distinct(1))
  then obtain us vs where xs: "xs = us @ x # vs" "x \<notin> set us" by (metis split_list_first)
  with c have "count_list vs x = 0" by simp
  then show ?thesis using xs by (auto simp: count_list_0_iff)
qed

lemma customer_split:
  assumes "base_ok loads inner"
  obtains pre c post where "loads = pre @ c # post" "ld_section c = B_CUSTOMER"
    "B_CUSTOMER \<notin> ld_section ` set pre" "B_CUSTOMER \<notin> ld_section ` set post"
proof -
  have "count_list (map ld_section loads) B_CUSTOMER = Suc 0" using assms by (simp add: base_ok_def)
  then obtain us vs where u: "map ld_section loads = us @ B_CUSTOMER # vs" "B_CUSTOMER \<notin> set us" "B_CUSTOMER \<notin> set vs" using count_split by metis
  then obtain pre r c post where "loads = pre @ r" "us = map ld_section pre" "r = c # post" "ld_section c = B_CUSTOMER" "vs = map ld_section post"
    by (auto simp: map_eq_append_conv map_eq_Cons_conv)
  then show thesis using u that by auto
qed

lemma max_end_sorted:
  "sorted_wrt (\<lambda>a b. ld_end a \<le> ld_offset b) (r # rs) \<Longrightarrow> list_all (\<lambda>r. ld_offset r < ld_end r) (r # rs) \<Longrightarrow> max_end r rs = last (r # rs)"
proof (induction rs arbitrary: r)
  case (Cons q qs)
  have "ld_end r < ld_end q" using Cons.prems by auto
  then show ?case using Cons by simp
qed simp

text \<open>Only the last load can be the second tree, when that is replaced.\<close>

lemma oneed_last:
  assumes "base_ok (pre @ r # post) inner" "post \<noteq> []" "ld_section (max_end (hd (pre @ r # post)) (tl (pre @ r # post))) = B_ONEED"
  shows "ld_section r \<noteq> B_ONEED"
proof
  assume r: "ld_section r = B_ONEED"
  let ?l = "pre @ r # post"
  have "max_end (hd ?l) (tl ?l) = last (hd ?l # tl ?l)"
    using assms(1) by (intro max_end_sorted) (auto simp: base_ok_def list_all_iff)
  then have "ld_section (last post) = B_ONEED" using assms(2,3) by simp
  then have "B_ONEED \<in> set (map ld_section post)" using last_in_set [OF assms(2)] by (metis in_set_conv_nth length_map nth_map)
  then have "count_list (map ld_section post) B_ONEED \<noteq> 0" by (simp add: count_list_0_iff)
  then show False using assms(1) r by (simp add: base_ok_def)
qed

lemma layout_facts:
  assumes "compute_b_layout loads script tail new_customer new_oneed = Inr lay"
  obtains c body where "find (\<lambda>r. ld_section r = B_CUSTOMER) loads = Some c" "length new_customer > 0"
    "bl_loads lay = shift_loads (length new_customer) (map_option length new_oneed) (int (length new_customer) - int (ld_size c)) False loads"
    "bl_script lay = body @ [10]" "int (length (bl_script lay)) < Min (set (map nl_offset (bl_loads lay)))"
    "bl_tail lay = tail" "bl_tail_offset lay = Max (set (map nl_end (bl_loads lay)))" "bl_total lay = bl_tail_offset lay + int (length tail)"
    "new_oneed \<noteq> None \<Longrightarrow> ld_section (max_end (hd loads) (tl loads)) = B_ONEED"
proof -
  obtain c where c: "find (\<lambda>r. ld_section r = B_CUSTOMER) loads = Some c"
    using assms by (cases "find (\<lambda>r. ld_section r = B_CUSTOMER) loads") (simp_all add: compute_b_layout_def)
  let ?rs = "shift_loads (length new_customer) (map_option length new_oneed) (int (length new_customer) - int (ld_size c)) False loads"
  obtain t where t: "rewrite_script ?rs (length new_customer) (map_option length new_oneed) script = Inr t"
    using assms by (auto simp: compute_b_layout_def c Let_def split: if_splits sum.splits)
  then obtain body where "t = body @ [10]" by (auto simp: rewrite_script_def Let_def split: if_splits prod.splits)
  then show thesis using assms that [OF c] by (auto simp: compute_b_layout_def c t Let_def split: if_splits)
qed

lemma sorted_split: "(\<And>us a vs b ws. us @ a # vs @ b # ws = xs \<Longrightarrow> P a b) \<Longrightarrow> sorted_wrt P xs"
proof (induction xs)
  case (Cons x xs)
  have "P x b" if "b \<in> set xs" for b
  proof -
    obtain vs ws where "xs = vs @ b # ws" using \<open>b \<in> set xs\<close> by (meson split_list)
    then show ?thesis using Cons.prems [of "[]" x vs b ws] by simp
  qed
  moreover have "sorted_wrt P xs" using Cons.IH Cons.prems by (metis append_Cons)
  ultimately show ?case by simp
qed simp

text \<open>The loads of the new image.\<close>

definition new_blob :: "bytes \<Rightarrow> bytes \<Rightarrow> bytes option \<Rightarrow> load_row \<Rightarrow> bytes" where
  "new_blob inner new_customer new_oneed r =
     (if ld_section r = B_CUSTOMER then new_customer
      else case new_oneed of
        Some blob \<Rightarrow> if ld_section r = B_ONEED then blob else slice inner (ld_offset r) (ld_end r)
      | None \<Rightarrow> slice inner (ld_offset r) (ld_end r))"

text \<open>Behind the customer image everything moves by the difference of the sizes.\<close>

definition new_offset :: "load_row list \<Rightarrow> int \<Rightarrow> load_row \<Rightarrow> int" where
  "new_offset loads delta r =
     (case find (\<lambda>r. ld_section r = B_CUSTOMER) loads of
        Some c \<Rightarrow> int (ld_offset r) + (if ld_offset c < ld_offset r then delta else 0)
      | None \<Rightarrow> int (ld_offset r))"

lemma find_customer: "B_CUSTOMER \<notin> ld_section ` set pre \<Longrightarrow> ld_section c = B_CUSTOMER \<Longrightarrow>
   find (\<lambda>r. ld_section r = B_CUSTOMER) (pre @ c # post) = Some c"
  by (induction pre) auto

lemma new_loads:
  assumes ok: "base_ok loads inner" and lay: "compute_b_layout loads script tail new_customer new_oneed = Inr lay"
  shows "\<exists>c. find (\<lambda>r. ld_section r = B_CUSTOMER) loads = Some c
     \<and> bl_loads lay = map (\<lambda>r. \<lparr>nl_section = ld_section r, nl_index = ld_index r,
         nl_offset = new_offset loads (int (length new_customer) - int (ld_size c)) r,
         nl_size = length (new_blob inner new_customer new_oneed r)\<rparr>) loads
     \<and> sorted_wrt (\<lambda>a b. nl_end a \<le> nl_offset b) (bl_loads lay)"
proof -
  obtain pre c post where l: "loads = pre @ c # post" "ld_section c = B_CUSTOMER" "B_CUSTOMER \<notin> ld_section ` set pre" "B_CUSTOMER \<notin> ld_section ` set post"
    using customer_split [OF ok] by metis
  note c = find_customer [OF l(3,2), of post, folded l(1)]
  let ?d = "int (length new_customer) - int (ld_size c)" let ?o = "map_option length new_oneed"
  let ?c = "\<lparr>nl_section = ld_section c, nl_index = ld_index c, nl_offset = int (ld_offset c), nl_size = length new_customer\<rparr>"
  let ?new = "\<lambda>r. \<lparr>nl_section = ld_section r, nl_index = ld_index r, nl_offset = new_offset loads ?d r, nl_size = length (new_blob inner new_customer new_oneed r)\<rparr>"
  obtain c' where c': "find (\<lambda>r. ld_section r = B_CUSTOMER) loads = Some c'" "length new_customer > 0"
    "bl_loads lay = shift_loads (length new_customer) ?o (int (length new_customer) - int (ld_size c')) False loads"
    "new_oneed \<noteq> None \<Longrightarrow> ld_section (max_end (hd loads) (tl loads)) = B_ONEED"
    using layout_facts [OF lay] by metis
  have c_eq: "c' = c" using c c'(1) by simp
  have "shift_loads (length new_customer) ?o ?d True post = map (moved ?o ?d) post" using shift_append [OF l(4), of _ ?o ?d True "[]"] by simp
  then have rs: "bl_loads lay = map (moved ?o 0) pre @ ?c # map (moved ?o ?d) post"
    unfolding c'(3) c_eq l(1) shift_append [OF l(3)] by (simp add: l(2))
  have row: "0 < ld_size r" "ld_end r = ld_offset r + ld_size r" "ld_end r \<le> length inner" if "r \<in> set loads" for r
    using ok that by (auto simp: base_ok_def list_all_iff)
  have srt: "ld_end a \<le> ld_offset c" "ld_end c \<le> ld_offset b" if "a \<in> set pre" "b \<in> set post" for a b
    using ok that by (auto simp: base_ok_def l(1) sorted_wrt_append)
  have pre: "ld_end a \<le> ld_offset c" if "a \<in> set pre" for a using ok that by (auto simp: base_ok_def l(1) sorted_wrt_append)
  have post: "ld_end c \<le> ld_offset b" if "b \<in> set post" for b using ok that by (auto simp: base_ok_def l(1) sorted_wrt_append)
  have sz: "nl_size (moved ?o d r) = length (new_blob inner new_customer new_oneed r)" if "r \<in> set loads" "ld_section r \<noteq> B_CUSTOMER" for r d
    using row [OF that(1)] that(2) by (auto simp: moved_def new_blob_def split: option.splits)
  have "moved ?o 0 r = ?new r" if "r \<in> set pre" for r
  proof -
    have "r \<in> set loads" using that l(1) by simp
    have "ld_section r \<noteq> B_CUSTOMER" using that l(3) by (metis imageI)
    have "\<not> ld_offset c < ld_offset r" using pre [OF that] row(1,2) [OF \<open>r \<in> set loads\<close>] by linarith
    then show ?thesis using \<open>r \<in> set loads\<close> \<open>ld_section r \<noteq> B_CUSTOMER\<close> sz [of r 0] by (simp add: moved_def new_offset_def c)
  qed
  moreover have "moved ?o ?d r = ?new r" if "r \<in> set post" for r
  proof -
    have "r \<in> set loads" using that l(1) by simp
    have "ld_section r \<noteq> B_CUSTOMER" using that l(4) by (metis imageI)
    have "ld_offset c < ld_offset r" using post [OF that] row(1,2) [of c] by (simp add: l(1))
    then show ?thesis using \<open>r \<in> set loads\<close> \<open>ld_section r \<noteq> B_CUSTOMER\<close> sz [of r ?d] by (simp add: moved_def new_offset_def c)
  qed
  moreover have "?c = ?new c" by (simp add: new_offset_def c new_blob_def l(2))
  ultimately have map: "bl_loads lay = map ?new loads" unfolding rs by (simp add: l(1))
  have size: "nl_size (moved ?o d r) = ld_size r" if "loads = us @ r # vs" "vs \<noteq> []" for us r vs d
    using that oneed_last [of us r vs inner] ok c'(4) by (auto simp: moved_def split: option.splits)
  have init: "nl_size (moved ?o d r) = ld_size r" if r: "r \<in> set pre" for r d
  proof -
    obtain us vs where "pre = us @ r # vs" using r by (meson split_list)
    then show ?thesis using size [of us r "vs @ c # post"] l(1) by simp
  qed
  have chain: "nl_end (moved ?o d a) \<le> nl_offset (moved ?o d b)" if "us @ a # vs @ b # ws = loads" for us vs ws a b d
  proof -
    have "nl_size (moved ?o d a) = ld_size a" using size [of us a "vs @ b # ws"] that by simp
    moreover have "ld_end a \<le> ld_offset b" "ld_end a = ld_offset a + ld_size a"
      using ok row(2) [of a] by (auto simp: base_ok_def that [symmetric] sorted_wrt_append)
    ultimately show ?thesis by (simp add: nl_end_def moved_def)
  qed
  have "sorted_wrt (\<lambda>a b. nl_end (moved ?o 0 a) \<le> nl_offset (moved ?o 0 b)) pre"
  proof (rule sorted_split)
    fix us a vs b ws assume "us @ a # vs @ b # ws = pre"
    then show "nl_end (moved ?o 0 a) \<le> nl_offset (moved ?o 0 b)" using chain [of us a vs b "ws @ c # post" 0] by (auto simp: l(1))
  qed
  moreover have "sorted_wrt (\<lambda>a b. nl_end (moved ?o ?d a) \<le> nl_offset (moved ?o ?d b)) post"
  proof (rule sorted_split)
    fix us a vs b ws assume "us @ a # vs @ b # ws = post"
    then show "nl_end (moved ?o ?d a) \<le> nl_offset (moved ?o ?d b)" using chain [of "pre @ c # us" a vs b ws ?d] by (auto simp: l(1))
  qed
  moreover have "nl_end (moved ?o 0 a) \<le> int (ld_offset c)" if "a \<in> set pre" for a
    using init [OF that, of 0] pre [OF that] row(2) [of a] that by (simp add: nl_end_def moved_def l(1))
  moreover have "nl_end ?c \<le> nl_offset (moved ?o ?d b)" "int (ld_offset c) \<le> nl_offset (moved ?o ?d b)" if "b \<in> set post" for b
    using post [OF that] row(2) [of c] by (simp_all add: nl_end_def moved_def l(1))
  ultimately have "sorted_wrt (\<lambda>a b. nl_end a \<le> nl_offset b) (bl_loads lay)"
    unfolding rs by (fastforce simp: sorted_wrt_append sorted_wrt_map)
  then show ?thesis using c map by blast
qed

lemma blob_found:
  assumes "base_ok loads inner" "r \<in> set loads" "nl_section q = ld_section r" "nl_index q = ld_index r"
  shows "payload_blob loads inner new_customer new_oneed q = new_blob inner new_customer new_oneed r"
proof -
  have "find (\<lambda>x. ld_section x = ld_section r \<and> ld_index x = ld_index r) loads = Some r"
  proof -
    have "find (\<lambda>x. ld_section x = ld_section r \<and> ld_index x = ld_index r) loads \<noteq> None" using assms(2) by (auto simp: find_None_iff)
    then obtain x where x: "find (\<lambda>x. ld_section x = ld_section r \<and> ld_index x = ld_index r) loads = Some x" by blast
    then have "x \<in> set loads" "ld_section x = ld_section r \<and> ld_index x = ld_index r" by (auto simp: find_Some_iff)
    moreover have "inj_on (\<lambda>r. (ld_section r, ld_index r)) (set loads)" using assms(1) by (simp add: base_ok_def distinct_map)
    ultimately have "x = r" using assms(2) by (auto dest: inj_onD)
    then show ?thesis using x by simp
  qed
  then show ?thesis using assms(3,4) by (cases new_oneed) (simp_all add: payload_blob_def new_blob_def)
qed

subsection \<open>A small candidate\<close>

text \<open>Two loads, the customer image and a kernel behind it; the customer image grows from one byte to two.\<close>

definition demo_fat :: "string \<Rightarrow> string \<Rightarrow> bytes" where
  "demo_fat a b = bytes_of (''fatload mmc 0 0x1 $(SdUpgradeImage) '' @ a @ '' '' @ b) @ [10]"

definition demo_ubi :: "string \<Rightarrow> string \<Rightarrow> bytes" where
  "demo_ubi n a = bytes_of (''ubi write 0x1 '' @ n @ '' '' @ a) @ [10]"

definition demo_b_script :: bytes where
  "demo_b_script = demo_fat ''0x1'' ''0x200'' @ demo_ubi ''customer'' ''0x1'' @ demo_fat ''0x2'' ''0x201'' @ demo_ubi ''misc'' ''0x1''
     @ demo_ubi ''misc'' ''0x1'' @ bytes_of ''symbol''"

definition demo_b_new :: bytes where
  "demo_b_new = demo_fat ''0x2'' ''0x200'' @ demo_ubi ''customer'' ''0x2'' @ demo_fat ''0x2'' ''0x202'' @ demo_ubi ''misc'' ''0x1''
     @ demo_ubi ''misc'' ''0x1'' @ bytes_of ''symbol'' @ [10]"

definition demo_b_row :: "string \<Rightarrow> nat \<Rightarrow> nat \<Rightarrow> load_row" where
  "demo_b_row n off sz = \<lparr>ld_section = bytes_of n, ld_index = 0, ld_offset = off, ld_size = sz, ld_end = off + sz, ld_within = True, ld_body = []\<rparr>"

definition demo_b_loads :: "load_row list" where "demo_b_loads = [demo_b_row ''customer.es'' 512 1, demo_b_row ''kernel.es'' 513 2]"

definition demo_b_inner :: bytes where "demo_b_inner = replicate 512 255 @ [1, 2, 3]"

lemma demo_b_ok: "base_ok demo_b_loads demo_b_inner"
  by (simp add: base_ok_def demo_b_loads_def demo_b_row_def demo_b_inner_def B_CUSTOMER_def B_ONEED_def bytes_of_def)

definition demo_b_rs :: "new_load list" where
  "demo_b_rs = [\<lparr>nl_section = bytes_of ''customer.es'', nl_index = 0, nl_offset = 512, nl_size = 2\<rparr>,
     \<lparr>nl_section = bytes_of ''kernel.es'', nl_index = 0, nl_offset = 514, nl_size = 2\<rparr>]"

definition demo_b_mid :: bytes where
  "demo_b_mid = demo_fat ''0x2'' ''0x200'' @ demo_ubi ''customer'' ''0x1'' @ demo_fat ''0x2'' ''0x202'' @ demo_ubi ''misc'' ''0x1''
     @ demo_ubi ''misc'' ''0x1'' @ bytes_of ''symbol''"

definition demo_b_layout :: b_layout where
  "demo_b_layout = \<lparr>bl_script = demo_b_new, bl_loads = demo_b_rs, bl_tail = [9], bl_tail_offset = 516, bl_total = 517\<rparr>"

lemma demo_b_fat: "subn (fat_text demo_b_rs) B_FATLOAD_RE demo_b_script = (demo_b_mid, 2)" by code_simp

lemma demo_b_ubi: "subn (\<lambda>_. ubi_text demo_b_mid 2 None) B_UBIWRITE_RE demo_b_mid = (butlast demo_b_new, 3)" by code_simp

lemma demo_b_computed: "compute_b_layout demo_b_loads demo_b_script [9] [7, 8] None = Inr demo_b_layout"
proof -
  have f: "length (finditer B_FATLOAD_RE demo_b_script) = 2" using demo_b_fat by (simp add: subn_def Let_def)
  have e: "suffix (bytes_of ''symbol'') (butlast demo_b_new)" "butlast demo_b_new @ [10] = demo_b_new" "length demo_b_new = 172" by code_simp+
  have l: "length demo_b_rs = 2" by (simp add: demo_b_rs_def)
  have r: "rewrite_script demo_b_rs 2 None demo_b_script = Inr demo_b_new"
    by (simp add: rewrite_script_def f l demo_b_fat demo_b_ubi e)
  have s: "shift_loads 2 None 1 False demo_b_loads = demo_b_rs"
    by (simp add: demo_b_loads_def demo_b_rs_def demo_b_row_def B_CUSTOMER_def B_ONEED_def)
  have c: "find (\<lambda>r. ld_section r = B_CUSTOMER) demo_b_loads = Some (demo_b_row ''customer.es'' 512 1)"
    by (simp add: demo_b_loads_def demo_b_row_def B_CUSTOMER_def)
  have m: "set (map nl_offset demo_b_rs) = {512, 514}" "set (map nl_end demo_b_rs) = {514, 516}" by (simp_all add: demo_b_rs_def nl_end_def)
  have z: "ld_size (demo_b_row ''customer.es'' 512 1) = 1" by (simp add: demo_b_row_def)
  have n: "length [7 :: byte, 8] = 2" "int 2 - int 1 = 1" by simp_all
  show ?thesis unfolding compute_b_layout_def c option.case n z Let_def option.map s r sum.case m e(3) by (simp add: demo_b_layout_def)
qed

text \<open>C38. The builder: for an ordered base image, every layout that is computed can be assembled. The new image starts with the
  regenerated script, ends with the tail of the base, and holds at the offset and size that the layout lists for a load the new customer
  image, the new second tree, or the unchanged bytes of the base; nothing before the customer image moves, and everything behind it moves by the
  difference of the sizes.\<close>

theorem b_image_built:
  assumes "base_ok loads inner" "compute_b_layout loads script tail new_customer new_oneed = Inr lay"
  shows "\<exists>c out. build_inner_b loads script tail inner new_customer new_oneed = Inr (lay, out)
     \<and> find (\<lambda>r. ld_section r = B_CUSTOMER) loads = Some c
     \<and> int (length out) = bl_total lay \<and> take (length (bl_script lay)) out = bl_script lay \<and> drop (nat (bl_tail_offset lay)) out = tail
     \<and> map nl_section (bl_loads lay) = map ld_section loads \<and> map nl_index (bl_loads lay) = map ld_index loads
     \<and> map nl_offset (bl_loads lay) = map (new_offset loads (int (length new_customer) - int (ld_size c))) loads
     \<and> map (\<lambda>r. slice out (nat (nl_offset r)) (nat (nl_end r))) (bl_loads lay) = map (new_blob inner new_customer new_oneed) loads"
proof -
  obtain c where c: "find (\<lambda>r. ld_section r = B_CUSTOMER) loads = Some c"
    and rs: "bl_loads lay = map (\<lambda>r. \<lparr>nl_section = ld_section r, nl_index = ld_index r,
         nl_offset = new_offset loads (int (length new_customer) - int (ld_size c)) r,
         nl_size = length (new_blob inner new_customer new_oneed r)\<rparr>) loads"
    and srt: "sorted_wrt (\<lambda>a b. nl_end a \<le> nl_offset b) (bl_loads lay)" using new_loads [OF assms] by blast
  obtain body where b: "bl_script lay = body @ [10]" "int (length (bl_script lay)) < Min (set (map nl_offset (bl_loads lay)))"
    "bl_tail lay = tail" "bl_tail_offset lay = Max (set (map nl_end (bl_loads lay)))" "bl_total lay = bl_tail_offset lay + int (length tail)"
    using layout_facts [OF assms(2)] by metis
  let ?blob = "\<lambda>q. payload_blob loads inner new_customer new_oneed q" let ?len = "length (bl_script lay)"
  let ?ps = "map (\<lambda>q. (nat (nl_offset q), ?blob q)) (bl_loads lay)"
  have blob: "?blob q = new_blob inner new_customer new_oneed r" "nl_size q = length (?blob q)"
    if "r \<in> set loads" "q = \<lparr>nl_section = ld_section r, nl_index = ld_index r, nl_offset = x, nl_size = length (new_blob inner new_customer new_oneed r)\<rparr>"
    for q r x using blob_found [OF assms(1) that(1), of q] that(2) by simp_all
  have row: "int ?len < nl_offset q" "nl_end q \<le> bl_tail_offset lay" "nl_size q = length (?blob q)" if "q \<in> set (bl_loads lay)" for q
  proof -
    have "Min (set (map nl_offset (bl_loads lay))) \<le> nl_offset q" "nl_end q \<le> Max (set (map nl_end (bl_loads lay)))"
      using that by (auto intro: Min_le Max_ge)
    then show "int ?len < nl_offset q" "nl_end q \<le> bl_tail_offset lay" using b by simp_all
    show "nl_size q = length (?blob q)" using that blob(2) unfolding rs by auto
  qed
  have "c \<in> set loads" using c by (auto simp: find_Some_iff)
  then have "bl_loads lay \<noteq> []" unfolding rs by auto
  then obtain q where "q \<in> set (bl_loads lay)" using hd_in_set by blast
  then have "int ?len < nl_offset q" "nl_end q \<le> bl_tail_offset lay" by (rule row)+
  then have off: "int ?len < bl_tail_offset lay" by (simp add: nl_end_def)
  have rng: "payload_range (nat (nl_offset q), ?blob q) = (nat (nl_offset q), nat (nl_end q))" if "q \<in> set (bl_loads lay)" for q
    using row(1,3) [OF that] by (simp add: payload_range_def nl_end_def nat_add_distrib)
  have "layout_payloads (b_specs loads inner new_customer new_oneed lay) = Inr ?ps"
  proof -
    have "layout_payloads (map (\<lambda>q. \<lparr>ps_offset = nat (nl_offset q), ps_size = length (?blob q), ps_file = ?blob q\<rparr>) qs)
      = Inr (map (\<lambda>q. (nat (nl_offset q), ?blob q)) qs)" for qs by (induction qs) simp_all
    then show ?thesis by (simp add: b_specs_def Let_def)
  qed
  moreover have "\<exists>out. assemble (nat (bl_total lay)) (bl_script lay) ?ps (bl_tail lay) (nat (bl_tail_offset lay)) = Inr out"
  proof -
    have "list_all (\<lambda>p. ?len \<le> fst p \<and> fst p + length (snd p) \<le> nat (bl_tail_offset lay)) ?ps"
      using row by (fastforce simp: list_all_iff nl_end_def)
    then obtain buf where "place_payloads ?len (nat (bl_tail_offset lay)) ?ps (set_slice 0 ?len (bl_script lay) (replicate (nat (bl_total lay)) 255)) = Inr buf"
      using place_payloads_ok by blast
    moreover have "nat (bl_tail_offset lay) + length tail = nat (bl_total lay)" using off b(5) by (simp add: nat_add_distrib)
    moreover have "disjoint_chain (sort_ranges ((0, ?len) # map (\<lambda>(o', b). (o', o' + length b)) ?ps @ [(nat (bl_tail_offset lay), nat (bl_total lay))]))"
    proof -
      have ranges: "map (\<lambda>(o', b). (o', o' + length b)) ?ps = map (\<lambda>q. (nat (nl_offset q), nat (nl_end q))) (bl_loads lay)"
        using rng by (auto simp: payload_range_def)
      have "sorted_wrt (\<lambda>a b. apart (nat (nl_offset a), nat (nl_end a)) (nat (nl_offset b), nat (nl_end b))) (bl_loads lay)"
        using srt by (rule sorted_wrt_mono_rel [rotated]) (simp add: apart_def nat_mono)
      then have "sorted_wrt apart ((0, ?len) # map (\<lambda>q. (nat (nl_offset q), nat (nl_end q))) (bl_loads lay) @ [(nat (bl_tail_offset lay), nat (bl_total lay))])"
        using row off by (fastforce simp: sorted_wrt_append sorted_wrt_map apart_def)
      moreover have "list_all (\<lambda>z. fst z \<le> snd z) ((0, ?len) # map (\<lambda>q. (nat (nl_offset q), nat (nl_end q))) (bl_loads lay) @ [(nat (bl_tail_offset lay), nat (bl_total lay))])"
        using b(5) by (auto simp: list_all_iff nl_end_def)
      ultimately show ?thesis unfolding ranges by (simp add: chain_iff)
    qed
    ultimately show ?thesis using b(1,3) by (simp add: assemble_def)
  qed
  then obtain out where out: "assemble (nat (bl_total lay)) (bl_script lay) ?ps (bl_tail lay) (nat (bl_tail_offset lay)) = Inr out" by blast
  ultimately have build: "build_inner_b loads script tail inner new_customer new_oneed = Inr (lay, out)"
    by (simp add: build_inner_b_def assms(2) layout_mode_def)
  have "0 < nat (bl_total lay)" using off b(5) by simp
  note a = assemble_layout [OF out this]
  have "slice out (nat (nl_offset q)) (nat (nl_end q)) = ?blob q" if "q \<in> set (bl_loads lay)" for q
  proof -
    have "(nat (nl_offset q), ?blob q) \<in> set ?ps" using that by auto
    then have "slice out (nat (nl_offset q)) (nat (nl_offset q) + length (?blob q)) = ?blob q" using a by blast
    then show ?thesis using rng [OF that] by (simp add: payload_range_def)
  qed
  then have "map (\<lambda>r. slice out (nat (nl_offset r)) (nat (nl_end r))) (bl_loads lay) = map ?blob (bl_loads lay)" by simp
  also have "\<dots> = map (new_blob inner new_customer new_oneed) loads" unfolding rs using blob(1) by simp
  finally show ?thesis using build c a rs b(3) off b(5) by (simp add: comp_def)
qed

theorem b_image_built_witness:
  "\<exists>out. build_inner_b demo_b_loads demo_b_script [9] demo_b_inner [7, 8] None = Inr (demo_b_layout, out)
     \<and> slice out 512 514 = [7, 8] \<and> slice out 514 516 = [2, 3] \<and> drop 516 out = [9]"
proof -
  have f: "new_blob demo_b_inner [7, 8] None (demo_b_row ''customer.es'' 512 1) = [7, 8]"
    "new_blob demo_b_inner [7, 8] None (demo_b_row ''kernel.es'' 513 2) = [2, 3]"
    by (simp_all add: new_blob_def demo_b_row_def demo_b_inner_def B_CUSTOMER_def slice_def)
  obtain out where o: "build_inner_b demo_b_loads demo_b_script [9] demo_b_inner [7, 8] None = Inr (demo_b_layout, out)"
    "drop (nat (bl_tail_offset demo_b_layout)) out = [9]"
    "map (\<lambda>r. slice out (nat (nl_offset r)) (nat (nl_end r))) (bl_loads demo_b_layout) = map (new_blob demo_b_inner [7, 8] None) demo_b_loads"
    using b_image_built [OF demo_b_ok demo_b_computed] by blast
  then show ?thesis using f by (simp add: demo_b_layout_def demo_b_rs_def nl_end_def demo_b_loads_def)
qed

end
