(* ===== verification/Spec2Isabelle.thy ===== *)
theory Spec2Isabelle
  imports Capture ReplayGuard TsrLab Normalize Reversion Validate Ownership UbifsManifest SignDb CandidateDiff ElfGate CustomerImage TsrProfile AdbKey BuildB
begin

text \<open>
  Verification of the offline tools of the C2M firmware project.

  The program is a collection of Python tools around a car camera (C2M) and its head-up display (M4). They fall into two
  pipelines that meet in the release gates; the tools talk to each other through files (captures, packages, JSON manifests), never
  through shared memory, and each of them is a function of its inputs up to the files it writes. The development follows the
  pipelines: one theory per tool or per part of a large tool, in the order of the data.

  1. The M4 link, \<open>tools/m4\<close> (a passive observer logs TCP payloads of the link; the decoder reconstructs the streams).
  \<^item> \<open>WsUpgrade\<close>: \<open>ws_upgrade.py\<close>, the HTTP upgrade prefix of a stream. The verdict is final and never changes with more bytes.
  \<^item> \<open>WsFrames\<close>: \<open>_parse_ws_frames\<close> and \<open>_unmask\<close> of \<open>decode_passive_records.py\<close>; parsing resumes at the reported offset as if
    never interrupted.
  \<^item> \<open>Libflow\<close>, \<open>PyValue\<close>: the MessagePack envelope of \<open>libflow_protocol.py\<close> and \<open>make_fixture.py\<close>, dynamically typed values.
  \<^item> \<open>Redact\<close>: what the decoder may publish of a message (names of a documented list, never values).
  \<^item> \<open>Records\<close>, \<open>FlowState\<close>, \<open>Capture\<close>: the record lines, the class \<open>FlowState\<close> (one directed TCP flow: segments in any order,
    overlaps, conflicts, gaps, budgets) and the whole capture. A stream is decoded to the messages sent, however it is cut into
    segments; every count and buffer stays in its bound; a malformed line rejects the capture.
  \<^item> \<open>ReplayGuard\<close>, \<open>TsrLab\<close>, \<open>Normalize\<close>: \<open>replay_guard.py\<close>, \<open>tsr_event_lab.py\<close>, \<open>normalize_adas.py\<close>, which consume decoded messages.
  \<^item> \<open>AdbKey\<close>: \<open>adb_owner_key.py\<close>, the encoding and the check of the debug bridge's public key, and the reader of the DER form
    it comes from; what OpenSSL prints is a parameter.

  2. The firmware package, \<open>tools/fw\<close> (a vendor TAR holds an inner image; the image holds a U-Boot script and payloads; one
  payload is the UBIFS image of the customer partition).
  \<^item> \<open>Tar\<close>: \<open>parse_tar_raw\<close> of \<open>package_contract.py\<close> and \<open>tar_assemble.py\<close>; golden mode reproduces an archive byte for byte.
  \<^item> \<open>Script\<close>: the regular expressions and loads of \<open>package_contract.py\<close> and \<open>carve_upgrade.py\<close>.
  \<^item> \<open>Image\<close>: the byte accounting of \<open>package_contract.py\<close>, \<open>assemble_inner.py\<close> and \<open>repack_firmware.py\<close>.
  \<^item> \<open>Reversion\<close>: \<open>reversion_sd_package.py\<close>, the change of the version token only.
  \<^item> \<open>Validate\<close>: \<open>validate_firmware.py\<close>, the independent validation of a package against its contract.
  \<^item> \<open>Ubifs\<close>, \<open>UbifsManifest\<close>: \<open>ubifs_extract_file.py\<close> and \<open>ubifs_manifest.py\<close>, read-only access to a UBIFS image.
  \<^item> \<open>InstallGates\<close>, \<open>Hook\<close>, \<open>Mutate\<close>: \<open>mutate_customer.py\<close>, its input checks, the edit of the boot hook, and the mutation of an
    extracted tree; \<open>Mutation\<close> holds what a run guarantees (nothing changes but what the manifest names).
  \<^item> \<open>Ownership\<close>: \<open>apply_tree_ownership.py\<close>, the owners of the rebuilt tree from the two manifests.
  \<^item> \<open>Oneed\<close>: \<open>mutate_oneed.py\<close>, the replacement of sounds in the second tree.
  \<^item> \<open>VerifyB\<close>: \<open>verify_b_manifest.py\<close>, the rebuilt image against stock and mutation; \<open>CustomerImage\<close> closes the chain: the image
    rebuilt from a mutated tree passes.
  \<^item> \<open>CandidateDiff\<close>, \<open>ElfGate\<close>: \<open>candidate_diff.py\<close> and \<open>fw/device_minimal/check_elf.py\<close>, the gates before a release.
  \<^item> \<open>Floats\<close>, \<open>SignDb\<close>: the sign database (\<open>fw/warner/tools\<close>, \<open>fw/d4/prepare_database.py\<close>) with its binary floats.
  \<^item> \<open>TsrProfile\<close>: \<open>tsr_profile.py\<close>, the edit of a private flag file.
  \<^item> \<open>BuildB\<close>: \<open>build_candidates.py\<close>, the layout of a candidate image whose payload changed its length, and its assembly; the
    steps it runs as other programs are not part of it.

  \<open>Prelude\<close> and \<open>Base64\<close> hold what the theories share: bytes are \<open>8 word\<close>s, a Python string is a list of characters,
  \<open>collect\<close> is a loop that stops at its first error.

  How the code is translated. A class or a group of local variables is a record and its methods are functions from record to
  record; a raise is the left side of a sum or \<open>None\<close>, an early return is a branch; integers of Python are \<open>nat\<close> or \<open>int\<close>, fixed-width
  fields are words or numbers with their width written out. A dict is an association list in insertion order where the order is
  observable. Loops are structural recursion, or recursion with a measure (the scans of \<open>Script\<close>, the walk of \<open>Ubifs\<close>, the runs of
  \<open>FlowState\<close>, the division loop of \<open>AdbKey\<close>, the lines of \<open>TsrProfile\<close>); the TAR reader may run
  forever, so it is a partial function whose value is \<open>None\<close> then, and both cases are proved. No definition needs fuel.

  Parameters of the model, with the documented behaviour a theorem needs as its hypothesis: the digests (SHA-1, SHA-256, MD5), the
  MessagePack library and the JSON parser (their results are values of \<open>PyValue\<close>), the decompressors, and what the file system
  answers (which files exist, are links, and hold what bytes).

  Interfaces are locales, interpreted on the model. \<open>prefix_decoder\<close> (\<open>Prelude\<close>): a decoder of growing prefixes whose decided answers
  are final, for the upgrade parser and the frame parser. \<open>invariant_machine\<close> (\<open>Prelude\<close>): a machine fed with events that keeps an
  invariant, for the flow (twice, with and without an honest sender) and the capture laboratory. \<open>publisher\<close> (\<open>Redact\<close>): a summary that
  publishes only strings of a fixed list, for the JSON and the MessagePack summary.

  Not modelled: tools that only print evidence from disassembler output, constants of one firmware, or files of another tool
  (\<open>vi_adas_failure_evidence.py\<close>, \<open>stock_adas_schema_v2.py\<close>, \<open>adas_gap_report.py\<close>, \<open>cardv_ringbuf_contract.py\<close> and their kind), tools
  that drive subprocesses or devices (\<open>tools/device\<close>, \<open>tools/wifi\<close>, \<open>tools/gps\<close>), the trigonometry and SQL of
  \<open>tools/road/osm_preprocess.py\<close>, the C sources, shell scripts and workflows. Within modelled tools the texts of messages and reports
  are left out unless a decision depends on them.
\<close>

end
